(* ===== verification/Prelude.thy ===== *)
theory Prelude
  imports Main "HOL-Library.Word" "HOL-Library.Code_Target_Nat"
begin

unbundle bit_operations_syntax

text \<open>
  The shared base of the development: the fact collections that the component theories fill, the
  result type for fallible Go functions, the types that every component uses (times, identifiers,
  byte strings), association lists for Go maps whose keys are enumerated, and the generic lemmas
  on lists, options and bit sets that the component proofs use.
\<close>

section \<open>Fact collections\<close>

named_theorems go_string_defs \<open>definitions of the modelled parts of the Go standard library\<close>
named_theorems sandbox_defs \<open>definitions of the command safety layer\<close>
named_theorems task_defs \<open>definitions of the task domain\<close>
named_theorems inv_intros \<open>operations that preserve the invariant of their component\<close>

section \<open>Types\<close>

text \<open>
  A Go string is a sequence of bytes. HOL's \<^typ>\<open>char\<close> has 8 bits, so a \<^typ>\<open>string\<close> is such a
  sequence: \<^term>\<open>length\<close> counts bytes, as \<^verbatim>\<open>len\<close> does.
  A time is the number of nanoseconds since the zero time of package \<^verbatim>\<open>time\<close>; \<^verbatim>\<open>IsZero\<close> is \<open>t = 0\<close>.
\<close>

type_synonym rune = nat
type_synonym time = int
type_synonym effects = "32 word"

abbreviation IsZero :: "time \<Rightarrow> bool" where
  "IsZero t \<equiv> t = 0"

section \<open>Results\<close>

text \<open>A fallible function returns \<open>Inl err\<close> or \<open>Inr value\<close>.\<close>

abbreviation is_ok :: "'e + 'a \<Rightarrow> bool" where
  "is_ok r \<equiv> \<not> isl r"

lemma sum_case_isl:
  "(case r of Inl e \<Rightarrow> f e | Inr v \<Rightarrow> g v) = (if isl r then f (projl r) else g (projr r))"
  by (cases r) simp_all

section \<open>Go maps as association lists\<close>

text \<open>
  A map that the code ranges over is an association list with distinct keys. \<open>map_put\<close> is the
  assignment \<^verbatim>\<open>m[k] = v\<close>: it overwrites the value of a key in place and appends a new key.
\<close>

fun map_put :: "'k \<Rightarrow> 'v \<Rightarrow> ('k \<times> 'v) list \<Rightarrow> ('k \<times> 'v) list" where
  "map_put k v [] = [(k, v)]"
| "map_put k v ((k', v') # m) = (if k' = k then (k, v) # m else (k', v') # map_put k v m)"

definition map_del :: "'k \<Rightarrow> ('k \<times> 'v) list \<Rightarrow> ('k \<times> 'v) list" where
  "map_del k m = filter (\<lambda>e. fst e \<noteq> k) m"

lemma map_of_map_put [simp]: "map_of (map_put k v m) = (map_of m)(k \<mapsto> v)"
  by (induction m) (auto simp: fun_eq_iff)

lemma map_of_map_del [simp]: "map_of (map_del k m) = (map_of m)(k := None)"
  by (induction m) (auto simp: map_del_def fun_eq_iff)

lemma keys_map_put:
  "map fst (map_put k v m) = (if k \<in> set (map fst m) then map fst m else map fst m @ [k])"
  by (induction m rule: map_put.induct) simp_all

lemma fst_set_map_put [simp]: "fst ` set (map_put k v m) = insert k (fst ` set m)"
  using arg_cong [OF keys_map_put, of set k v m] by (simp split: if_splits) blast

lemma in_map_put: "x \<in> set (map_put k v m) \<Longrightarrow> x = (k, v) \<or> x \<in> set m"
  by (induction m rule: map_put.induct) (auto split: if_splits)

lemma map_put_new: "k \<notin> fst ` set c \<Longrightarrow> map_put k v c = c @ [(k, v)]"
  by (induction c) auto

lemma distinct_map_put [simp]: "distinct (map fst m) \<Longrightarrow> distinct (map fst (map_put k v m))"
  by (simp add: keys_map_put)

lemma distinct_map_del [simp]: "distinct (map fst m) \<Longrightarrow> distinct (map fst (map_del k m))"
  by (simp add: map_del_def distinct_map_filter)

section \<open>First match in a list\<close>

lemma find_SomeD: "find P xs = Some x \<Longrightarrow> x \<in> set xs \<and> P x"
  by (induction xs) (auto split: if_splits)

lemma find_None_all: "find P xs = None \<longleftrightarrow> (\<forall>x \<in> set xs. \<not> P x)"
  by (induction xs) auto

section \<open>Updates\<close>

lemma nth_update_if: "j < length xs \<Longrightarrow> xs[i := v] ! j = (if j = i then v else xs ! j)"
  by auto

section \<open>Folds\<close>

lemma foldl_keeps: "(\<And>s x. P s \<Longrightarrow> P (f s x)) \<Longrightarrow> P s \<Longrightarrow> P (foldl f s xs)"
  by (induction xs arbitrary: s) simp_all

lemma foldl_add_sum:
  "foldl (\<lambda>(a :: int) x. a + f x) a xs = a + sum_list (map f xs)"
  by (induction xs arbitrary: a) (simp_all add: algebra_simps)

section \<open>Bit sets\<close>

lemma or_eq_zero_iff: "(a OR b = 0) \<longleftrightarrow> a = 0 \<and> b = (0 :: 'a::len word)"
  by (metis bit_0_eq bit_or_iff bit_eq_iff bot_fun_def or.right_neutral)

lemma and_or_ne_zero:
  "((a OR b) AND c \<noteq> 0) \<longleftrightarrow> a AND c \<noteq> 0 \<or> b AND c \<noteq> (0 :: 'a::len word)"
  by (simp add: bit.conj_disj_distrib2 or_eq_zero_iff)

lemma subset_and_ne_zero:
  fixes a b c :: "'a::len word"
  assumes "a AND NOT b = 0" and "a AND c \<noteq> 0"
  shows "b AND c \<noteq> 0"
proof -
  have "a = a AND b"
    using assms(1) by (metis and.right_neutral bit.conj_disj_distrib bit.disj_cancel_right or.right_neutral)
  then show ?thesis
    using assms(2) by (metis and.assoc and.left_commute and_zero_eq)
qed

end
