(* ===== verification/Go_Strings.thy ===== *)
theory Go_Strings
  imports Prelude
begin

text \<open>
  The parts of Go's \<^verbatim>\<open>unicode/utf8\<close>, \<^verbatim>\<open>strings\<close> and \<^verbatim>\<open>path/filepath\<close> that the modelled code calls, on
  byte strings: UTF-8 decoding as \<^verbatim>\<open>for _, r := range s\<close> does it (an invalid byte is one rune
  U+FFFD of width 1), encoding as \<^verbatim>\<open>WriteRune\<close> does it, white space as \<^verbatim>\<open>unicode.IsSpace\<close> defines it,
  and the search, trimming and splitting functions.
\<close>

section \<open>UTF-8\<close>

abbreviation byte :: "char \<Rightarrow> nat" where
  "byte c \<equiv> of_char c"

definition cont_byte :: "char \<Rightarrow> bool" where
  "cont_byte c \<longleftrightarrow> 0x80 \<le> byte c \<and> byte c \<le> 0xBF"

definition RuneError :: rune where
  "RuneError = 0xFFFD"

text \<open>
  \<open>decode1 c cs\<close> is the rune at the front of \<open>c # cs\<close> and the number of bytes of \<open>cs\<close> it takes:
  the accept ranges of \<^verbatim>\<open>utf8.DecodeRuneInString\<close>.
\<close>

definition decode1 :: "char \<Rightarrow> string \<Rightarrow> rune \<times> nat" where
  "decode1 c cs =
    (let b = byte c in
     if b < 0x80 then (b, 0)
     else if 0xC2 \<le> b \<and> b \<le> 0xDF then
       (case cs of
          c1 # _ \<Rightarrow> if cont_byte c1 then ((b mod 32) * 64 + byte c1 mod 64, 1) else (RuneError, 0)
        | [] \<Rightarrow> (RuneError, 0))
     else if 0xE0 \<le> b \<and> b \<le> 0xEF then
       (case cs of
          c1 # c2 # _ \<Rightarrow>
            if cont_byte c1 \<and> (b = 0xE0 \<longrightarrow> 0xA0 \<le> byte c1) \<and> (b = 0xED \<longrightarrow> byte c1 \<le> 0x9F)
               \<and> cont_byte c2
            then ((b mod 16) * 4096 + (byte c1 mod 64) * 64 + byte c2 mod 64, 2)
            else (RuneError, 0)
        | _ \<Rightarrow> (RuneError, 0))
     else if 0xF0 \<le> b \<and> b \<le> 0xF4 then
       (case cs of
          c1 # c2 # c3 # _ \<Rightarrow>
            if cont_byte c1 \<and> (b = 0xF0 \<longrightarrow> 0x90 \<le> byte c1) \<and> (b = 0xF4 \<longrightarrow> byte c1 \<le> 0x8F)
               \<and> cont_byte c2 \<and> cont_byte c3
            then ((b mod 8) * 262144 + (byte c1 mod 64) * 4096 + (byte c2 mod 64) * 64
                  + byte c3 mod 64, 3)
            else (RuneError, 0)
        | _ \<Rightarrow> (RuneError, 0))
     else (RuneError, 0))"

text \<open>The runes of a string, each with the bytes it was decoded from.\<close>

fun runes :: "string \<Rightarrow> (rune \<times> string) list" where
  "runes [] = []"
| "runes (c # cs) =
     (case decode1 c cs of (r, w) \<Rightarrow> (r, c # take w cs) # runes (drop w cs))"

abbreviation bytes_of :: "(rune \<times> string) list \<Rightarrow> string" where
  "bytes_of rs \<equiv> concat (map snd rs)"

definition utf8_enc :: "rune \<Rightarrow> string" where
  "utf8_enc r =
    (if r < 0x80 then [char_of r]
     else if r < 0x800 then [char_of (0xC0 + r div 64), char_of (0x80 + r mod 64)]
     else if 0xD800 \<le> r \<and> r \<le> 0xDFFF \<or> 0x10FFFF < r
       then [char_of (0xEF::nat), char_of (0xBF::nat), char_of (0xBD::nat)]
     else if r < 0x10000 then
       [char_of (0xE0 + r div 4096), char_of (0x80 + r div 64 mod 64), char_of (0x80 + r mod 64)]
     else [char_of (0xF0 + r div 262144), char_of (0x80 + r div 4096 mod 64),
           char_of (0x80 + r div 64 mod 64), char_of (0x80 + r mod 64)])"

text \<open>A string constant of the source given by its code points.\<close>

definition utf8 :: "rune list \<Rightarrow> string" where
  "utf8 rs = concat (map utf8_enc rs)"

section \<open>Package strings\<close>

definition isSpace :: "rune \<Rightarrow> bool" where
  "isSpace r \<longleftrightarrow> (9 \<le> r \<and> r \<le> 13) \<or> r = 32 \<or> r = 0x85 \<or> r = 0xA0 \<or> r = 0x1680
     \<or> (0x2000 \<le> r \<and> r \<le> 0x200A) \<or> r = 0x2028 \<or> r = 0x2029 \<or> r = 0x202F \<or> r = 0x205F
     \<or> r = 0x3000"

abbreviation space_rune :: "rune \<times> string \<Rightarrow> bool" where
  "space_rune x \<equiv> isSpace (fst x)"

definition TrimSpace :: "string \<Rightarrow> string" where
  "TrimSpace s = bytes_of (rev (dropWhile space_rune (rev (dropWhile space_rune (runes s)))))"

fun fields_aux :: "string \<Rightarrow> (rune \<times> string) list \<Rightarrow> string list" where
  "fields_aux cur [] = (if cur = [] then [] else [cur])"
| "fields_aux cur ((r, b) # rs) =
     (if isSpace r then (if cur = [] then fields_aux [] rs else cur # fields_aux [] rs)
      else fields_aux (cur @ b) rs)"

definition Fields :: "string \<Rightarrow> string list" where
  "Fields s = fields_aux [] (runes s)"

definition HasPrefix :: "string \<Rightarrow> string \<Rightarrow> bool" where
  "HasPrefix s p \<longleftrightarrow> take (length p) s = p"

definition TrimSuffix :: "string \<Rightarrow> string \<Rightarrow> string" where
  "TrimSuffix s p = (if HasPrefix (rev s) (rev p) then take (length s - length p) s else s)"

fun Contains :: "string \<Rightarrow> string \<Rightarrow> bool" where
  "Contains [] p \<longleftrightarrow> p = []"
| "Contains (c # cs) p \<longleftrightarrow> HasPrefix (c # cs) p \<or> Contains cs p"

fun Join :: "string list \<Rightarrow> string \<Rightarrow> string" where
  "Join [] sep = []"
| "Join [x] sep = x"
| "Join (x # y # xs) sep = x @ sep @ Join (y # xs) sep"

text \<open>\<^verbatim>\<open>strings.Split\<close> with a separator of one byte: always at least one piece.\<close>

fun split_aux :: "char \<Rightarrow> string \<Rightarrow> string \<Rightarrow> string list" where
  "split_aux sep cur [] = [cur]"
| "split_aux sep cur (c # cs) =
     (if c = sep then cur # split_aux sep [] cs else split_aux sep (cur @ [c]) cs)"

definition Split :: "string \<Rightarrow> char \<Rightarrow> string list" where
  "Split s sep = split_aux sep [] s"

text \<open>
  \<^verbatim>\<open>strings.ToUpper\<close> and the folding of \<^verbatim>\<open>strings.EqualFold\<close>, rune by rune, exact on every rune whose
  image is ASCII: the ASCII letters, the dotless i (U+0131), the long s (U+017F) and the Kelvin
  sign (U+212A). The code compares the results with ASCII constants only, for which the images of
  the remaining runes do not matter.
\<close>

definition upper_rune :: "rune \<Rightarrow> rune" where
  "upper_rune r = (if 97 \<le> r \<and> r \<le> 122 then r - 32 else if r = 0x131 then 73
                   else if r = 0x17F then 83 else r)"

definition fold_rune :: "rune \<Rightarrow> rune" where
  "fold_rune r = (if 65 \<le> r \<and> r \<le> 90 then r + 32 else if r = 0x17F then 115
                  else if r = 0x212A then 107 else r)"

definition ToUpper :: "string \<Rightarrow> string" where
  "ToUpper s = utf8 (map (upper_rune \<circ> fst) (runes s))"

definition EqualFold :: "string \<Rightarrow> string \<Rightarrow> bool" where
  "EqualFold s t \<longleftrightarrow> map (fold_rune \<circ> fst) (runes s) = map (fold_rune \<circ> fst) (runes t)"

section \<open>Package path/filepath\<close>

definition Base :: "string \<Rightarrow> string" where
  "Base p =
    (if p = [] then ''.''
     else let t = rev (dropWhile (\<lambda>c. c = CHR ''/'') (rev p))
          in if t = [] then ''/'' else rev (takeWhile (\<lambda>c. c \<noteq> CHR ''/'') (rev t)))"

text \<open>\<^verbatim>\<open>filepath.Clean\<close> and \<^verbatim>\<open>filepath.Join\<close>.\<close>

fun clean_parts :: "bool \<Rightarrow> string list \<Rightarrow> string list \<Rightarrow> string list" where
  "clean_parts rooted st [] = rev st"
| "clean_parts rooted st (p # ps) =
     (if p = [] \<or> p = ''.'' then clean_parts rooted st ps
      else if p = ''..'' then
        (case st of
           d # rest \<Rightarrow> if d = ''..'' then clean_parts rooted (p # st) ps else clean_parts rooted rest ps
         | [] \<Rightarrow> if rooted then clean_parts rooted [] ps else clean_parts rooted [p] ps)
      else clean_parts rooted (p # st) ps)"

definition path_clean :: "string \<Rightarrow> string" where
  "path_clean p =
    (let rooted = HasPrefix p ''/'';
         body = Join (clean_parts rooted [] (Split p (CHR ''/''))) ''/''
     in if rooted then CHR ''/'' # body else if body = [] then ''.'' else body)"

definition path_join :: "string list \<Rightarrow> string" where
  "path_join parts =
    (let ps = dropWhile (\<lambda>p. p = []) parts
     in if ps = [] then [] else path_clean (Join ps ''/''))"

section \<open>Package strconv\<close>

fun show_nat :: "nat \<Rightarrow> string" where
  "show_nat n = (if n < 10 then [char_of (48 + n)] else show_nat (n div 10) @ [char_of (48 + n mod 10)])"

declare show_nat.simps [simp del]

definition show_int :: "int \<Rightarrow> string" where
  "show_int i = (if i < 0 then CHR ''-'' # show_nat (nat (- i)) else show_nat (nat i))"

lemmas [go_string_defs] =
  cont_byte_def RuneError_def decode1_def utf8_enc_def utf8_def isSpace_def TrimSpace_def Fields_def
  HasPrefix_def TrimSuffix_def Split_def upper_rune_def fold_rune_def ToUpper_def EqualFold_def
  Base_def

section \<open>Decoding loses no byte\<close>

lemma bytes_of_runes [simp]: "bytes_of (runes s) = s"
proof (induction s rule: runes.induct)
  case (2 c cs)
  obtain r w where d: "decode1 c cs = (r, w)" by (cases "decode1 c cs")
  with 2 [of r w] show ?case by simp
qed simp

lemma runes_eq_Nil [simp]: "runes s = [] \<longleftrightarrow> s = []"
  by (cases s) (auto split: prod.split)

lemma snd_rune_ne_Nil: "x \<in> set (runes s) \<Longrightarrow> snd x \<noteq> []"
  by (induction s rule: runes.induct) (auto split: prod.splits)

abbreviation ascii :: "string \<Rightarrow> bool" where
  "ascii s \<equiv> list_all (\<lambda>c. byte c < 0x80) s"

lemma decode1_ascii: "byte c < 0x80 \<Longrightarrow> decode1 c cs = (byte c, 0)"
  by (simp add: decode1_def Let_def)

lemma runes_ascii: "ascii s \<Longrightarrow> runes s = map (\<lambda>c. (byte c, [c])) s"
  by (induction s) (simp_all add: decode1_ascii)

lemma runes_Cons_ascii: "byte c < 0x80 \<Longrightarrow> runes (c # cs) = (byte c, [c]) # runes cs"
  by (simp add: decode1_ascii)

text \<open>
  A string that starts with a byte that is not a continuation byte starts a rune, whatever precedes
  it: decoding distributes over such a concatenation.
\<close>

lemma decode1_append_gen:
  assumes "\<not> cont_byte d"
  shows "decode1 c (cs @ d # ds) = decode1 c cs"
  using assms by (auto simp: decode1_def Let_def split: list.split)

lemma decode1_width: "snd (decode1 c cs) \<le> length cs"
  by (auto simp: decode1_def Let_def split: list.split)

lemma runes_append:
  assumes "\<not> cont_byte d"
  shows "runes (s @ d # ds) = runes s @ runes (d # ds)"
proof (induction s rule: runes.induct)
  case (2 c cs)
  obtain r w where d: "decode1 c cs = (r, w)" by (cases "decode1 c cs")
  with decode1_width [of c cs] have w: "w \<le> length cs" by simp
  from 2 [of r w] d
  have "runes (drop w cs @ d # ds) = runes (drop w cs) @ runes (d # ds)" by simp
  with d w show ?case by (simp add: decode1_append_gen [OF assms])
qed simp

section \<open>Trimming and fields\<close>

lemma in_set_dropWhile_ends:
  "x \<in> set (rev (dropWhile P (rev (dropWhile P xs)))) \<Longrightarrow> x \<in> set xs"
  by (metis set_dropWhileD set_rev)

lemma Fields_no_empty: "[] \<notin> set (Fields s)"
proof -
  have "\<forall>x \<in> set rs. snd x \<noteq> [] \<Longrightarrow> [] \<notin> set (fields_aux cur rs)" for cur rs
    by (induction cur rs rule: fields_aux.induct) auto
  then show ?thesis
    using snd_rune_ne_Nil unfolding Fields_def by blast
qed

lemma HasPrefix_append [simp]: "HasPrefix (p @ s) p"
  by (simp add: HasPrefix_def)

lemma Contains_appendI: "Contains (a @ p @ b) p"
proof (induction a)
  case Nil
  show ?case by (cases p) (simp_all add: HasPrefix_def, cases b, simp_all add: HasPrefix_def)
qed simp

lemma Contains_iff: "Contains s p \<longleftrightarrow> (\<exists>a b. s = a @ p @ b)"
proof
  show "Contains s p \<Longrightarrow> \<exists>a b. s = a @ p @ b"
  proof (induction s)
    case (Cons c cs)
    show ?case
    proof (cases "HasPrefix (c # cs) p")
      case True
      then have "c # cs = [] @ p @ drop (length p) (c # cs)"
        by (metis HasPrefix_def append_Nil append_take_drop_id)
      then show ?thesis by blast
    next
      case False
      with Cons obtain a b where "cs = a @ p @ b" by auto
      then have "c # cs = (c # a) @ p @ b" by simp
      then show ?thesis by blast
    qed
  qed simp
qed (auto intro: Contains_appendI)

section \<open>Decimal numbers\<close>

definition read_nat :: "string \<Rightarrow> nat" where
  "read_nat s = foldl (\<lambda>a c. 10 * a + (byte c - 48)) 0 s"

lemma of_char_digit: "d < 10 \<Longrightarrow> of_char (char_of (48 + d) :: char) - 48 = (d :: nat)"
  by (simp add: of_char_of)

lemma read_show_nat [simp]: "read_nat (show_nat n) = n"
proof (induction n rule: show_nat.induct)
  case (1 n)
  show ?case
  proof (cases "n < 10")
    case True
    then show ?thesis
      by (simp add: show_nat.simps [of n] read_nat_def of_char_digit del: of_char_of)
  next
    case False
    with 1 have "read_nat (show_nat (n div 10)) = n div 10" by simp
    then show ?thesis
      using False of_char_digit [of "n mod 10"]
      by (simp add: show_nat.simps [of n] read_nat_def del: of_char_of)
  qed
qed

lemma show_nat_inj [simp]: "show_nat m = show_nat n \<longleftrightarrow> m = n"
  by (metis read_show_nat)

end
