(* ===== verification/Go_Regexp.thy ===== *)
theory Go_Regexp
  imports Go_Strings
begin

text \<open>
  The part of Go's package \<^verbatim>\<open>regexp\<close> that the sandbox uses: the operators that occur in the patterns
  of the source, matched over the runes of a string with the leftmost-first priority of the
  package. A matcher returns every way to match at a position, in order of priority.
  \<open>MatchString\<close>, \<open>FindStringSubmatch\<close> and \<open>FindAllStringSubmatch\<close> are the entry points.
\<close>

section \<open>Syntax\<close>

datatype regex =
    Eps
  | Lit rune
  | Dot                             \<comment> \<open>any rune but a newline\<close>
  | Cls bool "(rune \<times> rune) list"   \<comment> \<open>a class of ranges; the flag negates it\<close>
  | Cat regex regex
  | Alt regex regex
  | Star regex
  | Plus regex
  | Opt regex
  | Grp nat regex
  | EndText                         \<comment> \<open>the anchor \<open>$\<close>, not in multi-line mode\<close>

fun in_ranges :: "rune \<Rightarrow> (rune \<times> rune) list \<Rightarrow> bool" where
  "in_ranges r [] = False"
| "in_ranges r ((lo, hi) # rs) = (lo \<le> r \<and> r \<le> hi \<or> in_ranges r rs)"

text \<open>The class \<^verbatim>\<open>\s\<close> of the package: tab, newline, form feed, carriage return and space.\<close>

definition ws_ranges :: "(rune \<times> rune) list" where
  "ws_ranges = [(9, 10), (12, 13), (32, 32)]"

abbreviation WS :: regex where
  "WS \<equiv> Cls False ws_ranges"

abbreviation NonWS :: regex where
  "NonWS \<equiv> Cls True ws_ranges"

text \<open>A literal ASCII text and a sequence of expressions.\<close>

fun seq :: "regex list \<Rightarrow> regex" where
  "seq [] = Eps"
| "seq [r] = r"
| "seq (r # s # rs) = Cat r (seq (s # rs))"

definition lits :: "string \<Rightarrow> regex" where
  "lits s = seq (map (Lit \<circ> of_char) s)"

section \<open>Matching\<close>

type_synonym input = "(rune \<times> string) list"
type_synonym captures = "(nat \<times> string) list"
type_synonym mstate = "input \<times> captures"

text \<open>
  Greedy iteration: an iteration that consumes nothing is not repeated. Every round takes at
  least one rune, so the number of runes that are left bounds the number of rounds.
\<close>

fun star_iter :: "(mstate \<Rightarrow> mstate list) \<Rightarrow> nat \<Rightarrow> mstate \<Rightarrow> mstate list" where
  "star_iter f 0 s = [s]"
| "star_iter f (Suc n) s =
     concat (map (star_iter f n) (filter (\<lambda>t. length (fst t) < length (fst s)) (f s))) @ [s]"

definition one_rune :: "(rune \<Rightarrow> bool) \<Rightarrow> mstate \<Rightarrow> mstate list" where
  "one_rune P s = (case fst s of [] \<Rightarrow> [] | x # xs \<Rightarrow> if P (fst x) then [(xs, snd s)] else [])"

primrec ways :: "regex \<Rightarrow> mstate \<Rightarrow> mstate list" where
  "ways Eps s = [s]"
| "ways (Lit c) s = one_rune (\<lambda>r. r = c) s"
| "ways Dot s = one_rune (\<lambda>r. r \<noteq> 10) s"
| "ways (Cls neg rs) s = one_rune (\<lambda>r. in_ranges r rs \<noteq> neg) s"
| "ways (Cat a b) s = concat (map (ways b) (ways a s))"
| "ways (Alt a b) s = ways a s @ ways b s"
| "ways (Star a) s = star_iter (ways a) (length (fst s)) s"
| "ways (Plus a) s = concat (map (\<lambda>t. star_iter (ways a) (length (fst t)) t) (ways a s))"
| "ways (Opt a) s = ways a s @ [s]"
| "ways (Grp n a) s =
     map (\<lambda>t. (fst t, (n, bytes_of (take (length (fst s) - length (fst t)) (fst s))) # snd t))
       (ways a s)"
| "ways EndText s = (if fst s = [] then [s] else [])"

text \<open>The leftmost match: the rest of the input after it and its captures.\<close>

fun find_match :: "regex \<Rightarrow> input \<Rightarrow> mstate option" where
  "find_match r [] = (case ways r ([], []) of [] \<Rightarrow> None | m # _ \<Rightarrow> Some m)"
| "find_match r (x # xs) =
     (case ways r (x # xs, []) of [] \<Rightarrow> find_match r xs | m # _ \<Rightarrow> Some m)"

definition MatchString :: "regex \<Rightarrow> string \<Rightarrow> bool" where
  "MatchString r s \<longleftrightarrow> find_match r (runes s) \<noteq> None"

text \<open>The text of group \<open>n\<close>; a group that took no part in the match is the empty string.\<close>

definition submatch :: "captures \<Rightarrow> nat \<Rightarrow> string" where
  "submatch cs n = (case map_of cs n of None \<Rightarrow> [] | Some t \<Rightarrow> t)"

definition FindStringSubmatch :: "regex \<Rightarrow> string \<Rightarrow> captures option" where
  "FindStringSubmatch r s = map_option snd (find_match r (runes s))"

text \<open>
  Successive matches that do not overlap, for a pattern that matches no empty string (the source
  applies it to one pattern, which starts with a literal).
\<close>

function find_all :: "regex \<Rightarrow> input \<Rightarrow> captures list" where
  "find_all r rs =
     (case find_match r rs of
        None \<Rightarrow> []
      | Some m \<Rightarrow> snd m # (if length (fst m) < length rs then find_all r (fst m) else []))"
  by pat_completeness auto
termination
  by (relation "measure (\<lambda>(r, rs). length rs)") auto

declare find_all.simps [simp del]

definition FindAllStringSubmatch :: "regex \<Rightarrow> string \<Rightarrow> captures list" where
  "FindAllStringSubmatch r s = find_all r (runes s)"

text \<open>
  A compiled expression, as far as the code observes it: its source text (\<^verbatim>\<open>String\<close>) and whether it
  matches a string (\<^verbatim>\<open>MatchString\<close>). The patterns of a user's configuration range over all of them.
\<close>

record Regexp =
  re_source :: string
  re_match :: "string \<Rightarrow> bool"

definition mk_regexp :: "string \<Rightarrow> regex \<Rightarrow> Regexp" where
  "mk_regexp src r = \<lparr>re_source = src, re_match = MatchString r\<rparr>"

section \<open>Properties of the matcher\<close>

lemma find_match_iff: "find_match r rs \<noteq> None \<longleftrightarrow> (\<exists>pre suf. rs = pre @ suf \<and> ways r (suf, []) \<noteq> [])"
proof (induction rs)
  case Nil
  show ?case by (auto split: list.split)
next
  case (Cons x xs)
  show ?case
  proof (cases "ways r (x # xs, [])")
    case Nil
    have "(\<exists>pre suf. x # xs = pre @ suf \<and> ways r (suf, []) \<noteq> []) \<longleftrightarrow>
          (\<exists>pre suf. xs = pre @ suf \<and> ways r (suf, []) \<noteq> [])"
      using Nil by (auto simp: Cons_eq_append_conv)
    with Nil Cons.IH show ?thesis by simp
  next
    case (Cons m ms)
    then have "\<exists>pre suf. x # xs = pre @ suf \<and> ways r (suf, []) \<noteq> []"
      by (intro exI [of _ "[]"] exI [of _ "x # xs"]) simp
    with Cons show ?thesis by simp
  qed
qed

lemma find_match_append: "ways r (suf, []) \<noteq> [] \<Longrightarrow> find_match r (pre @ suf) \<noteq> None"
  using find_match_iff by blast

lemma MatchString_suffix:
  assumes "byte d < 0x80" and "ways r (runes (d # ds), []) \<noteq> []"
  shows "MatchString r (s @ d # ds)"
proof -
  from assms(1) have "\<not> cont_byte d" by (simp add: cont_byte_def)
  then have "runes (s @ d # ds) = runes s @ runes (d # ds)" by (rule runes_append)
  with find_match_append [OF assms(2)] show ?thesis by (simp add: MatchString_def)
qed

text \<open>A way to match leaves a suffix of the input.\<close>

lemma star_iter_suffix:
  assumes f: "\<And>s t. t \<in> set (f s) \<Longrightarrow> \<exists>pre. fst s = pre @ fst t"
  shows "t \<in> set (star_iter f n s) \<Longrightarrow> \<exists>pre. fst s = pre @ fst t"
proof (induction n arbitrary: s)
  case (Suc n)
  show ?case
  proof (cases "t = s")
    case False
    with Suc.prems obtain u where u: "u \<in> set (f s)" and t: "t \<in> set (star_iter f n u)" by auto
    from f [OF u] Suc.IH [OF t] show ?thesis by auto
  qed simp
qed simp

lemma one_rune_suffix: "t \<in> set (one_rune P s) \<Longrightarrow> \<exists>pre. fst s = pre @ fst t"
  by (cases "fst s") (simp_all add: one_rune_def split: if_splits)

lemma ways_suffix: "t \<in> set (ways r s) \<Longrightarrow> \<exists>pre. fst s = pre @ fst t"
proof (induction r arbitrary: s t)
  case (Star r)
  then show ?case using star_iter_suffix [of "ways r" t] by simp
next
  case (Plus r)
  from Plus.prems obtain u where u: "u \<in> set (ways r s)"
    and t: "t \<in> set (star_iter (ways r) (length (fst u)) u)" by auto
  from Plus.IH [OF u] obtain p where "fst s = p @ fst u" by blast
  moreover from star_iter_suffix [of "ways r", OF Plus.IH t] have "\<exists>q. fst u = q @ fst t" .
  ultimately show ?case by auto
next
  case (Cat a b)
  from Cat.prems obtain u where "u \<in> set (ways a s)" and "t \<in> set (ways b u)" by auto
  with Cat.IH obtain p q where "fst s = p @ fst u" and "fst u = q @ fst t" by blast
  then show ?case by simp
next
  case (Opt r)
  then consider "t = s" | "t \<in> set (ways r s)" by auto
  then show ?case using Opt.IH by cases (simp, blast)
next
  case (Alt a b)
  then consider "t \<in> set (ways a s)" | "t \<in> set (ways b s)" by auto
  then show ?case using Alt.IH by cases blast+
next
  case (Grp n r)
  then obtain u where "u \<in> set (ways r s)" and "fst t = fst u" by auto
  with Grp.IH show ?case by metis
qed (auto intro: one_rune_suffix split: if_splits)

end
