(* ===== verification/Sandbox_Risk.thy ===== *)
theory Sandbox_Risk
  imports Go_Regexp
begin

text \<open>
  The data of the command safety layer (\<^verbatim>\<open>src/ai-sandbox/spec.go\<close>) and the operations on risk levels,
  effect sets and reasons (\<^verbatim>\<open>src/ai-sandbox/risk.go\<close>), with the parsing of effect names from
  \<^verbatim>\<open>config.go\<close>. A risk level is an integer, as in the source, where comparisons order the levels;
  an effect set is a 32-bit word. The lemmas show that both textual forms read back what they
  print and that the effect floor and the set operations are monotone.
\<close>

section \<open>Modes\<close>

abbreviation (input) ModeNormal :: string where "ModeNormal \<equiv> ''normal''"
abbreviation (input) ModeAuto :: string where "ModeAuto \<equiv> ''auto''"
abbreviation (input) ModeStrict :: string where "ModeStrict \<equiv> ''strict''"
abbreviation (input) ModeReadOnly :: string where "ModeReadOnly \<equiv> ''readonly''"
abbreviation (input) ModeOff :: string where "ModeOff \<equiv> ''off''"

section \<open>Risk levels\<close>

type_synonym RiskLevel = int

abbreviation (input) RiskBenign :: RiskLevel where "RiskBenign \<equiv> 0"
abbreviation (input) RiskLow :: RiskLevel where "RiskLow \<equiv> 1"
abbreviation (input) RiskMedium :: RiskLevel where "RiskMedium \<equiv> 2"
abbreviation (input) RiskElevated :: RiskLevel where "RiskElevated \<equiv> 3"
abbreviation (input) RiskHigh :: RiskLevel where "RiskHigh \<equiv> 4"
abbreviation (input) RiskCritical :: RiskLevel where "RiskCritical \<equiv> 5"
abbreviation (input) RiskUnclassified :: RiskLevel where "RiskUnclassified \<equiv> 6"
abbreviation (input) RiskReserved :: RiskLevel where "RiskReserved \<equiv> 7"

definition riskLevelNames :: "string list" where
  "riskLevelNames = [''benign'', ''low'', ''medium'', ''elevated'', ''high'', ''critical'',
     ''unclassified'', ''reserved'']"

definition RiskLevel_String :: "RiskLevel \<Rightarrow> string" where
  "RiskLevel_String l =
    (if l < RiskBenign \<or> l > RiskReserved then ''invalid'' else riskLevelNames ! nat l)"

text \<open>The loop over the names: the index of the first name that is equal.\<close>

fun parse_level_from :: "nat \<Rightarrow> string list \<Rightarrow> string \<Rightarrow> RiskLevel option" where
  "parse_level_from i [] s = None"
| "parse_level_from i (name # names) s =
     (if s = name then Some (int i) else parse_level_from (Suc i) names s)"

definition ParseRiskLevel :: "string \<Rightarrow> RiskLevel option" where
  "ParseRiskLevel s = parse_level_from 0 riskLevelNames s"

definition maxLevel :: "RiskLevel \<Rightarrow> RiskLevel \<Rightarrow> RiskLevel" where
  "maxLevel a b = (if a > b then a else b)"

section \<open>Effects\<close>

abbreviation (input) EffectFileRead :: effects where "EffectFileRead \<equiv> 1"
abbreviation (input) EffectFileWrite :: effects where "EffectFileWrite \<equiv> 2"
abbreviation (input) EffectNetwork :: effects where "EffectNetwork \<equiv> 4"
abbreviation (input) EffectPrivileged :: effects where "EffectPrivileged \<equiv> 8"
abbreviation (input) EffectDestructive :: effects where "EffectDestructive \<equiv> 16"
abbreviation (input) EffectSecretAccess :: effects where "EffectSecretAccess \<equiv> 32"
abbreviation (input) EffectProcessSpawn :: effects where "EffectProcessSpawn \<equiv> 64"
abbreviation (input) EffectCodeExecution :: effects where "EffectCodeExecution \<equiv> 128"

definition Has :: "effects \<Rightarrow> effects \<Rightarrow> bool" where
  "Has e f \<longleftrightarrow> e AND f \<noteq> 0"

definition Add :: "effects \<Rightarrow> effects list \<Rightarrow> effects" where
  "Add e fs = foldl (\<lambda>out f. out OR f) e fs"

definition effectNames :: "(effects \<times> string) list" where
  "effectNames =
    [(EffectFileRead, ''file_read''), (EffectFileWrite, ''file_write''),
     (EffectNetwork, ''network''), (EffectPrivileged, ''privileged''),
     (EffectDestructive, ''destructive''), (EffectSecretAccess, ''secret_access''),
     (EffectProcessSpawn, ''process_spawn''), (EffectCodeExecution, ''code_execution'')]"

definition Names :: "effects \<Rightarrow> string list" where
  "Names e = map snd (filter (\<lambda>en. Has e (fst en)) effectNames)"

definition parse_effect :: "string \<Rightarrow> effects" where
  "parse_effect n =
    (if n = ''file_read'' then EffectFileRead
     else if n = ''file_write'' then EffectFileWrite
     else if n = ''network'' then EffectNetwork
     else if n = ''privileged'' then EffectPrivileged
     else if n = ''destructive'' then EffectDestructive
     else if n = ''secret_access'' then EffectSecretAccess
     else if n = ''process_spawn'' then EffectProcessSpawn
     else if n = ''code_execution'' then EffectCodeExecution
     else 0)"

definition parseEffects :: "string list \<Rightarrow> effects" where
  "parseEffects names = foldl (\<lambda>e n. Add e [parse_effect n]) 0 names"

section \<open>Sources, reasons, assessments, decisions\<close>

datatype Source = SourceBypass | SourceRule | SourceClassifier | SourceHeuristic | SourceUnclassified

fun Source_String :: "Source \<Rightarrow> string" where
  "Source_String SourceBypass = ''bypass''"
| "Source_String SourceRule = ''rule''"
| "Source_String SourceClassifier = ''classifier''"
| "Source_String SourceHeuristic = ''heuristic''"
| "Source_String SourceUnclassified = ''unclassified''"

record Reason =
  rs_Code :: string
  rs_Pattern :: string
  rs_Detail :: string

text \<open>The confidence of the source is a \<^verbatim>\<open>float64\<close> that is only ever 0 or 1.\<close>

record RiskAssessment =
  ra_Level :: RiskLevel
  ra_Effects :: effects
  ra_Reasons :: "Reason list"
  ra_Source :: Source
  ra_Confidence :: nat
  ra_HardDeny :: bool

datatype Decision = DecisionAllow | DecisionSandbox | DecisionHitl | DecisionDeny

fun Decision_String :: "Decision \<Rightarrow> string" where
  "Decision_String DecisionAllow = ''allow''"
| "Decision_String DecisionSandbox = ''sandbox''"
| "Decision_String DecisionHitl = ''hitl''"
| "Decision_String DecisionDeny = ''deny''"

text \<open>Decisions are ordered by how much they restrict the command.\<close>

instantiation Decision :: linorder
begin

fun rank_Decision :: "Decision \<Rightarrow> nat" where
  "rank_Decision DecisionAllow = 0"
| "rank_Decision DecisionSandbox = 1"
| "rank_Decision DecisionHitl = 2"
| "rank_Decision DecisionDeny = 3"

definition less_eq_Decision :: "Decision \<Rightarrow> Decision \<Rightarrow> bool" where
  "less_eq_Decision a b \<longleftrightarrow> rank_Decision a \<le> rank_Decision b"

definition less_Decision :: "Decision \<Rightarrow> Decision \<Rightarrow> bool" where
  "less_Decision a b \<longleftrightarrow> rank_Decision a < rank_Decision b"

instance
proof
  fix a b :: Decision
  show "a \<le> b \<Longrightarrow> b \<le> a \<Longrightarrow> a = b"
    by (cases a; cases b) (simp_all add: less_eq_Decision_def)
qed (auto simp: less_eq_Decision_def less_Decision_def)

end

record AllowRule =
  ar_MatchTokens :: "string list"
  ar_MaxRisk :: RiskLevel
  ar_Effects :: effects
  ar_Desc :: string

record ToolAllowRule =
  tr_Key :: string
  tr_MaxRisk :: RiskLevel
  tr_Desc :: string

record Config =
  DeniedPatterns :: "Regexp list"
  RiskyPatterns :: "Regexp list"
  PatternDescs :: "(string \<times> string) list"
  AllowedWorkDir :: string
  ReadOnly :: bool
  MaxOutputBytes :: int
  Mode :: string
  AutoMaxRisk :: RiskLevel
  SafeCommands :: "(string \<times> bool) list"
  AllowRules :: "AllowRule list"
  ToolAllowRules :: "ToolAllowRule list"

record CommandRequest =
  rq_Command :: string
  rq_Cwd :: string
  rq_Workspace :: string

record Outcome =
  out_Decision :: Decision
  out_Level :: RiskLevel
  out_Effects :: effects
  out_Reasons :: "Reason list"
  out_Source :: Source
  out_Command :: string
  out_HardDeny :: bool
  out_Override :: "AllowRule option"

datatype safeVerdict = verdictUnknown | verdictSafe | verdictUnsafe

text \<open>A reason with a code and a detail; most reasons of the source have no pattern.\<close>

definition mk_reason :: "string \<Rightarrow> string \<Rightarrow> string \<Rightarrow> Reason" where
  "mk_reason code pat detail = \<lparr>rs_Code = code, rs_Pattern = pat, rs_Detail = detail\<rparr>"

section \<open>Reasons as text\<close>

definition firstDetail :: "Reason list \<Rightarrow> string" where
  "firstDetail rs = (case find (\<lambda>r. rs_Detail r \<noteq> []) rs of Some r \<Rightarrow> rs_Detail r | None \<Rightarrow> [])"

definition firstPattern :: "Reason list \<Rightarrow> string" where
  "firstPattern rs = (case find (\<lambda>r. rs_Pattern r \<noteq> []) rs of Some r \<Rightarrow> rs_Pattern r | None \<Rightarrow> [])"

abbreviation (input) backslash :: char where "backslash \<equiv> CHR 0x5C"
abbreviation (input) newline :: char where "newline \<equiv> CHR 0x0A"

definition describeCommand :: "string \<Rightarrow> string" where
  "describeCommand cmd =
    (let c = concat (map (\<lambda>x. if x = newline then [backslash, CHR ''n''] else [x]) cmd)
     in if length c > 200 then take 200 c @ (utf8 [0x2026]) else c)"

lemmas [sandbox_defs] =
  RiskLevel_String_def ParseRiskLevel_def maxLevel_def Has_def Add_def Names_def parse_effect_def
  parseEffects_def mk_reason_def firstDetail_def firstPattern_def describeCommand_def

section \<open>Properties\<close>

lemma riskLevelNames_simps [simp]:
  "length riskLevelNames = 8" "distinct riskLevelNames"
  by (simp_all add: riskLevelNames_def)

lemma parse_level_from_nth:
  "distinct names \<Longrightarrow> n < length names \<Longrightarrow> parse_level_from i names (names ! n) = Some (int (i + n))"
proof (induction names arbitrary: i n)
  case (Cons x xs)
  then show ?case by (cases n) auto
qed simp

lemma parse_level_from_SomeD:
  "parse_level_from i names s = Some l \<Longrightarrow> int i \<le> l \<and> nat l - i < length names \<and> s = names ! (nat l - i)"
proof (induction names arbitrary: i)
  case (Cons x xs)
  show ?case
  proof (cases "s = x")
    case True
    with Cons.prems show ?thesis by auto
  next
    case False
    with Cons.prems Cons.IH [of "Suc i"] have "int (Suc i) \<le> l \<and> nat l - Suc i < length xs \<and> s = xs ! (nat l - Suc i)" by simp
    moreover from this have "nat l - i = Suc (nat l - Suc i)" by linarith
    ultimately show ?thesis by auto
  qed
qed simp

lemma ParseRiskLevel_String:
  "RiskBenign \<le> l \<Longrightarrow> l \<le> RiskReserved \<Longrightarrow> ParseRiskLevel (RiskLevel_String l) = Some l"
  using parse_level_from_nth [of riskLevelNames "nat l" 0]
  by (simp add: ParseRiskLevel_def RiskLevel_String_def)

lemma ParseRiskLevel_Some_range: "ParseRiskLevel s = Some l \<Longrightarrow> RiskBenign \<le> l \<and> l \<le> RiskReserved"
  using parse_level_from_SomeD [of 0 riskLevelNames s l] by (simp add: ParseRiskLevel_def) linarith

lemma ParseRiskLevel_SomeD: "ParseRiskLevel s = Some l \<Longrightarrow> RiskLevel_String l = s"
  using parse_level_from_SomeD [of 0 riskLevelNames s l] ParseRiskLevel_Some_range [of s l]
  by (simp add: ParseRiskLevel_def RiskLevel_String_def)

subsection \<open>Effect sets\<close>

definition subset_eff :: "effects \<Rightarrow> effects \<Rightarrow> bool" where
  "subset_eff a b \<longleftrightarrow> a AND NOT b = 0"

lemma Has_or [simp]: "Has (a OR b) f \<longleftrightarrow> Has a f \<or> Has b f"
  by (simp add: Has_def and_or_ne_zero)

lemma Has_zero [simp]: "\<not> Has 0 f"
  by (simp add: Has_def)

lemma Has_subset: "subset_eff a b \<Longrightarrow> Has a f \<Longrightarrow> Has b f"
  unfolding subset_eff_def Has_def by (rule subset_and_ne_zero)

lemma Has_Add: "Has (Add e fs) f \<longleftrightarrow> Has e f \<or> (\<exists>g \<in> set fs. Has g f)"
proof -
  have "Has (foldl (\<lambda>out f. out OR f) e fs) f \<longleftrightarrow> Has e f \<or> (\<exists>g \<in> set fs. Has g f)"
    by (induction fs arbitrary: e) auto
  then show ?thesis by (simp add: Add_def)
qed

lemma Add_single [simp]: "Add e [f] = e OR f"
  by (simp add: Add_def)

lemma parseEffects_snoc: "parseEffects (ns @ [n]) = parseEffects ns OR parse_effect n"
  by (simp add: parseEffects_def)

lemma Has_parseEffects: "Has (parseEffects ns) f \<longleftrightarrow> (\<exists>n \<in> set ns. Has (parse_effect n) f)"
  by (induction ns rule: rev_induct) (auto simp: parseEffects_snoc, simp add: parseEffects_def)

lemma Has_exp: "Has e (2 ^ k) \<longleftrightarrow> bit e k"
  by (simp add: Has_def and_exp_eq_0_iff_not_bit)

lemma and_exp_cases: "e AND 2 ^ k = (if Has e (2 ^ k) then 2 ^ k else (0 :: effects))"
  by (auto simp: Has_exp and_exp_eq_0_iff_not_bit intro!: bit_eqI) (auto simp: bit_simps)

lemma parseEffects_Names_aux:
  assumes "\<forall>en \<in> set ens. \<exists>k. fst en = 2 ^ k \<and> parse_effect (snd en) = fst en"
  shows "parseEffects (map snd (filter (\<lambda>en. Has e (fst en)) ens)) =
         e AND foldl (\<lambda>a en. a OR fst en) 0 ens"
  using assms
proof (induction ens rule: rev_induct)
  case Nil
  show ?case by (simp add: parseEffects_def)
next
  case (snoc en ens)
  then obtain k where k: "fst en = 2 ^ k" "parse_effect (snd en) = fst en" by auto
  with snoc show ?case
    by (simp add: parseEffects_snoc bit.conj_disj_distrib and_exp_cases [of e k])
qed

lemma parse_effect_table:
  "\<forall>en \<in> set effectNames. \<exists>k. fst en = 2 ^ k \<and> parse_effect (snd en) = fst en"
proof -
  have "map fst effectNames = map (\<lambda>k. 2 ^ k) [0..<8]"
    by (simp add: effectNames_def upt_rec)
  then have "\<forall>f \<in> set (map fst effectNames). \<exists>k. f = 2 ^ k" by auto
  moreover have "\<forall>en \<in> set effectNames. parse_effect (snd en) = fst en"
    by (simp add: effectNames_def parse_effect_def)
  ultimately show ?thesis by auto
qed

lemma parseEffects_Names: "parseEffects (Names e) = e AND 0xFF"
proof -
  have "foldl (\<lambda>a en. a OR fst en) 0 effectNames = 0xFF"
    by (simp add: effectNames_def)
  with parseEffects_Names_aux [OF parse_effect_table, of e] show ?thesis
    by (simp add: Names_def)
qed

end
