(* ===== verification/Sandbox_Shell.thy ===== *)
theory Sandbox_Shell
  imports Sandbox_Risk
begin

text \<open>
  The read-only classifier of \<^verbatim>\<open>src/ai-sandbox/safe.go\<close>: how a command line is cut into segments, how
  a segment's program and arguments are found, when a redirection writes a file, and the verdict
  (safe, unsafe, unknown) that the flag tables give. The lemmas characterise the safe verdict and
  the shape of the segments, and show which commands the splitter joins.
\<close>

section \<open>Tables\<close>

definition safeReadonlyCmds :: "string list" where
  "safeReadonlyCmds =
    [''cat'', ''head'', ''tail'', ''ls'', ''grep'', ''egrep'', ''fgrep'', ''wc'', ''sort'', ''uniq'',
     ''cut'', ''diff'', ''stat'', ''file'', ''du'', ''df'', ''date'', ''whoami'', ''pwd'', ''echo'',
     ''printf'', ''which'', ''true'', ''false'', ''jq'']"

definition flagCheckCmds :: "string list" where
  "flagCheckCmds = [''curl'', ''wget'', ''sed'', ''awk'', ''find'', ''git'', ''go'']"

definition pseudoDevNames :: "string list" where
  "pseudoDevNames =
    [''null'', ''stdout'', ''stderr'', ''zero'', ''full'', ''random'', ''urandom'', ''tty'', ''tty0'']"

definition gitReadonlySubs :: "string list" where
  "gitReadonlySubs =
    [''status'', ''log'', ''diff'', ''show'', ''branch'', ''ls-files'', ''rev-parse'', ''remote'',
     ''describe'', ''tag'', ''version'', ''help'', ''blame'', ''grep'']"

definition goReadonlySubs :: "string list" where
  "goReadonlySubs = [''version'', ''env'', ''list'', ''doc'']"

section \<open>Segments\<close>

text \<open>
  The loop variables of \<open>splitShellSegments\<close>. \<open>sp_last\<close> is the last rune that the default branch
  wrote and that is neither a space nor a tab, 0 at the start.
\<close>

record split_state =
  sp_segs :: "string list"
  sp_cur :: string
  sp_inSingle :: bool
  sp_inDouble :: bool
  sp_esc :: bool
  sp_last :: rune

definition split_init :: split_state where
  "split_init = \<lparr>sp_segs = [], sp_cur = [], sp_inSingle = False, sp_inDouble = False,
     sp_esc = False, sp_last = 0\<rparr>"

definition split_flush :: "split_state \<Rightarrow> split_state" where
  "split_flush st =
    (let s = TrimSpace (sp_cur st)
     in st\<lparr>sp_segs := (if s \<noteq> [] then sp_segs st @ [s] else sp_segs st), sp_cur := []\<rparr>)"

definition split_write :: "rune \<Rightarrow> split_state \<Rightarrow> split_state" where
  "split_write r st = st\<lparr>sp_cur := sp_cur st @ utf8_enc r\<rparr>"

definition split_step :: "split_state \<Rightarrow> rune \<Rightarrow> split_state" where
  "split_step st r =
    (let unquoted = (\<not> sp_inSingle st \<and> \<not> sp_inDouble st) in
     if sp_esc st then (split_write r st)\<lparr>sp_esc := False\<rparr>
     else if r = 0x5C then (split_write r st)\<lparr>sp_esc := True\<rparr>
     else if r = 0x27 \<and> \<not> sp_inDouble st then split_write r (st\<lparr>sp_inSingle := \<not> sp_inSingle st\<rparr>)
     else if r = 0x22 \<and> \<not> sp_inSingle st then split_write r (st\<lparr>sp_inDouble := \<not> sp_inDouble st\<rparr>)
     else if (r = 0x0A \<or> r = 0x0D) \<and> unquoted then split_flush st
     else if (r = 0x7C \<or> r = 0x3B) \<and> unquoted then split_flush st
     else if r = 0x26 \<and> unquoted then
       (if sp_last st = 0x3E \<or> sp_last st = 0x3C then split_write r st else split_flush st)
     else (split_write r st)\<lparr>sp_last := (if r \<noteq> 0x20 \<and> r \<noteq> 0x09 then r else sp_last st)\<rparr>)"

definition split_run :: "split_state \<Rightarrow> string \<Rightarrow> split_state" where
  "split_run st cmd = foldl split_step st (map fst (runes cmd))"

definition splitShellSegments :: "string \<Rightarrow> string list" where
  "splitShellSegments cmd = sp_segs (split_flush (split_run split_init cmd))"

text \<open>The program of a segment and its arguments; \<open>None\<close> is the empty name of the source.\<close>

definition splitMain :: "string \<Rightarrow> (string \<times> string list) option" where
  "splitMain seg =
    (case dropWhile (\<lambda>f. Contains f ''='') (Fields seg) of
       [] \<Rightarrow> None
     | name # args \<Rightarrow> Some (name, args))"

fun envResolve :: "string list \<Rightarrow> (string \<times> string list) option" where
  "envResolve [] = None"
| "envResolve (a # rest) =
     (if Contains a ''='' then envResolve rest
      else if a = ''-i'' \<or> a = ''--ignore-environment'' then envResolve rest
      else if a \<in> {''-u'', ''--unset'', ''-C'', ''--chdir'', ''-S'', ''--split-string''} then
        (case rest of [] \<Rightarrow> None | _ # rest' \<Rightarrow> envResolve rest')
      else if a = ''--'' then (case rest of [] \<Rightarrow> None | n # rest' \<Rightarrow> Some (n, rest'))
      else Some (a, rest))"

section \<open>Redirections\<close>

text \<open>The pattern \<^verbatim>\<open>>\s*\/dev\/([^\s;&|]+)\<close>.\<close>

definition devRedirectRe :: regex where
  "devRedirectRe = seq [Lit 0x3E, Star WS, lits ''/dev/'',
     Grp 1 (Plus (Cls True (ws_ranges @ [(0x3B, 0x3B), (0x26, 0x26), (0x7C, 0x7C)])))]"

definition pseudoDevRedirectOnly :: "string \<Rightarrow> bool" where
  "pseudoDevRedirectOnly cmd =
    (let matches = FindAllStringSubmatch devRedirectRe cmd
     in matches \<noteq> [] \<and>
        list_all (\<lambda>m. let dev = TrimSuffix (submatch m 1) ''/''
                      in dev \<in> set pseudoDevNames \<or> HasPrefix dev ''fd/'') matches)"

definition blank :: "char \<Rightarrow> bool" where
  "blank c \<longleftrightarrow> c = CHR '' '' \<or> c = CHR 0x09"

text \<open>The test at an unquoted \<open>>\<close>, with \<open>rest\<close> the bytes after it: does it write a file?\<close>

definition redirect_target :: "string \<Rightarrow> bool" where
  "redirect_target rest =
    (case dropWhile (\<lambda>c. c = CHR ''>'' \<or> blank c) rest of
       [] \<Rightarrow> False
     | d # ds \<Rightarrow>
         if d = CHR ''&'' then
           (case dropWhile blank ds of
              k # _ \<Rightarrow> \<not> (48 \<le> byte k \<and> byte k \<le> 57)
            | [] \<Rightarrow> True)
         else if d = CHR ''/'' then
           \<not> (HasPrefix (d # ds) ''/dev/'' \<and> pseudoDevRedirectOnly (CHR ''>'' # rest))
         else True)"

fun redirect_scan :: "bool \<Rightarrow> bool \<Rightarrow> bool \<Rightarrow> string \<Rightarrow> bool" where
  "redirect_scan inSingle inDouble esc [] = False"
| "redirect_scan inSingle inDouble esc (c # cs) =
     (if esc then redirect_scan inSingle inDouble False cs
      else if c = backslash then redirect_scan inSingle inDouble True cs
      else if c = CHR 0x27 \<and> \<not> inDouble then redirect_scan (\<not> inSingle) inDouble False cs
      else if c = CHR 0x22 \<and> \<not> inSingle then redirect_scan inSingle (\<not> inDouble) False cs
      else if c = CHR ''>'' \<and> \<not> inSingle \<and> \<not> inDouble then
        redirect_target cs \<or> redirect_scan inSingle inDouble False cs
      else redirect_scan inSingle inDouble False cs)"

definition hasFileRedirect :: "string \<Rightarrow> bool" where
  "hasFileRedirect seg = redirect_scan False False False seg"

section \<open>Flags\<close>

definition hasArg :: "string list \<Rightarrow> string list \<Rightarrow> bool" where
  "hasArg args names =
    list_ex (\<lambda>a. list_ex (\<lambda>n. a = n \<or> HasPrefix a (n @ ''='')
                              \<or> (length n = 2 \<and> HasPrefix a n \<and> length a > 2)) names) args"

definition isReadMethod :: "string \<Rightarrow> bool" where
  "isReadMethod m \<longleftrightarrow> ToUpper m \<in> {''GET'', ''HEAD'', ''OPTIONS'', ''TRACE''}"

definition curlWriteFlags :: "string list" where
  "curlWriteFlags =
    [''-o'', ''--output'', ''-O'', ''--remote-name'', ''--remote-name-all'', ''-d'', ''--data'',
     ''--data-raw'', ''--data-ascii'', ''--data-binary'', ''--data-urlencode'', ''-F'', ''--form'',
     ''-T'', ''--upload-file'', ''--cookie-jar'']"

definition flag_or_value :: "string list \<Rightarrow> string \<Rightarrow> bool" where
  "flag_or_value flags a = list_ex (\<lambda>f. a = f \<or> HasPrefix a (f @ ''='')) flags"

text \<open>\<^verbatim>\<open>len(a) > 2 && a[0] == '-' && a[1] != '-'\<close> and the first two bytes are one of the flags.\<close>

definition merged_short :: "string list \<Rightarrow> string \<Rightarrow> bool" where
  "merged_short flags a \<longleftrightarrow> length a > 2 \<and> a ! 0 = CHR ''-'' \<and> a ! 1 \<noteq> CHR ''-'' \<and> take 2 a \<in> set flags"

fun curlHasWrite :: "string list \<Rightarrow> bool" where
  "curlHasWrite [] = False"
| "curlHasWrite (a # rest) =
     (if flag_or_value curlWriteFlags a then True
      else if merged_short [''-o'', ''-O'', ''-d'', ''-F'', ''-T''] a then True
      else if a = ''-X'' \<or> a = ''--request'' then
        (case rest of [] \<Rightarrow> False | m # _ \<Rightarrow> if \<not> isReadMethod m then True else curlHasWrite rest)
      else if HasPrefix a ''-X'' \<and> length a > 2 then \<not> isReadMethod (drop 2 a)
      else if HasPrefix a ''--request='' then \<not> isReadMethod (drop 10 a)
      else curlHasWrite rest)"

definition wgetWriteFlags :: "string list" where
  "wgetWriteFlags =
    [''-O'', ''-o'', ''--output-document'', ''--output-file'', ''--post-data'', ''--post-file'',
     ''--save-headers'']"

definition wgetHasWrite :: "string list \<Rightarrow> bool" where
  "wgetHasWrite args =
    list_ex (\<lambda>a. flag_or_value wgetWriteFlags a \<or> merged_short [''-O'', ''-o''] a) args"

definition gitReadonly :: "string list \<Rightarrow> bool" where
  "gitReadonly args = (case args of [] \<Rightarrow> False | a # _ \<Rightarrow> a \<in> set gitReadonlySubs)"

definition goReadonly :: "string list \<Rightarrow> bool" where
  "goReadonly args = (case args of [] \<Rightarrow> False | a # _ \<Rightarrow> a \<in> set goReadonlySubs)"

definition validateFlags :: "string \<Rightarrow> string list \<Rightarrow> bool" where
  "validateFlags base args =
    (if base = ''sed'' \<or> base = ''awk'' then \<not> hasArg args [''-i'', ''--in-place'']
     else if base = ''find'' then \<not> hasArg args [''-delete'', ''-exec'', ''-execdir'', ''-ok'']
     else if base = ''curl'' then \<not> curlHasWrite args
     else if base = ''wget'' then \<not> wgetHasWrite args
     else if base = ''git'' then gitReadonly args
     else if base = ''go'' then goReadonly args
     else True)"

section \<open>Classification\<close>

text \<open>The lookup \<^verbatim>\<open>extra[k]\<close> in the map of declared commands; a missing key is \<open>False\<close>.\<close>

definition extra_has :: "(string \<times> bool) list \<Rightarrow> string \<Rightarrow> bool" where
  "extra_has extra k = (map_of extra k = Some True)"

definition declaredBase :: "(string \<times> bool) list \<Rightarrow> string \<Rightarrow> bool" where
  "declaredBase extra base =
    list_ex (\<lambda>k. k = base \<or> HasPrefix k (base @ '' '')) (map fst extra)"

definition msg_write_args :: "string \<Rightarrow> string" where
  "msg_write_args base = base @ (utf8 [0x20, 0x5E26, 0x5199, 0x64CD, 0x4F5C, 0x53C2, 0x6570])"

definition msg_undeclared :: "string \<Rightarrow> string \<Rightarrow> string" where
  "msg_undeclared base sub = base @ '' '' @ sub @ (utf8 [0x20, 0x672A, 0x5728, 0x20, 0x73, 0x61, 0x66, 0x65, 0x5F, 0x63, 0x6F, 0x6D, 0x6D, 0x61, 0x6E, 0x64, 0x73, 0x20, 0x4E2D, 0x58F0, 0x660E])"

definition classifyCommand ::
  "string \<Rightarrow> string list \<Rightarrow> (string \<times> bool) list \<Rightarrow> safeVerdict \<times> string" where
  "classifyCommand base args extra =
    (let declared = (extra_has extra base \<or>
                     (args \<noteq> [] \<and> extra_has extra (base @ '' '' @ hd args))) in
     if declared then
       (if base \<in> set flagCheckCmds then
          (if validateFlags base args then (verdictSafe, []) else (verdictUnsafe, msg_write_args base))
        else (verdictSafe, []))
     else if base \<in> set safeReadonlyCmds then (verdictSafe, [])
     else if base \<in> set flagCheckCmds then
       (if validateFlags base args then (verdictSafe, []) else (verdictUnsafe, msg_write_args base))
     else if args \<noteq> [] \<and> declaredBase extra base then (verdictUnsafe, msg_undeclared base (hd args))
     else (verdictUnknown, []))"

definition classifySegment :: "string \<Rightarrow> (string \<times> bool) list \<Rightarrow> safeVerdict \<times> string" where
  "classifySegment seg extra =
    (case splitMain seg of
       None \<Rightarrow> (verdictUnknown, [])
     | Some (name, args) \<Rightarrow>
         if Base name = ''env'' then
           (case envResolve args of
              None \<Rightarrow> (verdictUnknown, [])
            | Some (realName, realArgs) \<Rightarrow> classifyCommand (Base realName) realArgs extra)
         else classifyCommand (Base name) args extra)"

definition msg_redirect :: string where
  "msg_redirect = (utf8 [0x8F93, 0x51FA, 0x91CD, 0x5B9A, 0x5411, 0x5230, 0x6587, 0x4EF6])"

fun classify_segs :: "string list \<Rightarrow> (string \<times> bool) list \<Rightarrow> safeVerdict \<times> string" where
  "classify_segs [] extra = (verdictSafe, [])"
| "classify_segs (seg # segs) extra =
     (if hasFileRedirect seg then (verdictUnsafe, msg_redirect)
      else (case classifySegment seg extra of
              (v, reason) \<Rightarrow> if v \<noteq> verdictSafe then (v, reason) else classify_segs segs extra))"

definition classifyCmd :: "string \<Rightarrow> (string \<times> bool) list \<Rightarrow> safeVerdict \<times> string" where
  "classifyCmd cmd extra =
    (case splitShellSegments cmd of
       [] \<Rightarrow> (verdictUnknown, [])
     | segs \<Rightarrow> classify_segs segs extra)"

lemmas [sandbox_defs] =
  split_init_def split_flush_def split_write_def split_step_def split_run_def
  splitShellSegments_def splitMain_def pseudoDevRedirectOnly_def blank_def redirect_target_def
  hasFileRedirect_def hasArg_def isReadMethod_def flag_or_value_def merged_short_def
  wgetHasWrite_def gitReadonly_def goReadonly_def validateFlags_def extra_has_def declaredBase_def
  classifyCommand_def classifySegment_def classifyCmd_def

section \<open>The shape of the segments\<close>

lemma split_step_segs:
  assumes "[] \<notin> set (sp_segs st)"
  shows "[] \<notin> set (sp_segs (split_step st r))"
  using assms by (simp add: split_step_def split_flush_def split_write_def Let_def)

lemma split_run_segs: "[] \<notin> set (sp_segs st) \<Longrightarrow> [] \<notin> set (sp_segs (split_run st cmd))"
  unfolding split_run_def
  by (rule foldl_keeps [where P = "\<lambda>st. [] \<notin> set (sp_segs st)"]) (simp_all add: split_step_segs)

lemma splitShellSegments_no_empty: "[] \<notin> set (splitShellSegments cmd)"
proof -
  have "[] \<notin> set (sp_segs (split_run split_init cmd))"
    by (rule split_run_segs) (simp add: split_init_def)
  then show ?thesis by (simp add: splitShellSegments_def split_flush_def Let_def)
qed

section \<open>Splitting at a separator\<close>

text \<open>
  Two states that differ only in the segments already collected and in the last rune read, as long
  as both or neither of those runes open a redirection, cut the rest of the command alike.
\<close>

definition redir_rune :: "rune \<Rightarrow> bool" where
  "redir_rune r \<longleftrightarrow> r = 0x3E \<or> r = 0x3C"

definition split_sim :: "string list \<Rightarrow> split_state \<Rightarrow> split_state \<Rightarrow> bool" where
  "split_sim pre a b \<longleftrightarrow>
     sp_segs a = pre @ sp_segs b \<and> sp_cur a = sp_cur b \<and> sp_inSingle a = sp_inSingle b \<and>
     sp_inDouble a = sp_inDouble b \<and> sp_esc a = sp_esc b \<and>
     redir_rune (sp_last a) = redir_rune (sp_last b)"

lemma split_sim_flush: "split_sim pre a b \<Longrightarrow> split_sim pre (split_flush a) (split_flush b)"
  by (simp add: split_sim_def split_flush_def Let_def)

lemma split_sim_step: "split_sim pre a b \<Longrightarrow> split_sim pre (split_step a r) (split_step b r)"
proof -
  assume sim: "split_sim pre a b"
  then have q: "sp_inSingle a = sp_inSingle b" "sp_inDouble a = sp_inDouble b" "sp_esc a = sp_esc b"
    and l: "(sp_last a = 0x3E \<or> sp_last a = 0x3C) \<longleftrightarrow> (sp_last b = 0x3E \<or> sp_last b = 0x3C)"
    by (simp_all add: split_sim_def redir_rune_def)
  have w: "split_sim pre (split_write r a) (split_write r b)"
    using sim by (simp add: split_sim_def split_write_def)
  show ?thesis
    using sim w split_sim_flush [OF sim] q l
    by (auto simp: split_step_def Let_def split_sim_def split_write_def redir_rune_def)
qed

lemma split_sim_run: "split_sim pre a b \<Longrightarrow> split_sim pre (split_run a cmd) (split_run b cmd)"
proof -
  have "split_sim pre a b \<Longrightarrow> split_sim pre (foldl split_step a rs) (foldl split_step b rs)" for a b rs
    by (induction rs arbitrary: a b) (simp_all add: split_sim_step)
  then show "split_sim pre a b \<Longrightarrow> ?thesis" by (simp add: split_run_def)
qed

definition separators :: "char list" where
  "separators = [newline, CHR 0x0D, CHR ''|'', CHR '';'']"

text \<open>
  The state in which a separator ends the segment: no open quote, no pending backslash, and no
  redirection sign as the last rune.
\<close>

definition split_closed :: "string \<Rightarrow> bool" where
  "split_closed cmd \<longleftrightarrow>
    (let st = split_run split_init cmd in
     \<not> sp_inSingle st \<and> \<not> sp_inDouble st \<and> \<not> sp_esc st \<and> \<not> redir_rune (sp_last st))"

lemma split_run_append_ascii:
  assumes "byte c < 0x80"
  shows "split_run st (a @ c # b) = split_run (split_step (split_run st a) (byte c)) b"
proof -
  from assms have "\<not> cont_byte c" by (simp add: cont_byte_def)
  then have "runes (a @ c # b) = runes a @ runes (c # b)" by (rule runes_append)
  then show ?thesis
    using assms by (simp add: split_run_def runes_Cons_ascii del: runes.simps)
qed

lemma split_at_separator:
  assumes "split_closed a" and "c \<in> set separators"
  shows "splitShellSegments (a @ c # b) = splitShellSegments a @ splitShellSegments b"
proof -
  let ?sa = "split_run split_init a"
  from assms(2) have c: "byte c < 0x80" by (auto simp: separators_def)
  have step: "split_step ?sa (byte c) = split_flush ?sa"
    using assms by (auto simp: split_closed_def separators_def split_step_def Let_def)
  have "split_sim (splitShellSegments a) (split_flush ?sa) split_init"
    using assms(1) by (simp add: split_sim_def splitShellSegments_def split_init_def split_flush_def
        split_closed_def redir_rune_def Let_def)
  then have "split_sim (splitShellSegments a) (split_flush (split_run (split_flush ?sa) b))
               (split_flush (split_run split_init b))"
    by (intro split_sim_flush split_sim_run)
  then show ?thesis
    by (simp add: splitShellSegments_def split_run_append_ascii [OF c] step split_sim_def)
qed

section \<open>What the safe verdict means\<close>

lemma classify_segs_safe:
  "fst (classify_segs segs extra) = verdictSafe \<longleftrightarrow>
   (\<forall>seg \<in> set segs. \<not> hasFileRedirect seg \<and> fst (classifySegment seg extra) = verdictSafe)"
  by (induction segs) (auto split: prod.split)

lemma classifyCmd_safe:
  "fst (classifyCmd cmd extra) = verdictSafe \<longleftrightarrow>
   splitShellSegments cmd \<noteq> [] \<and>
   (\<forall>seg \<in> set (splitShellSegments cmd).
      \<not> hasFileRedirect seg \<and> fst (classifySegment seg extra) = verdictSafe)"
  unfolding classifyCmd_def
  by (cases "splitShellSegments cmd") (simp_all add: classify_segs_safe del: classify_segs.simps)

text \<open>The program that a segment runs, with \<^verbatim>\<open>env\<close> resolved.\<close>

definition resolved :: "string \<Rightarrow> (string \<times> string list) option" where
  "resolved seg =
    (case splitMain seg of
       None \<Rightarrow> None
     | Some (name, args) \<Rightarrow>
         if Base name = ''env'' then map_option (\<lambda>(n, as). (Base n, as)) (envResolve args)
         else Some (Base name, args))"

lemma classifySegment_resolved:
  "classifySegment seg extra =
    (case resolved seg of None \<Rightarrow> (verdictUnknown, [])
                        | Some (base, args) \<Rightarrow> classifyCommand base args extra)"
  by (simp add: classifySegment_def resolved_def split: option.split prod.split)

definition declared_cmd :: "(string \<times> bool) list \<Rightarrow> string \<Rightarrow> string list \<Rightarrow> bool" where
  "declared_cmd extra base args \<longleftrightarrow>
     extra_has extra base \<or> (args \<noteq> [] \<and> extra_has extra (base @ '' '' @ hd args))"

lemma classifyCommand_safe:
  "fst (classifyCommand base args extra) = verdictSafe \<longleftrightarrow>
     (if base \<in> set flagCheckCmds then validateFlags base args
      else base \<in> set safeReadonlyCmds \<or> declared_cmd extra base args)"
proof -
  have "set flagCheckCmds \<inter> set safeReadonlyCmds = {}"
    by (simp add: flagCheckCmds_def safeReadonlyCmds_def)
  then show ?thesis
    by (auto simp: classifyCommand_def declared_cmd_def Let_def)
qed

text \<open>Adding declared commands never turns a safe command into one that is not.\<close>

lemma classifyCommand_mono:
  assumes "\<And>k. extra_has e1 k \<Longrightarrow> extra_has e2 k"
    and "fst (classifyCommand base args e1) = verdictSafe"
  shows "fst (classifyCommand base args e2) = verdictSafe"
  using assms by (auto simp: classifyCommand_safe declared_cmd_def split: if_splits)

end
