(* ===== verification/Sandbox_Assess.thy ===== *)
theory Sandbox_Assess
  imports Sandbox_Shell
begin

text \<open>
  Risk assessment: the default pattern tables of \<^verbatim>\<open>src/ai-sandbox/defaults.go\<close>, the injection checks of
  \<^verbatim>\<open>normalize.go\<close>, \<open>hasWriteOps\<close> of \<^verbatim>\<open>config.go\<close> and \<open>Assess\<close> with its helpers from \<^verbatim>\<open>assess.go\<close>, in the order
  of detection of the source. The lemmas show that the order only raises a risk, that a denylist
  hit is a hard denial whatever else the command contains, and that a command the classifier does
  not know is never rated below medium.
\<close>

section \<open>Default patterns\<close>

text \<open>The source text of a pattern, with \<open>~\<close> for the backslash of the Go raw string.\<close>

definition re_src :: "string \<Rightarrow> string" where
  "re_src s = map (\<lambda>c. if c = CHR ''~'' then backslash else c) s"

definition builtinDevWritePattern :: string where
  "builtinDevWritePattern = re_src ''>~s*/dev/''"

text \<open>The default patterns, each with the expression it denotes.\<close>

definition DefaultDeniedPatterns :: "(string \<times> regex) list" where
  "DefaultDeniedPatterns =
    [(re_src ''rm~s+(-rf?~s+)?/~s*$'',
      seq [lits ''rm'', Plus WS, Opt (Grp 1 (seq [lits ''-r'', Opt (lits ''f''), Plus WS])),
           lits ''/'', Star WS, EndText]),
     (re_src '':~(~)~s*~{'', seq [lits '':()'', Star WS, lits ''{'']),
     (re_src ''dd~s+if='', seq [lits ''dd'', Plus WS, lits ''if='']),
     (re_src ''mkfs~.'', lits ''mkfs.''),
     (builtinDevWritePattern, seq [lits ''>'', Star WS, lits ''/dev/'']),
     (re_src ''chmod~s+777~s+/'', seq [lits ''chmod'', Plus WS, lits ''777'', Plus WS, lits ''/'']),
     (re_src ''wget~s+.*~|~s*(bash|sh)'',
      seq [lits ''wget'', Plus WS, Star Dot, lits ''|'', Star WS, Grp 1 (Alt (lits ''bash'') (lits ''sh''))]),
     (re_src ''curl~s+.*~|~s*(bash|sh)'',
      seq [lits ''curl'', Plus WS, Star Dot, lits ''|'', Star WS, Grp 1 (Alt (lits ''bash'') (lits ''sh''))]),
     (re_src ''eval~s*~$~('', seq [lits ''eval'', Star WS, lits ''$('']),
     (re_src ''~|~s*sh~s*$'', seq [lits ''|'', Star WS, lits ''sh'', Star WS, EndText])]"

definition DefaultRiskyPatterns :: "(string \<times> regex) list" where
  "DefaultRiskyPatterns =
    [(re_src ''rm~s+'', seq [lits ''rm'', Plus WS]),
     (re_src ''mv~s+'', seq [lits ''mv'', Plus WS]),
     (re_src ''dd~s+'', seq [lits ''dd'', Plus WS]),
     (re_src ''>~s+~S'', seq [lits ''>'', Plus WS, NonWS]),
     (re_src ''>>~s+~S'', seq [lits ''>>'', Plus WS, NonWS]),
     (re_src ''~|'', lits ''|''),
     (re_src ''sudo~s+'', seq [lits ''sudo'', Plus WS]),
     (re_src ''chmod~s+'', seq [lits ''chmod'', Plus WS]),
     (re_src ''chown~s+'', seq [lits ''chown'', Plus WS]),
     (re_src ''kill~s+'', seq [lits ''kill'', Plus WS]),
     (re_src ''shutdown'', lits ''shutdown''),
     (re_src ''reboot'', lits ''reboot''),
     (re_src ''init~s+0'', seq [lits ''init'', Plus WS, lits ''0'']),
     (re_src ''init~s+6'', seq [lits ''init'', Plus WS, lits ''6''])]"

definition riskPatternDesc :: "(string \<times> string) list" where
  "riskPatternDesc =
    [(re_src ''rm~s+'', (utf8 [0x5220, 0x9664, 0x6587, 0x4EF6, 0x2F, 0x76EE, 0x5F55])),
     (re_src ''mv~s+'', (utf8 [0x79FB, 0x52A8, 0x2F, 0x91CD, 0x547D, 0x540D, 0x6587, 0x4EF6])),
     (re_src ''dd~s+'', (utf8 [0x78C1, 0x76D8, 0x76F4, 0x63A5, 0x8BFB, 0x5199, 0xFF08, 0x5371, 0x9669, 0xFF09])),
     (re_src ''>~s+~S'', (utf8 [0x8F93, 0x51FA, 0x91CD, 0x5B9A, 0x5411, 0x5230, 0x6587, 0x4EF6])),
     (re_src ''>>~s+~S'', (utf8 [0x8FFD, 0x52A0, 0x91CD, 0x5B9A, 0x5411, 0x5230, 0x6587, 0x4EF6])),
     (re_src ''~|'', (utf8 [0x7BA1, 0x9053, 0x94FE, 0x5F0F, 0x6267, 0x884C])),
     (re_src ''sudo~s+'', (utf8 [0x63D0, 0x6743, 0xFF08, 0x72, 0x6F, 0x6F, 0x74, 0x20, 0x6743, 0x9650, 0xFF09])),
     (re_src ''chmod~s+'', (utf8 [0x6539, 0x53D8, 0x6587, 0x4EF6, 0x6743, 0x9650])),
     (re_src ''chown~s+'', (utf8 [0x6539, 0x53D8, 0x6587, 0x4EF6, 0x6240, 0x6709, 0x8005])),
     (re_src ''kill~s+'', (utf8 [0x6740, 0x6B7B, 0x8FDB, 0x7A0B])),
     (re_src ''shutdown'', (utf8 [0x5173, 0x673A])),
     (re_src ''reboot'', (utf8 [0x91CD, 0x542F])),
     (re_src ''init~s+0'', (utf8 [0x5173, 0x673A])),
     (re_src ''init~s+6'', (utf8 [0x91CD, 0x542F]))]"

definition PatternDesc :: "string \<Rightarrow> string" where
  "PatternDesc pat = (case map_of riskPatternDesc pat of Some d \<Rightarrow> d | None \<Rightarrow> pat)"

definition riskPatternLevel :: "(string \<times> RiskLevel) list" where
  "riskPatternLevel =
    [(re_src ''rm~s+'', RiskElevated), (re_src ''mv~s+'', RiskElevated),
     (re_src ''dd~s+'', RiskElevated), (re_src ''>~s+~S'', RiskMedium),
     (re_src ''>>~s+~S'', RiskMedium), (re_src ''~|'', RiskMedium),
     (re_src ''sudo~s+'', RiskHigh), (re_src ''chmod~s+'', RiskHigh),
     (re_src ''chown~s+'', RiskHigh), (re_src ''kill~s+'', RiskHigh),
     (re_src ''shutdown'', RiskHigh), (re_src ''reboot'', RiskHigh),
     (re_src ''init~s+0'', RiskHigh), (re_src ''init~s+6'', RiskHigh)]"

definition riskPatternEffects :: "(string \<times> effects) list" where
  "riskPatternEffects =
    [(re_src ''rm~s+'', EffectDestructive), (re_src ''mv~s+'', EffectFileWrite),
     (re_src ''dd~s+'', EffectDestructive), (re_src ''>~s+~S'', EffectFileWrite),
     (re_src ''>>~s+~S'', EffectFileWrite), (re_src ''~|'', 0),
     (re_src ''sudo~s+'', EffectPrivileged), (re_src ''chmod~s+'', EffectPrivileged),
     (re_src ''chown~s+'', EffectPrivileged), (re_src ''kill~s+'', EffectProcessSpawn),
     (re_src ''shutdown'', EffectProcessSpawn), (re_src ''reboot'', EffectProcessSpawn),
     (re_src ''init~s+0'', EffectProcessSpawn), (re_src ''init~s+6'', EffectProcessSpawn)]"

text \<open>A lookup in a Go map: a missing key gives the zero value.\<close>

definition lookup0 :: "(string \<times> 'v::zero) list \<Rightarrow> string \<Rightarrow> 'v" where
  "lookup0 m k = (case map_of m k of Some v \<Rightarrow> v | None \<Rightarrow> 0)"

definition isBuiltinDevWritePattern :: "Regexp \<Rightarrow> bool" where
  "isBuiltinDevWritePattern p \<longleftrightarrow> re_source p = builtinDevWritePattern"

section \<open>Injection\<close>

definition interpreterCmds :: "string list" where
  "interpreterCmds =
    [''bash'', ''sh'', ''zsh'', ''ksh'', ''dash'', ''python'', ''python2'', ''python3'', ''perl'', ''ruby'',
     ''node'', ''php'', ''lua'']"

definition dangerousSubMarkers :: "string list" where
  "dangerousSubMarkers =
    [''rm '', ''mv '', ''dd '', ''sudo '', ''chmod '', ''chown '', ''kill '', ''pkill '', ''mkfs'',
     ''>>'', ''> '', ''|'', ''sh '', ''bash'', ''curl'', ''wget'', ''eval'', ''python -c'', ''perl -e'',
     ''reboot'', ''shutdown'']"

definition subshellRe :: regex where
  "subshellRe =
    Alt (seq [lits ''$('', Grp 1 (Star (Cls True [(0x29, 0x29)])), lits '')''])
        (seq [Lit 0x60, Grp 2 (Star (Cls True [(0x60, 0x60)])), Lit 0x60])"

definition hasExecFlag :: "string list \<Rightarrow> string list \<Rightarrow> bool" where
  "hasExecFlag args flags = list_ex (\<lambda>a. list_ex (\<lambda>f. a = f) flags) args"

definition evalCommand :: "string \<Rightarrow> (RiskLevel \<times> effects) option" where
  "evalCommand cmd =
    (case splitShellSegments cmd of
       [] \<Rightarrow> None
     | seg # _ \<Rightarrow>
         (case splitMain seg of
            None \<Rightarrow> None
          | Some (name, _) \<Rightarrow> if Base name = ''eval'' then Some (RiskHigh, EffectCodeExecution) else None))"

fun drop_single_quoted :: "bool \<Rightarrow> string \<Rightarrow> string" where
  "drop_single_quoted inSingle [] = []"
| "drop_single_quoted inSingle (c # cs) =
     (if c = CHR 0x27 then drop_single_quoted (\<not> inSingle) cs
      else if \<not> inSingle then c # drop_single_quoted inSingle cs
      else drop_single_quoted inSingle cs)"

definition extractSubshellCode :: "string \<Rightarrow> string" where
  "extractSubshellCode cmd =
    (case FindStringSubmatch subshellRe (drop_single_quoted False cmd) of
       None \<Rightarrow> []
     | Some m \<Rightarrow> if submatch m 1 \<noteq> [] then submatch m 1 else submatch m 2)"

definition containsDanger :: "string \<Rightarrow> bool" where
  "containsDanger code = list_ex (\<lambda>m. Contains code m) dangerousSubMarkers"

fun heredoc_scan :: "bool \<Rightarrow> bool \<Rightarrow> bool \<Rightarrow> string \<Rightarrow> bool" where
  "heredoc_scan inSingle inDouble esc [] = False"
| "heredoc_scan inSingle inDouble esc (c # cs) =
     (if esc then heredoc_scan inSingle inDouble False cs
      else if c = backslash then heredoc_scan inSingle inDouble True cs
      else if c = CHR 0x27 \<and> \<not> inDouble then heredoc_scan (\<not> inSingle) inDouble False cs
      else if c = CHR 0x22 \<and> \<not> inSingle then heredoc_scan inSingle (\<not> inDouble) False cs
      else if c = CHR ''<'' \<and> \<not> inSingle \<and> \<not> inDouble \<and> HasPrefix cs ''<'' then True
      else heredoc_scan inSingle inDouble False cs)"

definition hasHeredoc :: "string \<Rightarrow> bool" where
  "hasHeredoc cmd = heredoc_scan False False False cmd"

definition interpreter_exec :: "string \<Rightarrow> bool" where
  "interpreter_exec seg =
    (case splitMain seg of
       None \<Rightarrow> False
     | Some (name, args) \<Rightarrow>
         Base name \<in> set interpreterCmds \<and> hasExecFlag args [''-c'', ''-e'', ''--command''])"

definition assessInjection :: "string \<Rightarrow> (RiskLevel \<times> effects) option" where
  "assessInjection cmd =
    (if list_ex interpreter_exec (splitShellSegments cmd) then Some (RiskHigh, EffectCodeExecution)
     else (case evalCommand cmd of
             Some r \<Rightarrow> Some r
           | None \<Rightarrow>
               if extractSubshellCode cmd \<noteq> [] \<and> containsDanger (extractSubshellCode cmd)
               then Some (RiskHigh, Add EffectCodeExecution [EffectProcessSpawn])
               else if hasHeredoc cmd then Some (RiskMedium, Add EffectFileWrite [EffectProcessSpawn])
               else None))"

section \<open>Assessment\<close>

definition writeCommandLevels :: "(string \<times> (RiskLevel \<times> effects)) list" where
  "writeCommandLevels =
    [(''rm'', RiskElevated, EffectDestructive), (''mv'', RiskElevated, EffectFileWrite),
     (''dd'', RiskElevated, EffectDestructive), (''cp'', RiskMedium, EffectFileWrite),
     (''touch'', RiskMedium, EffectFileWrite), (''mkdir'', RiskMedium, EffectFileWrite),
     (''rmdir'', RiskMedium, EffectFileWrite), (''ln'', RiskMedium, EffectFileWrite),
     (''tee'', RiskMedium, EffectFileWrite), (''truncate'', RiskMedium, EffectFileWrite),
     (''chmod'', RiskHigh, EffectPrivileged), (''chown'', RiskHigh, EffectPrivileged),
     (''kill'', RiskHigh, EffectProcessSpawn), (''pkill'', RiskHigh, EffectProcessSpawn),
     (''killall'', RiskHigh, EffectProcessSpawn), (''mkfs'', RiskCritical, EffectDestructive),
     (''shutdown'', RiskHigh, EffectProcessSpawn), (''reboot'', RiskHigh, EffectProcessSpawn)]"

definition readNetworkCmds :: "string list" where
  "readNetworkCmds = [''curl'', ''wget'']"

definition assessReadEffects :: "string \<Rightarrow> effects" where
  "assessReadEffects cmd =
    foldl (\<lambda>e seg. case splitMain seg of
                     None \<Rightarrow> e
                   | Some (name, _) \<Rightarrow>
                       if Base name \<in> set readNetworkCmds then Add e [EffectNetwork] else e)
      EffectFileRead (splitShellSegments cmd)"

definition curlSavesFile :: "string list \<Rightarrow> bool" where
  "curlSavesFile args =
    list_ex (\<lambda>a. a \<in> {''-o'', ''--output'', ''-O'', ''--remote-name'', ''--remote-name-all'', ''-T'',
                       ''--upload-file''}
                 \<or> HasPrefix a ''--output='' \<or> HasPrefix a ''--upload-file=''
                 \<or> merged_short [''-o'', ''-O'', ''-T''] a) args"

definition wgetSavesFile :: "string list \<Rightarrow> bool" where
  "wgetSavesFile args =
    list_ex (\<lambda>a. a = ''-O'' \<or> a = ''--output-document'' \<or> HasPrefix a ''--output-document=''
                 \<or> merged_short [''-O''] a) args"

text \<open>The body of the loop over the segments in \<open>assessUnsafe\<close>, on the level and the effects.\<close>

definition unsafe_seg :: "RiskLevel \<times> effects \<Rightarrow> string \<Rightarrow> RiskLevel \<times> effects" where
  "unsafe_seg st seg =
    (case splitMain seg of
       None \<Rightarrow> st
     | Some (name, args) \<Rightarrow>
         let base = Base name;
             (level, effects) =
               (case map_of writeCommandLevels base of
                  None \<Rightarrow> st
                | Some (l, e) \<Rightarrow> (if l > fst st then l else fst st, snd st OR e)) in
         if base = ''curl'' then
           (level, if curlHasWrite args
                   then (if curlSavesFile args then Add (Add effects [EffectNetwork]) [EffectFileWrite]
                         else Add effects [EffectNetwork])
                   else effects)
         else if base = ''wget'' then
           (level, if wgetHasWrite args
                   then (if wgetSavesFile args then Add (Add effects [EffectNetwork]) [EffectFileWrite]
                         else Add effects [EffectNetwork])
                   else effects)
         else if base = ''sed'' \<or> base = ''awk'' then
           (level, if hasArg args [''-i'', ''--in-place''] then Add effects [EffectFileWrite] else effects)
         else if base = ''git'' then
           (if hasArg args [''--force'', ''-f'', ''--force-with-lease'']
            then (maxLevel (maxLevel level RiskElevated) RiskMedium,
                  effects OR Add (Add EffectNetwork [EffectFileWrite]) [EffectDestructive])
            else (maxLevel level RiskMedium, effects OR Add EffectNetwork [EffectFileWrite]))
         else (level, effects))"

definition mk_ra ::
  "RiskLevel \<Rightarrow> effects \<Rightarrow> Reason list \<Rightarrow> Source \<Rightarrow> nat \<Rightarrow> bool \<Rightarrow> RiskAssessment" where
  "mk_ra level eff reasons src conf hard =
    \<lparr>ra_Level = level, ra_Effects = eff, ra_Reasons = reasons, ra_Source = src,
     ra_Confidence = conf, ra_HardDeny = hard\<rparr>"

definition assessUnsafe :: "string \<Rightarrow> RiskAssessment" where
  "assessUnsafe cmd =
    (let effects = (if hasFileRedirect cmd then Add 0 [EffectFileWrite] else 0);
         (level, effects) = foldl unsafe_seg (RiskMedium, effects) (splitShellSegments cmd)
     in mk_ra level effects [mk_reason ''unsafe_args'' [] (utf8 [0x547D, 0x4EE4, 0x5E26, 0x5199, 0x64CD, 0x4F5C, 0x53C2, 0x6570])] SourceClassifier 1 False)"

fun first_write :: "string list \<Rightarrow> (RiskLevel \<times> effects) option" where
  "first_write [] = None"
| "first_write (seg # segs) =
     (case splitMain seg of
        None \<Rightarrow> first_write segs
      | Some (name, _) \<Rightarrow>
          (case map_of writeCommandLevels (Base name) of
             Some w \<Rightarrow> Some w
           | None \<Rightarrow> first_write segs))"

definition assessWriteCommand :: "string \<Rightarrow> (RiskLevel \<times> effects) option" where
  "assessWriteCommand cmd = first_write (splitShellSegments cmd)"

definition writeOpPatterns :: "regex list" where
  "writeOpPatterns =
    [seq [lits ''>'', Plus WS], seq [lits ''dd'', Plus WS], lits ''mkfs.'', seq [lits ''rm'', Plus WS],
     seq [lits ''mv'', Plus WS], seq [lits ''chmod'', Plus WS], seq [lits ''chown'', Plus WS],
     seq [lits ''touch'', Plus WS], seq [lits ''ln'', Plus WS], seq [lits ''cp'', Plus WS]]"

definition hasWriteOps :: "string \<Rightarrow> bool" where
  "hasWriteOps cmd = list_ex (\<lambda>p. MatchString p cmd) writeOpPatterns"

definition assessRiskyPattern :: "string \<Rightarrow> Config \<Rightarrow> (RiskLevel \<times> effects \<times> string) option" where
  "assessRiskyPattern cmd cfg =
    (case find (\<lambda>p. re_match p cmd) (RiskyPatterns cfg) of
       None \<Rightarrow> None
     | Some p \<Rightarrow>
         let lv = lookup0 riskPatternLevel (re_source p)
         in Some (if lv = 0 then RiskMedium else lv, lookup0 riskPatternEffects (re_source p),
                  re_source p))"

text \<open>The first denylist pattern that matches and is not exempt.\<close>

definition denied_by :: "string \<Rightarrow> Config \<Rightarrow> Regexp option" where
  "denied_by cmd cfg =
    find (\<lambda>p. re_match p cmd \<and> \<not> (isBuiltinDevWritePattern p \<and> pseudoDevRedirectOnly cmd))
      (DeniedPatterns cfg)"

definition Assess :: "string \<Rightarrow> Config option \<Rightarrow> RiskAssessment" where
  "Assess cmd ocfg =
    (case ocfg of
       None \<Rightarrow> mk_ra RiskBenign 0 [] SourceBypass 1 False
     | Some cfg \<Rightarrow>
         if Mode cfg = ModeOff then mk_ra RiskBenign 0 [] SourceBypass 1 False
         else (case denied_by cmd cfg of
           Some p \<Rightarrow>
             mk_ra RiskCritical (Add EffectDestructive [EffectCodeExecution])
               [mk_reason ''deny_pattern'' (re_source p) (utf8 [0x62D2, 0x7EDD, 0x6267, 0x884C, 0x7684, 0x5371, 0x9669, 0x547D, 0x4EE4])] SourceRule 1 True
         | None \<Rightarrow> (case assessInjection cmd of
           Some (lv, eff) \<Rightarrow>
             mk_ra lv eff [mk_reason ''injection'' [] (utf8 [0x68C0, 0x6D4B, 0x5230, 0x547D, 0x4EE4, 0x6CE8, 0x5165, 0x5411, 0x91CF])] SourceHeuristic 1 False
         | None \<Rightarrow> (case classifyCmd cmd (SafeCommands cfg) of
           (verdictSafe, reason) \<Rightarrow>
             mk_ra RiskLow (assessReadEffects cmd) [mk_reason ''safe_readonly'' [] reason]
               SourceClassifier 1 False
         | (verdictUnsafe, _) \<Rightarrow> assessUnsafe cmd
         | (verdictUnknown, _) \<Rightarrow> (case assessWriteCommand cmd of
             Some (lv, eff) \<Rightarrow>
               mk_ra lv eff [mk_reason ''write_command'' [] (utf8 [0x5199, 0x64CD, 0x4F5C, 0x547D, 0x4EE4])] SourceHeuristic 1 False
           | None \<Rightarrow>
               if ReadOnly cfg \<and> hasWriteOps cmd then
                 mk_ra RiskMedium EffectFileWrite
                   [mk_reason ''write_op'' [] (utf8 [0x53EA, 0x8BFB, 0x6A21, 0x5F0F, 0x68C0, 0x6D4B, 0x5230, 0x5199, 0x64CD, 0x4F5C])] SourceHeuristic 1 False
               else (case assessRiskyPattern cmd cfg of
                 Some (lv, eff, pat) \<Rightarrow>
                   mk_ra lv eff [mk_reason ''risky_pattern'' pat (PatternDesc pat)] SourceRule 1 False
               | None \<Rightarrow>
                   mk_ra RiskUnclassified 0
                     [mk_reason ''unclassified'' [] (utf8 [0x65E0, 0x6CD5, 0x5206, 0x7C7B, 0x7684, 0x547D, 0x4EE4, 0xFF0C, 0x9ED8, 0x8BA4, 0x4E0D, 0x4FE1, 0x4EFB])]
                     SourceUnclassified 0 False))))))"

lemmas [sandbox_defs] =
  re_src_def PatternDesc_def lookup0_def isBuiltinDevWritePattern_def hasExecFlag_def
  evalCommand_def extractSubshellCode_def containsDanger_def hasHeredoc_def interpreter_exec_def
  assessInjection_def assessReadEffects_def curlSavesFile_def wgetSavesFile_def unsafe_seg_def
  mk_ra_def assessUnsafe_def assessWriteCommand_def hasWriteOps_def assessRiskyPattern_def
  denied_by_def Assess_def

section \<open>Levels that an assessment can have\<close>

abbreviation active :: "Config \<Rightarrow> bool" where
  "active cfg \<equiv> Mode cfg \<noteq> ModeOff"

lemma unsafe_seg_level: "fst st \<le> fst (unsafe_seg st seg)"
  by (auto simp: unsafe_seg_def maxLevel_def Let_def split: option.split prod.split)

lemma unsafe_seg_effects: "Has (snd st) f \<Longrightarrow> Has (snd (unsafe_seg st seg)) f"
  by (auto simp: unsafe_seg_def Let_def split: option.split prod.split)

lemma foldl_unsafe_level: "fst st \<le> fst (foldl unsafe_seg st segs)"
  by (rule foldl_keeps) (auto intro: order_trans [OF _ unsafe_seg_level])

lemma foldl_unsafe_effects: "Has (snd st) f \<Longrightarrow> Has (snd (foldl unsafe_seg st segs)) f"
  by (rule foldl_keeps [where P = "\<lambda>st. Has (snd st) f"]) (auto intro: unsafe_seg_effects)

lemma assessUnsafe_level: "RiskMedium \<le> ra_Level (assessUnsafe cmd)"
proof -
  let ?e = "if hasFileRedirect cmd then Add 0 [EffectFileWrite] else 0"
  have "RiskMedium \<le> fst (foldl unsafe_seg (RiskMedium, ?e) (splitShellSegments cmd))"
    using foldl_unsafe_level [of "(RiskMedium, ?e)"] by simp
  then show ?thesis
    by (simp add: assessUnsafe_def mk_ra_def Let_def case_prod_beta)
qed

lemma assessUnsafe_redirect: "hasFileRedirect cmd \<Longrightarrow> Has (ra_Effects (assessUnsafe cmd)) EffectFileWrite"
  using foldl_unsafe_effects [of "(RiskMedium, Add 0 [EffectFileWrite])" EffectFileWrite]
  by (simp add: assessUnsafe_def mk_ra_def Let_def case_prod_beta Has_def)

lemma assessUnsafe_not_hard [simp]: "\<not> ra_HardDeny (assessUnsafe cmd)"
  by (simp add: assessUnsafe_def mk_ra_def Let_def case_prod_beta)

lemma writeCommandLevels_level: "map_of writeCommandLevels b = Some (l, e) \<Longrightarrow> RiskMedium \<le> l"
proof -
  have "\<forall>w \<in> set writeCommandLevels. RiskMedium \<le> fst (snd w)"
    by (simp add: writeCommandLevels_def)
  then show "map_of writeCommandLevels b = Some (l, e) \<Longrightarrow> RiskMedium \<le> l"
    by (auto dest!: map_of_SomeD)
qed

lemma first_write_level: "first_write segs = Some (l, e) \<Longrightarrow> RiskMedium \<le> l"
  by (induction segs) (auto split: option.splits dest: writeCommandLevels_level)

lemma riskPatternLevel_level:
  "RiskMedium \<le> (let lv = lookup0 riskPatternLevel s in if lv = 0 then RiskMedium else lv)"
proof -
  have "\<forall>w \<in> set riskPatternLevel. RiskMedium \<le> snd w"
    by (simp add: riskPatternLevel_def)
  then show ?thesis
    by (auto simp: lookup0_def Let_def split: option.split dest!: map_of_SomeD)
qed

lemma assessRiskyPattern_level: "assessRiskyPattern cmd cfg = Some (l, e, p) \<Longrightarrow> RiskMedium \<le> l"
  using riskPatternLevel_level
  by (auto simp: assessRiskyPattern_def Let_def split: option.splits)

lemma assessInjection_level: "assessInjection cmd = Some (l, e) \<Longrightarrow> RiskMedium \<le> l"
  by (auto simp: assessInjection_def evalCommand_def split: if_splits option.splits list.splits)

lemmas level_facts =
  assessUnsafe_level first_write_level assessRiskyPattern_level assessInjection_level

text \<open>
  An assessment below medium means that the safe branch was taken: nothing on the denylist, no
  injection vector, and every segment read-only.
\<close>

lemma Assess_low:
  assumes "active cfg" and "ra_Level (Assess cmd (Some cfg)) < RiskMedium"
  shows "denied_by cmd cfg = None \<and> assessInjection cmd = None \<and>
         fst (classifyCmd cmd (SafeCommands cfg)) = verdictSafe"
  using assms
  by (auto simp: Assess_def mk_ra_def assessWriteCommand_def split: option.splits prod.splits
      safeVerdict.splits if_splits dest!: level_facts(2-) simp: not_le [symmetric] level_facts(1))

lemma Assess_safe:
  assumes "active cfg" and "denied_by cmd cfg = None" and "assessInjection cmd = None"
    and "fst (classifyCmd cmd (SafeCommands cfg)) = verdictSafe"
  shows "ra_Level (Assess cmd (Some cfg)) = RiskLow \<and> \<not> ra_HardDeny (Assess cmd (Some cfg)) \<and>
         ra_Effects (Assess cmd (Some cfg)) = assessReadEffects cmd"
  using assms by (cases "classifyCmd cmd (SafeCommands cfg)") (simp add: Assess_def mk_ra_def)

lemma Assess_denied:
  assumes "active cfg" and "denied_by cmd cfg = Some p"
  shows "ra_HardDeny (Assess cmd (Some cfg)) \<and> ra_Level (Assess cmd (Some cfg)) = RiskCritical"
  using assms by (simp add: Assess_def mk_ra_def)

lemma Assess_hard_iff:
  assumes "active cfg"
  shows "ra_HardDeny (Assess cmd (Some cfg)) \<longleftrightarrow> denied_by cmd cfg \<noteq> None"
  using assms
  by (auto simp: Assess_def mk_ra_def split: option.split prod.split safeVerdict.split)

lemma assessReadEffects_bounds:
  "assessReadEffects cmd = EffectFileRead \<or> assessReadEffects cmd = EffectFileRead OR EffectNetwork"
  unfolding assessReadEffects_def
  by (rule foldl_keeps [where P = "\<lambda>e. e = EffectFileRead \<or> e = EffectFileRead OR EffectNetwork"])
    (auto split: option.split)

end
