(* ===== verification/Sandbox_Policy.thy ===== *)
theory Sandbox_Policy
  imports Sandbox_Assess
begin

text \<open>
  The policy layer: \<open>Decide\<close>, \<open>Evaluate\<close> and the pre-approval rules of \<^verbatim>\<open>src/ai-sandbox/policy.go\<close>, the
  metadata of external tools (\<^verbatim>\<open>tool_policy.go\<close>), the construction of a configuration and the
  compatibility entry \<open>Check\<close> (\<^verbatim>\<open>config.go\<close>), and the mode override of the daemon
  (\<^verbatim>\<open>src/daemon/internal/app/sandbox_env.go\<close>). The regular expression compiler is a parameter: the user's
  patterns are arbitrary.
\<close>

section \<open>Decisions\<close>

definition floorByEffects :: "effects \<Rightarrow> RiskLevel" where
  "floorByEffects e =
    (if Has e EffectCodeExecution \<or> Has e EffectPrivileged \<or> Has e EffectSecretAccess then RiskHigh
     else if Has e EffectDestructive then RiskElevated
     else if Has e EffectFileWrite \<or> Has e EffectProcessSpawn then RiskMedium
     else RiskBenign)"

definition decisionFor :: "RiskLevel \<Rightarrow> string \<Rightarrow> RiskLevel \<Rightarrow> Decision" where
  "decisionFor level mode autoMaxRisk =
    (if mode = ModeAuto then (if level \<le> autoMaxRisk then DecisionAllow else DecisionHitl)
     else if mode = ModeStrict \<or> mode = ModeReadOnly then
       (if level \<le> RiskLow then DecisionAllow else DecisionDeny)
     else (if level \<le> RiskLow then DecisionAllow else DecisionHitl))"

fun tokensMatch :: "string list \<Rightarrow> string list \<Rightarrow> bool" where
  "tokensMatch cmdTokens [] = True"
| "tokensMatch [] (m # ms) = False"
| "tokensMatch (c # cs) (m # ms) = (c = m \<and> tokensMatch cs ms)"

definition mainTokens :: "string \<Rightarrow> string list" where
  "mainTokens cmd =
    (case splitShellSegments cmd of
       [] \<Rightarrow> []
     | seg # _ \<Rightarrow>
         (case splitMain seg of
            None \<Rightarrow> []
          | Some (name, args) \<Rightarrow>
              if Base name = ''env'' then
                (case envResolve args of
                   None \<Rightarrow> Base name # args
                 | Some (realName, realArgs) \<Rightarrow> Base realName # realArgs)
              else Base name # args))"

definition rule_applies :: "string list \<Rightarrow> effects \<Rightarrow> RiskLevel \<Rightarrow> AllowRule \<Rightarrow> bool" where
  "rule_applies toks eff effLv rule \<longleftrightarrow>
     tokensMatch toks (ar_MatchTokens rule) \<and> \<not> effLv > ar_MaxRisk rule \<and>
     \<not> (ar_Effects rule \<noteq> 0 \<and> eff AND NOT (ar_Effects rule) \<noteq> 0)"

definition matchAllowRule ::
  "AllowRule list \<Rightarrow> CommandRequest \<Rightarrow> RiskAssessment \<Rightarrow> RiskLevel \<Rightarrow> AllowRule option" where
  "matchAllowRule rules req ra effLv =
    (if rules = [] then None
     else let toks = mainTokens (rq_Command req) in
       if toks = [] then None else find (rule_applies toks (ra_Effects ra) effLv) rules)"

text \<open>A \<open>Policy\<close> of the source holds the allow rules; \<open>NewPolicy\<close> takes them from the configuration.\<close>

definition NewPolicy :: "Config option \<Rightarrow> AllowRule list" where
  "NewPolicy ocfg = (case ocfg of None \<Rightarrow> [] | Some cfg \<Rightarrow> AllowRules cfg)"

definition Decide ::
  "AllowRule list \<Rightarrow> CommandRequest \<Rightarrow> Config option \<Rightarrow> RiskAssessment \<Rightarrow> Outcome" where
  "Decide rules req ocfg ra =
    (let out = \<lparr>out_Decision = DecisionAllow, out_Level = ra_Level ra, out_Effects = ra_Effects ra,
                out_Reasons = ra_Reasons ra, out_Source = ra_Source ra,
                out_Command = rq_Command req, out_HardDeny = ra_HardDeny ra,
                out_Override = None\<rparr> in
     case ocfg of
       None \<Rightarrow> out\<lparr>out_Decision := DecisionAllow, out_Level := RiskBenign\<rparr>
     | Some cfg \<Rightarrow>
         if Mode cfg = ModeOff then out\<lparr>out_Decision := DecisionAllow, out_Level := RiskBenign\<rparr>
         else if ra_HardDeny ra then out\<lparr>out_Decision := DecisionDeny\<rparr>
         else
           let f = floorByEffects (ra_Effects ra);
               effLv = (if f > ra_Level ra then f else ra_Level ra);
               out = out\<lparr>out_Level := effLv,
                         out_Decision := decisionFor effLv (Mode cfg) (AutoMaxRisk cfg)\<rparr> in
           if out_Decision out = DecisionHitl \<and> Mode cfg = ModeNormal then
             (case matchAllowRule rules req ra effLv of
                Some rule \<Rightarrow> out\<lparr>out_Decision := DecisionAllow, out_Override := Some rule\<rparr>
              | None \<Rightarrow> out)
           else out)"

definition Evaluate :: "CommandRequest \<Rightarrow> Config option \<Rightarrow> Outcome" where
  "Evaluate req ocfg =
    (let bypass = \<lparr>out_Decision = DecisionAllow, out_Level = RiskBenign, out_Effects = 0,
                   out_Reasons = [], out_Source = SourceBypass, out_Command = rq_Command req,
                   out_HardDeny = False, out_Override = None\<rparr> in
     case ocfg of
       None \<Rightarrow> bypass
     | Some cfg \<Rightarrow>
         if Mode cfg = ModeOff then bypass
         else Decide (NewPolicy ocfg) req ocfg (Assess (rq_Command req) ocfg))"

definition AllowRuleForCommand :: "string \<Rightarrow> RiskLevel \<Rightarrow> string list \<Rightarrow> AllowRule option" where
  "AllowRuleForCommand command maxRisk effects =
    (let tokens = mainTokens command in
     if tokens = [] then None
     else Some \<lparr>ar_MatchTokens = tokens, ar_MaxRisk = maxRisk, ar_Effects = parseEffects effects,
                ar_Desc = []\<rparr>)"

text \<open>The three states of the old contract: no error, a confirmation request, a denial.\<close>

datatype sandbox_error =
    NeedsConfirmation (nc_command: string) (nc_pattern: string) (nc_reason: string)
  | CommandDenied string

definition Outcome_Error :: "Outcome \<Rightarrow> sandbox_error option" where
  "Outcome_Error oc =
    (case out_Decision oc of
       DecisionAllow \<Rightarrow> None
     | DecisionSandbox \<Rightarrow> None
     | DecisionHitl \<Rightarrow> Some (NeedsConfirmation (describeCommand (out_Command oc))
                              (firstPattern (out_Reasons oc)) (firstDetail (out_Reasons oc)))
     | DecisionDeny \<Rightarrow> Some (CommandDenied (''sandbox: command denied: '' @ firstDetail (out_Reasons oc))))"

definition mk_request :: "string \<Rightarrow> CommandRequest" where
  "mk_request cmd = \<lparr>rq_Command = cmd, rq_Cwd = [], rq_Workspace = []\<rparr>"

definition Check :: "string \<Rightarrow> Config option \<Rightarrow> sandbox_error option" where
  "Check cmd ocfg =
    (case ocfg of
       None \<Rightarrow> None
     | Some cfg \<Rightarrow> if Mode cfg = ModeOff then None else Outcome_Error (Evaluate (mk_request cmd) ocfg))"

section \<open>Tool metadata\<close>

record ToolPolicyMetadata =
  tp_RiskLevel :: RiskLevel
  tp_RequiresPermission :: bool
  tp_AllowAlwaysKey :: string
  tp_ForceHITL :: bool
  tp_ParseReason :: string

text \<open>A nil map is \<open>None\<close>; a missing key reads as the empty string.\<close>

definition meta_get :: "(string \<times> string) list \<Rightarrow> string \<Rightarrow> string" where
  "meta_get m k = (case map_of m k of Some v \<Rightarrow> v | None \<Rightarrow> [])"

definition NormalizeToolMetadata :: "(string \<times> string) list option \<Rightarrow> ToolPolicyMetadata" where
  "NormalizeToolMetadata ometa =
    (let result = \<lparr>tp_RiskLevel = RiskUnclassified, tp_RequiresPermission = False,
                   tp_AllowAlwaysKey = [], tp_ForceHITL = False, tp_ParseReason = []\<rparr> in
     case ometa of
       None \<Rightarrow> result\<lparr>tp_ParseReason := ''missing risk_level''\<rparr>
     | Some m \<Rightarrow>
         let exists = (map_of m ''risk_level'' \<noteq> None);
             result = (case ParseRiskLevel (meta_get m ''risk_level'') of
                         None \<Rightarrow> result\<lparr>tp_ParseReason :=
                                    (if exists then ''invalid risk_level'' else ''missing risk_level'')\<rparr>
                       | Some parsed \<Rightarrow> result\<lparr>tp_RiskLevel := parsed\<rparr>);
             result = (if tp_ParseReason result = [] \<and> \<not> exists
                       then result\<lparr>tp_ParseReason := ''missing risk_level''\<rparr> else result);
             result = (if EqualFold (meta_get m ''requires_permission'') ''true''
                       then result\<lparr>tp_RequiresPermission := True\<rparr> else result);
             result = result\<lparr>tp_AllowAlwaysKey := TrimSpace (meta_get m ''allow_always_key'')\<rparr> in
         if EqualFold (meta_get m ''permission_policy'') ''always_hitl'' then
           result\<lparr>tp_RequiresPermission := True, tp_ForceHITL := True,
                  tp_ParseReason := (if tp_ParseReason result = []
                                     then ''permission_policy=always_hitl''
                                     else tp_ParseReason result)\<rparr>
         else result)"

section \<open>Configuration\<close>

record RiskPatternConfig =
  rp_Pattern :: string
  rp_Desc :: string

record AllowRuleConfig =
  arc_Match :: string
  arc_MaxRisk :: string
  arc_Effects :: "string list"
  arc_Desc :: string

record ToolAllowRuleConfig =
  trc_Key :: string
  trc_MaxRisk :: string
  trc_Desc :: string

record SandboxConfig =
  sc_Mode :: string
  sc_AutoMaxRisk :: string
  sc_AllowedWorkDir :: string
  sc_DeniedPatterns :: "string list"
  sc_RiskyPatterns :: "RiskPatternConfig list"
  sc_SafeCommands :: "string list"
  sc_AllowRules :: "AllowRuleConfig list"
  sc_ToolAllowRules :: "ToolAllowRuleConfig list"
  sc_AuditLog :: bool

fun compileAllowRules :: "AllowRuleConfig list \<Rightarrow> AllowRule list" where
  "compileAllowRules [] = []"
| "compileAllowRules (r # rs) =
     (case ParseRiskLevel (arc_MaxRisk r) of
        None \<Rightarrow> compileAllowRules rs
      | Some lv \<Rightarrow>
          let tokens = Fields (arc_Match r) in
          if tokens = [] then compileAllowRules rs
          else \<lparr>ar_MatchTokens = tokens, ar_MaxRisk = lv, ar_Effects = parseEffects (arc_Effects r),
                ar_Desc = arc_Desc r\<rparr> # compileAllowRules rs)"

fun compileToolAllowRules :: "ToolAllowRuleConfig list \<Rightarrow> ToolAllowRule list" where
  "compileToolAllowRules [] = []"
| "compileToolAllowRules (r # rs) =
     (case ParseRiskLevel (trc_MaxRisk r) of
        None \<Rightarrow> compileToolAllowRules rs
      | Some lv \<Rightarrow>
          if TrimSpace (trc_Key r) = [] then compileToolAllowRules rs
          else \<lparr>tr_Key = TrimSpace (trc_Key r), tr_MaxRisk = lv, tr_Desc = trc_Desc r\<rparr>
               # compileToolAllowRules rs)"

text \<open>
  \<open>CompilePatterns\<close> over a compiler; \<open>None\<close> is the error, which \<open>MustCompile\<close> turns into a panic.
\<close>

fun CompilePatterns :: "(string \<Rightarrow> Regexp option) \<Rightarrow> string list \<Rightarrow> Regexp list option" where
  "CompilePatterns compile [] = Some []"
| "CompilePatterns compile (p # ps) =
     (case compile p of
        None \<Rightarrow> None
      | Some re \<Rightarrow> map_option ((#) re) (CompilePatterns compile ps))"

definition risky_descs :: "RiskPatternConfig list \<Rightarrow> (string \<times> string) list" where
  "risky_descs rs =
    foldl (\<lambda>m r. if rp_Desc r \<noteq> [] then map_put (rp_Pattern r) (rp_Desc r) m else m) [] rs"

text \<open>
  \<open>NewFromConfig\<close>: \<open>getwd\<close> is the result of \<^verbatim>\<open>os.Getwd\<close>. The result \<open>None\<close> is the panic of
  \<^verbatim>\<open>MustCompile\<close> on a pattern that does not compile.
\<close>

definition NewFromConfig ::
  "(string \<Rightarrow> Regexp option) \<Rightarrow> string option \<Rightarrow> SandboxConfig \<Rightarrow> Config option" where
  "NewFromConfig compile getwd cfg =
    (let denied = (if sc_DeniedPatterns cfg = [] then map fst DefaultDeniedPatterns
                   else sc_DeniedPatterns cfg);
         risky = (if sc_RiskyPatterns cfg = [] then map fst DefaultRiskyPatterns
                  else map rp_Pattern (sc_RiskyPatterns cfg));
         descs = (if sc_RiskyPatterns cfg = [] then [] else risky_descs (sc_RiskyPatterns cfg));
         workDir = (if sc_AllowedWorkDir cfg = []
                    then (case getwd of Some wd \<Rightarrow> wd | None \<Rightarrow> []) else sc_AllowedWorkDir cfg);
         autoMaxRisk = (if sc_AutoMaxRisk cfg \<noteq> []
                        then (case ParseRiskLevel (sc_AutoMaxRisk cfg) of Some l \<Rightarrow> l | None \<Rightarrow> RiskLow)
                        else RiskLow);
         safe = foldl (\<lambda>m c. map_put c True m) [] (sc_SafeCommands cfg) in
     case CompilePatterns compile denied of
       None \<Rightarrow> None
     | Some d \<Rightarrow>
         (case CompilePatterns compile risky of
            None \<Rightarrow> None
          | Some r \<Rightarrow> Some
              \<lparr>DeniedPatterns = d, RiskyPatterns = r, PatternDescs = descs, AllowedWorkDir = workDir,
               ReadOnly = (sc_Mode cfg = ModeReadOnly), MaxOutputBytes = 0, Mode = sc_Mode cfg,
               AutoMaxRisk = autoMaxRisk, SafeCommands = safe,
               AllowRules = compileAllowRules (sc_AllowRules cfg),
               ToolAllowRules = compileToolAllowRules (sc_ToolAllowRules cfg)\<rparr>))"

text \<open>The compiler on the default patterns, which is all that a default configuration needs.\<close>

definition default_compile :: "string \<Rightarrow> Regexp option" where
  "default_compile p =
    map_option (mk_regexp p) (map_of (DefaultDeniedPatterns @ DefaultRiskyPatterns) p)"

definition default_sandbox_config :: "string \<Rightarrow> SandboxConfig" where
  "default_sandbox_config mode =
    \<lparr>sc_Mode = mode, sc_AutoMaxRisk = [], sc_AllowedWorkDir = [], sc_DeniedPatterns = [],
     sc_RiskyPatterns = [], sc_SafeCommands = [], sc_AllowRules = [], sc_ToolAllowRules = [],
     sc_AuditLog = False\<rparr>"

text \<open>
  The override from \<^verbatim>\<open>GOWORKER_SANDBOX_MODE\<close>: the empty value keeps the configuration, an unknown
  value is an error.
\<close>

datatype mode_error = InvalidSandboxMode string

definition applySandboxModeOverride :: "string \<Rightarrow> SandboxConfig \<Rightarrow> mode_error + SandboxConfig" where
  "applySandboxModeOverride mode cfg =
    (if mode = [] then Inr cfg
     else if mode \<in> {''normal'', ''auto'', ''strict'', ''readonly'', ''off''} then Inr (cfg\<lparr>sc_Mode := mode\<rparr>)
     else Inl (InvalidSandboxMode mode))"

lemmas [sandbox_defs] =
  floorByEffects_def decisionFor_def mainTokens_def rule_applies_def matchAllowRule_def
  NewPolicy_def Decide_def Evaluate_def AllowRuleForCommand_def Outcome_Error_def mk_request_def
  Check_def meta_get_def

section \<open>Lemmas on the floor and the matrix\<close>

lemma floorByEffects_mono: "subset_eff a b \<Longrightarrow> floorByEffects a \<le> floorByEffects b"
  by (auto simp: floorByEffects_def dest: Has_subset)

lemma tokensMatch_refl [simp]: "tokensMatch ts ts"
  by (induction ts) simp_all

lemma tokensMatch_prefix: "tokensMatch cs ms \<longleftrightarrow> (\<exists>rest. cs = ms @ rest)"
  by (induction cs ms rule: tokensMatch.induct) auto

definition eff_level :: "RiskAssessment \<Rightarrow> RiskLevel" where
  "eff_level ra = max (ra_Level ra) (floorByEffects (ra_Effects ra))"

lemma Decide_active:
  assumes "active cfg"
  shows "out_Decision (Decide rules req (Some cfg) ra) =
    (if ra_HardDeny ra then DecisionDeny
     else let d = decisionFor (eff_level ra) (Mode cfg) (AutoMaxRisk cfg) in
       if d = DecisionHitl \<and> Mode cfg = ModeNormal \<and> matchAllowRule rules req ra (eff_level ra) \<noteq> None
       then DecisionAllow else d)"
  using assms
  by (auto simp: Decide_def eff_level_def max_def Let_def split: option.split)

lemma Decide_override:
  assumes "active cfg"
  shows "out_Override (Decide rules req (Some cfg) ra) =
    (if \<not> ra_HardDeny ra \<and> decisionFor (eff_level ra) (Mode cfg) (AutoMaxRisk cfg) = DecisionHitl
        \<and> Mode cfg = ModeNormal
     then matchAllowRule rules req ra (eff_level ra) else None)"
  using assms
  by (auto simp: Decide_def eff_level_def max_def Let_def split: option.split)

lemma Evaluate_active:
  "active cfg \<Longrightarrow> Evaluate req (Some cfg) =
     Decide (AllowRules cfg) req (Some cfg) (Assess (rq_Command req) (Some cfg))"
  by (simp add: Evaluate_def NewPolicy_def)

text \<open>The command passes the automatic checks: the only way to be rated at most low.\<close>

definition read_only_cmd :: "string \<Rightarrow> Config \<Rightarrow> bool" where
  "read_only_cmd cmd cfg \<longleftrightarrow> denied_by cmd cfg = None \<and> assessInjection cmd = None \<and>
     fst (classifyCmd cmd (SafeCommands cfg)) = verdictSafe"

lemma floor_assessReadEffects [simp]: "floorByEffects (assessReadEffects cmd) = RiskBenign"
proof -
  have "\<not> Has (assessReadEffects cmd) f" if "f \<in> {EffectCodeExecution, EffectPrivileged,
      EffectSecretAccess, EffectDestructive, EffectFileWrite, EffectProcessSpawn}" for f
    using assessReadEffects_bounds [of cmd] that by (auto simp: Has_def)
  then show ?thesis by (simp add: floorByEffects_def)
qed

lemma eff_level_low_iff:
  assumes "active cfg"
  shows "eff_level (Assess cmd (Some cfg)) \<le> RiskLow \<longleftrightarrow> read_only_cmd cmd cfg"
proof
  assume "eff_level (Assess cmd (Some cfg)) \<le> RiskLow"
  then have "ra_Level (Assess cmd (Some cfg)) < RiskMedium" by (simp add: eff_level_def)
  with Assess_low [OF assms] show "read_only_cmd cmd cfg" by (simp add: read_only_cmd_def)
next
  assume "read_only_cmd cmd cfg"
  with Assess_safe [OF assms] show "eff_level (Assess cmd (Some cfg)) \<le> RiskLow"
    by (simp add: read_only_cmd_def eff_level_def)
qed

lemma Evaluate_decision:
  assumes "active cfg"
  shows "out_Decision (Evaluate req (Some cfg)) =
    (if denied_by (rq_Command req) cfg \<noteq> None then DecisionDeny
     else let ra = Assess (rq_Command req) (Some cfg);
              d = decisionFor (eff_level ra) (Mode cfg) (AutoMaxRisk cfg) in
       if d = DecisionHitl \<and> Mode cfg = ModeNormal \<and>
          matchAllowRule (AllowRules cfg) req ra (eff_level ra) \<noteq> None
       then DecisionAllow else d)"
  using assms by (simp add: Evaluate_active Decide_active Assess_hard_iff Let_def)

lemma read_only_cmd_update [simp]:
  "read_only_cmd c (cfg\<lparr>Mode := m\<rparr>) = read_only_cmd c cfg"
  "read_only_cmd c (cfg\<lparr>AllowRules := r\<rparr>) = read_only_cmd c cfg"
  "denied_by c (cfg\<lparr>Mode := m\<rparr>) = denied_by c cfg"
  "denied_by c (cfg\<lparr>AllowRules := r\<rparr>) = denied_by c cfg"
  by (simp_all add: read_only_cmd_def denied_by_def)

lemma read_only_not_denied: "read_only_cmd c cfg \<Longrightarrow> denied_by c cfg = None"
  by (simp add: read_only_cmd_def)

lemma matchAllowRule_iff:
  "matchAllowRule rules req ra lv \<noteq> None \<longleftrightarrow>
     mainTokens (rq_Command req) \<noteq> [] \<and>
     (\<exists>r \<in> set rules. rule_applies (mainTokens (rq_Command req)) (ra_Effects ra) lv r)"
  unfolding matchAllowRule_def Let_def
  using find_None_all [of "rule_applies (mainTokens (rq_Command req)) (ra_Effects ra) lv" rules]
  by auto

lemma Decision_le_iff:
  "DecisionAllow \<le> d" "d \<le> DecisionDeny" "DecisionHitl \<le> d \<longleftrightarrow> d = DecisionHitl \<or> d = DecisionDeny"
  by (cases d; simp add: less_eq_Decision_def)+

section \<open>Decisions, mode by mode\<close>

text \<open>
  C1. A command that a denylist pattern matches (outside the exemption for harmless devices)
  is denied in every mode but off, whatever allow rules and declared commands the configuration has.
\<close>

theorem evaluate_hard_deny:
  assumes "active cfg" and "denied_by (rq_Command req) cfg = Some p"
  shows "out_Decision (Evaluate req (Some cfg)) = DecisionDeny \<and>
         out_Override (Evaluate req (Some cfg)) = None \<and>
         Outcome_Error (Evaluate req (Some cfg)) \<noteq> None"
  using assms Assess_denied [OF assms]
  by (simp add: Evaluate_active Decide_active Decide_override Outcome_Error_def)

text \<open>
  C2. In the strict and read-only modes the user is never asked: a command is allowed exactly
  when no denylist pattern matches it, it has no injection vector and every segment is classified
  read-only, and it is denied otherwise. The risky patterns have no say: a command that passes these
  three checks is allowed although a risky pattern matches it.
\<close>

theorem evaluate_strict:
  assumes "Mode cfg = ModeStrict \<or> Mode cfg = ModeReadOnly"
  shows "out_Decision (Evaluate req (Some cfg)) =
         (if denied_by (rq_Command req) cfg = None \<and> assessInjection (rq_Command req) = None \<and>
             fst (classifyCmd (rq_Command req) (SafeCommands cfg)) = verdictSafe
          then DecisionAllow else DecisionDeny)"
proof -
  from assms have act: "active cfg" by auto
  show ?thesis
    using assms eff_level_low_iff [OF act, of "rq_Command req"]
    by (auto simp: Evaluate_decision [OF act] decisionFor_def Let_def read_only_cmd_def)
qed

text \<open>
  In the normal mode a command is denied exactly when it is on the denylist, allowed when it
  is read-only or an allow rule covers it, and sent to the user in every other case.
\<close>

theorem evaluate_normal:
  assumes "Mode cfg = ModeNormal"
  shows "out_Decision (Evaluate req (Some cfg)) =
         (if denied_by (rq_Command req) cfg \<noteq> None then DecisionDeny
          else if read_only_cmd (rq_Command req) cfg then DecisionAllow
          else if matchAllowRule (AllowRules cfg) req (Assess (rq_Command req) (Some cfg))
                    (eff_level (Assess (rq_Command req) (Some cfg))) \<noteq> None then DecisionAllow
          else DecisionHitl)"
proof -
  from assms have act: "active cfg" by simp
  show ?thesis
    using assms eff_level_low_iff [OF act, of "rq_Command req"]
    by (auto simp: Evaluate_decision [OF act] decisionFor_def Let_def)
qed

text \<open>
  C3. When an allow rule overrides a confirmation, the mode is normal, the rule is one of the
  configured ones, its tokens are a prefix of the command's tokens, the effective level does not
  exceed its limit, and the effects stay within its set (an empty set allows all).
\<close>

theorem override_is_covered:
  assumes "active cfg" and "out_Override (Evaluate req (Some cfg)) = Some rule"
  shows "Mode cfg = ModeNormal \<and> rule \<in> set (AllowRules cfg) \<and>
         (\<exists>rest. mainTokens (rq_Command req) = ar_MatchTokens rule @ rest) \<and>
         out_Level (Evaluate req (Some cfg)) \<le> ar_MaxRisk rule \<and>
         (ar_Effects rule = 0 \<or> subset_eff (out_Effects (Evaluate req (Some cfg))) (ar_Effects rule)) \<and>
         denied_by (rq_Command req) cfg = None"
proof -
  let ?ra = "Assess (rq_Command req) (Some cfg)"
  from assms have nd: "\<not> ra_HardDeny ?ra" and m: "Mode cfg = ModeNormal"
    and match: "matchAllowRule (AllowRules cfg) req ?ra (eff_level ?ra) = Some rule"
    by (auto simp: Evaluate_active Decide_override split: if_splits)
  from match have r: "rule \<in> set (AllowRules cfg)"
    and app: "rule_applies (mainTokens (rq_Command req)) (ra_Effects ?ra) (eff_level ?ra) rule"
    by (auto simp: matchAllowRule_def Let_def split: if_splits dest: find_SomeD)
  have lv: "out_Level (Evaluate req (Some cfg)) = eff_level ?ra"
    and ef: "out_Effects (Evaluate req (Some cfg)) = ra_Effects ?ra"
    using assms(1) nd
    by (auto simp: Evaluate_active Decide_def eff_level_def max_def Let_def split: option.split)
  show ?thesis
    using m r app nd Assess_hard_iff [OF assms(1), of "rq_Command req"]
    by (auto simp: lv ef rule_applies_def tokensMatch_prefix subset_eff_def)
qed

text \<open>
  C4. For a fixed configuration, an assessment that is at least as high, has at least the effects
  and is a hard denial whenever the first is, never leads to a more permissive decision.
\<close>

theorem decide_monotone:
  assumes "ra_Level a \<le> ra_Level b" and "subset_eff (ra_Effects a) (ra_Effects b)"
    and "ra_HardDeny a \<Longrightarrow> ra_HardDeny b"
  shows "out_Decision (Decide rules req ocfg a) \<le> out_Decision (Decide rules req ocfg b)"
proof (cases "\<exists>cfg. ocfg = Some cfg \<and> active cfg \<and> \<not> ra_HardDeny b")
  case False
  then consider "ocfg = None" | cfg where "ocfg = Some cfg" "\<not> active cfg"
    | cfg where "ocfg = Some cfg" "active cfg" "ra_HardDeny b" by (cases ocfg) auto
  then show ?thesis
    by cases (simp_all add: Decide_active Decision_le_iff Decide_def [of _ _ None] Let_def,
        simp add: Decide_def Let_def)
next
  case True
  then obtain cfg where cfg: "ocfg = Some cfg" "active cfg" "\<not> ra_HardDeny b" by blast
  have lv: "eff_level a \<le> eff_level b"
    using assms(1) floorByEffects_mono [OF assms(2)] by (auto simp: eff_level_def)
  have covered: "rule_applies toks (ra_Effects b) (eff_level b) r \<Longrightarrow>
                 rule_applies toks (ra_Effects a) (eff_level a) r" for toks r
    using lv subset_and_ne_zero [of "ra_Effects a" "ra_Effects b"] assms(2)
    by (auto simp: rule_applies_def subset_eff_def)
  have "matchAllowRule rules req b (eff_level b) \<noteq> None \<Longrightarrow>
        matchAllowRule rules req a (eff_level a) \<noteq> None"
    using covered unfolding matchAllowRule_iff by blast
  with lv cfg assms(3) show ?thesis
    by (auto simp: Decide_active Let_def decisionFor_def Decision_le_iff)
qed

text \<open>
  For the same command and tables, the strict mode is never more permissive than the normal
  mode without allow rules, and the normal mode is never more permissive without its rules.
\<close>

theorem mode_strictness:
  assumes "Mode cfg = ModeNormal"
  shows "out_Decision (Evaluate req (Some (cfg\<lparr>AllowRules := []\<rparr>)))
           \<le> out_Decision (Evaluate req (Some (cfg\<lparr>Mode := ModeStrict\<rparr>))) \<and>
         out_Decision (Evaluate req (Some cfg))
           \<le> out_Decision (Evaluate req (Some (cfg\<lparr>AllowRules := []\<rparr>)))"
proof -
  let ?strict = "cfg\<lparr>Mode := ModeStrict\<rparr>" and ?bare = "cfg\<lparr>AllowRules := []\<rparr>"
  have act: "active cfg" "active ?strict" "active ?bare" using assms by simp_all
  have "matchAllowRule [] req ra lv = None" for ra lv by (simp add: matchAllowRule_def)
  with assms act [THEN eff_level_low_iff, of "rq_Command req"] show ?thesis
    by (auto simp: Evaluate_decision [OF act(1)] Evaluate_decision [OF act(2)]
        Evaluate_decision [OF act(3)] decisionFor_def Let_def Decision_le_iff)
qed

end
