(* ===== verification/Sandbox_Defaults.thy ===== *)
theory Sandbox_Defaults
  imports Sandbox_Policy
begin

text \<open>
  The sandbox with the default pattern tables: which effects and levels an assessment can have, the
  denial of a recursive removal of the root whatever precedes it, the separator law of the
  classifier, fail-closed tool metadata and mode override, and the closed runs that show how four
  commands pass the strict mode although a later part of each writes.
\<close>

section \<open>Effects are known, levels are in range\<close>

definition known_effects :: "effects \<Rightarrow> bool" where
  "known_effects e \<longleftrightarrow> e AND NOT 0xFF = 0"

lemma known_or [simp]: "known_effects (a OR b) \<longleftrightarrow> known_effects a \<and> known_effects b"
  by (simp add: known_effects_def bit.conj_disj_distrib2 or_eq_zero_iff)

lemma known_consts [simp]:
  "known_effects 0" "known_effects 1"
  "known_effects (numeral n) \<longleftrightarrow> (numeral n :: effects) AND NOT 0xFF = 0"
  by (simp_all add: known_effects_def)

lemma known_writeCommandLevels: "map_of writeCommandLevels b = Some (l, e) \<Longrightarrow> known_effects e \<and> l \<le> RiskCritical"
proof -
  have "\<forall>w \<in> set writeCommandLevels. known_effects (snd (snd w)) \<and> fst (snd w) \<le> RiskCritical"
    by (simp add: writeCommandLevels_def)
  then show "map_of writeCommandLevels b = Some (l, e) \<Longrightarrow> known_effects e \<and> l \<le> RiskCritical"
    by (auto dest!: map_of_SomeD)
qed

lemma known_unsafe_seg:
  "known_effects (snd st) \<and> fst st \<le> RiskCritical \<Longrightarrow>
   known_effects (snd (unsafe_seg st seg)) \<and> fst (unsafe_seg st seg) \<le> RiskCritical"
  by (auto simp: unsafe_seg_def maxLevel_def Let_def split: option.split prod.split
      dest: known_writeCommandLevels)

lemma known_assessUnsafe:
  "known_effects (ra_Effects (assessUnsafe cmd)) \<and> ra_Level (assessUnsafe cmd) \<le> RiskCritical"
proof -
  have "known_effects (snd st) \<and> fst st \<le> RiskCritical \<Longrightarrow>
        known_effects (snd (foldl unsafe_seg st segs)) \<and> fst (foldl unsafe_seg st segs) \<le> RiskCritical"
    for st segs
    by (rule foldl_keeps [where P = "\<lambda>st. known_effects (snd st) \<and> fst st \<le> RiskCritical"])
      (simp_all add: known_unsafe_seg)
  from this [of "(RiskMedium, if hasFileRedirect cmd then Add 0 [EffectFileWrite] else 0)"]
  show ?thesis
    by (simp add: assessUnsafe_def mk_ra_def Let_def case_prod_beta)
qed

lemma known_first_write: "first_write segs = Some (l, e) \<Longrightarrow> known_effects e \<and> l \<le> RiskCritical"
  by (induction segs) (auto split: option.splits dest: known_writeCommandLevels)

lemma known_risky:
  assumes "assessRiskyPattern cmd cfg = Some (l, e, p)"
  shows "known_effects e \<and> l \<le> RiskCritical"
proof -
  have "\<forall>w \<in> set riskPatternEffects. known_effects (snd w)" by (simp add: riskPatternEffects_def)
  moreover have "\<forall>w \<in> set riskPatternLevel. snd w \<le> RiskCritical" by (simp add: riskPatternLevel_def)
  ultimately show ?thesis
    using assms
    by (auto simp: assessRiskyPattern_def lookup0_def Let_def split: option.splits if_splits
        dest!: map_of_SomeD)
qed

lemma known_injection: "assessInjection cmd = Some (l, e) \<Longrightarrow> known_effects e \<and> l \<le> RiskCritical"
  by (auto simp: assessInjection_def evalCommand_def split: if_splits option.splits list.splits)

lemma known_read: "known_effects (assessReadEffects cmd)"
  using assessReadEffects_bounds [of cmd] by (elim disjE) simp_all

lemmas known_facts = known_first_write known_risky known_injection

lemma Assess_known:
  "known_effects (ra_Effects (Assess cmd ocfg)) \<and> ra_Level (Assess cmd ocfg) \<le> RiskUnclassified"
proof -
  have "ra_Level (assessUnsafe cmd) \<le> RiskUnclassified" using known_assessUnsafe [of cmd] by simp
  then show ?thesis
    by (auto simp: Assess_def mk_ra_def assessWriteCommand_def known_assessUnsafe known_read
        split: option.split prod.split safeVerdict.split dest!: known_facts)
qed

lemma Assess_level_nonneg: "RiskBenign \<le> ra_Level (Assess cmd ocfg)"
proof (cases "\<exists>cfg. ocfg = Some cfg \<and> active cfg")
  case True
  then obtain cfg where cfg: "ocfg = Some cfg" "active cfg" by blast
  show ?thesis
  proof (cases "ra_Level (Assess cmd ocfg) < RiskMedium")
    case True
    with cfg Assess_low [of cfg cmd] Assess_safe [of cfg cmd] show ?thesis by simp
  qed simp
next
  case False
  then show ?thesis by (auto simp: Assess_def mk_ra_def split: option.split)
qed

lemma eff_level_range:
  "RiskBenign \<le> eff_level (Assess cmd ocfg) \<and> eff_level (Assess cmd ocfg) \<le> RiskReserved"
  using Assess_known [of cmd ocfg] Assess_level_nonneg [of cmd ocfg]
  by (auto simp: eff_level_def floorByEffects_def)

section \<open>A rule made from a confirmed command covers it\<close>

lemma allow_rule_covers:
  assumes "active cfg"
    and "AllowRuleForCommand cmd (eff_level (Assess cmd (Some cfg)))
           (Names (ra_Effects (Assess cmd (Some cfg)))) = Some rule"
  shows "mainTokens cmd \<noteq> [] \<and>
         rule_applies (mainTokens cmd) (ra_Effects (Assess cmd (Some cfg)))
           (eff_level (Assess cmd (Some cfg))) rule"
proof -
  let ?e = "ra_Effects (Assess cmd (Some cfg))"
  have "?e AND NOT 0xFF = 0" using Assess_known [of cmd "Some cfg"] by (simp add: known_effects_def)
  then have "?e AND NOT (?e AND 0xFF) = 0"
    by (simp add: bit.de_Morgan_conj bit.conj_disj_distrib)
  with assms(2) show ?thesis
    by (auto simp: AllowRuleForCommand_def rule_applies_def parseEffects_Names Let_def split: if_splits)
qed

section \<open>Removal of the root\<close>

definition rmRootPattern :: "string \<times> regex" where
  "rmRootPattern = hd DefaultDeniedPatterns"

lemma rmRoot_matches: "MatchString (snd rmRootPattern) (pre @ ''rm -rf /'')"
proof -
  have "ways (snd rmRootPattern) (runes ''rm -rf /'', []) \<noteq> []" by code_simp
  then show ?thesis by (intro MatchString_suffix) simp_all
qed

lemma CompilePatterns_default_first:
  assumes "CompilePatterns default_compile (map fst DefaultDeniedPatterns) = Some d"
  shows "mk_regexp (fst rmRootPattern) (snd rmRootPattern) \<in> set d"
proof -
  have "default_compile (fst rmRootPattern) = Some (mk_regexp (fst rmRootPattern) (snd rmRootPattern))"
    by (simp add: default_compile_def rmRootPattern_def DefaultDeniedPatterns_def)
  with assms show ?thesis
    by (auto simp: rmRootPattern_def DefaultDeniedPatterns_def split: option.splits)
qed

lemma rmRoot_not_exempt:
  "\<not> isBuiltinDevWritePattern (mk_regexp (fst rmRootPattern) (snd rmRootPattern))"
  by (simp add: isBuiltinDevWritePattern_def mk_regexp_def rmRootPattern_def
      DefaultDeniedPatterns_def builtinDevWritePattern_def re_src_def)

text \<open>
  C5. With the default denylist, a command line that ends in the recursive removal of the root is
  denied in every mode but off, for every text before it and every other setting of the user.
\<close>

theorem rm_root_denied:
  assumes "NewFromConfig default_compile getwd sc = Some cfg"
    and "sc_DeniedPatterns sc = []" and "sc_Mode sc \<noteq> ModeOff"
  shows "out_Decision (Evaluate (mk_request (pre @ ''rm -rf /'')) (Some cfg)) = DecisionDeny"
proof -
  let ?p = "mk_regexp (fst rmRootPattern) (snd rmRootPattern)"
  from assms have act: "active cfg" and p: "?p \<in> set (DeniedPatterns cfg)"
    by (auto simp: NewFromConfig_def Let_def split: option.splits dest: CompilePatterns_default_first)
  have "re_match ?p (pre @ ''rm -rf /'')" by (simp add: mk_regexp_def rmRoot_matches)
  with p rmRoot_not_exempt have "denied_by (pre @ ''rm -rf /'') cfg \<noteq> None"
    unfolding denied_by_def find_None_all by blast
  then show ?thesis by (simp add: Evaluate_decision [OF act] mk_request_def)
qed

theorem rm_root_denied_witness:
  "\<exists>cfg. NewFromConfig default_compile None (default_sandbox_config ModeAuto) = Some cfg \<and>
     out_Decision (Evaluate (mk_request (''ls; '' @ ''rm -rf /'')) (Some cfg)) = DecisionDeny"
proof -
  have "NewFromConfig default_compile None (default_sandbox_config ModeAuto) \<noteq> None" by code_simp
  then obtain cfg where
    c: "NewFromConfig default_compile None (default_sandbox_config ModeAuto) = Some cfg" by auto
  from rm_root_denied [OF c, of "''ls; ''"] c show ?thesis
    by (simp add: default_sandbox_config_def)
qed

section \<open>Separators\<close>

text \<open>
  A newline, a carriage return, a bar or a semicolon after a command with no open quote,
  pending backslash or trailing redirection sign separates: the whole line is classified safe only
  if the part before it and the part after it both are (or one of them is empty).
\<close>

theorem separator_examined:
  assumes "split_closed a" and "c \<in> set separators"
    and "fst (classifyCmd (a @ c # b) extra) = verdictSafe"
  shows "(splitShellSegments a = [] \<or> fst (classifyCmd a extra) = verdictSafe) \<and>
         (splitShellSegments b = [] \<or> fst (classifyCmd b extra) = verdictSafe)"
  using assms by (auto simp: classifyCmd_safe split_at_separator)

theorem separator_examined_witness:
  "split_closed ''ls -l'' \<and> fst (classifyCmd ''ls -l;pwd'' []) = verdictSafe \<and>
   fst (classifyCmd ''pwd'' []) = verdictSafe"
proof -
  have c: "split_closed ''ls -l''" by code_simp
  have s: "fst (classifyCmd (''ls -l'' @ CHR '';'' # ''pwd'') []) = verdictSafe" by code_simp
  have n: "splitShellSegments ''pwd'' \<noteq> []" by code_simp
  have "CHR '';'' \<in> set separators" by (simp add: separators_def)
  from separator_examined [OF c this s] n c s show ?thesis by simp
qed

section \<open>Tool metadata and mode override\<close>

text \<open>
  C6. Tool metadata is read fail-closed: the level is the parsed one exactly when
  \<open>risk_level\<close> holds one of the eight names, and unclassified, with a reason, in every other case;
  the key that forces a confirmation also requires the permission.
\<close>

theorem tool_metadata_fail_closed:
  "(case ParseRiskLevel (case ometa of Some m \<Rightarrow> meta_get m ''risk_level'' | None \<Rightarrow> []) of
      Some l \<Rightarrow> tp_RiskLevel (NormalizeToolMetadata ometa) = l \<and> RiskBenign \<le> l \<and> l \<le> RiskReserved
    | None \<Rightarrow> tp_RiskLevel (NormalizeToolMetadata ometa) = RiskUnclassified \<and>
              tp_ParseReason (NormalizeToolMetadata ometa) \<noteq> []) \<and>
   (tp_ForceHITL (NormalizeToolMetadata ometa) \<longrightarrow>
      tp_RequiresPermission (NormalizeToolMetadata ometa))"
proof -
  have "ParseRiskLevel [] = None" by code_simp
  then show ?thesis
    by (cases ometa)
      (auto simp: NormalizeToolMetadata_def Let_def split: option.split
        dest: ParseRiskLevel_Some_range)
qed

theorem tool_metadata_fail_closed_witness:
  "tp_ForceHITL (NormalizeToolMetadata (Some [(''permission_policy'', ''Always_HITL'')])) \<and>
   tp_RequiresPermission (NormalizeToolMetadata (Some [(''permission_policy'', ''Always_HITL'')]))"
proof -
  have "tp_ForceHITL (NormalizeToolMetadata (Some [(''permission_policy'', ''Always_HITL'')]))"
    by code_simp
  with tool_metadata_fail_closed [of "Some [(''permission_policy'', ''Always_HITL'')]"]
  show ?thesis by blast
qed

section \<open>Concrete configurations\<close>

definition config_for :: "string \<Rightarrow> AllowRuleConfig list \<Rightarrow> Config" where
  "config_for mode rules =
    the (NewFromConfig default_compile None ((default_sandbox_config mode)\<lparr>sc_AllowRules := rules\<rparr>))"

definition strict_config :: Config where
  "strict_config = config_for ModeStrict []"

definition push_rule :: AllowRuleConfig where
  "push_rule = \<lparr>arc_Match = ''git push'', arc_MaxRisk = ''medium'', arc_Effects = [], arc_Desc = []\<rparr>"

definition normal_config :: Config where
  "normal_config = config_for ModeNormal [push_rule]"

lemma config_modes: "Mode strict_config = ModeStrict" "Mode normal_config = ModeNormal"
  by code_simp+

theorem evaluate_hard_deny_witness:
  "\<exists>p. denied_by ''mkfs.ext4 /dev/sda'' normal_config = Some p \<and>
     out_Decision (Evaluate (mk_request ''mkfs.ext4 /dev/sda'') (Some normal_config)) = DecisionDeny"
proof -
  have "denied_by ''mkfs.ext4 /dev/sda'' normal_config \<noteq> None" by code_simp
  then obtain p where p: "denied_by ''mkfs.ext4 /dev/sda'' normal_config = Some p" by auto
  then have "denied_by (rq_Command (mk_request ''mkfs.ext4 /dev/sda'')) normal_config = Some p"
    by (simp add: mk_request_def)
  with evaluate_hard_deny [of normal_config "mk_request ''mkfs.ext4 /dev/sda''" p] p
  show ?thesis by (simp add: config_modes)
qed

theorem evaluate_strict_witness:
  "out_Decision (Evaluate (mk_request ''cat a | wc -l'') (Some strict_config)) = DecisionAllow \<and>
   out_Decision (Evaluate (mk_request ''make'') (Some strict_config)) = DecisionDeny \<and>
   out_Decision (Evaluate (mk_request ''echo mkfs.'') (Some strict_config)) = DecisionDeny"
proof -
  have "read_only_cmd ''cat a | wc -l'' strict_config" and "\<not> read_only_cmd ''make'' strict_config"
    and "denied_by ''echo mkfs.'' strict_config \<noteq> None" by code_simp+
  then show ?thesis
    by (simp add: evaluate_strict [of strict_config, OF disjI1, OF config_modes(1)] mk_request_def read_only_cmd_def)
qed

text \<open>
  The comment of \<^verbatim>\<open>DefaultRiskyPatterns\<close> says that a hit is denied in the strict mode. A command of read-only
  segments is rated before the patterns are looked at: this pipe matches one and is allowed.
\<close>

lemma risky_pattern_allowed_in_strict:
  "assessRiskyPattern ''cat a | wc -l'' strict_config \<noteq> None \<and>
   out_Decision (Evaluate (mk_request ''cat a | wc -l'') (Some strict_config)) = DecisionAllow"
  by code_simp

theorem evaluate_normal_witness:
  "out_Decision (Evaluate (mk_request ''make'') (Some normal_config)) = DecisionHitl"
proof -
  let ?ra = "Assess ''make'' (Some normal_config)"
  have "denied_by ''make'' normal_config = None" by code_simp
  moreover have "\<not> read_only_cmd ''make'' normal_config" by code_simp
  moreover have "matchAllowRule (AllowRules normal_config) (mk_request ''make'') ?ra (eff_level ?ra) = None"
    by code_simp
  ultimately show ?thesis
    using evaluate_normal [OF config_modes(2), of "mk_request ''make''"] by (simp add: mk_request_def)
qed

theorem override_is_covered_witness:
  "\<exists>rule. out_Override (Evaluate (mk_request ''git push origin'') (Some normal_config)) = Some rule \<and>
     rule \<in> set (AllowRules normal_config)"
proof -
  have "out_Override (Evaluate (mk_request ''git push origin'') (Some normal_config)) \<noteq> None"
    by code_simp
  then obtain rule where
    r: "out_Override (Evaluate (mk_request ''git push origin'') (Some normal_config)) = Some rule" by auto
  from override_is_covered [OF _ r] r show ?thesis by (simp add: config_modes)
qed

theorem decide_monotone_witness:
  "out_Decision (Decide [] (mk_request ''x'') (Some normal_config) (Assess ''ls'' (Some normal_config)))
     \<le> out_Decision (Decide [] (mk_request ''x'') (Some normal_config)
          (mk_ra RiskHigh (EffectFileRead OR EffectPrivileged) [] SourceRule 1 False))"
proof (rule decide_monotone)
  show "ra_Level (Assess ''ls'' (Some normal_config)) \<le>
        ra_Level (mk_ra RiskHigh (EffectFileRead OR EffectPrivileged) [] SourceRule 1 False)" by code_simp
  show "subset_eff (ra_Effects (Assess ''ls'' (Some normal_config)))
          (ra_Effects (mk_ra RiskHigh (EffectFileRead OR EffectPrivileged) [] SourceRule 1 False))"
    by code_simp
  have "\<not> ra_HardDeny (Assess ''ls'' (Some normal_config))" by code_simp
  then show "ra_HardDeny (Assess ''ls'' (Some normal_config)) \<Longrightarrow>
        ra_HardDeny (mk_ra RiskHigh (EffectFileRead OR EffectPrivileged) [] SourceRule 1 False)" by blast
qed

theorem mode_strictness_witness:
  "out_Decision (Evaluate (mk_request ''git push origin'') (Some normal_config)) \<le>
   out_Decision (Evaluate (mk_request ''git push origin'') (Some (normal_config\<lparr>AllowRules := []\<rparr>)))"
  using mode_strictness [OF config_modes(2), of "mk_request ''git push origin''"] by blast

section \<open>Commands that pass the strict mode\<close>

abbreviation strict_decision :: "string \<Rightarrow> Decision" where
  "strict_decision cmd \<equiv> out_Decision (Evaluate (mk_request cmd) (Some strict_config))"

lemma quoted_redirect_hides_and:
  "strict_decision (''echo '' @ [CHR 0x27] @ ''>'' @ [CHR 0x27] @ '' && touch x'') = DecisionAllow"
  "strict_decision ''echo a && touch x'' = DecisionDeny"
  by code_simp+

lemma backslash_in_single_quotes_hides_rest:
  "strict_decision (''echo '' @ [CHR 0x27, backslash, CHR 0x27] @ '' ; touch x'') = DecisionAllow"
  "strict_decision ''echo a ; touch x'' = DecisionDeny"
  by code_simp+

lemma second_substitution_unchecked:
  "strict_decision ''echo $(date) $(rm -rf x)'' = DecisionAllow"
  "strict_decision ''echo $(rm -rf x)'' = DecisionDeny"
  by code_simp+

lemma curl_merged_method_skips_rest:
  "strict_decision ''curl -XGET http://e -o /tmp/x'' = DecisionAllow"
  "strict_decision ''curl -X GET http://e -o /tmp/x'' = DecisionDeny"
  by code_simp+

text \<open>
  Four command lines that the strict mode with the default tables allows although a later
  part of each writes, beside the variant of each that is denied. A quoted \<open>>\<close> sets the last rune
  read, so that \<^verbatim>\<open>&&\<close> is taken for a redirection; a backslash inside single quotes is taken for an
  escape and hides the closing quote; only the first command substitution is searched; and the
  merged method flag of curl ends the scan of its arguments.
\<close>

theorem strict_mode_gaps:
  "strict_decision (''echo '' @ [CHR 0x27] @ ''>'' @ [CHR 0x27] @ '' && touch x'') = DecisionAllow \<and>
   strict_decision ''echo a && touch x'' = DecisionDeny \<and>
   strict_decision (''echo '' @ [CHR 0x27, backslash, CHR 0x27] @ '' ; touch x'') = DecisionAllow \<and>
   strict_decision ''echo a ; touch x'' = DecisionDeny \<and>
   strict_decision ''echo $(date) $(rm -rf x)'' = DecisionAllow \<and>
   strict_decision ''echo $(rm -rf x)'' = DecisionDeny \<and>
   strict_decision ''curl -XGET http://e -o /tmp/x'' = DecisionAllow \<and>
   strict_decision ''curl -X GET http://e -o /tmp/x'' = DecisionDeny"
  by (intro conjI quoted_redirect_hides_and backslash_in_single_quotes_hides_rest
      second_substitution_unchecked curl_merged_method_skips_rest)

end
