(* ===== verification/Go_Json.thy ===== *)
theory Go_Json
  imports Go_Strings "HOL-Library.Monad_Syntax"
begin

text \<open>
  \<^verbatim>\<open>encoding/json\<close> as the modelled code uses it, on byte strings: the text of a value, with the escapes
  of \<^verbatim>\<open>Marshal\<close> (control characters, quotes, the characters \<open><\<close>, \<open>>\<close> and \<open>&\<close>, the separators U+2028
  and U+2029, invalid bytes), and the parser of \<^verbatim>\<open>Unmarshal\<close> with its escapes, surrogate pairs, number
  syntax and white space. A struct is an object in the order of its fields; a map is marshalled in
  the order of its keys (\<open>json_marshal\<close>). The parser takes the length of its input as fuel, which
  is enough since every call consumes a byte; the limit of 10000 on the nesting depth is left out.

  The lemmas show that parsing the text of a value gives the value back (\<open>json_parse_text\<close>), and
  that no proper prefix of the text of an object is a JSON text (\<open>json_prefix_None\<close>): what makes a
  line of a log that was written in part recognisable.
\<close>

section \<open>Values and their text\<close>

text \<open>A number is kept as the text it is rendered to.\<close>

datatype json =
    JNull
  | JBool bool
  | JNum string
  | JStr string
  | JArr "json list"
  | JObj "(string \<times> json) list"

definition hex_digit :: "nat \<Rightarrow> char" where
  "hex_digit n = char_of (if n < 10 then 48 + n else 87 + n)"

definition u_escape :: "rune \<Rightarrow> string" where
  "u_escape r = [CHR 0x5C, CHR ''u'', hex_digit (r div 4096 mod 16), hex_digit (r div 256 mod 16),
     hex_digit (r div 16 mod 16), hex_digit (r mod 16)]"

definition json_rune :: "rune \<times> string \<Rightarrow> string" where
  "json_rune x =
    (case x of (r, b) \<Rightarrow>
      if r = 0x22 \<or> r = 0x5C then [CHR 0x5C, char_of r]
      else if r = 8 then [CHR 0x5C, CHR ''b'']
      else if r = 12 then [CHR 0x5C, CHR ''f'']
      else if r = 10 then [CHR 0x5C, CHR ''n'']
      else if r = 13 then [CHR 0x5C, CHR ''r'']
      else if r = 9 then [CHR 0x5C, CHR ''t'']
      else if r < 0x20 \<or> r = 0x3C \<or> r = 0x3E \<or> r = 0x26 \<or> r = 0x2028 \<or> r = 0x2029 then u_escape r
      else if r = RuneError \<and> length b = 1 then u_escape RuneError
      else b)"

definition json_string :: "string \<Rightarrow> string" where
  "json_string s = CHR 0x22 # concat (map json_rune (runes s)) @ [CHR 0x22]"

fun json_text :: "json \<Rightarrow> string" where
  "json_text JNull = ''null''"
| "json_text (JBool b) = (if b then ''true'' else ''false'')"
| "json_text (JNum n) = n"
| "json_text (JStr s) = json_string s"
| "json_text (JArr xs) = ''['' @ Join (map json_text xs) '','' @ '']''"
| "json_text (JObj m) =
     ''{'' @ Join (map (\<lambda>(k, v). json_string k @ '':'' @ json_text v) m) '','' @ ''}''"

section \<open>Decoding a string\<close>

definition hex_value :: "char \<Rightarrow> nat option" where
  "hex_value c =
    (let b = byte c in
     if 48 \<le> b \<and> b \<le> 57 then Some (b - 48)
     else if 97 \<le> b \<and> b \<le> 102 then Some (b - 87)
     else if 65 \<le> b \<and> b \<le> 70 then Some (b - 55)
     else None)"

definition hex4 :: "string \<Rightarrow> rune option" where
  "hex4 s =
    (case s of
       a # b # c # d # _ \<Rightarrow>
         do { a \<leftarrow> hex_value a; b \<leftarrow> hex_value b; c \<leftarrow> hex_value c; d \<leftarrow> hex_value d;
              Some (a * 4096 + b * 256 + c * 16 + d) }
     | _ \<Rightarrow> None)"

definition u_value :: "string \<Rightarrow> rune option" where
  "u_value s = (if HasPrefix s [CHR 0x5C, CHR ''u''] then hex4 (drop 2 s) else None)"

definition simple_escape :: "char \<Rightarrow> char option" where
  "simple_escape c =
    (if c = CHR 0x22 \<or> c = CHR 0x5C \<or> c = CHR ''/'' then Some c
     else if c = CHR ''b'' then Some (CHR 0x08)
     else if c = CHR ''f'' then Some (CHR 0x0C)
     else if c = CHR ''n'' then Some (CHR 0x0A)
     else if c = CHR ''r'' then Some (CHR 0x0D)
     else if c = CHR ''t'' then Some (CHR 0x09)
     else None)"

text \<open>
  An escape of a rune: its text and the number of bytes behind the letter u. A surrogate takes the
  second half of its pair with it, or becomes U+FFFD.
\<close>

definition u_rune :: "string \<Rightarrow> (string \<times> nat) option" where
  "u_rune s =
    (case hex4 s of
       None \<Rightarrow> None
     | Some r \<Rightarrow>
         if 0xD800 \<le> r \<and> r < 0xE000 then
           (case u_value (drop 4 s) of
              Some r2 \<Rightarrow>
                if r < 0xDC00 \<and> 0xDC00 \<le> r2 \<and> r2 < 0xE000
                then Some (utf8_enc (0x10000 + (r - 0xD800) * 1024 + (r2 - 0xDC00)), 10)
                else Some (utf8_enc RuneError, 4)
            | None \<Rightarrow> Some (utf8_enc RuneError, 4))
         else Some (utf8_enc r, 4))"

fun parse_chars :: "string \<Rightarrow> (string \<times> string) option" where
  "parse_chars [] = None"
| "parse_chars (c # cs) =
     (if c = CHR 0x22 then Some ([], cs)
      else if c = CHR 0x5C then
        (case cs of
           [] \<Rightarrow> None
         | e # ds \<Rightarrow>
             if e = CHR ''u'' then
               (case u_rune ds of
                  None \<Rightarrow> None
                | Some (t, w) \<Rightarrow> map_option (\<lambda>(s, r). (t @ s, r)) (parse_chars (drop w ds)))
             else
               (case simple_escape e of
                  None \<Rightarrow> None
                | Some x \<Rightarrow> map_option (\<lambda>(s, r). (x # s, r)) (parse_chars ds)))
      else if byte c < 0x20 then None
      else (case decode1 c cs of (r, w) \<Rightarrow>
              map_option (\<lambda>(s, rest). (utf8_enc r @ s, rest)) (parse_chars (drop w cs))))"

definition valid_utf8 :: "string \<Rightarrow> bool" where
  "valid_utf8 s \<longleftrightarrow> list_all (\<lambda>(r, b). \<not> (r = RuneError \<and> length b = 1)) (runes s)"

lemma block_divmod:
  "(c::nat) < m \<Longrightarrow> (a * m + c) div m = a" "(c::nat) < m \<Longrightarrow> (a * m + c) mod m = c"
  by simp_all

lemma div_64_64: "(r::nat) div 4096 = r div 64 div 64" "r div 262144 = r div 64 div 64 div 64"
  by (simp_all add: div_mult2_eq [symmetric])

lemma utf8_enc2:
  assumes "2 \<le> p" "p < 32" "x < 64"
  shows "utf8_enc (p * 64 + x) = [char_of (192 + p), char_of (128 + x)]"
  using assms by (simp add: utf8_enc_def block_divmod)

lemma utf8_enc3:
  assumes "p < 16" "x < 64" "y < 64" "p = 0 \<longrightarrow> 32 \<le> x" "p = 13 \<longrightarrow> x < 32"
  shows "utf8_enc (p * 4096 + x * 64 + y) = [char_of (224 + p), char_of (128 + x), char_of (128 + y)]"
proof -
  have r: "p * 4096 + x * 64 + y = (p * 64 + x) * 64 + y" by simp
  have n: "\<not> (p * 64 + x) * 64 + y < 0x800" "(p * 64 + x) * 64 + y < 0x10000"
    using assms by (cases "p = 0", simp_all)
  have s: "\<not> (0xD800 \<le> (p * 64 + x) * 64 + y \<and> (p * 64 + x) * 64 + y \<le> 0xDFFF)"
  proof -
    consider "p \<le> 12" | "p = 13" | "14 \<le> p" by linarith
    then show ?thesis using assms by cases auto
  qed
  define q1 where "q1 = p * 64 + x"
  have "q1 div 64 = p" "q1 mod 64 = x" unfolding q1_def by (rule block_divmod, fact)+
  moreover have "(q1 * 64 + y) div 64 = q1" "(q1 * 64 + y) mod 64 = y" by (rule block_divmod, fact)+
  ultimately show ?thesis
    unfolding r utf8_enc_def div_64_64 using assms n s unfolding q1_def [symmetric] by auto
qed

lemma utf8_enc4:
  assumes "p < 5" "x < 64" "y < 64" "z < 64" "p = 0 \<longrightarrow> 16 \<le> x" "p = 4 \<longrightarrow> x < 16"
  shows "utf8_enc (p * 262144 + x * 4096 + y * 64 + z)
    = [char_of (240 + p), char_of (128 + x), char_of (128 + y), char_of (128 + z)]"
proof -
  have r: "p * 262144 + x * 4096 + y * 64 + z = ((p * 64 + x) * 64 + y) * 64 + z" by simp
  have n: "\<not> ((p * 64 + x) * 64 + y) * 64 + z < 0x10000" "((p * 64 + x) * 64 + y) * 64 + z \<le> 0x10FFFF"
    using assms by (cases "p = 0"; cases "p = 4"; simp)+
  define q1 where "q1 = p * 64 + x"
  define q2 where "q2 = q1 * 64 + y"
  have "q1 div 64 = p" "q1 mod 64 = x" unfolding q1_def by (rule block_divmod, fact)+
  moreover have "q2 div 64 = q1" "q2 mod 64 = y" unfolding q2_def by (rule block_divmod, fact)+
  moreover have "(q2 * 64 + z) div 64 = q2" "(q2 * 64 + z) mod 64 = z" by (rule block_divmod, fact)+
  ultimately show ?thesis
    unfolding r utf8_enc_def div_64_64 using assms n
    unfolding q1_def [symmetric] q2_def [symmetric] by simp
qed

lemma byte_offset:
  assumes "k \<le> byte c" "byte c < k + m" "m dvd k"
  shows "byte c mod m < m" "char_of (k + byte c mod m) = c" "byte c = k + byte c mod m"
proof -
  obtain q where k: "k = m * q" using assms(3) by blast
  show "byte c = k + byte c mod m"
    using assms(1,2) unfolding k
    by (metis add_less_cancel_left le_iff_add mod_less mod_mult_self4)
  then show "char_of (k + byte c mod m) = c" by (metis char_of_char)
  show "byte c mod m < m" using assms by (cases "m = 0") auto
qed

lemma decode1_cases:
  assumes "decode1 c cs = (r, w)" and "\<not> (r = RuneError \<and> w = 0)"
  obtains (one) "byte c < 0x80" "r = byte c" "w = 0"
  | (two) c1 ds where "0xC2 \<le> byte c" "byte c \<le> 0xDF" "cs = c1 # ds" "cont_byte c1"
      "r = (byte c mod 32) * 64 + byte c1 mod 64" "w = 1"
  | (three) c1 c2 ds where "0xE0 \<le> byte c" "byte c \<le> 0xEF" "cs = c1 # c2 # ds" "cont_byte c1"
      "cont_byte c2" "byte c = 0xE0 \<longrightarrow> 0xA0 \<le> byte c1" "byte c = 0xED \<longrightarrow> byte c1 \<le> 0x9F"
      "r = (byte c mod 16) * 4096 + (byte c1 mod 64) * 64 + byte c2 mod 64" "w = 2"
  | (four) c1 c2 c3 ds where "0xF0 \<le> byte c" "byte c \<le> 0xF4" "cs = c1 # c2 # c3 # ds" "cont_byte c1"
      "cont_byte c2" "cont_byte c3" "byte c = 0xF0 \<longrightarrow> 0x90 \<le> byte c1" "byte c = 0xF4 \<longrightarrow> byte c1 \<le> 0x8F"
      "r = (byte c mod 8) * 262144 + (byte c1 mod 64) * 4096 + (byte c2 mod 64) * 64 + byte c3 mod 64"
      "w = 3"
proof -
  consider "byte c < 0x80" | "0xC2 \<le> byte c" "byte c \<le> 0xDF" | "0xE0 \<le> byte c" "byte c \<le> 0xEF"
    | "0xF0 \<le> byte c" "byte c \<le> 0xF4"
    using assms by (fastforce simp: decode1_def Let_def split: if_splits)
  then show ?thesis
  proof cases
    case 1
    then have "r = byte c" "w = 0" using assms(1) by (simp_all add: decode1_ascii)
    with 1 show ?thesis by (rule one)
  next
    case 2
    with assms two show ?thesis by (auto simp: decode1_def Let_def split: list.splits if_splits)
  next
    case 3
    with assms three show ?thesis by (auto simp: decode1_def Let_def split: list.splits if_splits)
  next
    case 4
    with assms four show ?thesis by (auto simp: decode1_def Let_def split: list.splits if_splits)
  qed
qed

lemma utf8_enc_decode1:
  assumes "decode1 c cs = (r, w)" and "\<not> (r = RuneError \<and> w = 0)"
  shows "utf8_enc r = c # take w cs"
  using assms
proof (cases rule: decode1_cases)
  case one
  then show ?thesis by (simp add: utf8_enc_def)
next
  case (two c1 ds)
  note c = byte_offset [of 192 c 32] byte_offset [of 128 c1 64]
  from two show ?thesis
    unfolding two(5) by (subst utf8_enc2) (use c in \<open>auto simp: cont_byte_def\<close>)
next
  case (three c1 c2 ds)
  note c = byte_offset [of 224 c 16] byte_offset [of 128 c1 64] byte_offset [of 128 c2 64]
  from three show ?thesis
    unfolding three(8) by (subst utf8_enc3) (use c in \<open>auto simp: cont_byte_def\<close>)
next
  case (four c1 c2 c3 ds)
  note c = byte_offset [of 240 c 8] byte_offset [of 128 c1 64] byte_offset [of 128 c2 64]
    byte_offset [of 128 c3 64]
  have "utf8_enc r = [char_of (240 + byte c mod 8), char_of (128 + byte c1 mod 64),
      char_of (128 + byte c2 mod 64), char_of (128 + byte c3 mod 64)]"
    unfolding four(9)
  proof (rule utf8_enc4)
    show "byte c mod 8 < 5" using four(1,2) c(3) by simp
    show "byte c mod 8 = 0 \<longrightarrow> 16 \<le> byte c1 mod 64" "byte c mod 8 = 4 \<longrightarrow> byte c1 mod 64 < 16"
      using four(1,2,4,7,8) c(3,6) by (auto simp: cont_byte_def)
  qed simp_all
  with four show ?thesis using c(2,5,8,11) by (simp add: cont_byte_def)
qed

lemma decode1_prefix:
  assumes "decode1 c cs = (r, w)" and "\<not> (r = RuneError \<and> w = 0)"
  shows "decode1 c (take w cs @ xs) = (r, w)"
  using assms by (cases rule: decode1_cases) (simp_all add: decode1_def)

lemma decode1_ge: "decode1 c cs = (r, w) \<Longrightarrow> 0x80 \<le> byte c \<Longrightarrow> 0x80 \<le> r"
proof (rule ccontr)
  assume d: "decode1 c cs = (r, w)" and b: "0x80 \<le> byte c" and r: "\<not> 0x80 \<le> r"
  then have "utf8_enc r = c # take w cs" by (intro utf8_enc_decode1) (auto simp: RuneError_def)
  with r have "c = char_of r" by (simp add: utf8_enc_def)
  with b r show False by (simp add: of_char_of)
qed

lemma hex_value_digit: "n < 16 \<Longrightarrow> hex_value (hex_digit n) = Some n"
  by (auto simp: hex_value_def hex_digit_def Let_def of_char_of)

lemma hex4_escape:
  assumes "r < 0x10000"
  shows "hex4 (hex_digit (r div 4096 mod 16) # hex_digit (r div 256 mod 16) #
     hex_digit (r div 16 mod 16) # hex_digit (r mod 16) # xs) = Some r"
proof -
  define a b c where "a = r div 16" "b = a div 16" "c = b div 16"
  have d: "r div 256 = b" "r div 4096 = c"
    unfolding a_b_c_def by (simp_all add: div_mult2_eq [symmetric])
  have "c < 16" using assms unfolding d(2) [symmetric] by (simp add: less_mult_imp_div_less)
  then have "c mod 16 * 4096 + b mod 16 * 256 + a mod 16 * 16 + r mod 16 = r"
    using div_mult_mod_eq [of r 16] div_mult_mod_eq [of a 16] div_mult_mod_eq [of b 16]
    unfolding a_b_c_def [symmetric] by simp
  then show ?thesis
    unfolding d a_b_c_def(1) [symmetric] by (simp add: hex4_def hex_value_digit)
qed

lemma parse_u_escape:
  assumes "r < 0xD800"
  shows "parse_chars (u_escape r @ xs) = map_option (\<lambda>(s, rest). (utf8_enc r @ s, rest)) (parse_chars xs)"
proof -
  have h: "hex4 (drop 2 (u_escape r @ xs)) = Some r"
    using hex4_escape [of r xs] assms by (simp add: u_escape_def)
  then have "u_rune (drop 2 (u_escape r @ xs)) = Some (utf8_enc r, 4)"
    using assms by (simp add: u_rune_def)
  then show ?thesis by (simp add: u_escape_def split: option.split)
qed

lemma char_of_quote: "char_of (34::nat) = CHR 0x22" "char_of (92::nat) = CHR 0x5C"
  by code_simp+

lemma byte_eqD: "byte c = byte d \<Longrightarrow> c = d"
  by simp

lemma parse_json_rune_ascii:
  assumes "byte c < 0x80"
  shows "parse_chars (json_rune (byte c, [c]) @ xs) = map_option (\<lambda>(s, rest). (c # s, rest)) (parse_chars xs)"
proof -
  have e: "utf8_enc (byte c) = [c]" using assms by (simp add: utf8_enc_def)
  consider (esc) "c \<in> {CHR 0x22, CHR 0x5C, CHR 0x08, CHR 0x0C, CHR 0x0A, CHR 0x0D, CHR 0x09}"
    | (uni) "json_rune (byte c, [c]) = u_escape (byte c)"
    | (plain) "json_rune (byte c, [c]) = [c]" "\<not> byte c < 0x20" "c \<noteq> CHR 0x22" "c \<noteq> CHR 0x5C"
  proof (cases "c \<in> {CHR 0x22, CHR 0x5C, CHR 0x08, CHR 0x0C, CHR 0x0A, CHR 0x0D, CHR 0x09}")
    case False
    then have n: "byte c \<noteq> 0x22" "byte c \<noteq> 0x5C" "byte c \<noteq> 8" "byte c \<noteq> 12" "byte c \<noteq> 10"
      "byte c \<noteq> 13" "byte c \<noteq> 9"
      using byte_eqD [of c "CHR 0x22"] byte_eqD [of c "CHR 0x5C"] byte_eqD [of c "CHR 0x08"]
        byte_eqD [of c "CHR 0x0C"] byte_eqD [of c "CHR 0x0A"] byte_eqD [of c "CHR 0x0D"]
        byte_eqD [of c "CHR 0x09"] by auto
    show thesis
    proof (cases "byte c < 0x20 \<or> byte c = 0x3C \<or> byte c = 0x3E \<or> byte c = 0x26")
      case True
      with n show thesis by (intro uni) (auto simp: json_rune_def)
    next
      case False
      with n assms \<open>c \<notin> _\<close> show thesis by (intro plain) (auto simp: json_rune_def RuneError_def)
    qed
  qed (rule esc)
  then show ?thesis
  proof cases
    case esc
    then show ?thesis
      unfolding insert_iff empty_iff by (elim disjE) (simp_all add: json_rune_def simple_escape_def char_of_quote)
  next
    case uni
    then show ?thesis using parse_u_escape [of "byte c" xs] assms e by simp
  next
    case plain
    then show ?thesis using assms e by (simp add: decode1_ascii)
  qed
qed

lemma parse_json_rune:
  assumes "decode1 c cs = (r, w)" and "\<not> (r = RuneError \<and> w = 0)"
  shows "parse_chars (json_rune (r, c # take w cs) @ xs) =
    map_option (\<lambda>(s, rest). ((c # take w cs) @ s, rest)) (parse_chars xs)"
proof (cases "byte c < 0x80")
  case True
  then show ?thesis using assms(1) parse_json_rune_ascii [OF True] by (simp add: decode1_ascii)
next
  case False
  have e: "utf8_enc r = c # take w cs" using assms by (rule utf8_enc_decode1)
  have r: "0x80 \<le> r" using assms(1) False decode1_ge by simp
  show ?thesis
  proof (cases "r = 0x2028 \<or> r = 0x2029")
    case True
    then have "json_rune (r, c # take w cs) = u_escape r" by (auto simp: json_rune_def)
    then show ?thesis using parse_u_escape [of r xs] True e by auto
  next
    case F: False
    have wl: "w \<le> length cs" using decode1_width [of c cs] assms(1) by simp
    have "json_rune (r, c # take w cs) = c # take w cs"
      using r F assms(2) wl by (auto simp: json_rune_def)
    moreover have "c \<noteq> CHR 0x22" "c \<noteq> CHR 0x5C" using False by auto
    ultimately show ?thesis
      using e False wl decode1_prefix [OF assms, of xs] by simp
  qed
qed

lemma parse_chars_json:
  "valid_utf8 s \<Longrightarrow> parse_chars (concat (map json_rune (runes s)) @ CHR 0x22 # rest) = Some (s, rest)"
proof (induction s rule: runes.induct)
  case (2 c cs)
  obtain r w where d: "decode1 c cs = (r, w)" by (cases "decode1 c cs")
  have wl: "w \<le> length cs" using decode1_width [of c cs] d by simp
  from 2(2) d have v: "valid_utf8 (drop w cs)" "\<not> (r = RuneError \<and> w = 0)"
    using wl by (auto simp: valid_utf8_def)
  from 2(1) [OF d [symmetric] v(1)] parse_json_rune [OF d v(2)]
  show ?case by (simp add: d)
qed simp


section \<open>Decoding a value\<close>

definition json_space :: "char \<Rightarrow> bool" where
  "json_space c \<longleftrightarrow> c = CHR '' '' \<or> c = CHR 0x09 \<or> c = CHR 0x0A \<or> c = CHR 0x0D"

definition skip_ws :: "string \<Rightarrow> string" where
  "skip_ws s = dropWhile json_space s"

definition expect :: "char \<Rightarrow> string \<Rightarrow> string option" where
  "expect c s = (case skip_ws s of x # r \<Rightarrow> if x = c then Some r else None | [] \<Rightarrow> None)"

definition is_digit :: "char \<Rightarrow> bool" where
  "is_digit c \<longleftrightarrow> 48 \<le> byte c \<and> byte c \<le> 57"

definition number_char :: "char \<Rightarrow> bool" where
  "number_char c \<longleftrightarrow> is_digit c \<or> c = CHR ''-'' \<or> c = CHR ''+'' \<or> c = CHR ''.'' \<or> c = CHR ''e'' \<or> c = CHR ''E''"

definition digits1 :: "string \<Rightarrow> string option" where
  "digits1 s = (case s of c # r \<Rightarrow> if is_digit c then Some (dropWhile is_digit r) else None | [] \<Rightarrow> None)"

definition int_part :: "string \<Rightarrow> string option" where
  "int_part s = (case s of c # r \<Rightarrow> if c = CHR ''0'' then Some r else digits1 s | [] \<Rightarrow> None)"

definition frac_part :: "string \<Rightarrow> string option" where
  "frac_part s = (case s of c # r \<Rightarrow> if c = CHR ''.'' then digits1 r else Some s | [] \<Rightarrow> Some s)"

definition exp_part :: "string \<Rightarrow> string option" where
  "exp_part s =
    (case s of
       c # r \<Rightarrow>
         if c = CHR ''e'' \<or> c = CHR ''E'' then
           digits1 (case r of d # r2 \<Rightarrow> if d = CHR ''+'' \<or> d = CHR ''-'' then r2 else r | [] \<Rightarrow> r)
         else Some s
     | [] \<Rightarrow> Some s)"

definition valid_number :: "string \<Rightarrow> bool" where
  "valid_number s \<longleftrightarrow>
    do { r \<leftarrow> int_part (case s of c # r \<Rightarrow> if c = CHR ''-'' then r else s | [] \<Rightarrow> s);
         r \<leftarrow> frac_part r;
         exp_part r } = Some []"

definition parse_scalar :: "string \<Rightarrow> (json \<times> string) option" where
  "parse_scalar s =
    (if HasPrefix s ''null'' then Some (JNull, drop 4 s)
     else if HasPrefix s ''true'' then Some (JBool True, drop 4 s)
     else if HasPrefix s ''false'' then Some (JBool False, drop 5 s)
     else let n = takeWhile number_char s in
          if valid_number n then Some (JNum n, dropWhile number_char s) else None)"

fun parse_value :: "nat \<Rightarrow> string \<Rightarrow> (json \<times> string) option"
and parse_elems :: "nat \<Rightarrow> string \<Rightarrow> (json list \<times> string) option"
and parse_members :: "nat \<Rightarrow> string \<Rightarrow> ((string \<times> json) list \<times> string) option" where
  "parse_value 0 s = None"
| "parse_value (Suc n) s =
     (case expect (CHR 0x22) s of
        Some r \<Rightarrow> do { (t, r) \<leftarrow> parse_chars r; Some (JStr t, r) }
      | None \<Rightarrow>
     (case expect (CHR ''['') s of
        Some r \<Rightarrow>
          (case expect (CHR '']'') r of
             Some r2 \<Rightarrow> Some (JArr [], r2)
           | None \<Rightarrow> do { (xs, r) \<leftarrow> parse_elems n r; Some (JArr xs, r) })
      | None \<Rightarrow>
     (case expect (CHR ''{'') s of
        Some r \<Rightarrow>
          (case expect (CHR ''}'') r of
             Some r2 \<Rightarrow> Some (JObj [], r2)
           | None \<Rightarrow> do { (m, r) \<leftarrow> parse_members n r; Some (JObj m, r) })
      | None \<Rightarrow> parse_scalar (skip_ws s))))"
| "parse_elems 0 s = None"
| "parse_elems (Suc n) s =
     do { (v, r) \<leftarrow> parse_value n s;
          case expect (CHR '','') r of
            Some r \<Rightarrow> do { (xs, r) \<leftarrow> parse_elems n r; Some (v # xs, r) }
          | None \<Rightarrow> do { r \<leftarrow> expect (CHR '']'') r; Some ([v], r) } }"
| "parse_members 0 s = None"
| "parse_members (Suc n) s =
     do { r \<leftarrow> expect (CHR 0x22) s;
          (k, r) \<leftarrow> parse_chars r;
          r \<leftarrow> expect (CHR '':'') r;
          (v, r) \<leftarrow> parse_value n r;
          case expect (CHR '','') r of
            Some r \<Rightarrow> do { (m, r) \<leftarrow> parse_members n r; Some ((k, v) # m, r) }
          | None \<Rightarrow> do { r \<leftarrow> expect (CHR ''}'') r; Some ([(k, v)], r) } }"

definition json_parse :: "string \<Rightarrow> json option" where
  "json_parse s =
    (case parse_value (Suc (length s)) s of
       Some (v, r) \<Rightarrow> if skip_ws r = [] then Some v else None
     | None \<Rightarrow> None)"

fun wf_json :: "json \<Rightarrow> bool" where
  "wf_json JNull = True"
| "wf_json (JBool b) = True"
| "wf_json (JNum n) = valid_number n"
| "wf_json (JStr s) = valid_utf8 s"
| "wf_json (JArr xs) = list_all wf_json xs"
| "wf_json (JObj m) = list_all (\<lambda>(k, v). valid_utf8 k \<and> wf_json v) m"

fun depth :: "json \<Rightarrow> nat" where
  "depth (JArr xs) = Suc (sum_list (map (\<lambda>v. Suc (depth v)) xs))"
| "depth (JObj m) = Suc (sum_list (map (\<lambda>(k, v). Suc (depth v)) m))"
| "depth _ = 1"

lemma expect_hit: "\<not> json_space c \<Longrightarrow> expect c (c # r) = Some r"
  by (simp add: expect_def skip_ws_def)

lemma expect_miss: "\<not> json_space d \<Longrightarrow> d \<noteq> c \<Longrightarrow> expect c (d # r) = None"
  by (simp add: expect_def skip_ws_def)

lemmas expect_simps [simp] = expect_hit expect_miss

definition closes :: "string \<Rightarrow> bool" where
  "closes r \<longleftrightarrow> (case r of [] \<Rightarrow> True | c # _ \<Rightarrow> c = CHR '','' \<or> c = CHR '']'' \<or> c = CHR ''}'')"

lemma closes_not_number: "closes (c # r) \<Longrightarrow> \<not> number_char c"
  by (auto simp: closes_def number_char_def is_digit_def)

definition num_step :: "string \<Rightarrow> string \<Rightarrow> bool" where
  "num_step s r \<longleftrightarrow> (\<exists>p. s = p @ r \<and> list_all number_char p)"

lemma num_step_refl: "num_step s s"
  by (auto simp: num_step_def)

lemma num_step_trans: "num_step s r \<Longrightarrow> num_step r q \<Longrightarrow> num_step s q"
  by (force simp: num_step_def)

lemma num_step_Cons: "number_char c \<Longrightarrow> num_step r q \<Longrightarrow> num_step (c # r) q"
  unfolding num_step_def by (metis append_Cons list.pred_inject(2))

lemma num_step_Cons2: "number_char c \<Longrightarrow> number_char d \<Longrightarrow> num_step r q \<Longrightarrow> num_step (c # d # r) q"
  by (intro num_step_Cons)

lemma num_step_digits: "num_step s (dropWhile is_digit s)"
  unfolding num_step_def
  by (metis takeWhile_dropWhile_id list_all_iff number_char_def set_takeWhileD)

lemma digits1_step: "digits1 s = Some r \<Longrightarrow> num_step s r"
  by (auto simp: digits1_def number_char_def split: list.splits if_splits
      intro: num_step_Cons num_step_digits)

lemma number_parts_step:
  "int_part s = Some r \<Longrightarrow> num_step s r" "frac_part s = Some r \<Longrightarrow> num_step s r"
  "exp_part s = Some r \<Longrightarrow> num_step s r"
  by (auto simp: int_part_def frac_part_def exp_part_def number_char_def is_digit_def
      split: list.splits if_splits intro: num_step_Cons num_step_Cons2 num_step_refl digits1_step)

lemma valid_number_chars:
  assumes "valid_number s"
  shows "list_all number_char s" and "\<exists>c cs. s = c # cs \<and> (c = CHR ''-'' \<or> is_digit c)"
proof -
  define t where "t = (case s of c # r \<Rightarrow> if c = CHR ''-'' then r else s | [] \<Rightarrow> s)"
  obtain r1 r2 where r: "int_part t = Some r1" "frac_part r1 = Some r2" "exp_part r2 = Some []"
    using assms unfolding valid_number_def t_def [symmetric] by (auto split: bind_splits)
  then have "num_step t []" by (meson num_step_trans number_parts_step)
  then have "num_step s []"
    unfolding t_def
    by (auto simp: number_char_def split: list.splits if_splits intro: num_step_Cons num_step_refl)
  then show "list_all number_char s" by (simp add: num_step_def)
  show "\<exists>c cs. s = c # cs \<and> (c = CHR ''-'' \<or> is_digit c)"
    using r(1) unfolding t_def int_part_def digits1_def
    by (auto simp: is_digit_def split: list.splits if_splits)
qed

lemma json_text_hd:
  assumes "wf_json v"
  shows "\<exists>c cs. json_text v = c # cs \<and> \<not> json_space c \<and> c \<noteq> CHR '']'' \<and> c \<noteq> CHR ''}''"
proof (cases v)
  case (JNum n)
  with assms obtain c cs where "n = c # cs" "c = CHR ''-'' \<or> is_digit c"
    using valid_number_chars(2) [of n] by auto
  with JNum show ?thesis by (auto simp: json_space_def is_digit_def)
qed (auto simp: json_string_def json_space_def)

lemma parse_json_string: 
  "valid_utf8 s \<Longrightarrow> parse_value (Suc n) (json_string s @ r) = Some (JStr s, r)"
  using parse_chars_json [of s r] by (simp add: json_string_def json_space_def)

lemma parse_number:
  assumes "valid_number s" and "closes r"
  shows "parse_value (Suc n) (s @ r) = Some (JNum s, r)"
proof -
  obtain c cs where s: "s = c # cs" "c = CHR ''-'' \<or> is_digit c"
    using valid_number_chars(2) [OF assms(1)] by auto
  have t: "takeWhile number_char (s @ r) = s" "dropWhile number_char (s @ r) = r"
    using valid_number_chars(1) [OF assms(1)] closes_not_number assms(2)
    by (cases r; simp add: takeWhile_append dropWhile_append list_all_iff)+
  have h: "\<not> json_space c" "c \<notin> {CHR 0x22, CHR ''['', CHR ''{'', CHR ''n'', CHR ''t'', CHR ''f''}"
    using s(2) by (auto simp: json_space_def is_digit_def)
  then have "skip_ws (s @ r) = s @ r" unfolding s by (simp add: skip_ws_def)
  moreover have "parse_scalar (s @ r) = Some (JNum s, r)"
    unfolding parse_scalar_def Let_def t using h assms(1) by (simp add: s(1) HasPrefix_def)
  ultimately show ?thesis using h by (simp add: s(1))
qed

lemma parse_text:
  "wf_json v \<Longrightarrow> depth v \<le> n \<Longrightarrow> closes r \<Longrightarrow> parse_value n (json_text v @ r) = Some (v, r)"
proof (induction v arbitrary: n r)
  case (JArr xs)
  then obtain n' where n: "n = Suc n'" by (cases n) auto
  have elems: "ys \<noteq> [] \<Longrightarrow> set ys \<subseteq> set xs \<Longrightarrow> sum_list (map (\<lambda>v. Suc (depth v)) ys) \<le> k \<Longrightarrow>
    parse_elems k (Join (map json_text ys) '','' @ CHR '']'' # r) = Some (ys, r)" for ys k
  proof (induction ys arbitrary: k)
    case (Cons y ys)
    from Cons.prems obtain k' where k: "k = Suc k'" by (cases k) auto
    have y: "parse_value k' (json_text y @ q) = Some (y, q)" if "closes q" for q
      using JArr.IH [of y k' q] JArr.prems(1) Cons.prems that k by (auto simp: list_all_iff)
    show ?case
    proof (cases ys)
      case Nil
      with y [of "CHR '']'' # r"] show ?thesis by (simp add: k closes_def json_space_def)
    next
      case (Cons z zs)
      then show ?thesis
        using Cons.IH [of k'] Cons.prems y [of "CHR '','' # Join (map json_text ys) '','' @ CHR '']'' # r"]
        by (simp add: k closes_def json_space_def)
    qed
  qed simp
  show ?case
  proof (cases xs)
    case (Cons y ys)
    obtain c cs where c: "json_text y = c # cs" "\<not> json_space c" "c \<noteq> CHR '']''"
      using json_text_hd [of y] JArr.prems(1) Cons by auto
    then have "expect (CHR '']'') (Join (map json_text xs) '','' @ CHR '']'' # r) = None"
      using Cons by (cases ys) simp_all
    then show ?thesis
      using elems [of xs n'] Cons JArr.prems n by (simp add: json_space_def)
  qed (simp add: n json_space_def)
next
  case (JObj m)
  then obtain n' where n: "n = Suc n'" by (cases n) auto
  let ?mt = "\<lambda>(k, v). json_string k @ '':'' @ json_text v"
  have mems: "ys \<noteq> [] \<Longrightarrow> set ys \<subseteq> set m \<Longrightarrow> sum_list (map (\<lambda>(k, v). Suc (depth v)) ys) \<le> k \<Longrightarrow>
    parse_members k (Join (map ?mt ys) '','' @ CHR ''}'' # r) = Some (ys, r)" for ys k
  proof (induction ys arbitrary: k)
    case (Cons y ys)
    obtain a b where yab: "y = (a, b)" by (cases y)
    from Cons.prems yab obtain k' where k: "k = Suc k'" by (cases k) auto
    have wf: "valid_utf8 a" "wf_json b" using JObj.prems(1) Cons.prems(2) yab by (auto simp: list_all_iff)
    have y: "parse_value k' (json_text b @ q) = Some (b, q)" if "closes q" for q
      using JObj.IH [of y b k' q] wf(2) Cons.prems that k yab by auto
    have a: "parse_chars (concat (map json_rune (runes a)) @ CHR 0x22 # q) = Some (a, q)" for q
      using wf(1) by (rule parse_chars_json)
    show ?case
    proof (cases ys)
      case Nil
      with y [of "CHR ''}'' # r"] a show ?thesis
        by (simp add: k closes_def json_space_def yab json_string_def)
    next
      case (Cons z zs)
      then show ?thesis
        using Cons.IH [of k'] Cons.prems y [of "CHR '','' # Join (map ?mt ys) '','' @ CHR ''}'' # r"] a
        by (simp add: k closes_def json_space_def yab json_string_def)
    qed
  qed simp
  show ?case
  proof (cases m)
    case (Cons y ys)
    have "expect (CHR ''}'') (Join (map ?mt m) '','' @ CHR ''}'' # r) = None"
      using Cons by (cases ys; cases y) (simp_all add: json_string_def json_space_def)
    then show ?thesis
      using mems [of m n'] Cons JObj.prems n by (simp add: json_space_def)
  qed (simp add: n json_space_def)
next
  case (JNum s)
  then show ?case by (cases n) (simp, metis parse_number json_text.simps(3) wf_json.simps(3))
next
  case (JStr s)
  then show ?case by (cases n) (simp, metis parse_json_string json_text.simps(4) wf_json.simps(4))
qed (auto simp: json_space_def parse_scalar_def HasPrefix_def skip_ws_def dest!: Suc_le_D)

lemma length_Join: "ts \<noteq> [] \<Longrightarrow> Suc (length (Join ts [c])) = sum_list (map (\<lambda>t. Suc (length t)) ts)"
proof (induction ts)
  case (Cons t ts)
  then show ?case by (cases ts) auto
qed simp

lemma length_Join_ge: "sum_list (map (\<lambda>t. Suc (length t)) ts) \<le> Suc (length (Join ts [c]))"
  by (cases ts) (simp, metis length_Join list.distinct(1) order_refl)

lemma depth_length: "wf_json v \<Longrightarrow> depth v \<le> length (json_text v)"
proof (induction v)
  case (JArr xs)
  then have "sum_list (map (\<lambda>v. Suc (depth v)) xs) \<le> sum_list (map (\<lambda>v. Suc (length (json_text v))) xs)"
    by (intro sum_list_mono) (auto simp: list_all_iff)
  also have "\<dots> \<le> Suc (length (Join (map json_text xs) '',''))"
    using length_Join_ge [of "map json_text xs" "CHR '',''"] by (simp add: comp_def)
  finally show ?case by simp
next
  case (JObj m)
  let ?mt = "\<lambda>(k, v). json_string k @ '':'' @ json_text v"
  have "sum_list (map (\<lambda>(k, v). Suc (depth v)) m) \<le> sum_list (map (\<lambda>e. Suc (length (?mt e))) m)"
    using JObj by (intro sum_list_mono) (fastforce simp: list_all_iff)
  also have "\<dots> \<le> Suc (length (Join (map ?mt m) '',''))"
    using length_Join_ge [of "map ?mt m" "CHR '',''"] by (simp add: comp_def)
  finally show ?case by simp
qed (auto simp: json_string_def Suc_le_eq dest: valid_number_chars(2))

lemma json_parse_text: "wf_json v \<Longrightarrow> json_parse (json_text v) = Some v"
  using parse_text [of v "Suc (length (json_text v))" "[]"] depth_length [of v]
  by (simp add: json_parse_def closes_def skip_ws_def)

section \<open>A proper prefix of an object is no value\<close>

lemma expect_append: "expect c s = Some r \<Longrightarrow> expect c (s @ t) = Some (r @ t)"
  by (induction s) (auto simp: expect_def skip_ws_def split: if_splits)

lemma expect_None_append: "expect c s = None \<Longrightarrow> skip_ws s \<noteq> [] \<Longrightarrow> expect c (s @ t) = None"
  by (induction s) (auto simp: expect_def skip_ws_def split: if_splits)

lemma expect_Some_ne: "expect c s = Some r \<Longrightarrow> skip_ws s \<noteq> []"
  by (auto simp: expect_def split: list.splits)

lemma HasPrefix_appendI: "HasPrefix s p \<Longrightarrow> HasPrefix (s @ t) p"
  by (metis HasPrefix_append HasPrefix_def append.assoc append_take_drop_id)

lemma decode1_append: "decode1 c cs = (r, w) \<Longrightarrow> \<not> (r = RuneError \<and> w = 0) \<Longrightarrow> decode1 c (cs @ t) = (r, w)"
  by (metis append.assoc append_take_drop_id decode1_prefix)

lemma decode1_stop:
  assumes "d \<in> set cs" "\<not> cont_byte d"
  shows "decode1 c (cs @ t) = decode1 c cs"
proof -
  obtain p q where "cs = p @ d # q" using assms(1) by (meson split_list)
  then show ?thesis using assms(2) by (simp add: decode1_append_gen)
qed

lemma parse_chars_quote: "parse_chars s \<noteq> None \<Longrightarrow> CHR 0x22 \<in> set s"
proof (induction s rule: length_induct)
  case (1 s)
  then obtain c cs where s: "s = c # cs" by (cases s) auto
  have IH: "parse_chars (drop k cs) \<noteq> None \<Longrightarrow> CHR 0x22 \<in> set cs" for k
    using 1(1) [rule_format, of "drop k cs"] in_set_dropD [of _ k cs] unfolding s
    by (simp add: less_Suc_eq_le)
  show ?case
  proof (cases "c = CHR 0x5C")
    case True
    with 1(2) s obtain e ds where cs: "cs = e # ds" by (cases cs) auto
    with 1(2) True s have "parse_chars ds \<noteq> None \<or> (\<exists>w. parse_chars (drop w ds) \<noteq> None)"
      by (auto split: if_splits option.splits)
    then obtain k where "parse_chars (drop (Suc k) cs) \<noteq> None" using cs by (metis drop0 drop_Suc_Cons)
    then show ?thesis using IH s by auto
  next
    case False
    with 1(2) s IH show ?thesis by (auto split: if_splits prod.splits)
  qed
qed

lemma hex4_append: "hex4 s = Some r \<Longrightarrow> hex4 (s @ t) = Some r \<and> 4 \<le> length s"
  by (auto simp: hex4_def split: list.splits)

lemma u_value_append: "u_value s = Some r \<Longrightarrow> u_value (s @ t) = Some r \<and> 6 \<le> length s"
proof -
  assume a: "u_value s = Some r"
  then have p: "HasPrefix s [CHR 0x5C, CHR ''u'']" "hex4 (drop 2 s) = Some r"
    by (auto simp: u_value_def split: if_splits)
  then have "2 \<le> length s" by (auto simp: HasPrefix_def dest: arg_cong [of _ _ length])
  with p hex4_append [OF p(2), of t] show ?thesis by (auto simp: u_value_def HasPrefix_appendI)
qed

lemma u_value_None_append: "u_value s = None \<Longrightarrow> parse_chars s \<noteq> None \<Longrightarrow> u_value (s @ t) = None"
proof (cases s)
  case (Cons c cs)
  assume a: "u_value s = None" "parse_chars s \<noteq> None"
  show ?thesis
  proof (cases "c = CHR 0x5C")
    case True
    with a Cons obtain e ds where cs: "cs = e # ds" by (cases cs) auto
    with a Cons True have "e \<noteq> CHR ''u''"
      by (auto simp: u_value_def HasPrefix_def u_rune_def split: option.splits)
    then show ?thesis by (simp add: Cons cs u_value_def HasPrefix_def)
  qed (simp add: Cons u_value_def HasPrefix_def)
qed simp

lemma u_rune_append:
  assumes "u_rune s = Some (x, w)" and "parse_chars (drop w s) \<noteq> None"
  shows "u_rune (s @ t) = Some (x, w) \<and> w \<le> length s"
proof -
  obtain r where r: "hex4 s = Some r" using assms(1) by (auto simp: u_rune_def split: option.splits)
  note l = hex4_append [OF r, of t]
  show ?thesis
  proof (cases "0xD800 \<le> r \<and> r < 0xE000")
    case False
    then show ?thesis using assms(1) r l by (auto simp: u_rune_def split: if_splits)
  next
    case True
    show ?thesis
    proof (cases "u_value (drop 4 s)")
      case None
      with True r assms(1) have w: "w = 4" "x = utf8_enc RuneError" by (auto simp: u_rune_def)
      then have "u_value (drop 4 s @ t) = None" using None assms(2) u_value_None_append by blast
      then show ?thesis using w l True by (simp add: u_rune_def)
    next
      case (Some r2)
      then show ?thesis
        using u_value_append [OF Some, of t] True r l assms(1)
        by (auto simp: u_rune_def split: if_splits)
    qed
  qed
qed

lemma parse_chars_append:
  "parse_chars s = Some (x, r) \<Longrightarrow> parse_chars (s @ t) = Some (x, r @ t)"
proof (induction s arbitrary: x rule: length_induct)
  case (1 s)
  then obtain c cs where s: "s = c # cs" by (cases s) auto
  have IH: "parse_chars (drop k cs) = Some (y, r) \<Longrightarrow> parse_chars (drop k cs @ t) = Some (y, r @ t)" for k y
    using 1(1) [rule_format, of "drop k cs"] unfolding s by simp
  consider "c = CHR 0x22" | e ds where "c = CHR 0x5C" "cs = e # ds" "e = CHR ''u''"
    | e ds where "c = CHR 0x5C" "cs = e # ds" "e \<noteq> CHR ''u''"
    | "c \<noteq> CHR 0x22" "c \<noteq> CHR 0x5C"
    using 1(2) s by (cases "c = CHR 0x5C"; cases cs) auto
  then show ?case
  proof cases
    case 1
    then show ?thesis using \<open>parse_chars s = _\<close> s by simp
  next
    case (2 e ds)
    obtain u w y where u: "u_rune ds = Some (u, w)" "parse_chars (drop w ds) = Some (y, r)" "x = u @ y"
      using \<open>parse_chars s = _\<close> 2 s by (auto split: option.splits)
    with IH [of "Suc w" y] u_rune_append [OF u(1), of t] 2 show ?thesis by (simp add: s)
  next
    case (3 e ds)
    then show ?thesis
      using \<open>parse_chars s = _\<close> IH [of 1] by (auto simp: s split: option.splits)
  next
    case 4
    obtain q w where d: "decode1 c cs = (q, w)" by (cases "decode1 c cs")
    obtain y where y: "parse_chars (drop w cs) = Some (y, r)" "x = utf8_enc q @ y" "\<not> byte c < 0x20"
      using \<open>parse_chars s = _\<close> 4 d by (auto simp: s split: if_splits)
    have "CHR 0x22 \<in> set cs" using parse_chars_quote [of "drop w cs"] y(1) in_set_dropD by fastforce
    then have "decode1 c (cs @ t) = (q, w)"
      using decode1_stop [of "CHR 0x22" cs c t] d by (simp add: cont_byte_def)
    moreover have "w \<le> length cs" using decode1_width [of c cs] d by simp
    ultimately show ?thesis using IH [of w y] y 4 by (simp add: s)
  qed
qed

lemma parse_scalar_ne: "parse_scalar s = Some v \<Longrightarrow> s \<noteq> []"
  by (auto simp: parse_scalar_def HasPrefix_def valid_number_def int_part_def)

lemma parse_value_ne: "parse_value n s = Some v \<Longrightarrow> skip_ws s \<noteq> []"
  by (cases n) (auto split: option.splits dest: expect_Some_ne parse_scalar_ne)

lemma parse_elems_ne: "parse_elems n s = Some v \<Longrightarrow> skip_ws s \<noteq> []"
  by (cases n) (auto split: bind_splits dest: parse_value_ne)

lemma parse_members_ne: "parse_members n s = Some v \<Longrightarrow> skip_ws s \<noteq> []"
  by (cases n) (auto split: bind_splits dest: expect_Some_ne)

lemma skip_ws_Nil [simp]: "skip_ws [] = []"
  by (simp add: skip_ws_def)

lemma skip_ws_append: "skip_ws s \<noteq> [] \<Longrightarrow> skip_ws (s @ t) = skip_ws s @ t"
  by (auto simp: skip_ws_def dropWhile_append)

definition open_end :: "json \<Rightarrow> string \<Rightarrow> bool" where
  "open_end v r \<longleftrightarrow> r = [] \<and> (\<exists>n. v = JNum n)"

lemma parse_scalar_append:
  assumes "parse_scalar s = Some (v, r)" "\<not> open_end v r"
  shows "parse_scalar (s @ t) = Some (v, r @ t)"
proof (cases "HasPrefix s ''null'' \<or> HasPrefix s ''true'' \<or> HasPrefix s ''false''")
  case True
  then have "4 \<le> length s" "HasPrefix s ''false'' \<Longrightarrow> 5 \<le> length s"
    by (auto simp: HasPrefix_def dest: arg_cong [of _ _ length])
  moreover have "HasPrefix s p \<Longrightarrow> HasPrefix (s @ t) p" for p by (rule HasPrefix_appendI)
  ultimately show ?thesis using True assms(1)
    by (auto simp: parse_scalar_def split: if_splits) (auto simp: HasPrefix_def take_Cons' split: if_splits)
next
  case False
  then have v: "v = JNum (takeWhile number_char s)" "r = dropWhile number_char s"
      "valid_number (takeWhile number_char s)"
    using assms(1) by (auto simp: parse_scalar_def Let_def split: if_splits)
  have w: "takeWhile number_char (s @ t) = takeWhile number_char s"
      "dropWhile number_char (s @ t) = dropWhile number_char s @ t"
    using assms(2) v by (auto simp: open_end_def takeWhile_append dropWhile_append)
  obtain c cs where c: "takeWhile number_char s = c # cs" "c = CHR ''-'' \<or> is_digit c"
    using valid_number_chars(2) [OF v(3)] by auto
  then have "s = c # tl s" by (cases s) (auto split: if_splits)
  then have "\<not> HasPrefix (s @ t) (d # p)" if "d \<noteq> c" for d p
    using that by (metis HasPrefix_def append_Cons length_Cons list.inject take_Suc_Cons)
  moreover have "c \<noteq> CHR ''n''" "c \<noteq> CHR ''t''" "c \<noteq> CHR ''f''" using c(2) by (auto simp: is_digit_def)
  ultimately show ?thesis by (simp add: parse_scalar_def w v(3)) (simp add: v)
qed

lemma parse_append:
  "parse_value n s = Some (v, r) \<Longrightarrow> \<not> open_end v r \<Longrightarrow> parse_value n (s @ t) = Some (v, r @ t)"
  "parse_elems n s = Some (xs, r) \<Longrightarrow> parse_elems n (s @ t) = Some (xs, r @ t)"
  "parse_members n s = Some (m, r) \<Longrightarrow> parse_members n (s @ t) = Some (m, r @ t)"
proof (induction n s and n s and n s arbitrary: v r and xs r and m r
    rule: parse_value_parse_elems_parse_members.induct)
  case (2 n s)
  note ne = parse_value_ne [OF 2(3)]
  consider (str) q where "expect (CHR 0x22) s = Some q"
    | (arr) q where "expect (CHR 0x22) s = None" "expect (CHR ''['') s = Some q"
    | (obj) q where "expect (CHR 0x22) s = None" "expect (CHR ''['') s = None" "expect (CHR ''{'') s = Some q"
    | (sca) "expect (CHR 0x22) s = None" "expect (CHR ''['') s = None" "expect (CHR ''{'') s = None"
    by fastforce
  then show ?case
  proof cases
    case str
    then show ?thesis using 2(3)
      by (auto simp: expect_append parse_chars_append split: bind_splits)
  next
    case arr
    show ?thesis
    proof (cases "expect (CHR '']'') q")
      case None
      then obtain xs where x: "parse_elems n q = Some (xs, r)" "v = JArr xs"
        using 2(3) arr by (auto split: bind_splits)
      have "expect (CHR '']'') (q @ t) = None" using None parse_elems_ne [OF x(1)] by (rule expect_None_append)
      with x 2(2) [OF arr None x(1)] arr show ?thesis by (simp add: expect_append expect_None_append ne)
    next
      case (Some q2)
      with arr 2(3) show ?thesis by (simp add: expect_append expect_None_append ne)
    qed
  next
    case obj
    show ?thesis
    proof (cases "expect (CHR ''}'') q")
      case None
      then obtain m where x: "parse_members n q = Some (m, r)" "v = JObj m"
        using 2(3) obj by (auto split: bind_splits)
      have "expect (CHR ''}'') (q @ t) = None" using None parse_members_ne [OF x(1)] by (rule expect_None_append)
      with x 2(1) [OF obj None x(1)] obj show ?thesis by (simp add: expect_append expect_None_append ne)
    next
      case (Some q2)
      with obj 2(3) show ?thesis by (simp add: expect_append expect_None_append ne)
    qed
  next
    case sca
    with 2(3,4) ne show ?thesis by (simp add: expect_None_append skip_ws_append parse_scalar_append)
  qed
next
  case (4 n s)
  obtain v q where v: "parse_value n s = Some (v, q)" using 4(3) by (auto split: bind_splits)
  show ?case
  proof (cases "expect (CHR '','') q")
    case None
    then have q: "expect (CHR '']'') q = Some r" "xs = [v]" using 4(3) v by (auto split: bind_splits)
    then have ne: "skip_ws q \<noteq> []" by (simp add: expect_Some_ne)
    then have "\<not> open_end v q" by (auto simp: open_end_def)
    from 4(1) [OF v this] None q ne show ?thesis by (simp add: expect_append expect_None_append)
  next
    case (Some q2)
    then obtain ys where q: "parse_elems n q2 = Some (ys, r)" "xs = v # ys"
      using 4(3) v by (auto split: bind_splits)
    have "\<not> open_end v q" using expect_Some_ne [OF Some] by (auto simp: open_end_def)
    from 4(1) [OF v this] 4(2) [OF v refl Some q(1)] Some q show ?thesis by (simp add: expect_append)
  qed
next
  case (6 n s)
  obtain q0 k q1 q2 v q where v: "expect (CHR 0x22) s = Some q0" "parse_chars q0 = Some (k, q1)"
      "expect (CHR '':'') q1 = Some q2" "parse_value n q2 = Some (v, q)"
    using 6(3) by (auto split: bind_splits)
  note a = expect_append [OF v(1)] parse_chars_append [OF v(2)] expect_append [OF v(3)]
  show ?case
  proof (cases "expect (CHR '','') q")
    case None
    then have q: "expect (CHR ''}'') q = Some r" "m = [(k, v)]" using 6(3) v by (auto split: bind_splits)
    then have ne: "skip_ws q \<noteq> []" by (simp add: expect_Some_ne)
    then have "\<not> open_end v q" by (auto simp: open_end_def)
    from 6(1) [OF v(1,2) refl v(3,4) this] None q ne show ?thesis
      by (simp add: expect_append expect_None_append a)
  next
    case (Some q3)
    then obtain ys where q: "parse_members n q3 = Some (ys, r)" "m = (k, v) # ys"
      using 6(3) v by (auto split: bind_splits)
    have "\<not> open_end v q" using expect_Some_ne [OF Some] by (auto simp: open_end_def)
    from 6(1) [OF v(1,2) refl v(3,4) this] 6(2) [OF v(1,2) refl v(3,4) refl Some q(1)] Some q
    show ?thesis by (simp add: expect_append a)
  qed
qed simp_all


lemma parse_fuel_Suc:
  "parse_value n s = Some x \<Longrightarrow> parse_value (Suc n) s = Some x"
  "parse_elems n s = Some y \<Longrightarrow> parse_elems (Suc n) s = Some y"
  "parse_members n s = Some z \<Longrightarrow> parse_members (Suc n) s = Some z"
proof (induction n s and n s and n s arbitrary: x and y and z
    rule: parse_value_parse_elems_parse_members.induct)
  case (2 n s)
  from 2(3) show ?case
    unfolding parse_value.simps(2) [of "Suc n"] parse_value.simps(2) [of n]
    by (auto split: option.splits bind_splits dest: 2(1,2) simp del: parse_elems.simps parse_members.simps)
next
  case (4 n s)
  obtain v q where v: "parse_value n s = Some (v, q)" using 4(3) by (auto split: bind_splits)
  note IH = 4(1) [OF v] 4(2) [OF v refl]
  show ?case
  proof (cases "expect (CHR '','') q")
    case None
    with 4(3) v IH(1) show ?thesis by (simp add: parse_elems.simps(2) [of "Suc n"] del: parse_value.simps)
  next
    case (Some q2)
    with 4(3) v obtain w where w: "parse_elems n q2 = Some w" by (auto split: bind_splits)
    with 4(3) v Some IH(1) IH(2) [OF Some w] show ?thesis
      by (simp add: parse_elems.simps(2) [of "Suc n"] del: parse_value.simps)
  qed
next
  case (6 n s)
  obtain q0 k q1 q2 v q where v: "expect (CHR 0x22) s = Some q0" "parse_chars q0 = Some (k, q1)"
      "expect (CHR '':'') q1 = Some q2" "parse_value n q2 = Some (v, q)"
    using 6(3) by (auto split: bind_splits)
  note IH = 6(1) [OF v(1,2) refl v(3,4)] 6(2) [OF v(1,2) refl v(3,4) refl]
  show ?case
  proof (cases "expect (CHR '','') q")
    case None
    with 6(3) v IH(1) show ?thesis by (simp add: parse_members.simps(2) [of "Suc n"] del: parse_value.simps)
  next
    case (Some q3)
    with 6(3) v obtain w where w: "parse_members n q3 = Some w" by (auto split: bind_splits)
    with 6(3) v Some IH(1) IH(2) [OF Some w] show ?thesis
      by (simp add: parse_members.simps(2) [of "Suc n"] del: parse_value.simps)
  qed
qed simp_all

lemma parse_fuel_le: "parse_value n s = Some x \<Longrightarrow> n \<le> n' \<Longrightarrow> parse_value n' s = Some x"
  by (induction n' arbitrary: n) (auto simp: le_Suc_eq parse_fuel_Suc(1) simp del: parse_value.simps)

lemma json_prefix_None:
  assumes wf: "wf_json (JObj m)" and t: "json_text (JObj m) = p @ q" and q: "q \<noteq> []"
  shows "json_parse p = None"
proof (rule ccontr)
  assume "json_parse p \<noteq> None"
  then obtain v r where v: "parse_value (Suc (length p)) p = Some (v, r)" "skip_ws r = []"
    by (auto simp: json_parse_def split: option.splits if_splits)
  then obtain c cs where p: "p = c # cs" using parse_value_ne by (cases p) fastforce+
  with t have "c = CHR ''{''" by simp
  with v(1) p have "\<not> open_end v r"
    by (auto simp: open_end_def json_space_def split: option.splits bind_splits)
  from parse_append(1) [OF v(1) this, of q]
  have "parse_value (Suc (length p)) (json_text (JObj m)) = Some (v, r @ q)" unfolding t .
  then have "parse_value (Suc (length (json_text (JObj m)))) (json_text (JObj m)) = Some (v, r @ q)"
    by (rule parse_fuel_le) (unfold t, simp)
  moreover have "parse_value (Suc (length (json_text (JObj m)))) (json_text (JObj m)) = Some (JObj m, [])"
    using parse_text [OF wf, of "Suc (length (json_text (JObj m)))" "[]"] depth_length [OF wf]
    unfolding append_Nil2 by (metis closes_def le_SucI list.simps(4))
  ultimately show False using q by (simp del: parse_value.simps)
qed

section \<open>Maps\<close>

text \<open>\<^verbatim>\<open>Marshal\<close> writes a map in the order of its keys.\<close>

fun str_less :: "string \<Rightarrow> string \<Rightarrow> bool" where
  "str_less _ [] = False"
| "str_less [] (y # ys) = True"
| "str_less (x # xs) (y # ys) = (byte x < byte y \<or> (x = y \<and> str_less xs ys))"

fun insort_kv :: "string \<times> 'a \<Rightarrow> (string \<times> 'a) list \<Rightarrow> (string \<times> 'a) list" where
  "insort_kv e [] = [e]"
| "insort_kv e (f # fs) = (if str_less (fst f) (fst e) then f # insort_kv e fs else e # f # fs)"

definition sort_kv :: "(string \<times> 'a) list \<Rightarrow> (string \<times> 'a) list" where
  "sort_kv m = foldr insort_kv m []"

lemma set_insort_kv: "set (insort_kv e fs) = insert e (set fs)"
  by (induction fs) auto

lemma set_sort_kv: "set (sort_kv m) = set m"
  unfolding sort_kv_def by (induction m) (simp_all add: set_insort_kv)

fun json_sort :: "json \<Rightarrow> json" where
  "json_sort (JArr xs) = JArr (map json_sort xs)"
| "json_sort (JObj m) = JObj (sort_kv (map (\<lambda>(k, v). (k, json_sort v)) m))"
| "json_sort v = v"

definition json_marshal :: "json \<Rightarrow> string" where
  "json_marshal v = json_text (json_sort v)"

end
