(* ===== verification/Hitl.thy ===== *)
theory Hitl
  imports Sandbox_Defaults Go_Json
begin

text \<open>
  The human-in-the-loop gate: the interrupt requests and decisions of \<^verbatim>\<open>src/ai-runtime/hitl/spec.go\<close>, the
  channel decision provider (\<^verbatim>\<open>channel_decision_provider.go\<close>) and the tool middleware of
  \<^verbatim>\<open>src/ai-runtime/middlewares/hitl.go\<close> with all its branches. A middleware call takes the middleware
  state and the tool event and returns both; the request counter, which the source keeps in a
  package variable, is part of the state. The locale states what a decision provider promises, and
  the channel provider is its interpretation.
\<close>

section \<open>Requests and decisions\<close>

abbreviation (input) HApprove :: string where "HApprove \<equiv> ''approve''"
abbreviation (input) HApproveAlways :: string where "HApproveAlways \<equiv> ''approve_always''"
abbreviation (input) HReject :: string where "HReject \<equiv> ''reject''"
abbreviation (input) HEdit :: string where "HEdit \<equiv> ''edit''"
abbreviation (input) HRespond :: string where "HRespond \<equiv> ''respond''"

definition DefaultTimeout :: time where
  "DefaultTimeout = 2 * 60 * 1000000000"

record InterruptRequest =
  ir_ID :: string
  ir_ToolName :: string
  ir_Command :: string
  ir_RiskReason :: string
  ir_Description :: string
  ir_RiskLevel :: string
  ir_AllowAlways :: bool
  ir_AllowAlwaysKey :: string
  ir_Effects :: "string list"
  ir_CreatedAt :: time
  ir_ExpiresAt :: time

record HDecision =
  hd_InterruptID :: string
  hd_Type :: string
  hd_Command :: string
  hd_Message :: string

definition reject_decision :: "InterruptRequest \<Rightarrow> HDecision" where
  "reject_decision req = \<lparr>hd_InterruptID = ir_ID req, hd_Type = HReject, hd_Command = [], hd_Message = []\<rparr>"

section \<open>The channel decision provider\<close>

text \<open>
  What the \<^verbatim>\<open>select\<close> of \<open>GetDecision\<close> can take, in the order in which it becomes ready: the context is
  cancelled, the timer fires, the channel is closed, a decision arrives.
\<close>

datatype chan_event = CtxDone | TimerFired | ChanClosed | Received HDecision

fun await_decision :: "InterruptRequest \<Rightarrow> chan_event list \<Rightarrow> HDecision option" where
  "await_decision req [] = None"
| "await_decision req (CtxDone # evs) = Some (reject_decision req)"
| "await_decision req (TimerFired # evs) = Some (reject_decision req)"
| "await_decision req (ChanClosed # evs) = Some (reject_decision req)"
| "await_decision req (Received d # evs) =
     (if hd_InterruptID d \<noteq> ir_ID req then await_decision req evs else Some d)"

text \<open>
  \<open>GetDecision\<close> at time \<open>now\<close>: \<open>None\<close> means that the call is still waiting after the events. A
  request that has expired is rejected without looking at the channel.
\<close>

definition GetDecision :: "time \<Rightarrow> InterruptRequest \<Rightarrow> chan_event list \<Rightarrow> HDecision option" where
  "GetDecision now req evs =
    (if IsZero (ir_ExpiresAt req) then await_decision req evs
     else if ir_ExpiresAt req - now \<le> 0 then Some (reject_decision req)
     else await_decision req evs)"

section \<open>Tool events and the middleware\<close>

record tool_call =
  tc_ID :: string
  tc_Name :: string

record core_message =
  cm_Role :: string
  cm_Content :: string
  cm_ToolCallID :: string

text \<open>
  A tool event: the call, the metadata of its definition (\<open>None\<close>: no definition; inner \<open>None\<close>: a nil
  map), the arguments, the abort that a middleware sets, and the requests emitted so far (\<open>None\<close>
  when there is no emitter).
\<close>

record tool_event =
  te_Tool :: "tool_call option"
  te_ToolDef :: "(string \<times> string) list option option"
  te_Args :: "(string \<times> json) list"
  te_Abort :: "core_message list option"
  te_Emit :: "InterruptRequest list option"

record AuditEntry =
  ae_Timestamp :: time
  ae_Command :: string
  ae_RiskLevel :: string
  ae_Effects :: "string list"
  ae_Reasons :: "Reason list"
  ae_Source :: string
  ae_EngineDecision :: string
  ae_UserDecision :: string
  ae_Outcome :: string

text \<open>
  The middleware: its copy of the configuration, the decision provider and the two persistence
  handlers (\<open>None\<close> when not injected; a handler returns whether it succeeded), the audit log (\<open>None\<close>
  when there is no logger) and the request counter.
\<close>

record hitl_mw =
  mw_cfg :: Config
  mw_provider :: "(InterruptRequest \<Rightarrow> HDecision) option"
  mw_audit :: "AuditEntry list option"
  mw_allowAlways :: "(AllowRule \<Rightarrow> bool) option"
  mw_toolAllowAlways :: "(ToolAllowRule \<Rightarrow> bool) option"
  mw_reqID :: nat

type_synonym gate = "hitl_mw \<times> tool_event"

definition stop_sign :: string where
  "stop_sign = (utf8 [0x26D4, 0x20])"

definition te_ToolID :: "tool_event \<Rightarrow> string" where
  "te_ToolID ev = (case te_Tool ev of Some t \<Rightarrow> tc_ID t | None \<Rightarrow> [])"

definition te_ToolName :: "tool_event \<Rightarrow> string" where
  "te_ToolName ev = (case te_Tool ev of Some t \<Rightarrow> tc_Name t | None \<Rightarrow> [])"

definition block :: "tool_event \<Rightarrow> string \<Rightarrow> tool_event" where
  "block ev msg =
    ev\<lparr>te_Abort := Some [\<lparr>cm_Role = ''tool'', cm_Content = msg, cm_ToolCallID = te_ToolID ev\<rparr>]\<rparr>"

definition mw_reject :: "tool_event \<Rightarrow> string \<Rightarrow> tool_event" where
  "mw_reject ev msg =
    ev\<lparr>te_Abort := Some [\<lparr>cm_Role = ''tool'', cm_Content = msg, cm_ToolCallID = te_ToolID ev\<rparr>]\<rparr>"

definition recordAudit :: "time \<Rightarrow> Outcome \<Rightarrow> string \<Rightarrow> string \<Rightarrow> hitl_mw \<Rightarrow> hitl_mw" where
  "recordAudit now out userDec outcome mw =
    (case mw_audit mw of
       None \<Rightarrow> mw
     | Some log \<Rightarrow> mw\<lparr>mw_audit := Some (log @
         [\<lparr>ae_Timestamp = now, ae_Command = out_Command out,
           ae_RiskLevel = RiskLevel_String (out_Level out), ae_Effects = Names (out_Effects out),
           ae_Reasons = out_Reasons out, ae_Source = Source_String (out_Source out),
           ae_EngineDecision = Decision_String (out_Decision out), ae_UserDecision = userDec,
           ae_Outcome = outcome\<rparr>])\<rparr>)"

definition riskReason :: "Outcome \<Rightarrow> string" where
  "riskReason out =
    (let reason = (case out_Reasons out of [] \<Rightarrow> [] | r # _ \<Rightarrow> rs_Detail r);
         effs = Names (out_Effects out) in
     if reason \<noteq> [] \<and> effs \<noteq> [] then
       reason @ '' (risk '' @ RiskLevel_String (out_Level out) @ '', '' @ Join effs '','' @ '')''
     else if reason \<noteq> [] then reason @ '' (risk '' @ RiskLevel_String (out_Level out) @ '')''
     else ''risk '' @ RiskLevel_String (out_Level out))"

text \<open>
  The errors of the two rule builders and their text. The quotation of the level is exact for a
  text without characters to escape, which the names of the levels are.
\<close>

datatype rule_error = OnlyBash | BadRiskLevel string | EmptyCommand | NoAllowAlwaysKey

fun rule_error_text :: "rule_error \<Rightarrow> string" where
  "rule_error_text OnlyBash = ''allow_always only supports bash''"
| "rule_error_text (BadRiskLevel s) =
     ''parse risk level: invalid risk level '' @ [CHR 0x22] @ s @ [CHR 0x22] @
     '', want benign|low|medium|elevated|high|critical|unclassified|reserved''"
| "rule_error_text EmptyCommand = ''empty or invalid command''"
| "rule_error_text NoAllowAlwaysKey = ''allow_always is unavailable for this tool''"

definition allowRuleForRequest :: "InterruptRequest \<Rightarrow> rule_error + AllowRule" where
  "allowRuleForRequest req =
    (if ir_ToolName req \<noteq> ''bash'' then Inl OnlyBash
     else (case ParseRiskLevel (ir_RiskLevel req) of
             None \<Rightarrow> Inl (BadRiskLevel (ir_RiskLevel req))
           | Some maxRisk \<Rightarrow>
               (case AllowRuleForCommand (ir_Command req) maxRisk (ir_Effects req) of
                  None \<Rightarrow> Inl EmptyCommand
                | Some rule \<Rightarrow> Inr rule)))"

definition toolAllowRuleForRequest :: "InterruptRequest \<Rightarrow> rule_error + ToolAllowRule" where
  "toolAllowRuleForRequest req =
    (if TrimSpace (ir_AllowAlwaysKey req) = [] then Inl NoAllowAlwaysKey
     else (case ParseRiskLevel (ir_RiskLevel req) of
             None \<Rightarrow> Inl (BadRiskLevel (ir_RiskLevel req))
           | Some maxRisk \<Rightarrow>
               Inr \<lparr>tr_Key = ir_AllowAlwaysKey req, tr_MaxRisk = maxRisk, tr_Desc = []\<rparr>))"

fun appendToolAllowRule :: "ToolAllowRule list \<Rightarrow> ToolAllowRule \<Rightarrow> ToolAllowRule list" where
  "appendToolAllowRule [] nxt = [nxt]"
| "appendToolAllowRule (rule # rules) nxt =
     (if tr_Key rule = tr_Key nxt then nxt # rules else rule # appendToolAllowRule rules nxt)"

text \<open>
  The environment of one call: the clock, and whether the interrupt request can be encoded (the
  encoder fails on a time whose year has more than four digits).
\<close>

record hitl_env =
  he_now :: time
  he_marshal_ok :: bool

definition emit :: "InterruptRequest \<Rightarrow> tool_event \<Rightarrow> tool_event" where
  "emit req ev = ev\<lparr>te_Emit := map_option (\<lambda>ts. ts @ [req]) (te_Emit ev)\<rparr>"

text \<open>
  The callback \<open>onDecide\<close> of \<open>confirm\<close> is nil or, for a command, records the audit entry of its
  outcome: \<open>aud\<close> is that outcome. \<open>handle_decision\<close> is the switch on the decision.
\<close>

definition audit_with :: "time \<Rightarrow> Outcome option \<Rightarrow> string \<Rightarrow> string \<Rightarrow> hitl_mw \<Rightarrow> hitl_mw" where
  "audit_with now aud dtype outcome mw =
    (case aud of None \<Rightarrow> mw | Some out \<Rightarrow> recordAudit now out dtype outcome mw)"

definition approve_always ::
  "hitl_env \<Rightarrow> InterruptRequest \<Rightarrow> Outcome option \<Rightarrow> HDecision \<Rightarrow> gate \<Rightarrow> gate" where
  "approve_always env req aud d g =
    (case g of (mw, ev) \<Rightarrow>
     let audit = audit_with (he_now env) aud (hd_Type d) in
     if ir_AllowAlwaysKey req = [] then
       (case mw_allowAlways mw of
          None \<Rightarrow> (audit ''blocked'' mw, mw_reject ev (stop_sign @ ''allow_always is unavailable''))
        | Some handler \<Rightarrow>
            (case allowRuleForRequest req of
               Inl err \<Rightarrow> (audit ''blocked'' mw, mw_reject ev (stop_sign @ rule_error_text err))
             | Inr rule \<Rightarrow>
                 if \<not> handler rule then
                   (audit ''blocked'' mw, mw_reject ev (stop_sign @ ''failed to persist allow_always''))
                 else
                   (audit ''executed''
                      (mw\<lparr>mw_cfg := (mw_cfg mw)\<lparr>AllowRules := AllowRules (mw_cfg mw) @ [rule]\<rparr>\<rparr>), ev)))
     else
       (case mw_toolAllowAlways mw of
          None \<Rightarrow> (audit ''blocked'' mw, mw_reject ev (stop_sign @ ''allow_always is unavailable''))
        | Some handler \<Rightarrow>
            (case toolAllowRuleForRequest req of
               Inl err \<Rightarrow> (audit ''blocked'' mw, mw_reject ev (stop_sign @ rule_error_text err))
             | Inr rule \<Rightarrow>
                 if \<not> handler rule then
                   (audit ''blocked'' mw, mw_reject ev (stop_sign @ ''failed to persist allow_always''))
                 else
                   (audit ''executed''
                      (mw\<lparr>mw_cfg := (mw_cfg mw)\<lparr>ToolAllowRules :=
                            appendToolAllowRule (ToolAllowRules (mw_cfg mw)) rule\<rparr>\<rparr>), ev))))"

definition denied_text :: "Outcome \<Rightarrow> string" where
  "denied_text out = ''sandbox: command denied: '' @ firstDetail (out_Reasons out)"

definition decide_edit ::
  "hitl_env \<Rightarrow> InterruptRequest \<Rightarrow> Outcome option \<Rightarrow> HDecision \<Rightarrow> gate \<Rightarrow> gate" where
  "decide_edit env req aud d g =
    (case g of (mw, ev) \<Rightarrow>
     let edited = TrimSpace (hd_Command d) in
     if ir_ToolName req = ''bash'' \<and> edited \<noteq> [] then
       let ev = ev\<lparr>te_Args := map_put ''command'' (JStr edited) (te_Args ev)\<rparr>;
           re = Evaluate (mk_request edited) (Some (mw_cfg mw)) in
       if out_Decision re = DecisionDeny then
         (recordAudit (he_now env) re (hd_Type d) ''blocked'' mw, block ev (stop_sign @ denied_text re))
       else (audit_with (he_now env) aud (hd_Type d) ''executed'' mw, ev)
     else (audit_with (he_now env) aud (hd_Type d) ''executed'' mw, ev))"

definition handle_decision ::
  "hitl_env \<Rightarrow> InterruptRequest \<Rightarrow> Outcome option \<Rightarrow> HDecision \<Rightarrow> gate \<Rightarrow> gate" where
  "handle_decision env req aud d g =
    (case g of (mw, ev) \<Rightarrow>
     let audit = audit_with (he_now env) aud (hd_Type d) in
     if hd_Type d = HApprove then (audit ''executed'' mw, ev)
     else if hd_Type d = HApproveAlways then approve_always env req aud d g
     else if hd_Type d = HEdit then decide_edit env req aud d g
     else if hd_Type d = HReject then
       (audit ''blocked'' mw, mw_reject ev (stop_sign @ ''rejected by user''))
     else if hd_Type d = HRespond then
       (audit ''aborted'' mw,
        let msg = TrimSpace (hd_Message d) in
        block ev (''[tool not executed] user replied: '' @
                  (if msg = [] then ''user declined to answer'' else msg)))
     else (audit ''blocked'' mw, mw_reject ev (stop_sign @ ''unknown HITL decision'')))"

definition confirm :: "hitl_env \<Rightarrow> InterruptRequest \<Rightarrow> Outcome option \<Rightarrow> gate \<Rightarrow> gate" where
  "confirm env req aud g =
    (case g of (mw, ev) \<Rightarrow>
     if \<not> he_marshal_ok env then (mw, mw_reject ev (stop_sign @ ''failed to encode interrupt request''))
     else
       let ev = emit req ev in
       (case mw_provider mw of
          None \<Rightarrow> (mw, mw_reject ev (stop_sign @ ''no decision provider available''))
        | Some get \<Rightarrow> handle_decision env req aud (get req) (mw, ev)))"

text \<open>A request takes the next number of the counter.\<close>

definition req_name :: "nat \<Rightarrow> string" where
  "req_name n = ''req-'' @ show_nat n"

definition next_req :: "hitl_mw \<Rightarrow> string \<times> hitl_mw" where
  "next_req mw = (req_name (Suc (mw_reqID mw)), mw\<lparr>mw_reqID := Suc (mw_reqID mw)\<rparr>)"

definition new_request ::
  "hitl_env \<Rightarrow> string \<Rightarrow> string \<Rightarrow> string \<Rightarrow> string \<Rightarrow> string \<Rightarrow> InterruptRequest" where
  "new_request env rid tool command reason level =
    \<lparr>ir_ID = rid, ir_ToolName = tool, ir_Command = command, ir_RiskReason = reason,
     ir_Description = [], ir_RiskLevel = level, ir_AllowAlways = False, ir_AllowAlwaysKey = [],
     ir_Effects = [], ir_CreatedAt = he_now env, ir_ExpiresAt = he_now env + DefaultTimeout\<rparr>"

definition bash_request :: "hitl_env \<Rightarrow> string \<Rightarrow> string \<Rightarrow> Outcome \<Rightarrow> InterruptRequest" where
  "bash_request env rid cmd out =
    (new_request env rid ''bash'' cmd (riskReason out) (RiskLevel_String (out_Level out)))
      \<lparr>ir_AllowAlways := True, ir_Effects := Names (out_Effects out)\<rparr>"

definition checkBash :: "hitl_env \<Rightarrow> gate \<Rightarrow> gate" where
  "checkBash env g =
    (case g of (mw, ev) \<Rightarrow>
     (case map_of (te_Args ev) ''command'' of
        Some (JStr cmd) \<Rightarrow>
          if cmd = [] then (mw, ev)
          else
            let out = Evaluate (mk_request cmd) (Some (mw_cfg mw)) in
            (case out_Decision out of
               DecisionAllow \<Rightarrow> (recordAudit (he_now env) out [] ''executed'' mw, ev)
             | DecisionSandbox \<Rightarrow> (recordAudit (he_now env) out [] ''executed'' mw, ev)
             | DecisionDeny \<Rightarrow>
                 (recordAudit (he_now env) out [] ''blocked'' mw, block ev (stop_sign @ denied_text out))
             | DecisionHitl \<Rightarrow>
                 (case next_req mw of (rid, mw) \<Rightarrow>
                    confirm env (bash_request env rid cmd out) (Some out) (mw, ev)))
      | _ \<Rightarrow> (mw, ev)))"

definition toolAllowRuleMatches :: "ToolAllowRule list \<Rightarrow> ToolPolicyMetadata \<Rightarrow> bool" where
  "toolAllowRuleMatches rules policy \<longleftrightarrow>
     tp_AllowAlwaysKey policy \<noteq> [] \<and>
     list_ex (\<lambda>r. tr_Key r = tp_AllowAlwaysKey policy \<and> tp_RiskLevel policy \<le> tr_MaxRisk r) rules"

definition toolDecision :: "Config \<Rightarrow> ToolPolicyMetadata \<Rightarrow> string" where
  "toolDecision cfg policy =
    (let level = tp_RiskLevel policy in
     if Mode cfg = ModeStrict \<or> Mode cfg = ModeReadOnly then
       (if level \<le> RiskLow then ''allow'' else ''deny'')
     else if Mode cfg = ModeAuto then
       (if \<not> tp_ForceHITL policy \<and> level \<le> AutoMaxRisk cfg then ''allow'' else ''hitl'')
     else if Mode cfg = ModeOff then (if \<not> tp_ForceHITL policy then ''allow'' else ''hitl'')
     else if \<not> tp_ForceHITL policy \<and> level \<le> RiskLow then ''allow''
     else if \<not> tp_ForceHITL policy \<and> toolAllowRuleMatches (ToolAllowRules cfg) policy then ''allow''
     else ''hitl'')"

definition args_json :: "tool_event \<Rightarrow> string" where
  "args_json ev = json_marshal (JObj (te_Args ev))"

definition denied_in_mode :: "string \<Rightarrow> string \<Rightarrow> string \<Rightarrow> string" where
  "denied_in_mode tool mode level =
    stop_sign @ ''tool '' @ tool @ '' denied in '' @ mode @ '' mode (risk_level='' @ level @ '')''"

definition policy_request :: "hitl_env \<Rightarrow> string \<Rightarrow> tool_event \<Rightarrow> ToolPolicyMetadata \<Rightarrow> InterruptRequest" where
  "policy_request env rid ev policy =
    (new_request env rid (te_ToolName ev) (args_json ev)
       (''declared risk_level='' @ RiskLevel_String (tp_RiskLevel policy) @ '' (tool metadata)'')
       (RiskLevel_String (tp_RiskLevel policy)))
      \<lparr>ir_Description := ''tool '' @ te_ToolName ev @ '' with args '' @ args_json ev,
       ir_AllowAlwaysKey := tp_AllowAlwaysKey policy\<rparr>"

definition checkPolicyTool :: "hitl_env \<Rightarrow> ToolPolicyMetadata \<Rightarrow> gate \<Rightarrow> gate" where
  "checkPolicyTool env policy g =
    (case g of (mw, ev) \<Rightarrow>
     (case next_req mw of (rid, mw) \<Rightarrow>
       let decision = toolDecision (mw_cfg mw) policy;
           req = policy_request env rid ev policy in
       if decision = ''allow'' then (mw, ev)
       else if decision = ''deny'' then
         (mw, block ev (denied_in_mode (te_ToolName ev) (Mode (mw_cfg mw))
                          (RiskLevel_String (tp_RiskLevel policy))))
       else confirm env req None (mw, ev)))"

definition resolveToolPolicy :: "tool_event \<Rightarrow> ToolPolicyMetadata option" where
  "resolveToolPolicy ev =
    (case te_ToolDef ev of
       None \<Rightarrow> None
     | Some ometa \<Rightarrow>
         if \<not> EqualFold (case ometa of Some m \<Rightarrow> meta_get m ''requires_permission'' | None \<Rightarrow> []) ''true''
         then None
         else Some (NormalizeToolMetadata ometa))"

definition sys_level :: "tool_event \<Rightarrow> string" where
  "sys_level ev =
    (case te_ToolDef ev of
       Some (Some m) \<Rightarrow>
         (let l = meta_get m ''risk_level'' in
          if l \<in> {''never'', ''mode'', ''always''} then l else ''mode'')
     | _ \<Rightarrow> ''mode'')"

definition sys_decision :: "string \<Rightarrow> string \<Rightarrow> string" where
  "sys_decision mode level =
    (if mode = ModeStrict \<or> mode = ModeReadOnly then (if level = ''never'' then ''allow'' else ''deny'')
     else if mode = ModeOff then (if level = ''always'' then ''hitl'' else ''allow'')
     else (if level = ''never'' then ''allow'' else ''hitl''))"

definition checkSys :: "hitl_env \<Rightarrow> gate \<Rightarrow> gate" where
  "checkSys env g =
    (case g of (mw, ev) \<Rightarrow>
     (case next_req mw of (rid, mw) \<Rightarrow>
       let level = sys_level ev;
           decision = sys_decision (Mode (mw_cfg mw)) level;
           req = new_request env rid (te_ToolName ev) (args_json ev)
                   (''declared risk_level='' @ level @ '' (device capability)'') level in
       if decision = ''allow'' then (mw, ev)
       else if decision = ''deny'' then
         (mw, block ev (denied_in_mode (te_ToolName ev) (Mode (mw_cfg mw)) level))
       else confirm env req None (mw, ev)))"

definition checkMCP :: "hitl_env \<Rightarrow> gate \<Rightarrow> gate" where
  "checkMCP env g =
    (case g of (mw, ev) \<Rightarrow>
     let mode = Mode (mw_cfg mw) in
     if mode = ModeOff \<or> mode = ModeAuto then (mw, ev)
     else if mode = ModeStrict \<or> mode = ModeReadOnly then
       (mw, block ev (''MCP tool '' @ te_ToolName ev @ '' executes outside the sandbox, blocked in '' @
                      mode @ '' mode''))
     else
       (case next_req mw of (rid, mw) \<Rightarrow>
          confirm env
            ((new_request env rid (te_ToolName ev) (args_json ev)
               ''MCP tool executes in an external process outside the sandbox'' [])
               \<lparr>ir_Description := ''MCP tool '' @ te_ToolName ev @ '' with args '' @ args_json ev\<rparr>)
            None (mw, ev)))"

definition OnBeforeTool :: "hitl_env \<Rightarrow> gate \<Rightarrow> gate" where
  "OnBeforeTool env g =
    (case g of (mw, ev) \<Rightarrow>
     (case te_Tool ev of
        None \<Rightarrow> (mw, ev)
      | Some t \<Rightarrow>
          if tc_Name t = ''bash'' then checkBash env (mw, ev)
          else (case resolveToolPolicy ev of
             Some policy \<Rightarrow> checkPolicyTool env policy (mw, ev)
           | None \<Rightarrow>
               if HasPrefix (tc_Name t) ''mcp_'' then checkMCP env (mw, ev)
               else if HasPrefix (tc_Name t) ''sys_'' then checkSys env (mw, ev)
               else (mw, ev))))"

section \<open>The contract of a decision provider\<close>

text \<open>
  A provider answers the request it was asked, and more events do not change an answer it has given.
\<close>

locale decision_provider =
  fixes get :: "InterruptRequest \<Rightarrow> 'e list \<Rightarrow> HDecision option"
  assumes own_answer: "get req evs = Some d \<Longrightarrow> hd_InterruptID d = ir_ID req"
    and settled: "get req evs = Some d \<Longrightarrow> get req (evs @ evs2) = Some d"
begin

lemma one_request: "get r1 e1 = Some d \<Longrightarrow> get r2 e2 = Some d \<Longrightarrow> ir_ID r1 = ir_ID r2"
  by (metis own_answer)

lemma same_answer: "get req evs = Some d \<Longrightarrow> get req (evs @ evs2) = Some d' \<Longrightarrow> d' = d"
  using settled by simp

end

lemma await_own: "await_decision req evs = Some d \<Longrightarrow> hd_InterruptID d = ir_ID req"
  by (induction req evs rule: await_decision.induct)
    (auto simp: reject_decision_def split: if_splits)

lemma await_append: "await_decision req evs = Some d \<Longrightarrow> await_decision req (evs @ evs2) = Some d"
  by (induction req evs rule: await_decision.induct) (auto split: if_splits)

interpretation chan: decision_provider "GetDecision now"
proof
  show "GetDecision now req evs = Some d \<Longrightarrow> hd_InterruptID d = ir_ID req" for req evs d
    by (auto simp: GetDecision_def reject_decision_def dest: await_own split: if_splits)
  show "GetDecision now req evs = Some d \<Longrightarrow> GetDecision now req (evs @ evs2) = Some d"
    for req evs d evs2
    by (auto simp: GetDecision_def dest: await_append split: if_splits)
qed

lemma await_source:
  "await_decision req evs = Some d \<Longrightarrow> d = reject_decision req \<or> Received d \<in> set evs"
  by (induction req evs rule: await_decision.induct) (auto split: if_splits)

lemma await_skips_stale:
  "\<forall>e \<in> set stale. \<exists>d. e = Received d \<and> hd_InterruptID d \<noteq> ir_ID req \<Longrightarrow>
   await_decision req (stale @ evs) = await_decision req evs"
  by (induction stale) auto

lemma req_name_inj [simp]: "req_name m = req_name n \<longleftrightarrow> m = n"
  by (simp add: req_name_def)

text \<open>
  C7. Decisions that are left over from earlier interrupts are skipped, whatever they say; an
  answer other than the built-in rejection was received for this very request; and a decision that
  answered one request number never answers another.
\<close>

theorem decision_not_reused:
  assumes "ir_ID req = req_name n" and "ir_ExpiresAt req > now"
    and "\<forall>e \<in> set stale. \<exists>m d. e = Received d \<and> hd_InterruptID d = req_name m \<and> m \<noteq> n"
  shows "GetDecision now req (stale @ evs) = GetDecision now req evs \<and>
         (GetDecision now req evs = Some d \<longrightarrow>
            (d = reject_decision req \<or> Received d \<in> set evs) \<and>
            (\<forall>now' req' evs' k. ir_ID req' = req_name k \<and> k \<noteq> n \<longrightarrow>
               GetDecision now' req' evs' \<noteq> Some d))"
proof -
  have "\<forall>e \<in> set stale. \<exists>d. e = Received d \<and> hd_InterruptID d \<noteq> ir_ID req"
    using assms(1,3) by force
  then have "GetDecision now req (stale @ evs) = GetDecision now req evs"
    by (simp add: GetDecision_def await_skips_stale)
  moreover have "GetDecision now req evs = Some d \<Longrightarrow> d = reject_decision req \<or> Received d \<in> set evs"
    by (auto simp: GetDecision_def dest: await_source split: if_splits)
  moreover have "GetDecision now req evs = Some d \<Longrightarrow> ir_ID req' = req_name k \<Longrightarrow> k \<noteq> n \<Longrightarrow>
      GetDecision now' req' evs' \<noteq> Some d" for now' req' evs' k
    using assms(1) chan.own_answer [of now req evs d] chan.own_answer [of now' req' evs' d] by auto
  ultimately show ?thesis by blast
qed

definition sample_request :: "nat \<Rightarrow> InterruptRequest" where
  "sample_request n = new_request \<lparr>he_now = 5, he_marshal_ok = True\<rparr> (req_name n) ''bash'' ''make'' [] ''medium''"

definition sample_decision :: "nat \<Rightarrow> string \<Rightarrow> HDecision" where
  "sample_decision n t = \<lparr>hd_InterruptID = req_name n, hd_Type = t, hd_Command = [], hd_Message = []\<rparr>"

theorem decision_not_reused_witness:
  "GetDecision 6 (sample_request 2) ([Received (sample_decision 1 HReject)] @ [Received (sample_decision 2 HApprove)])
   = Some (sample_decision 2 HApprove)"
proof -
  have "GetDecision 6 (sample_request 2) ([Received (sample_decision 1 HReject)] @ [Received (sample_decision 2 HApprove)])
    = GetDecision 6 (sample_request 2) [Received (sample_decision 2 HApprove)]"
    using decision_not_reused [of "sample_request 2" 2 6 "[Received (sample_decision 1 HReject)]"]
    by (simp add: sample_request_def sample_decision_def new_request_def DefaultTimeout_def)
  also have "\<dots> = Some (sample_decision 2 HApprove)"
    by (simp add: GetDecision_def sample_request_def sample_decision_def new_request_def DefaultTimeout_def)
  finally show ?thesis .
qed

section \<open>What the gate lets through\<close>

definition consenting :: "string list" where
  "consenting = [HApprove, HApproveAlways, HEdit]"

lemma block_abort [simp]: "te_Abort (block ev m) \<noteq> None" "te_Abort (mw_reject ev m) \<noteq> None"
  by (simp_all add: block_def mw_reject_def)

lemma emit_simps [simp]:
  "te_Abort (emit req ev) = te_Abort ev" "te_Args (emit req ev) = te_Args ev"
  "te_Tool (emit req ev) = te_Tool ev"
  by (simp_all add: emit_def)

lemma recordAudit_simps [simp]:
  "mw_cfg (recordAudit now out u r mw) = mw_cfg mw"
  "mw_provider (recordAudit now out u r mw) = mw_provider mw"
  "mw_reqID (recordAudit now out u r mw) = mw_reqID mw"
  by (simp_all add: recordAudit_def split: option.split)

lemma audit_with_simps [simp]:
  "mw_cfg (audit_with now aud u r mw) = mw_cfg mw"
  by (simp add: audit_with_def split: option.split)

lemma handle_decision_consent:
  assumes "te_Abort (snd (handle_decision env req aud d (mw, ev))) = None"
  shows "hd_Type d \<in> set consenting"
  using assms by (auto simp: handle_decision_def Let_def consenting_def split: if_splits)

lemma confirm_consent:
  assumes "te_Abort (snd (confirm env req aud (mw, ev))) = None"
  shows "\<exists>get. mw_provider mw = Some get \<and> hd_Type (get req) \<in> set consenting"
  using assms handle_decision_consent
  by (force simp: confirm_def Let_def split: if_splits option.splits)

lemma Assess_rules [simp]:
  "Assess cmd (Some (cfg\<lparr>AllowRules := r\<rparr>)) = Assess cmd (Some cfg)"
proof -
  have "assessRiskyPattern cmd (cfg\<lparr>AllowRules := r\<rparr>) = assessRiskyPattern cmd cfg"
    by (simp add: assessRiskyPattern_def)
  then show ?thesis
    by (simp add: Assess_def split: option.split prod.split safeVerdict.split)
qed

text \<open>Whether a command is denied does not depend on the allow rules.\<close>

lemma Evaluate_deny_rules:
  "out_Decision (Evaluate req (Some (cfg\<lparr>AllowRules := r\<rparr>))) = DecisionDeny \<longleftrightarrow>
   out_Decision (Evaluate req (Some cfg)) = DecisionDeny"
proof (cases "active cfg")
  case True
  then have "active (cfg\<lparr>AllowRules := r\<rparr>)" by simp
  with True show ?thesis by (auto simp: Evaluate_decision Let_def)
qed (simp add: Evaluate_def)

text \<open>The command that a bash event would run.\<close>

definition bash_command :: "tool_event \<Rightarrow> string option" where
  "bash_command ev = (case map_of (te_Args ev) ''command'' of Some (JStr c) \<Rightarrow> Some c | _ \<Rightarrow> None)"

lemma approve_always_runs:
  assumes "te_Abort (snd (approve_always env (bash_request env rid cmd out) aud d (mw, ev))) = None"
  shows "snd (approve_always env (bash_request env rid cmd out) aud d (mw, ev)) = ev \<and>
         (\<exists>r. mw_cfg (fst (approve_always env (bash_request env rid cmd out) aud d (mw, ev))) =
               (mw_cfg mw)\<lparr>AllowRules := r\<rparr>)"
  using assms
  by (auto simp: approve_always_def bash_request_def new_request_def Let_def split: option.splits sum.splits if_splits)

lemma decide_edit_runs:
  assumes "te_Abort (snd (decide_edit env req aud d (mw, ev))) = None"
    and "bash_command (snd (decide_edit env req aud d (mw, ev))) = Some c"
  shows "mw_cfg (fst (decide_edit env req aud d (mw, ev))) = mw_cfg mw \<and>
         (bash_command ev = Some c \<or>
          out_Decision (Evaluate (mk_request c) (Some (mw_cfg mw))) \<noteq> DecisionDeny)"
  using assms
  by (auto simp: decide_edit_def bash_command_def Let_def split: if_splits)

lemma handle_decision_runs:
  assumes r: "te_Abort (snd (handle_decision env (bash_request env rid cmd out) aud d (mw, ev))) = None"
    and c: "bash_command (snd (handle_decision env (bash_request env rid cmd out) aud d (mw, ev))) = Some c"
    and old: "\<And>c0. bash_command ev = Some c0 \<Longrightarrow>
                out_Decision (Evaluate (mk_request c0) (Some (mw_cfg mw))) \<noteq> DecisionDeny"
  shows "out_Decision (Evaluate (mk_request c)
           (Some (mw_cfg (fst (handle_decision env (bash_request env rid cmd out) aud d (mw, ev))))))
         \<noteq> DecisionDeny"
proof -
  let ?req = "bash_request env rid cmd out"
  from handle_decision_consent [OF r]
  consider "hd_Type d = HApprove" | "hd_Type d = HApproveAlways" | "hd_Type d = HEdit"
    by (auto simp: consenting_def)
  then show ?thesis
  proof cases
    case 1
    with c old show ?thesis by (simp add: handle_decision_def Let_def)
  next
    case 2
    then have h: "handle_decision env ?req aud d (mw, ev) = approve_always env ?req aud d (mw, ev)"
      by (simp add: handle_decision_def Let_def)
    from approve_always_runs [OF r [unfolded h]] c old show ?thesis
      by (auto simp: h Evaluate_deny_rules)
  next
    case 3
    then have h: "handle_decision env ?req aud d (mw, ev) = decide_edit env ?req aud d (mw, ev)"
      by (simp add: handle_decision_def Let_def)
    from decide_edit_runs [OF r [unfolded h] c [unfolded h]] old show ?thesis
      by (auto simp: h)
  qed
qed

lemma denied_never_runs:
  assumes "te_Tool ev = Some t" and "tc_Name t = ''bash''"
    and "OnBeforeTool env (mw, ev) = (mw', ev')" and "te_Abort ev' = None"
    and "bash_command ev' = Some c" and "c \<noteq> []"
  shows "out_Decision (Evaluate (mk_request c) (Some (mw_cfg mw'))) \<noteq> DecisionDeny"
proof -
  have cb: "checkBash env (mw, ev) = (mw', ev')"
    using assms(1-3) by (simp add: OnBeforeTool_def)
  show ?thesis
  proof (cases "bash_command ev")
    case None
    with cb assms(5) show ?thesis
      by (auto simp: checkBash_def bash_command_def split: option.splits json.splits)
  next
    case (Some cmd)
    then have m: "map_of (te_Args ev) ''command'' = Some (JStr cmd)"
      by (auto simp: bash_command_def split: option.splits json.splits)
    let ?out = "Evaluate (mk_request cmd) (Some (mw_cfg mw))"
    show ?thesis
    proof (cases "cmd \<noteq> [] \<and> out_Decision ?out = DecisionHitl")
      case False
      with cb m Some assms(4-6) show ?thesis
        by (cases "cmd = []"; cases "out_Decision ?out") (auto simp: checkBash_def Let_def)
    next
      case True
      obtain rid mw1 where n: "next_req mw = (rid, mw1)" by fastforce
      then have cfg: "mw_cfg mw1 = mw_cfg mw" by (auto simp: next_req_def)
      let ?req = "bash_request env rid cmd ?out"
      have co: "confirm env ?req (Some ?out) (mw1, ev) = (mw', ev')"
        using cb m True n by (simp add: checkBash_def Let_def)
      from confirm_consent [of env ?req "Some ?out" mw1 ev] co assms(4)
      obtain get where get: "mw_provider mw1 = Some get" by auto
      from co get assms(4)
      have h: "handle_decision env ?req (Some ?out) (get ?req) (mw1, emit ?req ev) = (mw', ev')"
        by (auto simp: confirm_def Let_def split: if_splits)
      have old: "bash_command (emit ?req ev) = Some c0 \<Longrightarrow>
          out_Decision (Evaluate (mk_request c0) (Some (mw_cfg mw1))) \<noteq> DecisionDeny" for c0
        using Some True cfg by (simp add: bash_command_def)
      show ?thesis
        using handle_decision_runs [of env rid cmd ?out "Some ?out" "get ?req" mw1 "emit ?req ev" c]
          h assms(4,5) old by simp
    qed
  qed
qed

text \<open>
  C8. If the gate lets a bash call through, the command that will run (the user may have
  edited it) is not one that the sandbox denies under the configuration in force after the call.
\<close>

theorem denied_command_never_runs:
  assumes "te_Tool ev = Some t" and "tc_Name t = ''bash''"
    and "OnBeforeTool env (mw, ev) = (mw', ev')" and "te_Abort ev' = None"
    and "bash_command ev' = Some c" and "c \<noteq> []"
  shows "out_Decision (Evaluate (mk_request c) (Some (mw_cfg mw'))) \<noteq> DecisionDeny"
  using assms by (rule denied_never_runs)

definition sample_event :: "string \<Rightarrow> string \<Rightarrow> tool_event" where
  "sample_event name cmd =
    \<lparr>te_Tool = Some \<lparr>tc_ID = ''c1'', tc_Name = name\<rparr>, te_ToolDef = None,
     te_Args = [(''command'', JStr cmd)], te_Abort = None, te_Emit = Some []\<rparr>"

definition sample_mw :: "string \<Rightarrow> hitl_mw" where
  "sample_mw answer =
    \<lparr>mw_cfg = normal_config,
     mw_provider = Some (\<lambda>req. \<lparr>hd_InterruptID = ir_ID req, hd_Type = answer, hd_Command = [], hd_Message = []\<rparr>),
     mw_audit = Some [], mw_allowAlways = Some (\<lambda>_. True), mw_toolAllowAlways = None, mw_reqID = 0\<rparr>"

definition sample_env :: hitl_env where
  "sample_env = \<lparr>he_now = 5, he_marshal_ok = True\<rparr>"

theorem denied_command_never_runs_witness:
  "te_Abort (snd (OnBeforeTool sample_env (sample_mw HApprove, sample_event ''bash'' ''make''))) = None \<and>
   out_Decision (Evaluate (mk_request ''make'')
     (Some (mw_cfg (fst (OnBeforeTool sample_env (sample_mw HApprove, sample_event ''bash'' ''make''))))))
   \<noteq> DecisionDeny"
proof -
  let ?g = "OnBeforeTool sample_env (sample_mw HApprove, sample_event ''bash'' ''make'')"
  have a: "te_Abort (snd ?g) = None" by code_simp
  have b: "bash_command (snd ?g) = Some ''make''" by code_simp
  have t: "te_Tool (sample_event ''bash'' ''make'') = Some \<lparr>tc_ID = ''c1'', tc_Name = ''bash''\<rparr>"
    by (simp add: sample_event_def)
  from denied_command_never_runs [OF t _ prod.collapse [symmetric] a b] a show ?thesis by simp
qed

text \<open>
  When the user answers a confirmation of a command in normal mode with approve-always
  and the rule can be persisted, the command runs, and a later call with the same command runs
  without asking: nothing is emitted and nothing is aborted.
\<close>

theorem approve_always_remembered:
  assumes "te_Tool ev = Some t" and "tc_Name t = ''bash''" and "bash_command ev = Some cmd"
    and "te_Tool ev2 = Some t2" and "tc_Name t2 = ''bash''" and "bash_command ev2 = Some cmd"
    and "cmd \<noteq> []" and "mainTokens cmd \<noteq> []" and "Mode (mw_cfg mw) = ModeNormal"
    and "out_Decision (Evaluate (mk_request cmd) (Some (mw_cfg mw))) = DecisionHitl"
    and "mw_provider mw = Some get" and "\<And>req. hd_Type (get req) = HApproveAlways"
    and "mw_allowAlways mw = Some handler" and "\<And>rule. handler rule" and "he_marshal_ok env"
    and "OnBeforeTool env (mw, ev) = (mw', ev')"
  shows "te_Abort ev' = te_Abort ev \<and> snd (OnBeforeTool env2 (mw', ev2)) = ev2"
proof -
  let ?cfg = "mw_cfg mw" and ?out = "Evaluate (mk_request cmd) (Some (mw_cfg mw))"
  let ?ra = "Assess cmd (Some (mw_cfg mw))"
  have act: "active ?cfg" using assms(9) by simp
  have m: "map_of (te_Args ev) ''command'' = Some (JStr cmd)"
    "map_of (te_Args ev2) ''command'' = Some (JStr cmd)"
    using assms(3,6) by (auto simp: bash_command_def split: option.splits json.splits)
  obtain rid mw1 where n: "next_req mw = (rid, mw1)" by fastforce
  then have cfg: "mw_cfg mw1 = ?cfg" "mw_provider mw1 = Some get" "mw_allowAlways mw1 = Some handler"
    using assms(11,13) by (auto simp: next_req_def)
  let ?req = "bash_request env rid cmd ?out"
  have nd: "\<not> ra_HardDeny ?ra"
    using assms(10) Evaluate_decision [OF act, of "mk_request cmd"] Assess_hard_iff [OF act, of cmd]
    by (auto simp: mk_request_def)
  then have lv: "out_Level ?out = eff_level ?ra" and ef: "out_Effects ?out = ra_Effects ?ra"
    using act by (auto simp: Evaluate_active Decide_def mk_request_def eff_level_def max_def Let_def split: option.split)
  have "ParseRiskLevel (RiskLevel_String (eff_level ?ra)) = Some (eff_level ?ra)"
    using eff_level_range [of cmd "Some ?cfg"] by (simp add: ParseRiskLevel_String)
  moreover obtain rule where rule: "AllowRuleForCommand cmd (eff_level ?ra) (Names (ra_Effects ?ra)) = Some rule"
    using assms(8) by (simp add: AllowRuleForCommand_def Let_def)
  ultimately have ar: "allowRuleForRequest ?req = Inr rule"
    by (simp add: allowRuleForRequest_def bash_request_def new_request_def lv ef)
  have key: "ir_AllowAlwaysKey ?req = []" by (simp add: bash_request_def new_request_def)
  have "checkBash env (mw, ev) = confirm env ?req (Some ?out) (mw1, ev)"
    using m(1) assms(7,10) n by (simp add: checkBash_def Let_def)
  also have "\<dots> = approve_always env ?req (Some ?out) (get ?req) (mw1, emit ?req ev)"
    using assms(12,15) cfg by (simp add: confirm_def handle_decision_def Let_def)
  also have "\<dots> = (audit_with (he_now env) (Some ?out) HApproveAlways ''executed''
      (mw1\<lparr>mw_cfg := ?cfg\<lparr>AllowRules := AllowRules ?cfg @ [rule]\<rparr>\<rparr>), emit ?req ev)"
    using key ar cfg assms(12,14) by (simp add: approve_always_def Let_def)
  finally have res: "mw_cfg mw' = ?cfg\<lparr>AllowRules := AllowRules ?cfg @ [rule]\<rparr>" "ev' = emit ?req ev"
    using assms(1,2,16) by (auto simp: OnBeforeTool_def)
  let ?cfg' = "?cfg\<lparr>AllowRules := AllowRules ?cfg @ [rule]\<rparr>"
  have "matchAllowRule (AllowRules ?cfg') (mk_request cmd) ?ra (eff_level ?ra) \<noteq> None"
    using allow_rule_covers [OF act rule] unfolding matchAllowRule_iff by (auto simp: mk_request_def)
  moreover have "active ?cfg'" "Mode ?cfg' = ModeNormal" "denied_by cmd ?cfg' = None"
    using act assms(9) nd Assess_hard_iff [OF act, of cmd] by auto
  ultimately have "out_Decision (Evaluate (mk_request cmd) (Some ?cfg')) = DecisionAllow"
    by (auto simp: Evaluate_decision mk_request_def decisionFor_def Let_def)
  then show ?thesis
    using m(2) assms(4,5,7) by (simp add: res OnBeforeTool_def checkBash_def Let_def)
qed

theorem approve_always_remembered_witness:
  "snd (OnBeforeTool sample_env
     (fst (OnBeforeTool sample_env (sample_mw HApproveAlways, sample_event ''bash'' ''make'')),
      sample_event ''bash'' ''make'')) = sample_event ''bash'' ''make''"
proof -
  let ?ev = "sample_event ''bash'' ''make''" and ?mw = "sample_mw HApproveAlways"
  have t: "te_Tool ?ev = Some \<lparr>tc_ID = ''c1'', tc_Name = ''bash''\<rparr>" by (simp add: sample_event_def)
  have b: "bash_command ?ev = Some ''make''" by code_simp
  have tok: "mainTokens ''make'' \<noteq> []" by code_simp
  have mode: "Mode (mw_cfg ?mw) = ModeNormal" by (simp add: sample_mw_def config_modes)
  have hitl: "out_Decision (Evaluate (mk_request ''make'') (Some (mw_cfg ?mw))) = DecisionHitl" by code_simp
  from approve_always_remembered [OF t _ b t _ b _ tok mode hitl _ _ _ _ _ prod.collapse [symmetric],
      of "\<lambda>req. \<lparr>hd_InterruptID = ir_ID req, hd_Type = HApproveAlways, hd_Command = [], hd_Message = []\<rparr>"
         "\<lambda>_. True" sample_env sample_env]
  show ?thesis by (simp add: sample_mw_def sample_env_def)
qed

lemma audit_with_Some:
  "mw_audit mw = Some log \<Longrightarrow>
   \<exists>e. mw_audit (audit_with now (Some out) u r mw) = Some (log @ [e]) \<and> ae_Outcome e = r"
  "mw_audit mw = Some log \<Longrightarrow>
   \<exists>e. mw_audit (recordAudit now out u r mw) = Some (log @ [e]) \<and> ae_Outcome e = r"
  by (auto simp: audit_with_def recordAudit_def)

definition one_audit :: "AuditEntry list \<Rightarrow> gate \<Rightarrow> bool" where
  "one_audit log g \<longleftrightarrow>
     (\<exists>e. mw_audit (fst g) = Some (log @ [e]) \<and> (ae_Outcome e = ''executed'' \<longleftrightarrow> te_Abort (snd g) = None))"

lemma one_audit_rec:
  "mw_audit mw = Some log \<Longrightarrow> (r = ''executed'' \<longleftrightarrow> te_Abort ev = None) \<Longrightarrow>
   one_audit log (audit_with now (Some out) u r mw, ev)"
  "mw_audit mw = Some log \<Longrightarrow> (r = ''executed'' \<longleftrightarrow> te_Abort ev = None) \<Longrightarrow>
   one_audit log (recordAudit now out u r mw, ev)"
  using audit_with_Some [of mw log] by (fastforce simp: one_audit_def)+

lemma approve_always_audit:
  assumes "mw_audit mw = Some log" and "te_Abort ev = None"
  shows "one_audit log (approve_always env req (Some out) d (mw, ev))"
  using assms
  by (simp add: approve_always_def Let_def one_audit_rec split: option.split sum.split)

lemma decide_edit_audit:
  assumes "mw_audit mw = Some log" and "te_Abort ev = None"
  shows "one_audit log (decide_edit env req (Some out) d (mw, ev))"
  using assms by (simp add: decide_edit_def Let_def one_audit_rec)

lemma handle_decision_audit:
  assumes "mw_audit mw = Some log" and "te_Abort ev = None"
  shows "one_audit log (handle_decision env req (Some out) d (mw, ev))"
  using assms approve_always_audit [OF assms] decide_edit_audit [OF assms]
  by (simp add: handle_decision_def Let_def one_audit_rec)

text \<open>
  C9. With an audit logger, a decision provider and an encodable request, every bash command that
  is checked adds exactly one entry to the audit log, and the entry says executed exactly when the
  call is let through.
\<close>

theorem audit_one_entry:
  assumes "te_Tool ev = Some t" and "tc_Name t = ''bash''" and "bash_command ev = Some cmd"
    and "cmd \<noteq> []" and "te_Abort ev = None" and "mw_audit mw = Some log"
    and "mw_provider mw \<noteq> None" and "he_marshal_ok env"
  shows "\<exists>e. mw_audit (fst (OnBeforeTool env (mw, ev))) = Some (log @ [e]) \<and>
             (ae_Outcome e = ''executed'' \<longleftrightarrow> te_Abort (snd (OnBeforeTool env (mw, ev))) = None)"
proof -
  have m: "map_of (te_Args ev) ''command'' = Some (JStr cmd)"
    using assms(3) by (auto simp: bash_command_def split: option.splits json.splits)
  have "one_audit log (confirm env req (Some out) (mw\<lparr>mw_reqID := k\<rparr>, ev))" for req out k
    using assms(5-8) handle_decision_audit by (auto simp: confirm_def Let_def)
  then have "one_audit log (checkBash env (mw, ev))"
    using m assms(4-6)
    by (auto simp: checkBash_def next_req_def Let_def intro!: one_audit_rec split: Decision.split)
  then show ?thesis using assms(1,2) by (simp add: OnBeforeTool_def one_audit_def)
qed

theorem audit_one_entry_witness:
  "\<exists>e. mw_audit (fst (OnBeforeTool sample_env (sample_mw HReject, sample_event ''bash'' ''make''))) = Some [e] \<and>
       ae_Outcome e \<noteq> ''executed''"
proof -
  let ?g = "OnBeforeTool sample_env (sample_mw HReject, sample_event ''bash'' ''make'')"
  have "te_Abort (snd ?g) \<noteq> None" by code_simp
  moreover have "bash_command (sample_event ''bash'' ''make'') = Some ''make''" by code_simp
  ultimately show ?thesis
    using audit_one_entry [of "sample_event ''bash'' ''make''" "\<lparr>tc_ID = ''c1'', tc_Name = ''bash''\<rparr>" "''make''"
        "sample_mw HReject" "[]" sample_env]
    by (auto simp: sample_event_def sample_mw_def sample_env_def)
qed

text \<open>
  C10. A tool that declares \<open>requires_permission\<close> runs only if the declared level is within the
  automatic limit of the mode, or a stored tool rule covers it in normal mode, or the user consents;
  in the strict and read-only modes nothing above low runs, whatever the user or the rules say.
\<close>

theorem gated_tool_asks:
  assumes "te_Tool ev = Some t" and "tc_Name t \<noteq> ''bash''" and "resolveToolPolicy ev = Some policy"
    and "te_Abort (snd (OnBeforeTool env (mw, ev))) = None"
  shows "(Mode (mw_cfg mw) \<in> {ModeStrict, ModeReadOnly} \<longrightarrow> tp_RiskLevel policy \<le> RiskLow) \<and>
         (toolDecision (mw_cfg mw) policy = ''allow'' \<or>
          (\<exists>get. mw_provider mw = Some get \<and>
             hd_Type (get (policy_request env (req_name (Suc (mw_reqID mw))) ev policy)) \<in> set consenting))"
  using assms confirm_consent
  by (fastforce simp: OnBeforeTool_def checkPolicyTool_def next_req_def toolDecision_def Let_def
      split: if_splits)

definition gated_event :: "string \<Rightarrow> tool_event" where
  "gated_event level = (sample_event ''deploy'' [])\<lparr>te_ToolDef :=
     Some (Some [(''requires_permission'', ''TRUE''), (''risk_level'', level)])\<rparr>"

theorem gated_tool_asks_witness:
  "\<exists>policy. resolveToolPolicy (gated_event ''high'') = Some policy \<and>
     (toolDecision normal_config policy = ''allow'' \<or>
      (\<exists>get. mw_provider (sample_mw HApprove) = Some get \<and>
         hd_Type (get (policy_request sample_env (req_name 1) (gated_event ''high'') policy)) \<in> set consenting))"
proof -
  have "resolveToolPolicy (gated_event ''high'') \<noteq> None" by code_simp
  then obtain policy where p: "resolveToolPolicy (gated_event ''high'') = Some policy" by auto
  have "te_Abort (snd (OnBeforeTool sample_env (sample_mw HApprove, gated_event ''high''))) = None" by code_simp
  with gated_tool_asks [OF _ _ p, of "\<lparr>tc_ID = ''c1'', tc_Name = ''deploy''\<rparr>" sample_env "sample_mw HApprove"] p
  show ?thesis by (auto simp: gated_event_def sample_event_def sample_mw_def)
qed

definition always_hitl_event :: tool_event where
  "always_hitl_event = (sample_event ''deploy'' [])\<lparr>te_ToolDef :=
     Some (Some [(''permission_policy'', ''always_hitl''), (''risk_level'', ''critical'')])\<rparr>"

text \<open>
  The declaration \<open>permission_policy=always_hitl\<close> alone does not gate a tool: the parsed
  metadata says that the permission is required, but the gate looks at \<open>requires_permission\<close> only, and
  in normal mode the tool runs without a request.
\<close>

theorem always_hitl_alone_ungated:
  "tp_RequiresPermission (NormalizeToolMetadata (the (te_ToolDef always_hitl_event))) \<and>
   OnBeforeTool sample_env (sample_mw HReject, always_hitl_event) = (sample_mw HReject, always_hitl_event)"
proof
  show "tp_RequiresPermission (NormalizeToolMetadata (the (te_ToolDef always_hitl_event)))" by code_simp
  have "resolveToolPolicy always_hitl_event = None" by code_simp
  then show "OnBeforeTool sample_env (sample_mw HReject, always_hitl_event) = (sample_mw HReject, always_hitl_event)"
    by (simp add: OnBeforeTool_def always_hitl_event_def sample_event_def HasPrefix_def)
qed

end
