(* ===== verification/Core_Message.thy ===== *)
theory Core_Message
  imports Go_Json
begin

text \<open>
  The data of the agent engine (\<^verbatim>\<open>src/ai-core/core/spec.go\<close>): messages, tool calls, tokens and usage,
  with the token estimate (\<^verbatim>\<open>estimate.go\<close>), the usage tracker (\<^verbatim>\<open>usage.go\<close>) and the stamping of
  messages (\<^verbatim>\<open>src/ai-core/agent/stamp.go\<close>). \<open>paired\<close> is the form of a history that model backends
  accept: the calls of a message are answered by the tool messages right behind it, one for each
  call and in order, and there are no other tool messages.
\<close>

section \<open>Messages\<close>

record ToolCall =
  call_ID :: string
  call_Type :: string
  call_Name :: string
  call_Arguments :: string

record Message =
  m_Role :: string
  m_Content :: string
  m_ToolCallID :: string
  m_ToolCalls :: "ToolCall list"
  m_Thinking :: string
  m_Custom :: "(string \<times> json) list"
  m_MsgID :: string
  m_CreatedAt :: time

definition plain_message :: "string \<Rightarrow> string \<Rightarrow> Message" where
  "plain_message role content =
    \<lparr>m_Role = role, m_Content = content, m_ToolCallID = [], m_ToolCalls = [], m_Thinking = [],
     m_Custom = [], m_MsgID = [], m_CreatedAt = 0\<rparr>"

definition tool_message :: "string \<Rightarrow> string \<Rightarrow> Message" where
  "tool_message content tid = (plain_message ''tool'' content)\<lparr>m_ToolCallID := tid\<rparr>"

definition call_json :: "ToolCall \<Rightarrow> json" where
  "call_json c = JObj [(''id'', JStr (call_ID c)), (''type'', JStr (call_Type c)),
     (''function'', JObj [(''name'', JStr (call_Name c)), (''arguments'', JStr (call_Arguments c))])]"

text \<open>The JSON form of a message: \<^verbatim>\<open>omitempty\<close> has no effect on the struct \<^verbatim>\<open>thinking\<close>.\<close>

definition message_json :: "Message \<Rightarrow> json" where
  "message_json m = JObj
    ([(''role'', JStr (m_Role m)), (''content'', JStr (m_Content m))] @
     (if m_ToolCallID m = [] then [] else [(''tool_call_id'', JStr (m_ToolCallID m))]) @
     (if m_ToolCalls m = [] then [] else [(''tool_calls'', JArr (map call_json (m_ToolCalls m)))]) @
     [(''thinking'', JObj (if m_Thinking m = [] then [] else [(''text'', JStr (m_Thinking m))]))] @
     (if m_Custom m = [] then [] else [(''custom'', JObj (sort_kv (m_Custom m)))]))"

definition EstimateTokens :: "Message list \<Rightarrow> nat" where
  "EstimateTokens msgs = length (json_text (JArr (map message_json msgs))) div 4"

section \<open>Responses and tokens\<close>

record UsageInfo =
  ui_PromptTokens :: int
  ui_CacheHit :: int
  ui_CacheMiss :: int
  ui_CompletionTokens :: int
  ui_TotalTokens :: int

record ChatResponse =
  cr_Choices :: "Message list"
  cr_Usage :: "UsageInfo option"

text \<open>The interrupt of a tool event travels as the request it carries.\<close>

record 'e Token =
  tok_Type :: string
  tok_Content :: string
  tok_Done :: bool
  tok_Event :: "'e option"
  tok_ToolCall :: "ToolCall option"
  tok_ToolCallID :: string
  tok_Response :: "ChatResponse option"

definition text_token :: "string \<Rightarrow> string \<Rightarrow> bool \<Rightarrow> 'e Token" where
  "text_token type content fin =
    \<lparr>tok_Type = type, tok_Content = content, tok_Done = fin, tok_Event = None, tok_ToolCall = None,
     tok_ToolCallID = [], tok_Response = None\<rparr>"

section \<open>Usage\<close>

record Usage =
  u_Iteration :: int
  u_PromptTokens :: int
  u_CompletionTokens :: int
  u_TotalTokens :: int
  u_EstimateTokens :: int
  u_CacheHit :: int
  u_CacheMiss :: int
  u_LastPromptTokens :: int

definition zero_usage :: Usage where
  "zero_usage = \<lparr>u_Iteration = 0, u_PromptTokens = 0, u_CompletionTokens = 0, u_TotalTokens = 0,
     u_EstimateTokens = 0, u_CacheHit = 0, u_CacheMiss = 0, u_LastPromptTokens = 0\<rparr>"

record Compaction =
  cp_BeforeMsgs :: nat
  cp_AfterMsgs :: nat
  cp_Tokens :: int

record UsageTracker =
  ut_calls :: "Usage list"
  ut_total :: Usage
  ut_compactions :: "Compaction list"

definition NewUsageTracker :: UsageTracker where
  "NewUsageTracker = \<lparr>ut_calls = [], ut_total = zero_usage, ut_compactions = []\<rparr>"

text \<open>The cache hit rate is a quotient in percent; \<open>None\<close> when the model reported no cache fields.\<close>

definition CacheHitRate :: "Usage \<Rightarrow> (int \<times> int) option" where
  "CacheHitRate u =
    (if u_CacheHit u + u_CacheMiss u = 0 then None
     else Some (u_CacheHit u * 100, u_CacheHit u + u_CacheMiss u))"

definition call_usage :: "int \<Rightarrow> int \<Rightarrow> UsageInfo option \<Rightarrow> Usage" where
  "call_usage iter estimate u =
    (let call = zero_usage\<lparr>u_Iteration := iter, u_EstimateTokens := estimate\<rparr> in
     case u of
       None \<Rightarrow> call
     | Some i \<Rightarrow> call\<lparr>u_PromptTokens := ui_PromptTokens i, u_CompletionTokens := ui_CompletionTokens i,
                     u_TotalTokens := ui_TotalTokens i, u_CacheHit := ui_CacheHit i,
                     u_CacheMiss := ui_CacheMiss i\<rparr>)"

definition Record :: "int \<Rightarrow> int \<Rightarrow> UsageInfo option \<Rightarrow> UsageTracker \<Rightarrow> UsageTracker" where
  "Record iter estimate u t =
    (let call = call_usage iter estimate u; tot = ut_total t in
     t\<lparr>ut_calls := ut_calls t @ [call],
       ut_total := tot\<lparr>u_PromptTokens := u_PromptTokens tot + u_PromptTokens call,
                       u_CacheHit := u_CacheHit tot + u_CacheHit call,
                       u_CacheMiss := u_CacheMiss tot + u_CacheMiss call,
                       u_CompletionTokens := u_CompletionTokens tot + u_CompletionTokens call,
                       u_TotalTokens := u_TotalTokens tot + u_TotalTokens call,
                       u_EstimateTokens := u_EstimateTokens tot + estimate\<rparr>\<rparr>)"

definition Snapshot :: "UsageTracker \<Rightarrow> Usage" where
  "Snapshot t =
    (case rev (ut_calls t) of
       [] \<Rightarrow> ut_total t
     | lst # _ \<Rightarrow> (ut_total t)\<lparr>u_LastPromptTokens :=
         (if u_PromptTokens lst = 0 then u_EstimateTokens lst else u_PromptTokens lst)\<rparr>)"

definition RecordCompaction :: "Compaction \<Rightarrow> UsageTracker \<Rightarrow> UsageTracker" where
  "RecordCompaction c t = t\<lparr>ut_compactions := ut_compactions t @ [c]\<rparr>"

definition Reset :: "UsageTracker \<Rightarrow> UsageTracker" where
  "Reset t = t\<lparr>ut_calls := [], ut_total := zero_usage, ut_compactions := []\<rparr>"

text \<open>
  The trackers of a session: created empty, then recorded into and reset in any order.
\<close>

inductive tracker_reach :: "UsageTracker \<Rightarrow> bool" where
  new: "tracker_reach NewUsageTracker"
| recorded: "tracker_reach t \<Longrightarrow> tracker_reach (Record iter estimate u t)"
| compacted: "tracker_reach t \<Longrightarrow> tracker_reach (RecordCompaction c t)"
| cleared: "tracker_reach t \<Longrightarrow> tracker_reach (Reset t)"

definition sums_up :: "(Usage \<Rightarrow> int) \<Rightarrow> UsageTracker \<Rightarrow> bool" where
  "sums_up f t \<longleftrightarrow> f (ut_total t) = sum_list (map f (ut_calls t))"

lemma tracker_sums:
  assumes "tracker_reach t"
  shows "sums_up u_PromptTokens t" "sums_up u_CompletionTokens t" "sums_up u_TotalTokens t"
    "sums_up u_EstimateTokens t" "sums_up u_CacheHit t" "sums_up u_CacheMiss t"
    "u_Iteration (ut_total t) = 0" "u_LastPromptTokens (ut_total t) = 0"
  using assms
  by (induction rule: tracker_reach.induct)
    (auto simp: sums_up_def NewUsageTracker_def zero_usage_def Record_def call_usage_def
      RecordCompaction_def Reset_def Let_def split: option.splits)

text \<open>
  The snapshot of a session's usage is the sum of the calls recorded since the last reset, in every
  column, and its last prompt size is that of the most recent call, its estimate when the model
  reported none.
\<close>

theorem usage_accounts:
  assumes "tracker_reach t"
  shows "list_all (\<lambda>f. f (Snapshot t) = sum_list (map f (ut_calls t)))
           [u_PromptTokens, u_CompletionTokens, u_TotalTokens, u_EstimateTokens, u_CacheHit, u_CacheMiss] \<and>
         u_LastPromptTokens (Snapshot t) =
           (if ut_calls t = [] then 0
            else if u_PromptTokens (last (ut_calls t)) = 0 then u_EstimateTokens (last (ut_calls t))
            else u_PromptTokens (last (ut_calls t)))"
proof -
  have "list_all (\<lambda>f. f (Snapshot t) = f (ut_total t))
      [u_PromptTokens, u_CompletionTokens, u_TotalTokens, u_EstimateTokens, u_CacheHit, u_CacheMiss]"
    by (simp add: Snapshot_def split: list.split)
  moreover have "u_LastPromptTokens (Snapshot t) =
           (if ut_calls t = [] then 0
            else if u_PromptTokens (last (ut_calls t)) = 0 then u_EstimateTokens (last (ut_calls t))
            else u_PromptTokens (last (ut_calls t)))"
    using tracker_sums(8) [OF assms] by (cases "ut_calls t" rule: rev_cases) (auto simp: Snapshot_def)
  ultimately show ?thesis using tracker_sums [OF assms] by (simp add: sums_up_def)
qed

definition sample_info :: UsageInfo where
  "sample_info = \<lparr>ui_PromptTokens = 10, ui_CacheHit = 4, ui_CacheMiss = 6, ui_CompletionTokens = 5, ui_TotalTokens = 15\<rparr>"

theorem usage_accounts_witness:
  "u_TotalTokens (Snapshot (Record 1 7 None (Record 0 0 (Some sample_info) NewUsageTracker))) = 15 \<and>
   u_LastPromptTokens (Snapshot (Record 1 7 None (Record 0 0 (Some sample_info) NewUsageTracker))) = 7"
proof -
  have "tracker_reach (Record 1 7 None (Record 0 0 (Some sample_info) NewUsageTracker))"
    by (intro tracker_reach.intros)
  from usage_accounts [OF this] show ?thesis
    by (simp add: Record_def call_usage_def NewUsageTracker_def zero_usage_def sample_info_def Let_def)
qed

section \<open>Stamping\<close>

text \<open>The random identifiers and the clock are functions of the position of the message.\<close>

definition stamp_message :: "(nat \<Rightarrow> string) \<Rightarrow> (nat \<Rightarrow> time) \<Rightarrow> nat \<Rightarrow> Message \<Rightarrow> Message" where
  "stamp_message ids now i m =
    (let m = (if m_MsgID m = [] then m\<lparr>m_MsgID := ids i\<rparr> else m)
     in if IsZero (m_CreatedAt m) then m\<lparr>m_CreatedAt := now i\<rparr> else m)"

definition stampMessageIDs :: "(nat \<Rightarrow> string) \<Rightarrow> (nat \<Rightarrow> time) \<Rightarrow> Message list \<Rightarrow> Message list" where
  "stampMessageIDs ids now msgs = map (\<lambda>(i, m). stamp_message ids now i m) (enumerate 0 msgs)"

section \<open>Paired histories\<close>

fun paired_from :: "string list \<Rightarrow> Message list \<Rightarrow> bool" where
  "paired_from [] [] = True"
| "paired_from (i # ids) [] = False"
| "paired_from [] (m # ms) = (m_Role m \<noteq> ''tool'' \<and> paired_from (map call_ID (m_ToolCalls m)) ms)"
| "paired_from (i # ids) (m # ms) = (m_Role m = ''tool'' \<and> m_ToolCallID m = i \<and> paired_from ids ms)"

abbreviation paired :: "Message list \<Rightarrow> bool" where
  "paired ms \<equiv> paired_from [] ms"

lemma paired_append: "paired_from p xs \<Longrightarrow> paired_from p (xs @ ys) = paired ys"
  by (induction p xs rule: paired_from.induct) auto

lemma paired_cut:
  "paired_from p (xs @ y # ys) \<Longrightarrow> m_Role y \<noteq> ''tool'' \<Longrightarrow> paired_from p xs \<and> paired (y # ys)"
  by (induction p xs rule: paired_from.induct) auto

lemma paired_plain: "role \<noteq> ''tool'' \<Longrightarrow> paired [plain_message role c]"
  by (simp add: plain_message_def)

lemma paired_answers:
  "paired_from (map call_ID cs) (map (\<lambda>(c, r). tool_message r (call_ID c)) (zip cs rs)) = (length cs \<le> length rs)"
proof (induction cs arbitrary: rs)
  case (Cons c cs)
  then show ?case by (cases rs) (simp_all add: tool_message_def plain_message_def)
qed simp

lemma paired_stamp_from:
  "paired_from p (map (\<lambda>(i, m). stamp_message ids now i m) (enumerate k ms)) = paired_from p ms"
proof (induction p ms arbitrary: k rule: paired_from.induct)
  case (3 m ms)
  have "m_Role (stamp_message ids now k m) = m_Role m" "m_ToolCalls (stamp_message ids now k m) = m_ToolCalls m"
    by (simp_all add: stamp_message_def Let_def)
  with 3 show ?case by simp
next
  case (4 i ids' m ms)
  have "m_Role (stamp_message ids now k m) = m_Role m" "m_ToolCallID (stamp_message ids now k m) = m_ToolCallID m"
    by (simp_all add: stamp_message_def Let_def)
  with 4 show ?case by simp
qed simp_all

lemma paired_stamp [simp]: "paired (stampMessageIDs ids now ms) = paired ms"
  by (simp add: stampMessageIDs_def paired_stamp_from)

end
