(* ===== verification/Middlewares.thy ===== *)
theory Middlewares
  imports Core_Message
begin

text \<open>
  The observing and rewriting middlewares of the agent (\<^verbatim>\<open>src/ai-runtime/middlewares\<close>): the rolling
  compressor and its trigger (\<^verbatim>\<open>compressor.go\<close>, \<^verbatim>\<open>compression.go\<close>), the injection of memories
  (\<^verbatim>\<open>memory.go\<close>) and usage accounting (\<^verbatim>\<open>usage.go\<close>). The model that summarises, the memory client and
  the two numbers that the code computes in floating point (the compression threshold and the
  injection budget) are parameters.
\<close>

section \<open>The compressor\<close>

record CompressReport =
  rep_BeforeMsgs :: nat
  rep_AfterMsgs :: nat
  rep_Tokens :: int

text \<open>The answer of the summarising model: an error, or a response, which may be nil.\<close>

type_synonym chat_fn = "Message list \<Rightarrow> string + ChatResponse option"

record Compressor =
  co_chat :: chat_fn
  co_keepLast :: int
  co_protectSystem :: bool

text \<open>\<open>NilResponse\<close> is the panic of \<open>summarize\<close> on a nil response without an error.\<close>

datatype compress_error = SummarizeError string | EmptyResponse | NilResponse

definition summaryPrompt :: string where
  "summaryPrompt =
    ''Summarize the conversation below for a coding assistant that must continue the work.'' @ [CHR 0x0A] @
    ''Preserve: decided facts and constraints, file paths, shell commands run and their key '' @
    ''results, tool outputs that matter, the current task state and any pending next steps.'' @ [CHR 0x0A] @
    ''Drop: greetings, repetition, full tool output dumps.'' @ [CHR 0x0A] @
    ''Output a single dense plain-text paragraph, no headers, no bullet lists.''"

definition summarize :: "Compressor \<Rightarrow> Message list \<Rightarrow> compress_error + (string \<times> UsageInfo option)" where
  "summarize c old =
    (case co_chat c (plain_message ''system'' summaryPrompt # old) of
       Inl e \<Rightarrow> Inl (SummarizeError e)
     | Inr None \<Rightarrow> Inl NilResponse
     | Inr (Some resp) \<Rightarrow>
         (case cr_Choices resp of
            [] \<Rightarrow> Inl EmptyResponse
          | m # _ \<Rightarrow> Inr (TrimSpace (m_Content m), cr_Usage resp)))"

definition safe_split :: "Message list \<Rightarrow> nat \<Rightarrow> bool" where
  "safe_split h n \<longleftrightarrow> m_Role (h ! n) \<noteq> ''tool'' \<and>
     (m_Role (h ! (n - 1)) \<noteq> ''assistant'' \<or> m_ToolCalls (h ! (n - 1)) = [])"

fun find_split :: "Message list \<Rightarrow> nat \<Rightarrow> nat option" where
  "find_split h n = (if n < 2 then None else if safe_split h n then Some n else find_split h (n - 1))"

declare find_split.simps [simp del]

definition splitPoint :: "Compressor \<Rightarrow> Message list \<Rightarrow> nat option" where
  "splitPoint c h =
    (if co_keepLast c \<le> 0 \<or> int (length h) \<le> co_keepLast c + 1 then None
     else find_split h (length h - nat (co_keepLast c)))"

definition Compress :: "Compressor \<Rightarrow> Message list \<Rightarrow> compress_error + (Message list \<times> CompressReport option)" where
  "Compress c history =
    (let keepHead = (if co_protectSystem c then length (takeWhile (\<lambda>m. m_Role m = ''system'') history) else 0);
         body = drop keepHead history
     in case splitPoint c body of
          None \<Rightarrow> Inr (history, None)
        | Some split \<Rightarrow>
            (case summarize c (take split body) of
               Inl e \<Rightarrow> Inl e
             | Inr (summary, usage) \<Rightarrow>
                 let out = take keepHead history @ plain_message ''system'' summary # drop split body;
                     tokens = (case usage of Some u \<Rightarrow> ui_TotalTokens u | None \<Rightarrow> 0);
                     tokens = (if tokens = 0 then int (EstimateTokens (take split body)) else tokens)
                 in Inr (out, Some \<lparr>rep_BeforeMsgs = length history, rep_AfterMsgs = length out,
                                    rep_Tokens = tokens\<rparr>)))"

section \<open>The compression middleware\<close>

text \<open>
  \<open>cm_on\<close> is the condition on the window and the ratio, \<open>cm_threshold\<close> their product. A panic of the
  compressor ends the process: the result \<open>None\<close>.
\<close>

record CompressionMiddleware =
  cm_compressor :: Compressor
  cm_on :: bool
  cm_threshold :: nat
  cm_done :: bool

definition compression_before_model ::
  "CompressionMiddleware \<Rightarrow> Message list \<Rightarrow> (CompressionMiddleware \<times> Message list \<times> CompressReport option) option" where
  "compression_before_model m history =
    (if cm_done m \<or> \<not> cm_on m then Some (m, history, None)
     else if EstimateTokens history < cm_threshold m then Some (m, history, None)
     else (case Compress (cm_compressor m) history of
             Inl NilResponse \<Rightarrow> None
           | Inl _ \<Rightarrow> Some (m, history, None)
           | Inr (compacted, report) \<Rightarrow>
               Some (if EstimateTokens compacted \<ge> cm_threshold m then m\<lparr>cm_done := True\<rparr> else m, compacted, report)))"

section \<open>Usage accounting\<close>

record UsageMiddleware =
  um_tracker :: UsageTracker
  um_iter :: int

definition usage_after_model ::
  "bool \<Rightarrow> Message list \<Rightarrow> UsageInfo option \<Rightarrow> UsageMiddleware \<Rightarrow> UsageMiddleware \<times> Usage option" where
  "usage_after_model err history usage m =
    (if err then (m, None)
     else let estimate = (if usage = None then int (EstimateTokens history) else 0);
              t = Record (um_iter m) estimate usage (um_tracker m)
          in (m\<lparr>um_tracker := t, um_iter := um_iter m + 1\<rparr>, Some (Snapshot t)))"

section \<open>Memory injection\<close>

record MemoryTask =
  mt_ID :: string
  mt_Title :: string
  mt_Summary :: string
  mt_NextSteps :: "string list"

record MemoryFact =
  mf_Topic :: string
  mf_Content :: string

record MemoryResult =
  mr_Task :: "MemoryTask option"
  mr_Fact :: "MemoryFact option"

definition oneLine :: "string \<Rightarrow> string" where
  "oneLine s = Join (Fields s) '' ''"

definition truncateRunes :: "string \<Rightarrow> nat \<Rightarrow> string" where
  "truncateRunes s n =
    (let rs = map fst (runes s)
     in if length rs \<le> n then s else utf8 (take n rs) @ (utf8 [0x2026]))"

definition render_task :: "MemoryTask \<Rightarrow> string" where
  "render_task t =
    ''- ['' @ mt_ID t @ ''] '' @ oneLine (mt_Title t) @ [CHR 0x0A] @
    (if mt_Summary t \<noteq> [] then ''  '' @ oneLine (mt_Summary t) @ [CHR 0x0A] else []) @
    (if mt_NextSteps t \<noteq> [] then ''  '' @ (utf8 [0x4E0B, 0x4E00, 0x6B65, 0x3A, 0x20]) @ Join (mt_NextSteps t) (utf8 [0xFF1B]) @ [CHR 0x0A] else [])"

definition render_fact :: "MemoryFact \<Rightarrow> string" where
  "render_fact f =
    (if mf_Topic f \<noteq> [] then ''- ['' @ mf_Topic f @ ''] '' @ oneLine (mf_Content f) @ [CHR 0x0A]
     else ''- '' @ oneLine (mf_Content f) @ [CHR 0x0A])"

definition renderMemoryBlock :: "MemoryResult list \<Rightarrow> string" where
  "renderMemoryBlock results =
    (let tasks = List.map_filter mr_Task results;
         facts = List.map_filter mr_Fact (filter (\<lambda>r. mr_Task r = None) results)
     in (utf8 [0x5B, 0x8BB0, 0x5FC6, 0x5D]) @ (utf8 [0x20, 0x6765, 0x81EA, 0x8BB0, 0x5FC6, 0xFF0C, 0x4EC5, 0x4F9B, 0x53C2, 0x8003, 0xFF0C, 0x53EF, 0x80FD, 0x4E0E, 0x5F53, 0x524D, 0x4EFB, 0x52A1, 0x65E0, 0x5173, 0xFF1A]) @ [CHR 0x0A] @
        (if tasks \<noteq> [] then (utf8 [0x23, 0x23, 0x23, 0x20, 0x76F8, 0x5173, 0x4EFB, 0x52A1]) @ [CHR 0x0A] @ concat (map render_task tasks) else []) @
        (if facts \<noteq> [] then (utf8 [0x23, 0x23, 0x23, 0x20, 0x957F, 0x671F, 0x4E8B, 0x5B9E]) @ [CHR 0x0A] @ concat (map render_fact facts) else []) @
        [CHR 0x0A] @ (utf8 [0x63D0, 0x793A, 0xFF1A, 0x5982, 0x9700, 0x56DE, 0x5FC6, 0x66F4, 0x65E9, 0x7684, 0x4F1A, 0x8BDD, 0x6216, 0x5DF2, 0x5B8C, 0x6210, 0x7684, 0x4EFB, 0x52A1, 0xFF0C, 0x53EF, 0x7528, 0x20, 0x6D, 0x65, 0x6D, 0x6F, 0x72, 0x79, 0x5F, 0x73, 0x65, 0x61, 0x72, 0x63, 0x68, 0x20, 0x5DE5, 0x5177, 0x67E5, 0x8BE2, 0x3002]) @ [CHR 0x0A])"

definition block_tokens :: "string \<Rightarrow> nat" where
  "block_tokens block = EstimateTokens [plain_message ''system'' block]"

text \<open>
  The trimming loop: the worst result goes first, a single fact is cut once, and then it gives up.
\<close>

function trim_block :: "int \<Rightarrow> bool \<Rightarrow> MemoryResult list \<Rightarrow> string" where
  "trim_block budget trimmed results =
    (let block = renderMemoryBlock results in
     if int (block_tokens block) \<le> budget then block
     else if length results > 1 then trim_block budget trimmed (butlast results)
     else (case results of
             [r] \<Rightarrow>
               (case mr_Fact r of
                  Some f \<Rightarrow>
                    if trimmed then []
                    else trim_block budget True
                           [r\<lparr>mr_Fact := Some (f\<lparr>mf_Content := truncateRunes (mf_Content f) 300\<rparr>)\<rparr>]
                | None \<Rightarrow> [])
           | _ \<Rightarrow> []))"
  by pat_completeness auto
termination
  by (relation "measure (\<lambda>(b, t, rs). 2 * length rs + (if t then 0 else 1))") auto

declare trim_block.simps [simp del]

definition buildMemoryBlock :: "int \<Rightarrow> MemoryResult list \<Rightarrow> string" where
  "buildMemoryBlock budget results = (if budget \<le> 0 then [] else trim_block budget False results)"

definition last_user :: "Message list \<Rightarrow> nat" where
  "last_user h =
    (case rev (filter (\<lambda>i. m_Role (h ! i) = ''user'') [0..<length h]) of [] \<Rightarrow> length h | i # _ \<Rightarrow> i)"

definition insertSystemBlock :: "Message list \<Rightarrow> string \<Rightarrow> Message list" where
  "insertSystemBlock h block =
    take (last_user h) h @ plain_message ''system'' block # drop (last_user h) h"

text \<open>The search of the memory client answers with an error (\<open>None\<close>) or with results.\<close>

record MemoryMiddleware =
  mm_on :: bool
  mm_search :: "string \<Rightarrow> MemoryResult list option"
  mm_budget :: int
  mm_injected :: bool

definition memory_before_model :: "MemoryMiddleware \<Rightarrow> string \<Rightarrow> Message list \<Rightarrow> MemoryMiddleware \<times> Message list" where
  "memory_before_model m input history =
    (if \<not> mm_on m \<or> mm_injected m then (m, history)
     else (case mm_search m input of
             None \<Rightarrow> (m, history)
           | Some [] \<Rightarrow> (m, history)
           | Some results \<Rightarrow>
               let block = buildMemoryBlock (mm_budget m) results in
               (m\<lparr>mm_injected := True\<rparr>, if block = [] then history else insertSystemBlock history block)))"

section \<open>Compression\<close>

lemma find_split_Some:
  "find_split h n = Some k \<Longrightarrow> 2 \<le> k \<and> k \<le> n \<and> safe_split h k"
proof (induction h n rule: find_split.induct)
  case (1 h n)
  then show ?case
    by (subst (asm) (2) find_split.simps) (auto split: if_splits)
qed

lemma splitPoint_Some:
  assumes "splitPoint c h = Some k"
  shows "2 \<le> k" "k + nat (co_keepLast c) \<le> length h" "0 < co_keepLast c" "safe_split h k"
proof -
  from assms have f: "find_split h (length h - nat (co_keepLast c)) = Some k" "0 < co_keepLast c"
      "co_keepLast c + 1 < int (length h)"
    by (auto simp: splitPoint_def split: if_splits)
  with find_split_Some [OF f(1)] show "2 \<le> k" "k + nat (co_keepLast c) \<le> length h" "0 < co_keepLast c"
    "safe_split h k" by auto
qed

lemma systems_paired: "paired h \<Longrightarrow> \<forall>m \<in> set (takeWhile (\<lambda>m. m_Role m = ''system'') h). m_ToolCalls m = [] \<Longrightarrow>
    paired (takeWhile (\<lambda>m. m_Role m = ''system'') h) \<and> paired (dropWhile (\<lambda>m. m_Role m = ''system'') h)"
proof (induction h)
  case (Cons m h)
  show ?case
  proof (cases "m_Role m = ''system''")
    case True
    with Cons.prems have "m_ToolCalls m = []" by simp
    with True Cons show ?thesis by simp
  next
    case False
    with Cons.prems show ?thesis by (simp del: paired_from.simps(3))
  qed
qed simp

lemma compress_pairs:
  assumes "paired history" and "Compress c history = Inr (out, report)"
    and "list_all (\<lambda>m. m_Role m = ''system'' \<longrightarrow> m_ToolCalls m = []) history"
  shows "paired out \<and>
         (out = history \<or>
          (length out < length history \<and>
           (\<exists>pre old recent summary. history = pre @ old @ recent \<and>
              out = pre @ plain_message ''system'' summary # recent \<and> nat (co_keepLast c) \<le> length recent \<and>
              (co_protectSystem c \<longrightarrow> pre = takeWhile (\<lambda>m. m_Role m = ''system'') history))))"
proof -
  let ?sys = "takeWhile (\<lambda>m. m_Role m = ''system'') history"
  define pre where "pre = (if co_protectSystem c then ?sys else [])"
  define body where "body = drop (length pre) history"
  have hist: "history = pre @ body"
    unfolding body_def pre_def by (cases "co_protectSystem c") (simp_all add: dropWhile_eq_drop [symmetric])
  have kh: "(if co_protectSystem c then length ?sys else 0) = length pre" by (simp add: pre_def)
  have sys: "\<forall>m \<in> set ?sys. m_ToolCalls m = []"
    using assms(3) by (auto simp: list_all_iff dest: set_takeWhileD)
  have pp: "paired pre" "paired body"
  proof -
    have "body = (if co_protectSystem c then dropWhile (\<lambda>m. m_Role m = ''system'') history else history)"
      unfolding body_def pre_def by (simp add: dropWhile_eq_drop)
    with systems_paired [OF assms(1) sys] assms(1) show "paired pre" "paired body" by (auto simp: pre_def)
  qed
  show ?thesis
  proof (cases "splitPoint c body")
    case None
    then have "out = history" using assms(2) by (simp add: Compress_def Let_def kh body_def)
    then show ?thesis using assms(1) by simp
  next
    case (Some k)
    note s = splitPoint_Some [OF Some]
    obtain summary u where sm: "summarize c (take k body) = Inr (summary, u)"
      using assms(2) Some by (auto simp: Compress_def Let_def kh body_def [symmetric] split: sum.splits)
    have out: "out = pre @ plain_message ''system'' summary # drop k body"
      using assms(2) Some sm by (auto simp: Compress_def Let_def kh body_def [symmetric]) (simp add: hist)
    have "k < length body" using s by linarith
    then have d: "body = take k body @ body ! k # drop (Suc k) body" "drop k body = body ! k # drop (Suc k) body"
      by (simp_all add: id_take_nth_drop Cons_nth_drop_Suc)
    have "paired (drop k body)"
      using paired_cut [of "[]" "take k body" "body ! k" "drop (Suc k) body"] pp(2) s(4) d
      by (simp add: safe_split_def)
    then have "paired out"
      unfolding out using pp(1) by (simp add: paired_append plain_message_def)
    moreover have "length out < length history" using s out hist by simp
    moreover have "history = pre @ take k body @ drop k body" by (simp add: hist [symmetric])
    moreover have "nat (co_keepLast c) \<le> length (drop k body)" using s by simp
    ultimately show ?thesis using out pre_def by metis
  qed
qed

text \<open>
  C23 Compression keeps a history acceptable to the backend: when every tool call was answered right
  behind its message, it still is, in the new history. The last \<open>keepLast\<close> messages at least stay
  word for word at the end, the protected leading system messages at the front, and a compressed
  history is shorter.
\<close>

theorem compress_keeps_pairs:
  assumes "paired history" and "Compress c history = Inr (out, report)"
    and "list_all (\<lambda>m. m_Role m = ''system'' \<longrightarrow> m_ToolCalls m = []) history"
  shows "paired out \<and>
         (out = history \<or>
          (length out < length history \<and>
           (\<exists>pre old recent summary. history = pre @ old @ recent \<and>
              out = pre @ plain_message ''system'' summary # recent \<and> nat (co_keepLast c) \<le> length recent \<and>
              (co_protectSystem c \<longrightarrow> pre = takeWhile (\<lambda>m. m_Role m = ''system'') history))))"
  using assms by (rule compress_pairs)

section \<open>Memory injection\<close>

lemma trim_block_fits: "trim_block budget trimmed results = [] \<or> int (block_tokens (trim_block budget trimmed results)) \<le> budget"
proof (induction budget trimmed results rule: trim_block.induct)
  case (1 budget trimmed results)
  show ?case
    by (subst (1 2) trim_block.simps) (use 1 in \<open>auto simp: Let_def split: list.splits option.splits\<close>)
qed

lemma last_user_cases:
  "(last_user h = length h \<and> (\<forall>m \<in> set h. m_Role m \<noteq> ''user'')) \<or>
   (last_user h < length h \<and> m_Role (h ! last_user h) = ''user'')"
proof (cases "rev (filter (\<lambda>i. m_Role (h ! i) = ''user'') [0..<length h])")
  case Nil
  then have "\<forall>i < length h. m_Role (h ! i) \<noteq> ''user''" by (auto simp: filter_empty_conv)
  with Nil show ?thesis by (auto simp: last_user_def in_set_conv_nth)
next
  case (Cons i js)
  then have "i \<in> set (filter (\<lambda>i. m_Role (h ! i) = ''user'') [0..<length h])"
    by (metis list.set_intros(1) set_rev)
  then have "i < length h" "m_Role (h ! i) = ''user''" by simp_all
  moreover have "last_user h = i" unfolding last_user_def Cons by simp
  ultimately show ?thesis by simp
qed

lemma insert_paired:
  assumes "paired h"
  shows "paired (insertSystemBlock h block)"
  using last_user_cases [of h]
proof (elim disjE conjE)
  assume "last_user h = length h"
  then show ?thesis using assms by (simp add: insertSystemBlock_def paired_append plain_message_def)
next
  assume u: "last_user h < length h" "m_Role (h ! last_user h) = ''user''"
  then have h: "h = take (last_user h) h @ h ! last_user h # drop (Suc (last_user h)) h"
      "drop (last_user h) h = h ! last_user h # drop (Suc (last_user h)) h"
    by (simp_all add: id_take_nth_drop Cons_nth_drop_Suc)
  have "paired (take (last_user h) h) \<and> paired (drop (last_user h) h)"
    using paired_cut [of "[]" "take (last_user h) h" "h ! last_user h" "drop (Suc (last_user h)) h"] assms u h
    by simp
  then show ?thesis by (simp add: insertSystemBlock_def paired_append plain_message_def)
qed

text \<open>
  A memory is injected at most once per run, within its token budget, as one system message in front
  of the current input, and it tears no tool call from its results: without the block the history
  is the one before.
\<close>

theorem memory_injection:
  assumes "paired history" and "memory_before_model m input history = (m', history')"
  shows "paired history' \<and>
         (history' = history \<or>
          (\<not> mm_injected m \<and> mm_injected m' \<and>
           (\<exists>a b block. history = a @ b \<and> history' = a @ plain_message ''system'' block # b \<and>
              int (block_tokens block) \<le> mm_budget m \<and> (b = [] \<or> m_Role (hd b) = ''user'')))) \<and>
         (mm_injected m \<longrightarrow> m' = m \<and> history' = history)"
proof (cases "history' = history")
  case True
  then show ?thesis using assms by (auto simp: memory_before_model_def)
next
  case False
  then obtain results block where b: "\<not> mm_injected m" "block = buildMemoryBlock (mm_budget m) results"
      "block \<noteq> []" "history' = insertSystemBlock history block" "mm_injected m'"
    using assms(2) by (auto simp: memory_before_model_def Let_def split: if_splits option.splits list.splits)
  have "int (block_tokens block) \<le> mm_budget m"
    using b(2,3) trim_block_fits [of "mm_budget m" False results] by (auto simp: buildMemoryBlock_def split: if_splits)
  moreover have "drop (last_user history) history = [] \<or> m_Role (hd (drop (last_user history) history)) = ''user''"
    using last_user_cases [of history] by (auto simp: hd_drop_conv_nth)
  ultimately show ?thesis
    using b insert_paired [OF assms(1)] unfolding insertSystemBlock_def
    by (metis append_take_drop_id)
qed


section \<open>Samples\<close>

definition sample_call :: ToolCall where
  "sample_call = \<lparr>call_ID = ''c1'', call_Type = ''function'', call_Name = ''bash'', call_Arguments = ''{}''\<rparr>"

definition sample_history :: "Message list" where
  "sample_history =
    [plain_message ''system'' ''sp'', plain_message ''user'' ''a'', plain_message ''assistant'' ''b'',
     plain_message ''user'' ''c'', (plain_message ''assistant'' [])\<lparr>m_ToolCalls := [sample_call]\<rparr>,
     tool_message ''r'' ''c1'', plain_message ''assistant'' ''d'']"

definition sample_compressor :: Compressor where
  "sample_compressor =
    \<lparr>co_chat = (\<lambda>ms. Inr (Some \<lparr>cr_Choices = [plain_message ''assistant'' ''sum''], cr_Usage = None\<rparr>)),
     co_keepLast = 2, co_protectSystem = True\<rparr>"

theorem compress_keeps_pairs_witness:
  "\<exists>out report. Compress sample_compressor sample_history = Inr (out, report) \<and> length out = 5 \<and> paired out"
proof -
  define res where "res = projr (Compress sample_compressor sample_history)"
  have "\<not> isl (Compress sample_compressor sample_history)" by code_simp
  then have c: "Compress sample_compressor sample_history = Inr (fst res, snd res)" by (simp add: res_def)
  have p: "paired sample_history" "list_all (\<lambda>m. m_Role m = ''system'' \<longrightarrow> m_ToolCalls m = []) sample_history"
    by code_simp+
  have "length (fst res) = 5" unfolding res_def by code_simp
  moreover have "paired (fst res)" using compress_keeps_pairs [OF p(1) c p(2)] by (rule conjunct1)
  ultimately show ?thesis using c by (intro exI conjI)
qed

definition sample_memory :: MemoryMiddleware where
  "sample_memory = \<lparr>mm_on = True, mm_search = (\<lambda>q. Some [\<lparr>mr_Task = None,
     mr_Fact = Some \<lparr>mf_Topic = ''go'', mf_Content = ''uses modules''\<rparr>\<rparr>]), mm_budget = 200, mm_injected = False\<rparr>"

theorem memory_injection_witness:
  "length (snd (memory_before_model sample_memory ''q'' sample_history)) = 8 \<and>
   paired (snd (memory_before_model sample_memory ''q'' sample_history))"
proof
  show "length (snd (memory_before_model sample_memory ''q'' sample_history)) = 8" by code_simp
  have "paired sample_history" by code_simp
  from memory_injection [OF this surjective_pairing]
  show "paired (snd (memory_before_model sample_memory ''q'' sample_history))" by blast
qed

end
