(* ===== verification/Agent.thy ===== *)
theory Agent
  imports Hitl Middlewares
begin

text \<open>
  The agent engine (\<^verbatim>\<open>src/ai-core/agent/agent.go\<close>): the loop of model calls and tool calls, with the
  events for the middlewares, and the chain of middlewares that a session installs
  (\<^verbatim>\<open>buildMiddlewareChain\<close> of \<^verbatim>\<open>src/ai-runtime/agent/session.go\<close>). The model provider and the tools are
  parameters. The tokens are those that the loop offers to its consumer, in order; whether a
  token is taken when the context is done is up to the consumer. \<open>None\<close> as the outcome of a run is a
  panic of a middleware.
\<close>

section \<open>Hooks\<close>

text \<open>The hooks that a middleware implements, on the shared state of the middlewares.\<close>

record 'm hooks =
  hk_before_agent :: "('m \<Rightarrow> 'm) option"
  hk_after_agent :: "(string option \<Rightarrow> 'm \<Rightarrow> 'm) option"
  hk_before_model :: "(string \<Rightarrow> 'm \<times> Message list \<Rightarrow> ('m \<times> Message list) option) option"
  hk_after_model :: "(bool \<Rightarrow> Message list \<Rightarrow> UsageInfo option \<Rightarrow> 'm \<Rightarrow> 'm) option"
  hk_before_tool :: "('m \<times> tool_event \<Rightarrow> 'm \<times> tool_event) option"
  hk_after_tool :: "('m \<Rightarrow> 'm) option"

definition no_hooks :: "'m hooks" where
  "no_hooks = \<lparr>hk_before_agent = None, hk_after_agent = None, hk_before_model = None, hk_after_model = None,
     hk_before_tool = None, hk_after_tool = None\<rparr>"

definition fire_plain :: "('m hooks \<Rightarrow> ('m \<Rightarrow> 'm) option) \<Rightarrow> 'm hooks list \<Rightarrow> 'm \<Rightarrow> 'm" where
  "fire_plain sel hs m = foldl (\<lambda>m h. case sel h of Some f \<Rightarrow> f m | None \<Rightarrow> m) m hs"

definition fire_after_agent :: "string option \<Rightarrow> 'm hooks list \<Rightarrow> 'm \<Rightarrow> 'm" where
  "fire_after_agent err hs m = foldl (\<lambda>m h. case hk_after_agent h of Some f \<Rightarrow> f err m | None \<Rightarrow> m) m hs"

fun fire_before_model :: "string \<Rightarrow> 'm hooks list \<Rightarrow> 'm \<times> Message list \<Rightarrow> ('m \<times> Message list) option" where
  "fire_before_model input [] s = Some s"
| "fire_before_model input (h # hs) s =
     (case hk_before_model h of
        None \<Rightarrow> fire_before_model input hs s
      | Some f \<Rightarrow> (case f input s of None \<Rightarrow> None | Some s' \<Rightarrow> fire_before_model input hs s'))"

definition fire_before_tool :: "'m hooks list \<Rightarrow> 'm \<times> tool_event \<Rightarrow> 'm \<times> tool_event" where
  "fire_before_tool hs s = foldl (\<lambda>s h. case hk_before_tool h of Some f \<Rightarrow> f s | None \<Rightarrow> s) s hs"

section \<open>The agent\<close>

record Tool =
  tool_Name :: string
  tool_Metadata :: "(string \<times> string) list option"
  tool_Execute :: "nat \<Rightarrow> (string \<times> json) list \<Rightarrow> string + string"

type_synonym token = "InterruptRequest Token"

text \<open>
  The agent with its provider: \<open>ag_stream\<close> answers \<open>None\<close> when streaming is not supported, \<open>ag_ctx\<close> is the
  error of the context after a stream that ended without a response. Both may differ from call
  to call, as may the tools, which get the number of calls executed before.
\<close>

record 'm Agent =
  ag_stream :: "nat \<Rightarrow> Message list \<Rightarrow> token list option"
  ag_chat :: "nat \<Rightarrow> Message list \<Rightarrow> string + ChatResponse option"
  ag_ctx :: "nat \<Rightarrow> string option"
  ag_tools :: "Tool list"
  ag_middlewares :: "'m hooks list"
  ag_maxIterations :: nat
  ag_systemPrompt :: string
  ag_jsonError :: "string \<Rightarrow> string"
  ag_newID :: "nat \<Rightarrow> string"
  ag_now :: "nat \<Rightarrow> time"

record 'm agent_state =
  as_mw :: 'm
  as_messages :: "Message list"
  as_tokens :: "token list"
  as_executed :: "(string \<times> (string \<times> json) list) list"

text \<open>\<open>toolMap\<close>: of two tools with one name the later one counts.\<close>

definition toolMap :: "Tool list \<Rightarrow> string \<Rightarrow> Tool option" where
  "toolMap tools name = find (\<lambda>t. tool_Name t = name) (rev tools)"

definition buildMessages :: "'m Agent \<Rightarrow> Message list \<Rightarrow> string \<Rightarrow> Message list" where
  "buildMessages a history input =
    [plain_message ''system'' (ag_systemPrompt a)] @ history @ [plain_message ''user'' input]"

definition chat :: "'m Agent \<Rightarrow> nat \<Rightarrow> Message list \<Rightarrow> (string + ChatResponse option) \<times> bool \<times> token list" where
  "chat a iter msgs =
    (case ag_stream a iter msgs of
       None \<Rightarrow> (ag_chat a iter msgs, False, [])
     | Some stream \<Rightarrow>
         let deltas = map (\<lambda>t. t\<lparr>tok_Done := False\<rparr>) (filter (\<lambda>t. tok_Response t = None) stream) in
         (case rev (List.map_filter tok_Response stream) of
            final # _ \<Rightarrow> (Inr (Some final), True, deltas)
          | [] \<Rightarrow>
              (case ag_ctx a iter of
                 Some e \<Rightarrow> (Inl e, False, deltas)
               | None \<Rightarrow> (Inl ''stream ended without a complete response'', False, deltas))))"

definition emitMessageTokens :: "Message \<Rightarrow> token list" where
  "emitMessageTokens m =
    (if m_Thinking m \<noteq> [] then [text_token ''thinking'' (m_Thinking m) False] else []) @
    (if m_Content m \<noteq> [] then [text_token ''text'' (m_Content m) False] else [])"

definition abortResult :: "core_message list \<Rightarrow> string \<Rightarrow> string" where
  "abortResult msgs tid =
    (case find (\<lambda>m. cm_Role m = ''tool'' \<and> cm_ToolCallID m = tid) msgs of
       Some m \<Rightarrow> cm_Content m | None \<Rightarrow> ''tool execution aborted'')"

text \<open>
  The arguments of a call: the members of the JSON object, the last of equal keys; a \<^verbatim>\<open>null\<close> is a nil
  map; \<open>None\<close> is a decoding error.
\<close>

definition tool_args :: "string \<Rightarrow> (string \<times> json) list option" where
  "tool_args s =
    (case json_parse s of
       Some (JObj m) \<Rightarrow> Some (foldl (\<lambda>args (k, v). map_put k v args) [] m)
     | Some JNull \<Rightarrow> Some []
     | _ \<Rightarrow> None)"

definition tool_event_of :: "ToolCall \<Rightarrow> Tool \<Rightarrow> (string \<times> json) list \<Rightarrow> tool_event" where
  "tool_event_of tc tool args =
    \<lparr>te_Tool = Some \<lparr>tc_ID = call_ID tc, tc_Name = call_Name tc\<rparr>, te_ToolDef = Some (tool_Metadata tool),
     te_Args = args, te_Abort = None, te_Emit = Some []\<rparr>"

definition event_tokens :: "tool_event \<Rightarrow> token list" where
  "event_tokens ev =
    map (\<lambda>req. (text_token ''event'' [] False)\<lparr>tok_Event := Some req\<rparr>)
      (case te_Emit ev of Some reqs \<Rightarrow> reqs | None \<Rightarrow> [])"

definition execute_call :: "'m Agent \<Rightarrow> ToolCall \<Rightarrow> Tool \<Rightarrow> (string \<times> json) list \<Rightarrow> 'm agent_state \<Rightarrow> string \<times> 'm agent_state" where
  "execute_call a tc tool args st =
    (case fire_before_tool (ag_middlewares a) (as_mw st, tool_event_of tc tool args) of (mw, ev) \<Rightarrow>
       let st = st\<lparr>as_mw := mw, as_tokens := as_tokens st @ event_tokens ev\<rparr> in
       (case te_Abort ev of
          Some msgs \<Rightarrow> (abortResult msgs (call_ID tc), st)
        | None \<Rightarrow>
            let result = (case tool_Execute tool (length (as_executed st)) (te_Args ev) of
                            Inr r \<Rightarrow> r | Inl e \<Rightarrow> ''error: '' @ e)
            in (result, st\<lparr>as_executed := as_executed st @ [(call_Name tc, te_Args ev)],
                           as_mw := fire_plain hk_after_tool (ag_middlewares a) (as_mw st)\<rparr>)))"

definition call_outcome :: "'m Agent \<Rightarrow> ToolCall \<Rightarrow> 'm agent_state \<Rightarrow> string \<times> 'm agent_state" where
  "call_outcome a tc st =
    (if call_Type tc \<noteq> ''function'' then (''unsupported tool call type: '' @ call_Type tc, st)
     else (case toolMap (ag_tools a) (call_Name tc) of
             None \<Rightarrow> (''unknown tool: '' @ call_Name tc, st)
           | Some tool \<Rightarrow>
               (case tool_args (call_Arguments tc) of
                  None \<Rightarrow> (''invalid args: '' @ ag_jsonError a (call_Arguments tc), st)
                | Some args \<Rightarrow> execute_call a tc tool args st)))"

definition call_token :: "ToolCall \<Rightarrow> token" where
  "call_token tc =
    (text_token ''tool_call'' (call_Name tc @ ''('' @ call_Arguments tc @ '')'') False)\<lparr>tok_ToolCall := Some tc\<rparr>"

definition result_token :: "ToolCall \<Rightarrow> string \<Rightarrow> token" where
  "result_token tc result = (text_token ''tool_result'' result False)\<lparr>tok_ToolCallID := call_ID tc\<rparr>"

definition run_call :: "'m Agent \<Rightarrow> 'm agent_state \<Rightarrow> ToolCall \<Rightarrow> 'm agent_state" where
  "run_call a st tc =
    (case call_outcome a tc (st\<lparr>as_tokens := as_tokens st @ [call_token tc]\<rparr>) of (result, st) \<Rightarrow>
       st\<lparr>as_tokens := as_tokens st @ [result_token tc result],
          as_messages := as_messages st @ [tool_message result (call_ID tc)]\<rparr>)"

datatype loop_end = Finished | Failed string | Exhausted

fun loop_error :: "loop_end \<Rightarrow> string option" where
  "loop_error (Failed e) = Some e"
| "loop_error _ = None"

definition after_model :: "'m Agent \<Rightarrow> Message list \<Rightarrow> (string + ChatResponse option) \<Rightarrow> 'm \<Rightarrow> 'm" where
  "after_model a msgs res m =
    foldl (\<lambda>m h. case hk_after_model h of
                   Some f \<Rightarrow> f (isl res) msgs (case res of Inr (Some r) \<Rightarrow> cr_Usage r | _ \<Rightarrow> None) m
                 | None \<Rightarrow> m) m (ag_middlewares a)"

text \<open>What a reply leads to: an error, the end, or the calls to run.\<close>

definition agent_reply :: "'m Agent \<Rightarrow> bool \<Rightarrow> (string + ChatResponse option) \<Rightarrow> 'm agent_state \<Rightarrow> 'm agent_state \<times> loop_end option" where
  "agent_reply a streamed res st =
    (case res of
       Inl e \<Rightarrow> (st, Some (Failed e))
     | Inr None \<Rightarrow> (st, Some (Failed ''provider returned nil response''))
     | Inr (Some resp) \<Rightarrow>
         (case cr_Choices resp of
            [] \<Rightarrow> (st, Some (Failed ''model returned empty response (backend unhealthy or malformed history)''))
          | msg # _ \<Rightarrow>
              let st' = st\<lparr>as_messages := as_messages st @ [msg],
                           as_tokens := as_tokens st @ (if streamed then [] else emitMessageTokens msg)\<rparr>
              in if m_ToolCalls msg = [] then
                   (if m_Content msg = [] then
                      (st, Some (Failed ''model returned empty content without tool calls''))
                    else (st', Some Finished))
                 else (foldl (run_call a) st' (m_ToolCalls msg), None)))"

text \<open>
  One turn of the loop; a turn that ends the loop says how. The middlewares may replace the history
  before the request is made.
\<close>

definition agent_turn :: "'m Agent \<Rightarrow> string \<Rightarrow> nat \<Rightarrow> 'm agent_state \<Rightarrow> ('m agent_state \<times> loop_end option) option" where
  "agent_turn a input iter st =
    (case fire_before_model input (ag_middlewares a) (as_mw st, as_messages st) of
       None \<Rightarrow> None
     | Some (mw, msgs) \<Rightarrow>
         (case chat a iter msgs of (res, streamed, deltas) \<Rightarrow>
            Some (agent_reply a streamed res
              (st\<lparr>as_mw := after_model a msgs res mw, as_messages := msgs, as_tokens := as_tokens st @ deltas\<rparr>))))"

fun agent_loop :: "'m Agent \<Rightarrow> string \<Rightarrow> nat \<Rightarrow> nat \<Rightarrow> 'm agent_state \<Rightarrow> ('m agent_state \<times> loop_end) option" where
  "agent_loop a input iter 0 st = Some (st, Exhausted)"
| "agent_loop a input iter (Suc left) st =
     (case agent_turn a input iter st of
        None \<Rightarrow> None
      | Some (st, Some e) \<Rightarrow> Some (st, e)
      | Some (st, None) \<Rightarrow> agent_loop a input (Suc iter) left st)"

definition warn_sign :: string where
  "warn_sign = (utf8 [0x26A0, 0x20, 0x5B, 0x68, 0x61, 0x72, 0x6E, 0x65, 0x73, 0x73, 0x5D, 0x20])"

definition emitAgentNote :: "string \<Rightarrow> bool \<Rightarrow> 'm agent_state \<Rightarrow> 'm agent_state" where
  "emitAgentNote content fin st =
    st\<lparr>as_tokens := as_tokens st @ [text_token ''text'' ([CHR 0x0A] @ content) fin],
       as_messages := as_messages st @ [plain_message ''assistant'' content]\<rparr>"

definition agent_finish :: "'m Agent \<Rightarrow> 'm agent_state \<times> loop_end \<Rightarrow> 'm agent_state" where
  "agent_finish a r =
    (let fin = (\<lambda>st. st\<lparr>as_tokens := as_tokens st @ [text_token ''text'' [] True]\<rparr>);
         st = (case r of
                 (st, Failed e) \<Rightarrow> emitAgentNote (warn_sign @ (utf8 [0x2718, 0x20, 0x61, 0x67, 0x65, 0x6E, 0x74, 0x20, 0x65, 0x72, 0x72, 0x6F, 0x72, 0x3A, 0x20]) @ e) True st
               | (st, Exhausted) \<Rightarrow>
                   fin (emitAgentNote (warn_sign @ (utf8 [0x5DF2, 0x8FBE, 0x6700, 0x5927, 0x8FED, 0x4EE3, 0x6B21, 0x6570, 0x20, 0x28]) @ show_nat (ag_maxIterations a) @
                     (utf8 [0x29, 0xFF0C, 0x672A, 0x80FD, 0x5F97, 0x5230, 0x6700, 0x7EC8, 0x7B54, 0x590D, 0x3002, 0x53EF, 0x20, 0x2F, 0x63, 0x6F, 0x6D, 0x70, 0x61, 0x63, 0x74, 0x20, 0x540E, 0x7EE7, 0x7EED, 0xFF0C, 0x6216, 0x628A, 0x4EFB, 0x52A1, 0x62C6, 0x5C0F, 0x3002])) False st)
               | (st, Finished) \<Rightarrow> fin st)
     in st\<lparr>as_mw := fire_after_agent (loop_error (snd r)) (ag_middlewares a) (as_mw st),
           as_messages := stampMessageIDs (ag_newID a) (ag_now a) (as_messages st)\<rparr>)"

definition Agent_Run :: "'m Agent \<Rightarrow> 'm \<Rightarrow> Message list \<Rightarrow> string \<Rightarrow> 'm agent_state option" where
  "Agent_Run a m history input =
    map_option (agent_finish a)
      (agent_loop a input 0 (ag_maxIterations a)
        \<lparr>as_mw = fire_plain hk_before_agent (ag_middlewares a) m,
         as_messages = buildMessages a history input, as_tokens = [], as_executed = []\<rparr>)"

section \<open>The chain of a session\<close>

text \<open>
  The state of the middlewares of a session. The clock of the gate advances with each tool event;
  the usage tracker is shared by accounting and compression.
\<close>

record chain =
  ch_hitl :: hitl_mw
  ch_clock :: nat
  ch_usage :: UsageMiddleware
  ch_iterations :: nat
  ch_memory :: MemoryMiddleware
  ch_compression :: CompressionMiddleware
  ch_error :: "string option"

definition hitl_hooks :: "(nat \<Rightarrow> hitl_env) \<Rightarrow> chain hooks" where
  "hitl_hooks env = no_hooks\<lparr>hk_before_tool := Some (\<lambda>(c, ev).
     (case OnBeforeTool (env (ch_clock c)) (ch_hitl c, ev) of (mw, ev) \<Rightarrow>
        (c\<lparr>ch_hitl := mw, ch_clock := Suc (ch_clock c)\<rparr>, ev)))\<rparr>"

definition usage_hooks :: "chain hooks" where
  "usage_hooks = no_hooks\<lparr>hk_after_model := Some (\<lambda>err history usage c.
     c\<lparr>ch_usage := fst (usage_after_model err history usage (ch_usage c))\<rparr>)\<rparr>"

definition iteration_hooks :: "chain hooks" where
  "iteration_hooks = no_hooks\<lparr>hk_before_model := Some (\<lambda>input (c, h).
     Some (c\<lparr>ch_iterations := Suc (ch_iterations c)\<rparr>, h))\<rparr>"

definition memory_hooks :: "chain hooks" where
  "memory_hooks = no_hooks\<lparr>hk_before_model := Some (\<lambda>input (c, h).
     (case memory_before_model (ch_memory c) input h of (m, h) \<Rightarrow> Some (c\<lparr>ch_memory := m\<rparr>, h)))\<rparr>"

definition note_compaction :: "CompressReport option \<Rightarrow> UsageMiddleware \<Rightarrow> UsageMiddleware" where
  "note_compaction rep u =
    (case rep of
       None \<Rightarrow> u
     | Some r \<Rightarrow> u\<lparr>um_tracker := RecordCompaction \<lparr>cp_BeforeMsgs = rep_BeforeMsgs r,
                     cp_AfterMsgs = rep_AfterMsgs r, cp_Tokens = rep_Tokens r\<rparr> (um_tracker u)\<rparr>)"

definition compression_hooks :: "chain hooks" where
  "compression_hooks = no_hooks\<lparr>hk_before_model := Some (\<lambda>input (c, h).
     (case compression_before_model (ch_compression c) h of
        None \<Rightarrow> None
      | Some (m, h, rep) \<Rightarrow> Some (c\<lparr>ch_compression := m, ch_usage := note_compaction rep (ch_usage c)\<rparr>, h)))\<rparr>"

definition errcapture_hooks :: "chain hooks" where
  "errcapture_hooks = no_hooks\<lparr>hk_after_agent := Some (\<lambda>err c. case err of None \<Rightarrow> c | Some e \<Rightarrow> c\<lparr>ch_error := Some e\<rparr>)\<rparr>"

definition buildMiddlewareChain :: "(nat \<Rightarrow> hitl_env) \<Rightarrow> bool \<Rightarrow> chain hooks list" where
  "buildMiddlewareChain env has_memory =
    [hitl_hooks env, usage_hooks, iteration_hooks] @ (if has_memory then [memory_hooks] else []) @
    [compression_hooks, errcapture_hooks]"

section \<open>Invariants of a run\<close>

text \<open>
  The loop as the composition of its turns: what every turn keeps, the loop keeps.
\<close>

lemma loop_keeps:
  assumes "\<And>iter st st' e. I st \<Longrightarrow> agent_turn a input iter st = Some (st', e) \<Longrightarrow> I st'"
    and "agent_loop a input iter n st = Some (st', e)" and "I st"
  shows "I st'"
  using assms(2,3)
proof (induction n arbitrary: iter st)
  case (Suc n)
  obtain st1 e1 where t: "agent_turn a input iter st = Some (st1, e1)"
    using Suc.prems(1) by (auto split: option.splits)
  have "I st1" using assms(1) [OF Suc.prems(2) t] .
  with Suc t show ?case by (cases e1) auto
qed simp

lemma calls_keep:
  assumes "\<And>st tc. I st \<Longrightarrow> I (run_call a st tc)" and "I st"
  shows "I (foldl (run_call a) st tcs)"
  using assms(2) by (induction tcs arbitrary: st) (simp_all add: assms(1))

lemma agent_turn_obtains:
  assumes "agent_turn a input iter st = Some (st', e)"
  obtains mw msgs res streamed deltas where
    "fire_before_model input (ag_middlewares a) (as_mw st, as_messages st) = Some (mw, msgs)"
    "chat a iter msgs = (res, streamed, deltas)"
    "agent_reply a streamed res
       (st\<lparr>as_mw := after_model a msgs res mw, as_messages := msgs, as_tokens := as_tokens st @ deltas\<rparr>) = (st', e)"
  using assms by (auto simp: agent_turn_def split: option.splits prod.splits)

lemma agent_reply_cases:
  assumes "agent_reply a streamed res st = (st', e)"
  obtains (failed) err where "st' = st" "e = Some (Failed err)"
  | (finished) resp msg rest where "res = Inr (Some resp)" "cr_Choices resp = msg # rest" "m_ToolCalls msg = []"
      "e = Some Finished"
      "st' = st\<lparr>as_messages := as_messages st @ [msg],
                as_tokens := as_tokens st @ (if streamed then [] else emitMessageTokens msg)\<rparr>"
  | (calls) resp msg rest where "res = Inr (Some resp)" "cr_Choices resp = msg # rest" "e = None"
      "st' = foldl (run_call a) (st\<lparr>as_messages := as_messages st @ [msg],
                as_tokens := as_tokens st @ (if streamed then [] else emitMessageTokens msg)\<rparr>) (m_ToolCalls msg)"
  using assms
  by (auto simp: agent_reply_def Let_def split: sum.splits option.splits list.splits if_splits)

section \<open>One end\<close>

abbreviation open_tokens :: "token list \<Rightarrow> bool" where
  "open_tokens ts \<equiv> list_all (\<lambda>t. \<not> tok_Done t) ts"

lemma text_token_Done [simp]: "tok_Done (text_token ty c fin) = fin"
  by (simp add: text_token_def)

lemma emitted_open [simp]:
  "open_tokens (emitMessageTokens m)" "open_tokens (event_tokens ev)"
  "\<not> tok_Done (call_token tc)" "\<not> tok_Done (result_token tc r)"
  by (simp_all add: emitMessageTokens_def event_tokens_def call_token_def result_token_def list.pred_map o_def list.pred_True)

lemma call_outcome_open:
  "open_tokens (as_tokens st) \<Longrightarrow> open_tokens (as_tokens (snd (call_outcome a tc st)))"
  by (simp add: call_outcome_def execute_call_def Let_def split: prod.split option.split)

lemma run_call_open: "open_tokens (as_tokens st) \<Longrightarrow> open_tokens (as_tokens (run_call a st tc))"
  using call_outcome_open [of "st\<lparr>as_tokens := as_tokens st @ [call_token tc]\<rparr>" a tc]
  by (auto simp: run_call_def split: prod.split)

lemma chat_open: "chat a iter msgs = (res, streamed, deltas) \<Longrightarrow> open_tokens deltas"
  by (auto simp: chat_def Let_def list.pred_map o_def list_all_iff split: option.splits list.splits)

lemma agent_turn_open:
  assumes "agent_turn a input iter st = Some (st', e)" and "open_tokens (as_tokens st)"
  shows "open_tokens (as_tokens st')"
  using assms(1)
proof (rule agent_turn_obtains)
  fix mw msgs res streamed deltas
  assume "chat a iter msgs = (res, streamed, deltas)"
    and r: "agent_reply a streamed res
       (st\<lparr>as_mw := after_model a msgs res mw, as_messages := msgs, as_tokens := as_tokens st @ deltas\<rparr>) = (st', e)"
  then have "open_tokens (as_tokens st @ deltas)" using assms(2) chat_open by simp
  with r show ?thesis
    by (cases rule: agent_reply_cases) (auto intro!: calls_keep [where I = "\<lambda>st. open_tokens (as_tokens st)"] run_call_open)
qed

text \<open>
  C22 Every run offers exactly one token marked as done, and it is the last one: neither the markers of
  the provider's stream nor a tool can end the run for its consumer, and an error or an exhausted
  budget ends it like an answer does.
\<close>

theorem run_ends_once:
  assumes "Agent_Run a m history input = Some st"
  shows "\<exists>ts t. as_tokens st = ts @ [t] \<and> tok_Done t \<and> open_tokens ts"
proof -
  obtain st1 e where l: "agent_loop a input 0 (ag_maxIterations a)
        \<lparr>as_mw = fire_plain hk_before_agent (ag_middlewares a) m,
         as_messages = buildMessages a history input, as_tokens = [], as_executed = []\<rparr> = Some (st1, e)"
    and st: "st = agent_finish a (st1, e)"
    using assms by (auto simp: Agent_Run_def)
  have "open_tokens (as_tokens st1)"
    using loop_keeps [where I = "\<lambda>st. open_tokens (as_tokens st)", OF agent_turn_open l] by simp
  then show ?thesis
    unfolding st by (cases e) (simp_all add: agent_finish_def emitAgentNote_def Let_def)
qed

section \<open>Histories stay paired\<close>

text \<open>
  A history fit for the backend: paired, and no system message carries tool calls. The locale says
  what the middlewares must promise for a run to keep its history fit; the chain of a session does.
\<close>

definition fit :: "Message list \<Rightarrow> bool" where
  "fit ms \<longleftrightarrow> paired ms \<and> list_all (\<lambda>m. m_Role m = ''system'' \<longrightarrow> m_ToolCalls m = []) ms"

definition assistant_replies :: "'m Agent \<Rightarrow> bool" where
  "assistant_replies a \<longleftrightarrow>
     (\<forall>iter msgs resp msg streamed deltas. chat a iter msgs = (Inr (Some resp), streamed, deltas) \<longrightarrow>
        msg \<in> set (cr_Choices resp) \<longrightarrow> m_Role msg = ''assistant'')"

lemma call_outcome_messages: "as_messages (snd (call_outcome a tc st)) = as_messages st"
  by (simp add: call_outcome_def execute_call_def Let_def split: prod.split option.split)

lemma run_call_messages:
  "\<exists>r. as_messages (run_call a st tc) = as_messages st @ [tool_message r (call_ID tc)]"
  using call_outcome_messages [of a tc "st\<lparr>as_tokens := as_tokens st @ [call_token tc]\<rparr>"]
  by (auto simp: run_call_def split: prod.split)

lemma run_calls_messages:
  "\<exists>rs. length rs = length tcs \<and>
     as_messages (foldl (run_call a) st tcs) =
       as_messages st @ map (\<lambda>(c, r). tool_message r (call_ID c)) (zip tcs rs)"
proof (induction tcs arbitrary: st)
  case (Cons tc tcs)
  obtain r where r: "as_messages (run_call a st tc) = as_messages st @ [tool_message r (call_ID tc)]"
    using run_call_messages by blast
  obtain rs where "length rs = length tcs"
    "as_messages (foldl (run_call a) (run_call a st tc) tcs) =
       as_messages (run_call a st tc) @ map (\<lambda>(c, r). tool_message r (call_ID c)) (zip tcs rs)"
    using Cons by blast
  with r show ?case by (intro exI [of _ "r # rs"]) simp
qed simp

lemma fit_append: "fit xs \<Longrightarrow> fit ys \<Longrightarrow> fit (xs @ ys)"
  by (simp add: fit_def paired_append)

lemma fit_plain: "role \<noteq> ''tool'' \<Longrightarrow> fit [plain_message role c]"
  by (simp add: fit_def plain_message_def)

lemma fit_answered:
  assumes "m_Role msg = ''assistant''" and "length rs = length (m_ToolCalls msg)"
  shows "fit (msg # map (\<lambda>(c, r). tool_message r (call_ID c)) (zip (m_ToolCalls msg) rs))"
  using assms paired_answers [of "m_ToolCalls msg" rs]
  by (auto simp: fit_def list_all_iff tool_message_def plain_message_def)

lemma stamp_message_simps [simp]:
  "m_Role (stamp_message ids now i m) = m_Role m" "m_ToolCalls (stamp_message ids now i m) = m_ToolCalls m"
  by (simp_all add: stamp_message_def Let_def)

lemma fit_stamp: "fit ms \<Longrightarrow> fit (stampMessageIDs ids now ms)"
  by (auto simp: fit_def list_all_iff) (auto simp: stampMessageIDs_def in_set_enumerate_eq)

locale fit_middlewares =
  fixes hs :: "'m hooks list"
  assumes keeps_fit: "h \<in> set hs \<Longrightarrow> hk_before_model h = Some f \<Longrightarrow> fit ms \<Longrightarrow>
      f input (m, ms) = Some (m', ms') \<Longrightarrow> fit ms'"
begin

lemma fire_fit:
  "set gs \<subseteq> set hs \<Longrightarrow> fit (snd s) \<Longrightarrow> fire_before_model input gs s = Some s' \<Longrightarrow> fit (snd s')"
proof (induction gs arbitrary: s)
  case (Cons h gs)
  show ?case
  proof (cases "hk_before_model h")
    case (Some f)
    then obtain s1 where s1: "f input s = Some s1" "fire_before_model input gs s1 = Some s'"
      using Cons.prems(3) by (auto split: option.splits)
    have "fit (snd s1)"
      using keeps_fit [of h f "snd s" input "fst s" "fst s1" "snd s1"] Some s1 Cons.prems by simp
    with Cons s1 show ?thesis by simp
  qed (use Cons in simp)
qed simp

lemma turn_fit:
  assumes "ag_middlewares a = hs" and "assistant_replies a"
    and "agent_turn a input iter st = Some (st', e)" and "fit (as_messages st)"
  shows "fit (as_messages st')"
  using assms(3)
proof (rule agent_turn_obtains)
  fix mw msgs res streamed deltas
  assume f: "fire_before_model input (ag_middlewares a) (as_mw st, as_messages st) = Some (mw, msgs)"
    and c: "chat a iter msgs = (res, streamed, deltas)"
    and r: "agent_reply a streamed res
       (st\<lparr>as_mw := after_model a msgs res mw, as_messages := msgs, as_tokens := as_tokens st @ deltas\<rparr>) = (st', e)"
  have m: "fit msgs" using fire_fit [OF _ _ f] assms(1,4) by simp
  have asst: "m_Role msg = ''assistant''" if "res = Inr (Some resp)" "cr_Choices resp = msg # rest" for resp msg rest
    using assms(2) c that unfolding assistant_replies_def by (metis list.set_intros(1))
  from r show ?thesis
  proof (cases rule: agent_reply_cases)
    case (finished resp msg rest)
    with fit_answered [of msg "[]"] asst m show ?thesis by (simp add: fit_append)
  next
    case (calls resp msg rest)
    let ?st = "st\<lparr>as_mw := after_model a msgs res mw, as_messages := msgs @ [msg],
      as_tokens := (as_tokens st @ deltas) @ (if streamed then [] else emitMessageTokens msg)\<rparr>"
    obtain rs where rs: "length rs = length (m_ToolCalls msg)"
      "as_messages (foldl (run_call a) ?st (m_ToolCalls msg)) =
         as_messages ?st @ map (\<lambda>(c, r). tool_message r (call_ID c)) (zip (m_ToolCalls msg) rs)"
      using run_calls_messages by blast
    with fit_append [OF m fit_answered [OF asst rs(1)]] calls show ?thesis by simp
  qed (use m in simp)
qed

lemma run_fit:
  assumes "ag_middlewares a = hs" and "assistant_replies a" and "fit history"
    and "Agent_Run a m history input = Some st"
  shows "fit (as_messages st)"
proof -
  obtain st1 e where l: "agent_loop a input 0 (ag_maxIterations a)
        \<lparr>as_mw = fire_plain hk_before_agent (ag_middlewares a) m,
         as_messages = buildMessages a history input, as_tokens = [], as_executed = []\<rparr> = Some (st1, e)"
    and st: "st = agent_finish a (st1, e)"
    using assms(4) by (auto simp: Agent_Run_def)
  have "fit (buildMessages a history input)"
    using assms(3) fit_append fit_plain by (simp add: buildMessages_def flip: append_Cons append.simps(2))
  then have "fit (as_messages st1)"
    using loop_keeps [where I = "\<lambda>st. fit (as_messages st)", OF turn_fit [OF assms(1,2)] l] by simp
  then show ?thesis
    unfolding st by (cases e) (simp_all add: agent_finish_def emitAgentNote_def Let_def fit_stamp fit_append fit_plain)
qed

end

lemma memory_fit:
  assumes "fit history" and "memory_before_model m input history = (m', history')"
  shows "fit history'"
proof -
  have "fit (insertSystemBlock history block)" for block
    using assms(1) insert_paired [of history block] set_take_subset [of "last_user history" history]
      set_drop_subset [of "last_user history" history]
    by (auto simp: fit_def insertSystemBlock_def list_all_iff plain_message_def)
  then show ?thesis
    using assms by (auto simp: memory_before_model_def Let_def split: if_splits option.splits list.splits)
qed

lemma compression_fit:
  assumes "fit history" and "compression_before_model m history = Some (m', history', rep)"
  shows "fit history'"
proof (cases "history' = history")
  case False
  then obtain out report where c: "Compress (cm_compressor m) history = Inr (out, report)" "history' = out"
    using assms(2)
    by (auto simp: compression_before_model_def split: if_splits sum.splits compress_error.splits)
  have f: "paired history" "list_all (\<lambda>m. m_Role m = ''system'' \<longrightarrow> m_ToolCalls m = []) history"
    using assms(1) by (simp_all add: fit_def)
  from compress_pairs [OF f(1) c(1) f(2)] False c(2)
  obtain pre old recent summary where "paired out" "history = pre @ old @ recent"
    "out = pre @ plain_message ''system'' summary # recent" by auto
  with f(2) c(2) show ?thesis by (simp add: fit_def plain_message_def)
qed (use assms in simp)

interpretation session_chain: fit_middlewares "buildMiddlewareChain env has_memory"
proof
  fix h f ms input m m' ms'
  assume a: "h \<in> set (buildMiddlewareChain env has_memory)" "hk_before_model h = Some f" "fit ms"
    "f input (m, ms) = Some (m', ms')"
  from a(1) have "h \<in> {hitl_hooks env, usage_hooks, iteration_hooks, memory_hooks, compression_hooks, errcapture_hooks}"
    by (auto simp: buildMiddlewareChain_def split: if_splits)
  then consider "h \<in> {hitl_hooks env, usage_hooks, errcapture_hooks}" | "h = iteration_hooks" | "h = memory_hooks"
    | "h = compression_hooks" by auto
  then show "fit ms'"
  proof cases
    case 3
    then have "(case memory_before_model (ch_memory m) input ms of (mm, h) \<Rightarrow> Some (m\<lparr>ch_memory := mm\<rparr>, h)) = Some (m', ms')"
      using a(2,4) by (simp add: memory_hooks_def no_hooks_def) force
    with memory_fit [OF a(3), of "ch_memory m" input] show ?thesis by (simp split: prod.splits)
  next
    case 4
    then have "(case compression_before_model (ch_compression m) ms of None \<Rightarrow> None
       | Some (cm, h, rep) \<Rightarrow> Some (m\<lparr>ch_compression := cm, ch_usage := note_compaction rep (ch_usage m)\<rparr>, h)) = Some (m', ms')"
      using a(2,4) by (simp add: compression_hooks_def errcapture_hooks_def no_hooks_def) force
    with compression_fit [OF a(3), of "ch_compression m"] show ?thesis by (simp split: option.splits prod.splits)
  qed (use a in \<open>auto simp: hitl_hooks_def usage_hooks_def iteration_hooks_def errcapture_hooks_def no_hooks_def\<close>)
qed

text \<open>
  C21 With the middlewares of a session, whatever the tools, the user, the memory and the
  summarising model answer, a run turns a history fit for the backend into a fit one: every tool
  call of the model is answered right behind it, one tool message for each call and in order, with
  injected memories and compressed parts outside the pairs, also when the run fails or is
  exhausted. The model's messages must have the role assistant.
\<close>

theorem run_history_paired:
  assumes "ag_middlewares a = buildMiddlewareChain env has_memory" and "assistant_replies a"
    and "fit history" and "Agent_Run a chain history input = Some st"
  shows "fit (as_messages st)"
  using assms by (rule session_chain.run_fit)

section \<open>The gate within a run\<close>

text \<open>Approvals change nothing of the gate's configuration but the allow rules.\<close>

definition same_policy :: "Config \<Rightarrow> Config \<Rightarrow> bool" where
  "same_policy c c' \<longleftrightarrow> (\<exists>r tr. c' = c\<lparr>AllowRules := r, ToolAllowRules := tr\<rparr>)"

lemma same_policy_refl [simp]: "same_policy c c"
  unfolding same_policy_def by (rule exI [of _ "AllowRules c"], rule exI [of _ "ToolAllowRules c"]) simp

lemma same_policy_upd [simp]:
  "same_policy c (c\<lparr>AllowRules := r\<rparr>)" "same_policy c (c\<lparr>ToolAllowRules := tr\<rparr>)"
proof -
  show "same_policy c (c\<lparr>AllowRules := r\<rparr>)" 
    unfolding same_policy_def by (rule exI [of _ r], rule exI [of _ "ToolAllowRules c"]) simp
  show "same_policy c (c\<lparr>ToolAllowRules := tr\<rparr>)"
    unfolding same_policy_def by (rule exI [of _ "AllowRules c"], rule exI [of _ tr]) simp
qed

lemma same_policy_trans: "same_policy a b \<Longrightarrow> same_policy b c \<Longrightarrow> same_policy a c"
  unfolding same_policy_def by (elim exE) (rule exI, rule exI, simp)

lemma denied_by_tool_rules [simp]: "denied_by cmd (cfg\<lparr>ToolAllowRules := r\<rparr>) = denied_by cmd cfg"
  by (simp add: denied_by_def)

lemma Assess_tool_rules [simp]:
  "Assess cmd (Some (cfg\<lparr>ToolAllowRules := r\<rparr>)) = Assess cmd (Some cfg)"
proof -
  have "assessRiskyPattern cmd (cfg\<lparr>ToolAllowRules := r\<rparr>) = assessRiskyPattern cmd cfg"
    by (simp add: assessRiskyPattern_def)
  then show ?thesis
    by (simp add: Assess_def split: option.split prod.split safeVerdict.split)
qed

lemma Evaluate_tool_deny:
  "out_Decision (Evaluate req (Some (cfg\<lparr>ToolAllowRules := r\<rparr>))) = DecisionDeny \<longleftrightarrow>
   out_Decision (Evaluate req (Some cfg)) = DecisionDeny"
proof (cases "active cfg")
  case True
  then have "active (cfg\<lparr>ToolAllowRules := r\<rparr>)" by simp
  with True show ?thesis by (auto simp: Evaluate_decision Let_def)
qed (simp add: Evaluate_def)

lemma Evaluate_same_policy:
  "same_policy c c' \<Longrightarrow>
   out_Decision (Evaluate req (Some c')) = DecisionDeny \<longleftrightarrow> out_Decision (Evaluate req (Some c)) = DecisionDeny"
  by (auto simp: same_policy_def Evaluate_deny_rules Evaluate_tool_deny)

lemma approve_always_policy: "same_policy (mw_cfg mw) (mw_cfg (fst (approve_always env req aud d (mw, ev))))"
  by (simp add: approve_always_def Let_def split: option.split sum.split)

lemma handle_decision_policy: "same_policy (mw_cfg mw) (mw_cfg (fst (handle_decision env req aud d (mw, ev))))"
  by (simp add: handle_decision_def decide_edit_def Let_def approve_always_policy)

lemma confirm_policy: "same_policy (mw_cfg mw) (mw_cfg (fst (confirm env req aud (mw, ev))))"
  by (simp add: confirm_def Let_def handle_decision_policy split: option.split)

lemma next_req_cfg: "next_req mw = (rid, mw') \<Longrightarrow> mw_cfg mw' = mw_cfg mw"
  by (auto simp: next_req_def)

lemma confirm_next: "next_req mw = (rid, mw') \<Longrightarrow> same_policy (mw_cfg mw) (mw_cfg (fst (confirm env req aud (mw', ev))))"
  using confirm_policy [of mw' env req aud ev] next_req_cfg by simp

lemma OnBeforeTool_policy: "same_policy (mw_cfg mw) (mw_cfg (fst (OnBeforeTool env (mw, ev))))"
proof -
  have "same_policy (mw_cfg mw) (mw_cfg (fst (checkBash env (mw, ev))))"
    by (simp add: checkBash_def Let_def confirm_next split: option.split json.split Decision.split prod.split)
  moreover have "same_policy (mw_cfg mw) (mw_cfg (fst (checkPolicyTool env policy (mw, ev))))" for policy
    by (auto simp: checkPolicyTool_def Let_def next_req_cfg confirm_next split: prod.split)
  moreover have "same_policy (mw_cfg mw) (mw_cfg (fst (checkMCP env (mw, ev))))"
    by (auto simp: checkMCP_def Let_def confirm_next split: prod.split)
  moreover have "same_policy (mw_cfg mw) (mw_cfg (fst (checkSys env (mw, ev))))"
    by (auto simp: checkSys_def Let_def next_req_cfg confirm_next split: prod.split)
  ultimately show ?thesis
    by (simp add: OnBeforeTool_def split: option.split)
qed

text \<open>
  The configuration of the gate is still the one of the start up to its allow rules, and no bash
  command that ran is denied by it.
\<close>

definition args_command :: "(string \<times> json) list \<Rightarrow> string option" where
  "args_command args = (case map_of args ''command'' of Some (JStr c) \<Rightarrow> Some c | _ \<Rightarrow> None)"

definition guarded :: "Config \<Rightarrow> chain agent_state \<Rightarrow> bool" where
  "guarded cfg st \<longleftrightarrow> same_policy cfg (mw_cfg (ch_hitl (as_mw st))) \<and>
     (\<forall>args c. (''bash'', args) \<in> set (as_executed st) \<longrightarrow> args_command args = Some c \<longrightarrow> c \<noteq> [] \<longrightarrow>
        out_Decision (Evaluate (mk_request c) (Some cfg)) \<noteq> DecisionDeny)"

lemma chain_before_tool:
  "fire_before_tool (buildMiddlewareChain env has_memory) (c, ev) =
    (case OnBeforeTool (env (ch_clock c)) (ch_hitl c, ev) of (mw, ev) \<Rightarrow>
       (c\<lparr>ch_hitl := mw, ch_clock := Suc (ch_clock c)\<rparr>, ev))"
  by (simp add: fire_before_tool_def buildMiddlewareChain_def hitl_hooks_def usage_hooks_def iteration_hooks_def
      memory_hooks_def compression_hooks_def errcapture_hooks_def no_hooks_def split: prod.split)

lemma chain_plain [simp]:
  "fire_plain hk_after_tool (buildMiddlewareChain env has_memory) c = c"
  "fire_plain hk_before_agent (buildMiddlewareChain env has_memory) c = c"
  by (simp_all add: fire_plain_def buildMiddlewareChain_def hitl_hooks_def usage_hooks_def iteration_hooks_def
      memory_hooks_def compression_hooks_def errcapture_hooks_def no_hooks_def)

lemma chain_after_model:
  "ag_middlewares a = buildMiddlewareChain env has_memory \<Longrightarrow> ch_hitl (after_model a msgs res c) = ch_hitl c"
  by (simp add: after_model_def buildMiddlewareChain_def hitl_hooks_def usage_hooks_def iteration_hooks_def
      memory_hooks_def compression_hooks_def errcapture_hooks_def no_hooks_def)

lemma fire_before_model_hitl:
  "\<forall>h \<in> set hs. \<forall>f c ms c' ms'. hk_before_model h = Some f \<longrightarrow> f input (c, ms) = Some (c', ms') \<longrightarrow>
     ch_hitl c' = ch_hitl c \<Longrightarrow>
   fire_before_model input hs (c, ms) = Some (c', ms') \<Longrightarrow> ch_hitl c' = ch_hitl c"
proof (induction hs arbitrary: c ms)
  case (Cons h hs)
  then show ?case
    by (cases "hk_before_model h") (fastforce split: option.splits)+
qed simp

lemma chain_before_model:
  assumes "fire_before_model input (buildMiddlewareChain env has_memory) (c, ms) = Some (c', ms')"
  shows "ch_hitl c' = ch_hitl c"
proof (rule fire_before_model_hitl [OF _ assms], intro ballI allI impI)
  fix h f c ms c' ms'
  assume "h \<in> set (buildMiddlewareChain env has_memory)" and f: "hk_before_model h = Some f" "f input (c, ms) = Some (c', ms')"
  then consider "h \<in> {hitl_hooks env, usage_hooks, iteration_hooks, errcapture_hooks}" | "h = memory_hooks" | "h = compression_hooks"
    by (auto simp: buildMiddlewareChain_def split: if_splits)
  then show "ch_hitl c' = ch_hitl c"
    using f by cases (auto simp: hitl_hooks_def usage_hooks_def iteration_hooks_def memory_hooks_def
      compression_hooks_def errcapture_hooks_def no_hooks_def split: prod.splits option.splits)
qed

lemma execute_call_guarded:
  assumes "ag_middlewares a = buildMiddlewareChain env has_memory" and "guarded cfg st"
  shows "guarded cfg (snd (execute_call a tc tool args st))"
proof -
  let ?ev = "tool_event_of tc tool args" and ?c = "as_mw st"
  obtain mw ev where o: "OnBeforeTool (env (ch_clock ?c)) (ch_hitl ?c, ?ev) = (mw, ev)" by fastforce
  have p: "same_policy cfg (mw_cfg mw)"
    using OnBeforeTool_policy [of "ch_hitl ?c" "env (ch_clock ?c)" ?ev] assms(2) o
    by (auto simp: guarded_def intro: same_policy_trans)
  have "out_Decision (Evaluate (mk_request c) (Some cfg)) \<noteq> DecisionDeny"
    if "call_Name tc = ''bash''" "te_Abort ev = None" "args_command (te_Args ev) = Some c" "c \<noteq> []" for c
    using denied_never_runs [OF _ _ o that(2) _ that(4)] that Evaluate_same_policy [OF p]
    by (simp add: tool_event_of_def args_command_def bash_command_def)
  with p o assms show ?thesis
    by (auto simp: execute_call_def chain_before_tool guarded_def Let_def split: option.splits)
qed

lemma run_call_guarded:
  assumes "ag_middlewares a = buildMiddlewareChain env has_memory" and "guarded cfg st"
  shows "guarded cfg (run_call a st tc)"
proof -
  let ?st = "st\<lparr>as_tokens := as_tokens st @ [call_token tc]\<rparr>"
  have g: "guarded cfg ?st" using assms(2) by (simp add: guarded_def)
  have "guarded cfg (snd (call_outcome a tc ?st))"
    using g execute_call_guarded [OF assms(1) g] by (simp add: call_outcome_def split: option.split)
  then show ?thesis by (auto simp: run_call_def guarded_def split: prod.split)
qed

lemma turn_guarded:
  assumes "ag_middlewares a = buildMiddlewareChain env has_memory"
    and "guarded cfg st" and "agent_turn a input iter st = Some (st', e)"
  shows "guarded cfg st'"
  using assms(3)
proof (rule agent_turn_obtains)
  fix mw msgs res streamed deltas
  let ?st = "st\<lparr>as_mw := after_model a msgs res mw, as_messages := msgs, as_tokens := as_tokens st @ deltas\<rparr>"
  assume f: "fire_before_model input (ag_middlewares a) (as_mw st, as_messages st) = Some (mw, msgs)"
    and r: "agent_reply a streamed res ?st = (st', e)"
  have g: "guarded cfg ?st"
    using assms(2) chain_before_model [OF f [unfolded assms(1)]] chain_after_model [OF assms(1)]
    by (simp add: guarded_def)
  from r show ?thesis
  proof (cases rule: agent_reply_cases)
    case calls
    have "guarded cfg (?st\<lparr>as_messages := x, as_tokens := y\<rparr>)" for x y using g by (simp add: guarded_def)
    with calls calls_keep [where I = "guarded cfg", OF run_call_guarded [OF assms(1)]] show ?thesis by simp
  qed (use g in \<open>simp_all add: guarded_def\<close>)
qed

text \<open>
  C20 In a whole run with the middlewares of a session, whatever the model asks for, however the
  user answers and edits, and whatever rules are approved on the way: no bash command that was
  executed is one that the sandbox denies under the configuration with which the run started.
\<close>

theorem run_obeys_sandbox:
  assumes "ag_middlewares a = buildMiddlewareChain env has_memory"
    and "Agent_Run a chain history input = Some st"
    and "(''bash'', args) \<in> set (as_executed st)" and "args_command args = Some c" and "c \<noteq> []"
  shows "out_Decision (Evaluate (mk_request c) (Some (mw_cfg (ch_hitl chain)))) \<noteq> DecisionDeny"
proof -
  obtain st1 e where l: "agent_loop a input 0 (ag_maxIterations a)
        \<lparr>as_mw = fire_plain hk_before_agent (ag_middlewares a) chain,
         as_messages = buildMessages a history input, as_tokens = [], as_executed = []\<rparr> = Some (st1, e)"
    and st: "st = agent_finish a (st1, e)"
    using assms(2) by (auto simp: Agent_Run_def)
  have "guarded (mw_cfg (ch_hitl chain)) st1"
    using loop_keeps [where I = "guarded (mw_cfg (ch_hitl chain))", OF turn_guarded [OF assms(1)] l] assms(1)
    by (simp add: guarded_def)
  moreover have "as_executed st = as_executed st1"
    unfolding st by (cases e) (simp_all add: agent_finish_def emitAgentNote_def Let_def)
  ultimately show ?thesis using assms(3-5) by (auto simp: guarded_def)
qed

section \<open>Samples\<close>

text \<open>An agent whose model calls \<^verbatim>\<open>make\<close> through bash, reads the result and answers.\<close>

definition make_call :: ToolCall where
  "make_call = \<lparr>call_ID = ''k1'', call_Type = ''function'', call_Name = ''bash'',
     call_Arguments = json_text (JObj [(''command'', JStr ''make'')])\<rparr>"

definition sample_reply :: "nat \<Rightarrow> Message" where
  "sample_reply iter = (if iter = 0 then (plain_message ''assistant'' [])\<lparr>m_ToolCalls := [make_call]\<rparr>
     else plain_message ''assistant'' ''built'')"

definition sample_agent :: "chain Agent" where
  "sample_agent =
    \<lparr>ag_stream = (\<lambda>_ _. None),
     ag_chat = (\<lambda>iter _. Inr (Some \<lparr>cr_Choices = [sample_reply iter], cr_Usage = Some sample_info\<rparr>)),
     ag_ctx = (\<lambda>_. None),
     ag_tools = [\<lparr>tool_Name = ''bash'', tool_Metadata = None, tool_Execute = (\<lambda>_ _. Inr ''ok'')\<rparr>],
     ag_middlewares = buildMiddlewareChain (\<lambda>_. sample_env) True,
     ag_maxIterations = 5, ag_systemPrompt = ''sp'', ag_jsonError = (\<lambda>_. []),
     ag_newID = (\<lambda>_. ''id1''), ag_now = (\<lambda>_. 9)\<rparr>"

definition sample_chain :: chain where
  "sample_chain = \<lparr>ch_hitl = sample_mw HApprove, ch_clock = 0,
     ch_usage = \<lparr>um_tracker = NewUsageTracker, um_iter = 0\<rparr>, ch_iterations = 0, ch_memory = sample_memory\<lparr>mm_on := False\<rparr>,
     ch_compression = \<lparr>cm_compressor = sample_compressor, cm_on = False, cm_threshold = 1000, cm_done = False\<rparr>, ch_error = None\<rparr>"

definition sample_run :: "chain agent_state" where
  "sample_run = the (Agent_Run sample_agent sample_chain sample_history ''go'')"

lemma sample_run_Some: "Agent_Run sample_agent sample_chain sample_history ''go'' = Some sample_run"
proof -
  have "Agent_Run sample_agent sample_chain sample_history ''go'' \<noteq> None" by code_simp
  then show ?thesis by (simp add: sample_run_def)
qed

lemma sample_middlewares: "ag_middlewares sample_agent = buildMiddlewareChain (\<lambda>_. sample_env) True"
  by (simp add: sample_agent_def)

theorem run_ends_once_witness:
  "length (as_tokens sample_run) = 5 \<and> (\<exists>ts t. as_tokens sample_run = ts @ [t] \<and> tok_Done t \<and> open_tokens ts)"
proof
  show "length (as_tokens sample_run) = 5" by code_simp
  show "\<exists>ts t. as_tokens sample_run = ts @ [t] \<and> tok_Done t \<and> open_tokens ts"
    by (rule run_ends_once [OF sample_run_Some])
qed

theorem run_history_paired_witness: "length (as_messages sample_run) = 12 \<and> fit (as_messages sample_run)"
proof
  show "length (as_messages sample_run) = 12" by code_simp
  have "assistant_replies sample_agent"
    by (auto simp: assistant_replies_def chat_def sample_agent_def sample_reply_def plain_message_def split: if_splits)
  moreover have "fit sample_history" unfolding fit_def by code_simp
  ultimately show "fit (as_messages sample_run)"
    by (rule run_history_paired [OF sample_middlewares _ _ sample_run_Some])
qed

theorem run_obeys_sandbox_witness:
  "map fst (as_executed sample_run) = [''bash''] \<and>
   out_Decision (Evaluate (mk_request ''make'') (Some (mw_cfg (ch_hitl sample_chain)))) \<noteq> DecisionDeny"
proof
  show "map fst (as_executed sample_run) = [''bash'']" by code_simp
  then obtain args where a: "(''bash'', args) \<in> set (as_executed sample_run)" "as_executed sample_run = [(''bash'', args)]"
    by auto
  have "map (args_command \<circ> snd) (as_executed sample_run) = [Some ''make'']" by code_simp
  with a have "args_command args = Some ''make''" by simp
  from run_obeys_sandbox [OF sample_middlewares sample_run_Some a(1) this]
  show "out_Decision (Evaluate (mk_request ''make'') (Some (mw_cfg (ch_hitl sample_chain)))) \<noteq> DecisionDeny" by simp
qed

end
