(* ===== verification/Go_Files.thy ===== *)
theory Go_Files
  imports Go_Json
begin

text \<open>
  Append-only files of lines, as the stores of the program use them: \<^verbatim>\<open>bufio.Scanner\<close> with its limit on
  the length of a line, writes that may fail after a part of the data reached the file, and the
  members of a JSON object as \<^verbatim>\<open>Unmarshal\<close> assigns them to the fields of a struct. The locale
  \<open>line_codec\<close> states what a log needs of the encoding of its records; its lemmas give the meaning
  of the file after a complete write and after a write that was cut short.
\<close>

section \<open>Lines\<close>

abbreviation nl :: char where "nl \<equiv> CHR 0x0A"
abbreviation cr :: char where "cr \<equiv> CHR 0x0D"

fun raw_lines :: "string \<Rightarrow> string list" where
  "raw_lines [] = []"
| "raw_lines (c # cs) =
     (if c = nl then [] # raw_lines cs
      else (case raw_lines cs of [] \<Rightarrow> [[c]] | l # ls \<Rightarrow> (c # l) # ls))"

definition drop_cr :: "string \<Rightarrow> string" where
  "drop_cr l = (if l \<noteq> [] \<and> last l = cr then butlast l else l)"

definition max_token :: nat where
  "max_token = 16 * 1024 * 1024"

text \<open>
  The scan of a file: the lines before the first one that does not fit the buffer, and whether the
  scan reached the end of the file.
\<close>

definition scan_lines :: "string \<Rightarrow> string list \<times> bool" where
  "scan_lines f =
    (let ls = raw_lines f; fit = takeWhile (\<lambda>l. length l < max_token) ls
     in (map drop_cr fit, length fit = length ls))"

text \<open>A write: all the data, or an error after the first \<open>n\<close> bytes.\<close>

datatype write_result = WriteOK | WriteFail nat

fun file_write :: "string \<Rightarrow> string \<Rightarrow> write_result \<Rightarrow> string \<times> bool" where
  "file_write f d WriteOK = (f @ d, True)"
| "file_write f d (WriteFail n) = (f @ take n d, False)"

text \<open>
  A file is complete when it is empty or ends with a line feed.
\<close>

definition complete :: "string \<Rightarrow> bool" where
  "complete f \<longleftrightarrow> f = [] \<or> last f = nl"

lemma complete_Nil [simp]: "complete []"
  by (simp add: complete_def)

lemma complete_line [simp]: "complete (f @ s @ [nl])"
  by (simp add: complete_def)

lemma raw_lines_append: "complete f \<Longrightarrow> raw_lines (f @ g) = raw_lines f @ raw_lines g"
proof (induction f)
  case (Cons c f)
  show ?case
  proof (cases "c = nl")
    case True
    with Cons show ?thesis by (cases "f = []") (auto simp: complete_def)
  next
    case False
    with Cons.prems have "f \<noteq> []" "complete f" by (auto simp: complete_def split: if_splits)
    moreover from \<open>f \<noteq> []\<close> have "raw_lines f \<noteq> []" by (cases f) (auto split: list.splits)
    ultimately show ?thesis using Cons.IH False by (auto split: list.splits)
  qed
qed simp

lemma raw_lines_one: "nl \<notin> set s \<Longrightarrow> raw_lines s = (if s = [] then [] else [s])"
  by (induction s) auto

lemma raw_lines_line: "nl \<notin> set s \<Longrightarrow> raw_lines (s @ [nl]) = [s]"
  by (induction s) auto

lemma scan_append:
  assumes "complete f" and "scan_lines f = (ls, True)" and "nl \<notin> set s" and "length s < max_token"
  shows "scan_lines (f @ s @ [nl]) = (ls @ [drop_cr s], True)"
    and "scan_lines (f @ s) = (ls @ (if s = [] then [] else [drop_cr s]), True)"
proof -
  let ?fit = "\<lambda>l :: string. length l < max_token"
  from assms(2) have all: "takeWhile ?fit (raw_lines f) = raw_lines f" "map drop_cr (raw_lines f) = ls"
  proof -
    from assms(2) have "length (takeWhile ?fit (raw_lines f)) = length (raw_lines f)"
        and m: "map drop_cr (takeWhile ?fit (raw_lines f)) = ls"
      by (simp_all add: scan_lines_def Let_def)
    then show t: "takeWhile ?fit (raw_lines f) = raw_lines f"
      using takeWhile_eq_take [of ?fit "raw_lines f"] by simp
    from m show "map drop_cr (raw_lines f) = ls" unfolding t .
  qed
  then have "\<forall>l \<in> set (raw_lines f). ?fit l" by (metis set_takeWhileD)
  then have ta: "takeWhile ?fit (raw_lines f @ ms) = raw_lines f @ takeWhile ?fit ms" for ms
    by (simp add: takeWhile_append)
  show "scan_lines (f @ s @ [nl]) = (ls @ [drop_cr s], True)"
    using assms(1,3,4) all(2) ta by (simp add: scan_lines_def raw_lines_append raw_lines_line)
  show "scan_lines (f @ s) = (ls @ (if s = [] then [] else [drop_cr s]), True)"
    using assms(1,3,4) all(2) ta by (simp add: scan_lines_def raw_lines_append raw_lines_one)
qed

lemma scan_empty [simp]: "scan_lines [] = ([], True)"
  by (simp add: scan_lines_def)

section \<open>Records of a log\<close>

text \<open>The records of the lines of a file, the lines that do not decode left out.\<close>

definition records :: "(string \<Rightarrow> 'a option) \<Rightarrow> string \<Rightarrow> 'a list" where
  "records dec f = List.map_filter dec (fst (scan_lines f))"

definition scan_ok :: "string \<Rightarrow> bool" where
  "scan_ok f \<longleftrightarrow> complete f \<and> snd (scan_lines f)"

lemma scan_ok_Nil [simp]: "scan_ok []"
  by (simp add: scan_ok_def)

lemma records_Nil [simp]: "records dec [] = []"
  by (simp add: records_def List.map_filter_def)

locale line_codec =
  fixes enc :: "'a \<Rightarrow> string option" and dec :: "string \<Rightarrow> 'a option" and norm :: "'a \<Rightarrow> 'a"
    and ok :: "'a \<Rightarrow> bool"
  assumes dec_enc: "ok x \<Longrightarrow> enc x = Some s \<Longrightarrow> dec s = Some (norm x)"
    and torn: "ok x \<Longrightarrow> enc x = Some (p @ q) \<Longrightarrow> q \<noteq> [] \<Longrightarrow> dec p = None"
    and nonempty: "ok x \<Longrightarrow> enc x = Some s \<Longrightarrow> s \<noteq> []"
    and printable: "ok x \<Longrightarrow> enc x = Some s \<Longrightarrow> list_all (\<lambda>c. 32 \<le> byte c) s"
begin

lemma one_line:
  assumes "ok x" "enc x = Some (p @ q)"
  shows "nl \<notin> set p" "drop_cr p = p"
proof -
  from printable [OF assms] have "list_all (\<lambda>c. 32 \<le> byte c) p" by simp
  then have "c \<in> set p \<Longrightarrow> 32 \<le> byte c" for c by (simp add: list_all_iff)
  from this [of nl] this [of cr] show "nl \<notin> set p" "drop_cr p = p"
    by (auto simp: drop_cr_def dest: last_in_set)
qed

lemma written:
  assumes "ok x" "enc x = Some s" "length s < max_token" "scan_ok f"
  shows "scan_ok (f @ s @ [nl])" "records dec (f @ s @ [nl]) = records dec f @ [norm x]"
proof -
  have f: "complete f" "scan_lines f = (fst (scan_lines f), True)"
    using assms(4) by (simp_all add: scan_ok_def prod_eq_iff)
  note l = one_line [of x s "[]", simplified, OF assms(1,2)]
  note sc = scan_append(1) [OF f l(1) assms(3)]
  show "scan_ok (f @ s @ [nl])" by (simp add: scan_ok_def sc)
  show "records dec (f @ s @ [nl]) = records dec f @ [norm x]"
    using dec_enc [OF assms(1,2)] by (simp add: records_def sc l(2) List.map_filter_def)
qed

text \<open>A write that is cut short leaves the old records, or the new ones when only the line feed is missing.\<close>

lemma cut_short:
  assumes "ok x" "enc x = Some s" "length s < max_token" "scan_ok f"
  shows "snd (scan_lines (f @ take n s))"
    "records dec (f @ take n s) = records dec f @ (if n < length s then [] else [norm x])"
proof -
  have f: "complete f" "scan_lines f = (fst (scan_lines f), True)"
    using assms(4) by (simp_all add: scan_ok_def prod_eq_iff)
  note l = one_line [of x "take n s" "drop n s", simplified, OF assms(1,2)]
  have "length (take n s) < max_token" using assms(3) by simp
  note sc = scan_append(2) [OF f l(1) this]
  show "snd (scan_lines (f @ take n s))" by (simp add: sc)
  have "n < length s \<Longrightarrow> dec (take n s) = None"
    using torn [of x "take n s" "drop n s"] assms(1,2) by simp
  then have "List.map_filter dec (if take n s = [] then [] else [take n s]) =
      (if n < length s then [] else [norm x])"
    using dec_enc [OF assms(1,2)] nonempty [OF assms(1,2)] by (auto simp: List.map_filter_def)
  then show "records dec (f @ take n s) = records dec f @ (if n < length s then [] else [norm x])"
    unfolding records_def sc l(2) by (simp add: List.map_filter_def)
qed

end

section \<open>The bytes of a JSON text\<close>

lemma byte_ge_32_append: "list_all (\<lambda>c. 32 \<le> byte c) (a @ b) \<longleftrightarrow>
    list_all (\<lambda>c. 32 \<le> byte c) a \<and> list_all (\<lambda>c. 32 \<le> byte c) b"
  by simp

lemma rune_bytes:
  assumes "(r, b) \<in> set (runes s)"
  shows "(\<exists>c. b = [c] \<and> r = byte c) \<or> list_all (\<lambda>c. 32 \<le> byte c) b"
  using assms
proof (induction s rule: runes.induct)
  case (2 c cs)
  obtain q w where d: "decode1 c cs = (q, w)" by (cases "decode1 c cs")
  have "(\<exists>c'. c # take w cs = [c'] \<and> q = byte c') \<or> list_all (\<lambda>c. 32 \<le> byte c) (c # take w cs)"
  proof (cases "q = RuneError \<and> w = 0")
    case True
    with d have "0x80 \<le> byte c" by (cases "byte c < 0x80") (auto simp: decode1_ascii RuneError_def)
    with True show ?thesis by simp
  next
    case False
    from d False show ?thesis
      by (cases rule: decode1_cases) (auto simp: cont_byte_def)
  qed
  with 2 d show ?case by auto
qed simp

lemma json_rune_printable:
  assumes "(r, b) \<in> set (runes s)"
  shows "list_all (\<lambda>c. 32 \<le> byte c) (json_rune (r, b))"
proof -
  have h: "32 \<le> byte (hex_digit n)" if "n < 16" for n
    using that by (auto simp: hex_digit_def of_char_of)
  have u: "list_all (\<lambda>c. 32 \<le> byte c) (u_escape r)" for r
    using h by (simp add: u_escape_def)
  show ?thesis
    using rune_bytes [OF assms] u by (auto simp: json_rune_def char_of_quote)
qed

lemma json_string_printable: "list_all (\<lambda>c. 32 \<le> byte c) (json_string s)"
  using json_rune_printable unfolding json_string_def by (fastforce simp: list_all_iff)

lemma Join_printable:
  "\<forall>x \<in> set xs. list_all (\<lambda>c. 32 \<le> byte c) x \<Longrightarrow> list_all (\<lambda>c. 32 \<le> byte c) (Join xs '','')"
  by (induction xs "'',''" rule: Join.induct) auto

lemma json_text_printable: "wf_json v \<Longrightarrow> list_all (\<lambda>c. 32 \<le> byte c) (json_text v)"
proof (induction v)
  case (JNum n)
  then show ?case
    using valid_number_chars(1) [of n] by (auto simp: list_all_iff number_char_def is_digit_def)
next
  case (JArr xs)
  then have "list_all (\<lambda>c. 32 \<le> byte c) (Join (map json_text xs) '','')"
    by (intro Join_printable) (auto simp: list_all_iff [of wf_json])
  then show ?case by simp
next
  case (JObj m)
  have "list_all (\<lambda>c. 32 \<le> byte c) (Join (map (\<lambda>(k, v). json_string k @ '':'' @ json_text v) m) '','')"
    using JObj by (intro Join_printable)
      (fastforce simp: json_string_printable list_all_iff [of "\<lambda>(k, v). valid_utf8 k \<and> wf_json v"])
  then show ?case by simp
qed (simp_all add: json_string_printable)

section \<open>Fields of a struct\<close>

text \<open>
  The members that belong to a field (the name matches up to case), in order: a later one wins, and
  a \<^verbatim>\<open>null\<close> leaves a string or a time as it is and empties a slice. \<open>None\<close>: a value of another type,
  on which \<^verbatim>\<open>Unmarshal\<close> returns an error.
\<close>

definition members_of :: "string \<Rightarrow> (string \<times> json) list \<Rightarrow> json list" where
  "members_of key m = map snd (filter (\<lambda>(k, v). EqualFold k key) m)"

fun set_string :: "string option \<Rightarrow> json \<Rightarrow> string option" where
  "set_string (Some s) JNull = Some s"
| "set_string (Some s) (JStr t) = Some t"
| "set_string _ _ = None"

definition string_field :: "string \<Rightarrow> (string \<times> json) list \<Rightarrow> string option" where
  "string_field key m = foldl set_string (Some []) (members_of key m)"

fun elem_string :: "json \<Rightarrow> string option" where
  "elem_string JNull = Some []"
| "elem_string (JStr t) = Some t"
| "elem_string _ = None"

fun set_strings :: "string list option \<Rightarrow> json \<Rightarrow> string list option" where
  "set_strings (Some xs) JNull = Some []"
| "set_strings (Some xs) (JArr ys) = those (map elem_string ys)"
| "set_strings _ _ = None"

definition strings_field :: "string \<Rightarrow> (string \<times> json) list \<Rightarrow> string list option" where
  "strings_field key m = foldl set_strings (Some []) (members_of key m)"

text \<open>A string field with \<^verbatim>\<open>omitempty\<close>.\<close>

definition opt_str :: "string \<Rightarrow> string \<Rightarrow> (string \<times> json) list" where
  "opt_str key s = (if s = [] then [] else [(key, JStr s)])"

text \<open>
  The text form of a time depends on the zone of the host: the two functions of a \<open>time_codec\<close> stand
  for \<^verbatim>\<open>MarshalJSON\<close> and \<^verbatim>\<open>UnmarshalJSON\<close> of \<^verbatim>\<open>time.Time\<close>; \<open>None\<close> is an error.
\<close>

record time_codec =
  tz_format :: "time \<Rightarrow> string option"
  tz_parse :: "string \<Rightarrow> time option"

fun set_time :: "time_codec \<Rightarrow> time option \<Rightarrow> json \<Rightarrow> time option" where
  "set_time tz (Some t) JNull = Some t"
| "set_time tz (Some t) (JStr s) = tz_parse tz s"
| "set_time tz _ _ = None"

definition time_field :: "time_codec \<Rightarrow> string \<Rightarrow> (string \<times> json) list \<Rightarrow> time option" where
  "time_field tz key m = foldl (set_time tz) (Some 0) (members_of key m)"

text \<open>A time that is written and read back.\<close>

definition time_ok :: "time_codec \<Rightarrow> time \<Rightarrow> bool" where
  "time_ok tz t \<longleftrightarrow>
    (case tz_format tz t of Some s \<Rightarrow> valid_utf8 s \<and> tz_parse tz s = Some t | None \<Rightarrow> False)"

definition decimal_times :: time_codec where
  "decimal_times = \<lparr>tz_format = (\<lambda>t. if t < 0 then None else Some (show_int t)),
                    tz_parse = (\<lambda>s. Some (int (read_nat s)))\<rparr>"

lemma ascii_valid: "ascii s \<Longrightarrow> valid_utf8 s"
  by (auto simp: valid_utf8_def runes_ascii list_all_iff RuneError_def)

lemma EqualFold_refl [simp]: "EqualFold s s"
  by (simp add: EqualFold_def)

lemma members_of_Nil [simp]: "members_of key [] = []"
  by (simp add: members_of_def)

lemma members_of_Cons [simp]:
  "members_of key ((k, v) # m) = (if EqualFold k key then v # members_of key m else members_of key m)"
  by (simp add: members_of_def)

lemma members_of_append [simp]: "members_of key (m @ m2) = members_of key m @ members_of key m2"
  by (simp add: members_of_def)

lemma those_JStr [simp]: "those (map elem_string (map JStr xs)) = Some xs"
  by (induction xs) auto

lemma those_JStr2 [simp]: "those (map (elem_string \<circ> JStr) xs) = Some xs"
  by (induction xs) auto

section \<open>Records as objects\<close>

text \<open>
  A type whose values are written as JSON objects: a line that is no object (or \<^verbatim>\<open>null\<close>, which leaves
  the zero value) does not decode. What the fields promise is enough for a log of such records.
\<close>

definition unmarshal_object :: "((string \<times> json) list \<Rightarrow> 'a option) \<Rightarrow> string \<Rightarrow> 'a option" where
  "unmarshal_object of_members line =
    (case json_parse line of
       Some (JObj m) \<Rightarrow> of_members m
     | Some JNull \<Rightarrow> of_members []
     | _ \<Rightarrow> None)"

locale object_codec =
  fixes enc :: "'a \<Rightarrow> string option" and of_members :: "(string \<times> json) list \<Rightarrow> 'a option"
    and norm :: "'a \<Rightarrow> 'a" and ok :: "'a \<Rightarrow> bool"
  assumes object: "ok x \<Longrightarrow>
    \<exists>m. enc x = Some (json_text (JObj m)) \<and> wf_json (JObj m) \<and> of_members m = Some (norm x)"

sublocale object_codec \<subseteq> line_codec enc "unmarshal_object of_members" norm ok
proof
  fix x s p q
  assume x: "ok x"
  obtain m where m: "enc x = Some (json_text (JObj m))" "wf_json (JObj m)" "of_members m = Some (norm x)"
    using object [OF x] by blast
  show "unmarshal_object of_members s = Some (norm x)" if "enc x = Some s"
    using that m json_parse_text [OF m(2)] by (simp add: unmarshal_object_def del: json_text.simps)
  show "unmarshal_object of_members p = None" if "enc x = Some (p @ q)" "q \<noteq> []"
    using that m json_prefix_None [OF m(2), of p q] by (simp add: unmarshal_object_def del: json_text.simps)
  show "s \<noteq> []" if "enc x = Some s" using that m by auto
  show "list_all (\<lambda>c. 32 \<le> byte c) s" if "enc x = Some s"
    using that m json_text_printable [OF m(2)] by (simp del: json_text.simps)
qed

end
