(* ===== verification/Task.thy ===== *)
theory Task
  imports Go_Files
begin

text \<open>
  The task model of the dispatcher (\<^verbatim>\<open>src/ai-dispatch/task/task.go\<close>): kinds, the table of status
  transitions, \<open>Transition\<close> and \<open>FailInto\<close>, the JSON form of a task as its struct tags give it, and
  \<open>Summarize\<close> of \<^verbatim>\<open>events.go\<close>. A status is a string, as in the source, so a task that was read from
  a file may carry a status that the table does not know. \<open>lifecycle\<close> is the step relation of the
  operations on the status of a task.
\<close>

section \<open>Kinds and statuses\<close>

abbreviation (input) KindCode :: string where "KindCode \<equiv> ''code''"
abbreviation (input) KindGeneral :: string where "KindGeneral \<equiv> ''general''"

definition ValidKind :: "string \<Rightarrow> bool" where
  "ValidKind k \<longleftrightarrow> k = KindCode \<or> k = KindGeneral"

abbreviation (input) StatusQueued :: string where "StatusQueued \<equiv> ''queued''"
abbreviation (input) StatusDispatching :: string where "StatusDispatching \<equiv> ''dispatching''"
abbreviation (input) StatusWorking :: string where "StatusWorking \<equiv> ''working''"
abbreviation (input) StatusAwaitingReview :: string where "StatusAwaitingReview \<equiv> ''awaiting_review''"
abbreviation (input) StatusMerging :: string where "StatusMerging \<equiv> ''merging''"
abbreviation (input) StatusDone :: string where "StatusDone \<equiv> ''done''"
abbreviation (input) StatusRejected :: string where "StatusRejected \<equiv> ''rejected''"
abbreviation (input) StatusFailed :: string where "StatusFailed \<equiv> ''failed''"
abbreviation (input) StatusCancelled :: string where "StatusCancelled \<equiv> ''cancelled''"

definition Terminal :: "string \<Rightarrow> bool" where
  "Terminal s \<longleftrightarrow> s = StatusDone \<or> s = StatusRejected \<or> s = StatusFailed \<or> s = StatusCancelled"

definition transitions :: "(string \<times> string list) list" where
  "transitions =
    [(StatusQueued, [StatusDispatching, StatusFailed, StatusCancelled]),
     (StatusDispatching, [StatusWorking, StatusFailed, StatusCancelled]),
     (StatusWorking, [StatusAwaitingReview, StatusFailed, StatusCancelled]),
     (StatusAwaitingReview, [StatusMerging, StatusDone, StatusRejected, StatusFailed, StatusCancelled]),
     (StatusMerging, [StatusDone, StatusFailed, StatusCancelled])]"

definition CanTransition :: "string \<Rightarrow> string \<Rightarrow> bool" where
  "CanTransition from to =
    (case map_of transitions from of None \<Rightarrow> False | Some nexts \<Rightarrow> list_ex (\<lambda>s. s = to) nexts)"

section \<open>Tasks\<close>

record Task =
  tk_ID :: string
  tk_Source :: string
  tk_Kind :: string
  tk_Prompt :: string
  tk_Repo :: string
  tk_Worker :: string
  tk_Status :: string
  tk_BaseCommit :: string
  tk_Worktree :: string
  tk_Branch :: string
  tk_WorkerSession :: string
  tk_Commits :: "string list"
  tk_Error :: string
  tk_CreatedAt :: time
  tk_UpdatedAt :: time
  tk_ExpiresAt :: time

text \<open>The two forms of \<^verbatim>\<open>ErrInvalidTransition\<close>.\<close>

datatype transition_error = IsTerminal string | NotAllowed string string

definition Transition :: "time \<Rightarrow> string \<Rightarrow> Task \<Rightarrow> transition_error + Task" where
  "Transition now to t =
    (if Terminal (tk_Status t) then Inl (IsTerminal (tk_Status t))
     else if \<not> CanTransition (tk_Status t) to then Inl (NotAllowed (tk_Status t) to)
     else Inr (t\<lparr>tk_Status := to, tk_UpdatedAt := now\<rparr>))"

definition FailInto :: "time \<Rightarrow> string \<Rightarrow> Task \<Rightarrow> transition_error + Task" where
  "FailInto now reason t =
    (if \<not> Terminal (tk_Status t) then
       (case Transition now StatusFailed t of
          Inl err \<Rightarrow> Inl err
        | Inr t \<Rightarrow> Inr (t\<lparr>tk_Error := reason, tk_UpdatedAt := now\<rparr>))
     else Inr (t\<lparr>tk_Error := reason, tk_UpdatedAt := now\<rparr>))"

text \<open>\<^verbatim>\<open>Summarize\<close> of \<^verbatim>\<open>events.go\<close>: the text cut to \<open>maxLen\<close> runes, invalid bytes as U+FFFD.\<close>

definition Summarize :: "string \<Rightarrow> string \<Rightarrow> nat \<Rightarrow> string" where
  "Summarize updateKind text maxLen =
    (if text = [] then updateKind
     else let r = map fst (runes text) in
          if length r > maxLen then utf8 (take maxLen r) @ (utf8 [0x2026]) else utf8 r)"

section \<open>The JSON form of a task\<close>

definition task_json :: "string \<Rightarrow> string \<Rightarrow> string \<Rightarrow> Task \<Rightarrow> json" where
  "task_json created updated expires t = JObj
    ([(''id'', JStr (tk_ID t)), (''source'', JStr (tk_Source t)), (''kind'', JStr (tk_Kind t)),
      (''prompt'', JStr (tk_Prompt t)), (''repo'', JStr (tk_Repo t)), (''worker'', JStr (tk_Worker t)),
      (''status'', JStr (tk_Status t))] @
     opt_str ''base_commit'' (tk_BaseCommit t) @ opt_str ''worktree'' (tk_Worktree t) @
     opt_str ''branch'' (tk_Branch t) @ opt_str ''worker_session'' (tk_WorkerSession t) @
     (if tk_Commits t = [] then [] else [(''commits'', JArr (map JStr (tk_Commits t)))]) @
     opt_str ''error'' (tk_Error t) @
     [(''created_at'', JStr created), (''updated_at'', JStr updated), (''expires_at'', JStr expires)])"

definition marshal_task :: "time_codec \<Rightarrow> Task \<Rightarrow> string option" where
  "marshal_task tz t =
    do { created \<leftarrow> tz_format tz (tk_CreatedAt t);
         updated \<leftarrow> tz_format tz (tk_UpdatedAt t);
         expires \<leftarrow> tz_format tz (tk_ExpiresAt t);
         Some (json_text (task_json created updated expires t)) }"

definition task_of_members :: "time_codec \<Rightarrow> (string \<times> json) list \<Rightarrow> Task option" where
  "task_of_members tz m =
    do { i \<leftarrow> string_field ''id'' m; src \<leftarrow> string_field ''source'' m; kind \<leftarrow> string_field ''kind'' m;
         prompt \<leftarrow> string_field ''prompt'' m; repo \<leftarrow> string_field ''repo'' m;
         worker \<leftarrow> string_field ''worker'' m; status \<leftarrow> string_field ''status'' m;
         base \<leftarrow> string_field ''base_commit'' m; wt \<leftarrow> string_field ''worktree'' m;
         branch \<leftarrow> string_field ''branch'' m; session \<leftarrow> string_field ''worker_session'' m;
         commits \<leftarrow> strings_field ''commits'' m; err \<leftarrow> string_field ''error'' m;
         created \<leftarrow> time_field tz ''created_at'' m; updated \<leftarrow> time_field tz ''updated_at'' m;
         expires \<leftarrow> time_field tz ''expires_at'' m;
         Some \<lparr>tk_ID = i, tk_Source = src, tk_Kind = kind, tk_Prompt = prompt, tk_Repo = repo,
               tk_Worker = worker, tk_Status = status, tk_BaseCommit = base, tk_Worktree = wt,
               tk_Branch = branch, tk_WorkerSession = session, tk_Commits = commits, tk_Error = err,
               tk_CreatedAt = created, tk_UpdatedAt = updated, tk_ExpiresAt = expires\<rparr> }"

text \<open>A top-level \<^verbatim>\<open>null\<close> leaves the zero task.\<close>

definition unmarshal_task :: "time_codec \<Rightarrow> string \<Rightarrow> Task option" where
  "unmarshal_task tz line =
    (case json_parse line of
       Some (JObj m) \<Rightarrow> task_of_members tz m
     | Some JNull \<Rightarrow> task_of_members tz []
     | _ \<Rightarrow> None)"

text \<open>The tasks that survive the round trip: valid UTF-8 in the strings, times that the codec knows.\<close>

definition task_ok :: "time_codec \<Rightarrow> Task \<Rightarrow> bool" where
  "task_ok tz t \<longleftrightarrow>
    list_all valid_utf8 [tk_ID t, tk_Source t, tk_Kind t, tk_Prompt t, tk_Repo t, tk_Worker t,
      tk_Status t, tk_BaseCommit t, tk_Worktree t, tk_Branch t, tk_WorkerSession t, tk_Error t] \<and>
    list_all valid_utf8 (tk_Commits t) \<and>
    list_all (time_ok tz) [tk_CreatedAt t, tk_UpdatedAt t, tk_ExpiresAt t]"

lemmas [task_defs] = ValidKind_def Terminal_def transitions_def CanTransition_def Transition_def
  FailInto_def

section \<open>Round trip\<close>

definition task_keys :: "string list" where
  "task_keys = [''id'', ''source'', ''kind'', ''prompt'', ''repo'', ''worker'', ''status'', ''base_commit'',
    ''worktree'', ''branch'', ''worker_session'', ''commits'', ''error'', ''created_at'', ''updated_at'',
    ''expires_at'']"

lemma task_keys_apart:
  "list_all (\<lambda>k. list_all (\<lambda>k2. EqualFold k k2 \<longrightarrow> k = k2) task_keys) task_keys"
  by code_simp

lemma task_keys_utf8: "list_all valid_utf8 task_keys"
  by code_simp

lemma key_fold: "k \<in> set task_keys \<Longrightarrow> k2 \<in> set task_keys \<Longrightarrow> EqualFold k k2 \<longleftrightarrow> k = k2"
  using task_keys_apart by (auto simp: list_all_iff)

lemma members_opt_str:
  "k \<in> set task_keys \<Longrightarrow> k2 \<in> set task_keys \<Longrightarrow>
   members_of k2 (opt_str k s) = (if k = k2 \<and> s \<noteq> [] then [JStr s] else [])"
  by (simp add: opt_str_def key_fold)

lemma task_of_json:
  assumes "time_ok tz (tk_CreatedAt t)" "time_ok tz (tk_UpdatedAt t)" "time_ok tz (tk_ExpiresAt t)"
    and "tz_format tz (tk_CreatedAt t) = Some a" "tz_format tz (tk_UpdatedAt t) = Some b"
    and "tz_format tz (tk_ExpiresAt t) = Some c" and "task_json a b c t = JObj m"
  shows "task_of_members tz m = Some t"
proof -
  have k: "members_of k2 ((k, v) # m) = (if k = k2 then v # members_of k2 m else members_of k2 m)"
    if "k \<in> set task_keys" "k2 \<in> set task_keys" for k k2 v m
    using that by (simp add: key_fold)
  have p: "tz_parse tz a = Some (tk_CreatedAt t)" "tz_parse tz b = Some (tk_UpdatedAt t)"
    "tz_parse tz c = Some (tk_ExpiresAt t)"
    using assms by (auto simp: time_ok_def)
  show ?thesis
    using assms(7) p unfolding task_json_def
    by (auto simp: task_of_members_def string_field_def strings_field_def time_field_def
        members_opt_str k task_keys_def simp del: members_of_Cons)
qed

lemma task_json_wf:
  assumes "task_ok tz t" "valid_utf8 a" "valid_utf8 b" "valid_utf8 c"
  shows "wf_json (task_json a b c t)"
  using assms task_keys_utf8
  by (auto simp: task_json_def task_ok_def opt_str_def task_keys_def list_all_iff)

lemma marshal_task_cases:
  assumes "task_ok tz t"
  obtains m where "marshal_task tz t = Some (json_text (JObj m))" "wf_json (JObj m)"
    "task_of_members tz m = Some t"
proof -
  obtain a b c where f: "tz_format tz (tk_CreatedAt t) = Some a" "tz_format tz (tk_UpdatedAt t) = Some b"
      "tz_format tz (tk_ExpiresAt t) = Some c"
    and v: "valid_utf8 a" "valid_utf8 b" "valid_utf8 c"
    using assms by (auto simp: task_ok_def time_ok_def split: option.splits)
  obtain m where m: "task_json a b c t = JObj m" by (simp add: task_json_def)
  have "marshal_task tz t = Some (json_text (JObj m))"
    unfolding marshal_task_def m [symmetric] by (simp add: f)
  moreover have "wf_json (JObj m)" unfolding m [symmetric] by (rule task_json_wf [OF assms v])
  moreover have "task_of_members tz m = Some t"
    using assms by (intro task_of_json [OF _ _ _ f m]) (simp_all add: task_ok_def)
  ultimately show thesis by (rule that)
qed

interpretation task_codec: line_codec "marshal_task tz" "unmarshal_task tz" id "task_ok tz"
proof
  fix t s p q
  assume t: "task_ok tz t"
  obtain m where m: "marshal_task tz t = Some (json_text (JObj m))" "wf_json (JObj m)"
      "task_of_members tz m = Some t"
    using t by (rule marshal_task_cases)
  show "unmarshal_task tz s = Some (id t)" if "marshal_task tz t = Some s"
    using that m json_parse_text [OF m(2)] by (simp add: unmarshal_task_def del: json_text.simps)
  show "unmarshal_task tz p = None" if "marshal_task tz t = Some (p @ q)" "q \<noteq> []"
    using that m json_prefix_None [OF m(2), of p q] by (simp add: unmarshal_task_def del: json_text.simps)
  show "s \<noteq> []" if "marshal_task tz t = Some s" using that m by auto
  show "list_all (\<lambda>c. 32 \<le> byte c) s" if "marshal_task tz t = Some s"
    using that m json_text_printable [OF m(2)] by (simp del: json_text.simps)
qed


section \<open>The life of a task\<close>

text \<open>The changes of a task that the two operations make.\<close>

inductive task_step :: "Task \<Rightarrow> Task \<Rightarrow> bool" where
  move: "Transition now to t = Inr t' \<Longrightarrow> task_step t t'"
| fail: "FailInto now reason t = Inr t' \<Longrightarrow> task_step t t'"

inductive_cases task_stepE [elim!]: "task_step t t'"

text \<open>The position of a status in the life of a task.\<close>

definition status_rank :: "string \<Rightarrow> nat" where
  "status_rank s =
    (if s = StatusQueued then 0 else if s = StatusDispatching then 1 else if s = StatusWorking then 2
     else if s = StatusAwaitingReview then 3 else if s = StatusMerging then 4 else 5)"

lemma CanTransition_set:
  "CanTransition a b = (case map_of transitions a of None \<Rightarrow> False | Some nexts \<Rightarrow> b \<in> set nexts)"
  by (simp add: CanTransition_def list_ex_iff split: option.split)

lemma CanTransition_iff:
  "CanTransition a b \<longleftrightarrow>
     (a = StatusQueued \<and> b = StatusDispatching) \<or> (a = StatusDispatching \<and> b = StatusWorking) \<or>
     (a = StatusWorking \<and> b = StatusAwaitingReview) \<or>
     (a = StatusAwaitingReview \<and> b \<in> {StatusMerging, StatusDone, StatusRejected}) \<or>
     (a = StatusMerging \<and> b = StatusDone) \<or>
     (a \<in> {StatusQueued, StatusDispatching, StatusWorking, StatusAwaitingReview, StatusMerging} \<and>
      b \<in> {StatusFailed, StatusCancelled})"
proof -
  consider "a = StatusQueued" | "a = StatusDispatching" | "a = StatusWorking" | "a = StatusAwaitingReview"
    | "a = StatusMerging" | "a \<notin> set (map fst transitions)"
    unfolding transitions_def by auto
  then show ?thesis
  proof cases
    case 6
    then have "map_of transitions a = None" by (simp add: map_of_eq_None_iff)
    with 6 show ?thesis by (simp add: CanTransition_def) (simp add: transitions_def)
  qed (simp_all add: CanTransition_set transitions_def disj_ac)
qed

lemma Transition_Inr:
  "Transition now to t = Inr t' \<longleftrightarrow>
     CanTransition (tk_Status t) to \<and> t' = t\<lparr>tk_Status := to, tk_UpdatedAt := now\<rparr>"
  by (auto simp: Transition_def CanTransition_iff Terminal_def)

lemma FailInto_Inr:
  "FailInto now reason t = Inr t' \<longleftrightarrow>
     (Terminal (tk_Status t) \<and> t' = t\<lparr>tk_Error := reason, tk_UpdatedAt := now\<rparr>) \<or>
     (CanTransition (tk_Status t) StatusFailed \<and>
      t' = t\<lparr>tk_Status := StatusFailed, tk_Error := reason, tk_UpdatedAt := now\<rparr>)"
proof -
  have "\<not> (Terminal (tk_Status t) \<and> CanTransition (tk_Status t) b)" for b
    by (auto simp: CanTransition_iff Terminal_def)
  then show ?thesis
    by (auto simp: FailInto_def Transition_Inr split: sum.splits)
      (auto simp: Transition_def split: if_splits)
qed

lemma task_step_status:
  assumes "task_step t t'"
  shows "CanTransition (tk_Status t) (tk_Status t') \<or>
    (Terminal (tk_Status t) \<and> tk_Status t' = tk_Status t)"
  using assms by (auto simp: Transition_Inr FailInto_Inr)

lemma terminal_stays:
  "task_step\<^sup>*\<^sup>* t t' \<Longrightarrow> Terminal (tk_Status t) \<Longrightarrow> tk_Status t' = tk_Status t"
proof (induction rule: rtranclp_induct)
  case (step t' t'')
  then have "Terminal (tk_Status t')" by simp
  then have "\<not> CanTransition (tk_Status t') (tk_Status t'')" by (auto simp: CanTransition_iff Terminal_def)
  with task_step_status [OF step(2)] step show ?case by simp
qed simp

lemma passes_review:
  assumes "task_step\<^sup>*\<^sup>* t t'" and "tk_Status t = StatusQueued"
  shows "(tk_Status t' \<in> {StatusQueued, StatusDispatching, StatusWorking, StatusAwaitingReview,
             StatusFailed, StatusCancelled}) \<or>
         (\<exists>m. task_step\<^sup>*\<^sup>* t m \<and> tk_Status m = StatusAwaitingReview \<and> task_step\<^sup>*\<^sup>* m t')"
  using assms
proof (induction rule: rtranclp_induct)
  case (step t1 t2)
  show ?case
  proof (cases "\<exists>m. task_step\<^sup>*\<^sup>* t m \<and> tk_Status m = StatusAwaitingReview \<and> task_step\<^sup>*\<^sup>* m t1")
    case True
    with step(2) show ?thesis by (meson rtranclp.rtrancl_into_rtrancl)
  next
    case False
    with step(1) have "tk_Status t1 \<noteq> StatusAwaitingReview" by auto
    with False step(3,4) task_step_status [OF step(2)] show ?thesis
      by (auto simp: CanTransition_iff Terminal_def)
  qed
qed simp

text \<open>
  C11 A task that started in the queue and is being merged, is done or was rejected has passed
  \<^verbatim>\<open>awaiting_review\<close> on the way: no sequence of \<open>Transition\<close> and \<open>FailInto\<close> calls gets around the
  review. Every terminal status, failed and cancelled included, is final: whatever is called afterwards,
  the status stays.
\<close>

theorem done_is_reviewed:
  assumes "task_step\<^sup>*\<^sup>* t t'" and "tk_Status t = StatusQueued"
  shows "(tk_Status t' \<in> {StatusMerging, StatusDone, StatusRejected} \<longrightarrow>
            (\<exists>m. task_step\<^sup>*\<^sup>* t m \<and> tk_Status m = StatusAwaitingReview \<and> task_step\<^sup>*\<^sup>* m t')) \<and>
         (tk_Status t' \<in> {StatusDone, StatusRejected, StatusFailed, StatusCancelled} \<longrightarrow>
            (\<forall>t''. task_step\<^sup>*\<^sup>* t' t'' \<longrightarrow> tk_Status t'' = tk_Status t'))"
proof (intro conjI impI allI)
  assume "tk_Status t' \<in> {StatusMerging, StatusDone, StatusRejected}"
  with passes_review [OF assms]
  show "\<exists>m. task_step\<^sup>*\<^sup>* t m \<and> tk_Status m = StatusAwaitingReview \<and> task_step\<^sup>*\<^sup>* m t'" by auto
next
  fix t'' assume "tk_Status t' \<in> {StatusDone, StatusRejected, StatusFailed, StatusCancelled}"
  then have "Terminal (tk_Status t')" unfolding Terminal_def by blast
  then show "task_step\<^sup>*\<^sup>* t' t'' \<Longrightarrow> tk_Status t'' = tk_Status t'" by (rule terminal_stays [rotated])
qed

definition sample_task :: Task where
  "sample_task =
    \<lparr>tk_ID = ''task_1'', tk_Source = ''repl'', tk_Kind = KindGeneral, tk_Prompt = ''p'', tk_Repo = ''/r'',
     tk_Worker = ''w'', tk_Status = StatusQueued, tk_BaseCommit = [], tk_Worktree = [], tk_Branch = [],
     tk_WorkerSession = [], tk_Commits = [], tk_Error = [], tk_CreatedAt = 0, tk_UpdatedAt = 0,
     tk_ExpiresAt = 0\<rparr>"

definition sample_at :: "string \<Rightarrow> time \<Rightarrow> Task" where
  "sample_at s now = sample_task\<lparr>tk_Status := s, tk_UpdatedAt := now\<rparr>"

lemma sample_steps:
  "task_step sample_task (sample_at StatusDispatching 1)"
  "task_step (sample_at StatusDispatching 1) (sample_at StatusWorking 2)"
  "task_step (sample_at StatusWorking 2) (sample_at StatusAwaitingReview 3)"
  "task_step (sample_at StatusAwaitingReview 3) (sample_at StatusDone 4)"
  using task_step.move [of 1 StatusDispatching sample_task]
    task_step.move [of 2 StatusWorking "sample_at StatusDispatching 1"]
    task_step.move [of 3 StatusAwaitingReview "sample_at StatusWorking 2"]
    task_step.move [of 4 StatusDone "sample_at StatusAwaitingReview 3"]
  by (simp_all add: Transition_Inr CanTransition_iff sample_at_def sample_task_def)

theorem done_is_reviewed_witness:
  "(\<exists>m. task_step\<^sup>*\<^sup>* sample_task m \<and> tk_Status m = StatusAwaitingReview \<and>
       task_step\<^sup>*\<^sup>* m (sample_at StatusDone 4)) \<and>
   \<not> task_step\<^sup>*\<^sup>* (sample_at StatusFailed 1) sample_task"
proof -
  have q: "tk_Status sample_task = StatusQueued" by (simp add: sample_task_def)
  have 1: "task_step\<^sup>*\<^sup>* sample_task (sample_at StatusDone 4)"
    using sample_steps by (meson rtranclp.rtrancl_into_rtrancl rtranclp.rtrancl_refl)
  have "task_step sample_task (sample_at StatusFailed 1)"
    using task_step.move [of 1 StatusFailed sample_task]
    by (simp add: Transition_Inr CanTransition_iff sample_at_def sample_task_def)
  then have 2: "task_step\<^sup>*\<^sup>* sample_task (sample_at StatusFailed 1)" by (rule r_into_rtranclp)
  have s: "tk_Status (sample_at st n) = st" for st n by (simp add: sample_at_def)
  have "\<forall>t''. task_step\<^sup>*\<^sup>* (sample_at StatusFailed 1) t'' \<longrightarrow> tk_Status t'' = StatusFailed"
    using conjunct2 [OF done_is_reviewed [OF 2 q]] unfolding s by (metis insertCI)
  then have "\<not> task_step\<^sup>*\<^sup>* (sample_at StatusFailed 1) sample_task" using q by fastforce
  then show ?thesis using conjunct1 [OF done_is_reviewed [OF 1 q]] unfolding s by (metis insertCI)
qed

text \<open>
  The status moves of a task one after the other, each by \<open>Transition\<close>; the first error stops.
\<close>

fun apply_transitions :: "(time \<times> string) list \<Rightarrow> Task \<Rightarrow> transition_error + Task" where
  "apply_transitions [] t = Inr t"
| "apply_transitions ((now, to) # steps) t =
     (case Transition now to t of Inl err \<Rightarrow> Inl err | Inr t' \<Rightarrow> apply_transitions steps t')"

lemma Transition_rank: "CanTransition a b \<Longrightarrow> status_rank a < status_rank b \<and> status_rank b \<le> 5"
  unfolding CanTransition_iff by (elim disjE conjE insertE emptyE) (simp_all add: status_rank_def)

lemma apply_transitions_rank:
  "apply_transitions steps t = Inr t' \<Longrightarrow> status_rank (tk_Status t) + length steps \<le> 5 \<and>
     t' = t\<lparr>tk_Status := tk_Status t', tk_UpdatedAt := tk_UpdatedAt t'\<rparr>"
proof (induction steps t rule: apply_transitions.induct)
  case (1 t)
  then show ?case by (simp add: status_rank_def)
next
  case (2 now to steps t)
  then obtain t1 where t1: "Transition now to t = Inr t1" "apply_transitions steps t1 = Inr t'"
    by (auto split: sum.splits)
  then have c: "CanTransition (tk_Status t) to" "t1 = t\<lparr>tk_Status := to, tk_UpdatedAt := now\<rparr>"
    by (simp_all add: Transition_Inr)
  from 2(1) [OF t1] c Transition_rank [OF c(1)] show ?case by auto
qed

text \<open>
  From any status at most five \<open>Transition\<close> calls can succeed one after
  the other, fewer from a later status; together they change the status and the time of the last
  update only.
\<close>

theorem transitions_terminate:
  assumes "apply_transitions steps t = Inr t'"
  shows "status_rank (tk_Status t) + length steps \<le> 5 \<and>
         t' = t\<lparr>tk_Status := tk_Status t', tk_UpdatedAt := tk_UpdatedAt t'\<rparr>"
  using assms by (rule apply_transitions_rank)

definition full_life :: "(time \<times> string) list" where
  "full_life = [(1, StatusDispatching), (2, StatusWorking), (3, StatusAwaitingReview),
    (4, StatusMerging), (5, StatusDone)]"

theorem transitions_terminate_witness:
  "\<exists>t'. apply_transitions full_life sample_task = Inr t' \<and> tk_Status t' = StatusDone \<and>
        status_rank StatusQueued + length full_life \<le> 5"
proof -
  have "apply_transitions full_life sample_task = Inr (sample_at StatusDone 5)" by code_simp
  from transitions_terminate [OF this] this show ?thesis by (simp add: sample_at_def sample_task_def)
qed

text \<open>
  In every status of the table, and in every terminal one, \<open>FailInto\<close> succeeds
  and leaves a terminal task with the reason: \<^verbatim>\<open>failed\<close>, or the terminal status it had. Only a status
  that the program does not know makes it an error.
\<close>

theorem fail_into_records:
  "(case FailInto now reason t of
      Inl _ \<Rightarrow> tk_Status t \<notin> set (map fst transitions) \<and> \<not> Terminal (tk_Status t)
    | Inr t' \<Rightarrow> Terminal (tk_Status t') \<and> tk_Error t' = reason \<and> tk_UpdatedAt t' = now \<and>
        tk_Status t' = (if Terminal (tk_Status t) then tk_Status t else StatusFailed))"
  by (auto simp: FailInto_def Transition_def Terminal_def CanTransition_iff transitions_def
      split: sum.splits)

text \<open>
  C12 A task with valid UTF-8 texts and times that the codec reads back is decoded from its line as
  it was, the line holds no line feed, and no proper prefix of the line is a task.
\<close>

theorem task_roundtrip:
  assumes "task_ok tz t"
  shows "\<exists>s. marshal_task tz t = Some s \<and> unmarshal_task tz s = Some t \<and> nl \<notin> set s \<and>
             (\<forall>n < length s. unmarshal_task tz (take n s) = None)"
proof -
  obtain s where s: "marshal_task tz t = Some s" using assms by (metis marshal_task_cases)
  have "unmarshal_task tz (take n s) = None" if "n < length s" for n
    using task_codec.torn [OF assms, of "take n s" "drop n s"] that s by simp
  then show ?thesis
    using task_codec.dec_enc [OF assms s] task_codec.one_line(1) [OF assms, of s "[]"] s by simp
qed

lemma sample_task_ok: "task_ok decimal_times sample_task"
  by code_simp

theorem task_roundtrip_witness:
  "unmarshal_task decimal_times (the (marshal_task decimal_times sample_task)) = Some sample_task"
  using task_roundtrip [OF sample_task_ok] by auto

end
