(* ===== verification/Task_Store.thy ===== *)
theory Task_Store
  imports Task
begin

text \<open>
  The task store (\<^verbatim>\<open>src/ai-dispatch/task/store.go\<close>): a file of JSON lines, one snapshot of a task per
  line, replayed into a map and the order of first appearance when the store is opened. The state
  holds the bytes of the file, so that what a reopened store contains is a statement about the
  replay of these bytes; a write may fail after a part of the line.
\<close>

section \<open>State and operations\<close>

record Store =
  st_file :: string
  st_tasks :: "(string \<times> Task) list"
  st_order :: "string list"

datatype store_error =
    MkdirError | ReadError | LineTooLong | OpenError
  | EmptyID | DuplicateID string | NotQueued string | InvalidKind string | UnknownID string
  | MarshalError | AppendError

type_synonym snapshots = "(string \<times> Task) list \<times> string list"

definition put_task :: "Task \<Rightarrow> snapshots \<Rightarrow> snapshots" where
  "put_task t s =
    (case s of (tasks, order) \<Rightarrow>
       (map_put (tk_ID t) t tasks,
        if map_of tasks (tk_ID t) = None then order @ [tk_ID t] else order))"

definition replay_line :: "time_codec \<Rightarrow> snapshots \<Rightarrow> string \<Rightarrow> snapshots" where
  "replay_line tz s line =
    (if line = [] then s
     else (case unmarshal_task tz line of
             None \<Rightarrow> s
           | Some t \<Rightarrow> if tk_ID t = [] then s else put_task t s))"

definition replay :: "time_codec \<Rightarrow> string \<Rightarrow> store_error + snapshots" where
  "replay tz f =
    (case scan_lines f of (ls, ok) \<Rightarrow>
       if ok then Inr (foldl (replay_line tz) ([], []) ls) else Inl LineTooLong)"

text \<open>Which of the system calls of \<open>Open\<close> succeed; the file is \<open>None\<close> when it does not exist.\<close>

record open_env =
  oe_mkdir :: bool
  oe_read :: bool
  oe_open :: bool

definition Open :: "open_env \<Rightarrow> time_codec \<Rightarrow> string option \<Rightarrow> store_error + Store" where
  "Open env tz disk =
    (if \<not> oe_mkdir env then Inl MkdirError
     else (case (case disk of
                   None \<Rightarrow> Inr ([], [])
                 | Some f \<Rightarrow> if oe_read env then replay tz f else Inl ReadError) of
             Inl err \<Rightarrow> Inl err
           | Inr (tasks, order) \<Rightarrow>
               if \<not> oe_open env then Inl OpenError
               else Inr \<lparr>st_file = (case disk of None \<Rightarrow> [] | Some f \<Rightarrow> f),
                         st_tasks = tasks, st_order = order\<rparr>))"

text \<open>The codec of times, the clock and the outcome of the write of one call.\<close>

record store_env =
  se_tz :: time_codec
  se_now :: time
  se_write :: write_result

definition appendLocked :: "store_env \<Rightarrow> Task \<Rightarrow> Store \<Rightarrow> store_error option \<times> Store" where
  "appendLocked env t s =
    (case marshal_task (se_tz env) t of
       None \<Rightarrow> (Some MarshalError, s)
     | Some data \<Rightarrow>
         (case file_write (st_file s) (data @ [nl]) (se_write env) of (f, ok) \<Rightarrow>
            if \<not> ok then (Some AppendError, s\<lparr>st_file := f\<rparr>)
            else (case put_task t (st_tasks s, st_order s) of (tasks, order) \<Rightarrow>
                    (None, s\<lparr>st_file := f, st_tasks := tasks, st_order := order\<rparr>))))"

text \<open>\<open>Add\<close> and \<open>Update\<close> set the times of the task they are given: they return it, too.\<close>

definition stamp_new :: "time \<Rightarrow> Task \<Rightarrow> Task" where
  "stamp_new now t =
    (let t = (if IsZero (tk_CreatedAt t) then t\<lparr>tk_CreatedAt := now\<rparr> else t)
     in if IsZero (tk_UpdatedAt t) then t\<lparr>tk_UpdatedAt := tk_CreatedAt t\<rparr> else t)"

definition store_Add :: "store_env \<Rightarrow> Task \<Rightarrow> Store \<Rightarrow> store_error option \<times> Task \<times> Store" where
  "store_Add env t s =
    (if tk_ID t = [] then (Some EmptyID, t, s)
     else if map_of (st_tasks s) (tk_ID t) \<noteq> None then (Some (DuplicateID (tk_ID t)), t, s)
     else if tk_Status t \<noteq> StatusQueued then (Some (NotQueued (tk_Status t)), t, s)
     else if \<not> ValidKind (tk_Kind t) then (Some (InvalidKind (tk_Kind t)), t, s)
     else let t = stamp_new (se_now env) t in
          (case appendLocked env t s of (err, s) \<Rightarrow> (err, t, s)))"

definition Update :: "store_env \<Rightarrow> Task \<Rightarrow> Store \<Rightarrow> store_error option \<times> Task \<times> Store" where
  "Update env t s =
    (if map_of (st_tasks s) (tk_ID t) = None then (Some (UnknownID (tk_ID t)), t, s)
     else let t = t\<lparr>tk_UpdatedAt := se_now env\<rparr> in
          (case appendLocked env t s of (err, s) \<Rightarrow> (err, t, s)))"

definition Get :: "Store \<Rightarrow> string \<Rightarrow> Task option" where
  "Get s tid = map_of (st_tasks s) tid"

text \<open>\<open>None\<close>: the panic on an identifier of the order that has no snapshot.\<close>

definition List_tasks :: "Store \<Rightarrow> Task list option" where
  "List_tasks s = those (map (map_of (st_tasks s)) (st_order s))"

lemmas [task_defs] = appendLocked_def store_Add_def Update_def Get_def List_tasks_def

section \<open>The file and the map agree\<close>

text \<open>The tasks of a list of snapshots, later ones replacing earlier ones.\<close>

definition snapshots_of :: "Task list \<Rightarrow> snapshots" where
  "snapshots_of ts = foldl (\<lambda>s t. if tk_ID t = [] then s else put_task t s) ([], []) ts"

lemma snapshots_of_snoc:
  "snapshots_of (ts @ [t]) = (if tk_ID t = [] then snapshots_of ts else put_task t (snapshots_of ts))"
  by (simp add: snapshots_of_def)

lemma replay_records: "replay tz f =
  (if snd (scan_lines f) then Inr (snapshots_of (records (unmarshal_task tz) f)) else Inl LineTooLong)"
proof -
  have nil: "unmarshal_task tz [] = None"
    by (simp add: unmarshal_task_def json_parse_def expect_def skip_ws_def parse_scalar_def
        HasPrefix_def valid_number_def int_part_def)
  have "foldl (replay_line tz) s ls =
      foldl (\<lambda>s t. if tk_ID t = [] then s else put_task t s) s (List.map_filter (unmarshal_task tz) ls)" for s ls
    by (induction ls arbitrary: s)
      (auto simp: replay_line_def List.map_filter_def nil split: option.split)
  then show ?thesis by (simp add: replay_def records_def snapshots_of_def split: prod.split)
qed

definition snaps_ok :: "snapshots \<Rightarrow> bool" where
  "snaps_ok s \<longleftrightarrow> map fst (fst s) = snd s \<and> distinct (snd s) \<and>
     (\<forall>(k, t) \<in> set (fst s). tk_ID t = k \<and> k \<noteq> [])"

lemma set_map_put: "e \<in> set (map_put k v m) \<Longrightarrow> e = (k, v) \<or> e \<in> set m"
  by (induction k v m rule: map_put.induct) (auto split: if_splits)

lemma snaps_ok_put: "snaps_ok s \<Longrightarrow> tk_ID t \<noteq> [] \<Longrightarrow> snaps_ok (put_task t s)"
  by (cases s) (auto simp: snaps_ok_def put_task_def keys_map_put map_of_eq_None_iff
      dest!: set_map_put split: if_splits)

lemma snaps_ok_of: "snaps_ok (snapshots_of ts)"
  by (induction ts rule: rev_induct)
    (simp_all add: snapshots_of_snoc snaps_ok_put, simp add: snapshots_of_def snaps_ok_def)

text \<open>The invariant: the file is complete, and its replay gives the map and the order in memory.\<close>

definition store_inv :: "time_codec \<Rightarrow> Store \<Rightarrow> bool" where
  "store_inv tz s \<longleftrightarrow> scan_ok (st_file s) \<and>
     (st_tasks s, st_order s) = snapshots_of (records (unmarshal_task tz) (st_file s))"

lemma store_inv_snaps: "store_inv tz s \<Longrightarrow> snaps_ok (st_tasks s, st_order s)"
  by (metis snaps_ok_of store_inv_def)

text \<open>A task that the store can write and read back: its line fits the scanner's buffer.\<close>

definition fits :: "time_codec \<Rightarrow> Task \<Rightarrow> bool" where
  "fits tz t \<longleftrightarrow> task_ok tz t \<and>
     (case marshal_task tz t of Some s \<Rightarrow> length s < max_token | None \<Rightarrow> False)"

lemma fitsE:
  assumes "fits tz t"
  obtains d where "task_ok tz t" "marshal_task tz t = Some d" "length d < max_token"
  using assms by (auto simp: fits_def split: option.splits)

lemma appendLocked_inv:
  assumes "store_inv (se_tz env) s" and "tk_ID t \<noteq> []" and "appendLocked env t s = (err, s')"
    and "st_file s' = st_file s \<or> (err = None \<and> fits (se_tz env) t)"
  shows "store_inv (se_tz env) s'"
proof (cases "err = None \<and> fits (se_tz env) t")
  case True
  obtain d where d: "task_ok (se_tz env) t" "marshal_task (se_tz env) t = Some d" "length d < max_token"
    using True by (blast elim: fitsE)
  have ok: "scan_ok (st_file s)" using assms(1) by (simp add: store_inv_def)
  note w = task_codec.written [OF d ok]
  have "se_write env = WriteOK" using assms(3) True d(2) by (cases "se_write env") (auto simp: appendLocked_def)
  then show ?thesis
    using assms(1-3) d(2) w
    by (auto simp: appendLocked_def store_inv_def snapshots_of_snoc split: prod.splits if_splits)
next
  case False
  have "s' = s" if "err \<noteq> None" "st_file s' = st_file s"
    using that assms(3) by (auto simp: appendLocked_def split: option.splits prod.splits if_splits)
  moreover have "st_file s' \<noteq> st_file s" if "err = None"
    using that assms(3) by (cases "se_write env") (auto simp: appendLocked_def split: option.splits prod.splits)
  ultimately show ?thesis using False assms(1,4) by auto
qed

lemma Open_file:
  "Open env tz (Some f) = Inr s' \<Longrightarrow>
     st_file s' = f \<and> (st_tasks s', st_order s') = snapshots_of (records (unmarshal_task tz) f)"
  by (auto simp: Open_def replay_records split: if_splits sum.splits prod.splits)

lemma Open_same:
  assumes "store_inv tz s" "Open env tz (Some (st_file s)) = Inr s'"
  shows "s' = s"
  using assms(1) Open_file [OF assms(2)] by (cases s; cases s') (simp add: store_inv_def, metis prod.inject)

section \<open>Reachable stores\<close>

text \<open>
  The stores that the program reaches: a new file, calls of \<open>Add\<close> and \<open>Update\<close> with any task and any
  outcome of the write, and reopening. The flag tells whether the file is whole: every call so far
  left the file alone or wrote a whole line that can be read back.
\<close>

definition wrote_whole :: "time_codec \<Rightarrow> store_error option \<Rightarrow> Task \<Rightarrow> Store \<Rightarrow> Store \<Rightarrow> bool" where
  "wrote_whole tz err t s s' \<longleftrightarrow> st_file s' = st_file s \<or> (err = None \<and> fits tz t)"

inductive store_reach :: "time_codec \<Rightarrow> bool \<Rightarrow> Store \<Rightarrow> bool" for tz where
  new: "Open env tz None = Inr s \<Longrightarrow> store_reach tz True s"
| add: "store_reach tz w s \<Longrightarrow> se_tz env = tz \<Longrightarrow> store_Add env t s = (err, t', s') \<Longrightarrow>
    store_reach tz (w \<and> wrote_whole tz err t' s s') s'"
| update: "store_reach tz w s \<Longrightarrow> se_tz env = tz \<Longrightarrow> Update env t s = (err, t', s') \<Longrightarrow>
    store_reach tz (w \<and> wrote_whole tz err t' s s') s'"
| reopen: "store_reach tz w s \<Longrightarrow> Open env tz (Some (st_file s)) = Inr s' \<Longrightarrow> store_reach tz w s'"

lemma Add_cases:
  "store_Add env t s = (err, t', s') \<Longrightarrow>
     s' = s \<or> (tk_ID t' \<noteq> [] \<and> appendLocked env t' s = (err, s'))"
  by (auto simp: store_Add_def stamp_new_def Let_def split: if_splits prod.splits)

lemma Update_cases:
  "Update env t s = (err, t', s') \<Longrightarrow> s' = s \<or>
     (map_of (st_tasks s) (tk_ID t') \<noteq> None \<and> appendLocked env t' s = (err, s'))"
  by (auto simp: Update_def Let_def split: if_splits prod.splits)

lemma known_id: "snaps_ok (st_tasks s, st_order s) \<Longrightarrow> map_of (st_tasks s) i \<noteq> None \<Longrightarrow> i \<noteq> []"
  by (auto simp: snaps_ok_def dest!: map_of_SomeD)

lemma appendLocked_snaps:
  "snaps_ok (st_tasks s, st_order s) \<Longrightarrow> tk_ID t \<noteq> [] \<Longrightarrow> appendLocked env t s = (err, s') \<Longrightarrow>
     snaps_ok (st_tasks s', st_order s')"
  using snaps_ok_put [of "(st_tasks s, st_order s)" t]
  by (auto simp: appendLocked_def split: option.splits prod.splits if_splits)

text \<open>The map in memory is well formed after whatever outcomes; it agrees with the file as long as that is whole.\<close>

lemma store_reach_inv: "store_reach tz w s \<Longrightarrow> snaps_ok (st_tasks s, st_order s) \<and> (w \<longrightarrow> store_inv tz s)"
proof (induction rule: store_reach.induct)
  case (new env s)
  then have "store_inv tz s"
    by (auto simp: Open_def store_inv_def snapshots_of_def split: if_splits)
  then show ?case using store_inv_snaps by blast
next
  case (add w s env t err t' s')
  then show ?case
    using Add_cases [OF add(3)] appendLocked_inv [of env s t' err s'] appendLocked_snaps [of s t' env err s']
    by (auto simp: wrote_whole_def)
next
  case (update w s env t err t' s')
  then show ?case
    using Update_cases [OF update(3)] appendLocked_inv [of env s t' err s'] appendLocked_snaps [of s t' env err s']
      known_id [of s "tk_ID t'"]
    by (auto simp: wrote_whole_def)
next
  case (reopen w s env s')
  then show ?case using Open_same [of tz s env s'] Open_file [OF reopen(2)] snaps_ok_of by metis
qed

definition all_ok :: open_env where
  "all_ok = \<lparr>oe_mkdir = True, oe_read = True, oe_open = True\<rparr>"

lemma map_of_those: "distinct (map fst m) \<Longrightarrow> those (map (map_of m) (map fst m)) = Some (map snd m)"
proof -
  assume d: "distinct (map fst m)"
  then have "map (map_of m) (map fst m) = map Some (map snd m)" by (auto simp: map_of_eq_Some_iff)
  moreover have "those (map Some xs) = Some xs" for xs :: "'b list" by (induction xs) auto
  ultimately show ?thesis by (simp only:)
qed

text \<open>
  C13 In every reachable store, whatever the writes did, \<open>List\<close> never fails and returns each task
  once, under the identifier it is stored by. As long as every write put down its whole line or
  nothing and the lines fit the scanner, a restart finds the store as it was: opening the file again
  gives the same tasks in the same order. After a line that was cut short this need not be so.
\<close>

theorem store_reopen:
  assumes "store_reach tz whole s"
  shows "(whole \<longrightarrow> Open all_ok tz (Some (st_file s)) = Inr s) \<and>
         (\<exists>ts. List_tasks s = Some ts \<and> map tk_ID ts = st_order s \<and> distinct (st_order s) \<and>
               (\<forall>t \<in> set ts. Get s (tk_ID t) = Some t))"
proof -
  have 1: "Open all_ok tz (Some (st_file s)) = Inr s" if whole
  proof -
    have inv: "store_inv tz s" using store_reach_inv [OF assms] that by blast
    then have o: "snd (scan_lines (st_file s))" by (simp add: store_inv_def scan_ok_def)
    obtain s' where "Open all_ok tz (Some (st_file s)) = Inr s'"
      by (cases "snapshots_of (records (unmarshal_task tz) (st_file s))")
        (auto simp: Open_def all_ok_def replay_records o)
    with Open_same [OF inv] show ?thesis by metis
  qed
  have sn: "map fst (st_tasks s) = st_order s" "distinct (st_order s)"
    "\<forall>(k, t) \<in> set (st_tasks s). tk_ID t = k \<and> k \<noteq> []"
    using store_reach_inv [OF assms] by (simp_all add: snaps_ok_def)
  have l: "List_tasks s = Some (map snd (st_tasks s))"
    using map_of_those [of "st_tasks s"] sn by (simp add: List_tasks_def)
  have "map tk_ID (map snd (st_tasks s)) = st_order s"
    unfolding sn(1) [symmetric] map_map using sn(3) by (intro map_cong) auto
  moreover have "Get s (tk_ID t) = Some t" if "t \<in> snd ` set (st_tasks s)" for t
    using that sn by (auto simp: Get_def)
  ultimately show ?thesis using 1 l sn(2) by auto
qed

text \<open>
  C14 A write that is cut short, by a crash or a full disk, is atomic for the next start: after
  \<open>n\<close> bytes of the line the reopened store has the tasks from before the call, or the new
  snapshot when the whole record was written; in memory the failed call changed no task.
\<close>

theorem store_crash_atomic:
  assumes "store_reach (se_tz env) True s" and "se_write env = WriteFail n"
    and "Update env t s = (err, t', s')" and "err = Some AppendError" and "fits (se_tz env) t'"
    and "n \<le> length (the (marshal_task (se_tz env) t'))"
  shows "st_tasks s' = st_tasks s \<and> st_order s' = st_order s \<and>
         (\<exists>s2. Open all_ok (se_tz env) (Some (st_file s')) = Inr s2 \<and>
            (st_tasks s2, st_order s2) =
              (if n < length (the (marshal_task (se_tz env) t')) then (st_tasks s, st_order s)
               else put_task t' (st_tasks s, st_order s)))"
proof -
  have inv: "store_inv (se_tz env) s" using store_reach_inv [OF assms(1)] by blast
  obtain d where d: "task_ok (se_tz env) t'" "marshal_task (se_tz env) t' = Some d" "length d < max_token"
    using assms(5) by (rule fitsE)
  have known: "map_of (st_tasks s) (tk_ID t') \<noteq> None" "appendLocked env t' s = (err, s')"
    using assms(3,4) by (auto simp: Update_def Let_def split: if_splits prod.splits)
  have id: "tk_ID t' \<noteq> []" using known(1) known_id [OF store_inv_snaps [OF inv]] by blast
  have s': "s' = s\<lparr>st_file := st_file s @ take n d\<rparr>"
    using known(2) assms(2,4,6) d(2) by (auto simp: appendLocked_def split: prod.splits)
  have ok: "scan_ok (st_file s)" using inv by (simp add: store_inv_def)
  note c = task_codec.cut_short [OF d ok, of n]
  have sn: "snapshots_of (records (unmarshal_task (se_tz env)) (st_file s)) = (st_tasks s, st_order s)"
    using inv by (simp add: store_inv_def)
  have "Open all_ok (se_tz env) (Some (st_file s')) =
      Inr \<lparr>st_file = st_file s', st_tasks = fst (snapshots_of (records (unmarshal_task (se_tz env)) (st_file s'))),
           st_order = snd (snapshots_of (records (unmarshal_task (se_tz env)) (st_file s')))\<rparr>"
    using c(1) by (simp add: Open_def all_ok_def replay_records s' split: prod.split)
  then show ?thesis
    using c(2) s' d(2) id sn by (simp add: snapshots_of_snoc)
qed


definition sample_store_env :: "write_result \<Rightarrow> store_env" where
  "sample_store_env w = \<lparr>se_tz = decimal_times, se_now = 7, se_write = w\<rparr>"

definition empty_store :: Store where
  "empty_store = \<lparr>st_file = [], st_tasks = [], st_order = []\<rparr>"

definition sample_store :: Store where
  "sample_store = snd (snd (store_Add (sample_store_env WriteOK) sample_task empty_store))"

definition sample_moved :: Task where
  "sample_moved = sample_task\<lparr>tk_Status := StatusDispatching, tk_CreatedAt := 7\<rparr>"

lemma sample_fits: "fits decimal_times (stamp_new 7 sample_task)"
  "fits decimal_times (sample_moved\<lparr>tk_UpdatedAt := 7\<rparr>)"
  by code_simp+

lemma sample_reach: "store_reach decimal_times True sample_store"
proof -
  have 0: "store_reach decimal_times True empty_store" by (rule store_reach.new [of all_ok]) code_simp
  have tz: "se_tz (sample_store_env WriteOK) = decimal_times" by (simp add: sample_store_env_def)
  have "store_Add (sample_store_env WriteOK) sample_task empty_store = (None, stamp_new 7 sample_task, sample_store)"
    by code_simp
  from store_reach.add [OF 0 tz this] show ?thesis by (simp add: wrote_whole_def sample_fits)
qed

theorem store_reopen_witness:
  "Open all_ok decimal_times (Some (st_file sample_store)) = Inr sample_store"
  using store_reopen [OF sample_reach] by simp

theorem store_crash_atomic_witness:
  "\<exists>s2. Open all_ok decimal_times
      (Some (st_file (snd (snd (Update (sample_store_env (WriteFail 10)) sample_moved sample_store))))) = Inr s2 \<and>
    st_tasks s2 = st_tasks sample_store"
proof -
  let ?env = "sample_store_env (WriteFail 10)"
  have tz: "se_tz ?env = decimal_times" "se_write ?env = WriteFail 10" by (simp_all add: sample_store_env_def)
  have u: "Update ?env sample_moved sample_store =
      (Some AppendError, sample_moved\<lparr>tk_UpdatedAt := 7\<rparr>, snd (snd (Update ?env sample_moved sample_store)))"
    by code_simp
  have l: "10 < length (the (marshal_task decimal_times (sample_moved\<lparr>tk_UpdatedAt := 7\<rparr>)))" by code_simp
  from store_crash_atomic [of ?env sample_store 10, OF _ tz(2) u refl] tz(1) sample_reach sample_fits(2) l
  show ?thesis by auto
qed

text \<open>
  A line that was cut short is ignored by the next start, but it stays in the file without a
  line feed, so the next record is written behind it on the same line: the update after the
  restart succeeds, is visible in memory, and is lost by the start after that.
\<close>

definition torn_store :: Store where
  "torn_store = snd (snd (Update (sample_store_env (WriteFail 10)) sample_moved sample_store))"

definition reopened_store :: Store where
  "reopened_store = projr (Open all_ok decimal_times (Some (st_file torn_store)))"

definition updated_store :: Store where
  "updated_store = snd (snd (Update (sample_store_env WriteOK) sample_moved reopened_store))"

lemma torn_reach: "store_reach decimal_times False updated_store"
proof -
  have tz: "se_tz (sample_store_env w) = decimal_times" for w by (simp add: sample_store_env_def)
  have 1: "store_reach decimal_times False torn_store"
  proof -
    have "\<not> wrote_whole decimal_times (Some AppendError) (sample_moved\<lparr>tk_UpdatedAt := 7\<rparr>) sample_store torn_store"
      "Update (sample_store_env (WriteFail 10)) sample_moved sample_store =
        (Some AppendError, sample_moved\<lparr>tk_UpdatedAt := 7\<rparr>, torn_store)" by code_simp+
    with store_reach.update [OF sample_reach tz] show ?thesis by metis
  qed
  have "Open all_ok decimal_times (Some (st_file torn_store)) = Inr reopened_store" by code_simp
  note 2 = store_reach.reopen [OF 1 this]
  have "Update (sample_store_env WriteOK) sample_moved reopened_store =
      (None, sample_moved\<lparr>tk_UpdatedAt := 7\<rparr>, updated_store)" by code_simp
  from store_reach.update [OF 2 tz this] show ?thesis by simp
qed

theorem torn_line_loses_next:
  "fst (Update (sample_store_env WriteOK) sample_moved reopened_store) = None \<and>
   map_option tk_Status (Get updated_store ''task_1'') = Some StatusDispatching \<and>
   map_option tk_Status (Get (projr (Open all_ok decimal_times (Some (st_file updated_store)))) ''task_1'')
     = Some StatusQueued"
  by code_simp

text \<open>
  The calls of the store on every outcome. A successful \<open>Add\<close> takes a queued task of a known kind
  under a new identifier and puts it at the end of the order; a successful \<open>Update\<close> replaces the
  snapshot of a known task in place. Either way the task is found by \<open>Get\<close> and the others are as
  before. A failed call leaves all the tasks and the order, and, unless the write itself failed,
  the file.
\<close>

definition same_tasks :: "Store \<Rightarrow> Store \<Rightarrow> bool" where
  "same_tasks s s' \<longleftrightarrow> st_tasks s' = st_tasks s \<and> st_order s' = st_order s"

lemma appendLocked_calls:
  "appendLocked env t s = (None, s') \<Longrightarrow> Get s' (tk_ID t) = Some t \<and>
     (\<forall>i. i \<noteq> tk_ID t \<longrightarrow> Get s' i = Get s i) \<and>
     st_order s' = (if Get s (tk_ID t) = None then st_order s @ [tk_ID t] else st_order s)"
  "appendLocked env t s = (Some err, s') \<Longrightarrow>
     same_tasks s s' \<and> (err \<noteq> AppendError \<longrightarrow> s' = s)"
  by (auto simp: appendLocked_def Get_def put_task_def same_tasks_def
      split: option.splits prod.splits if_splits)

lemma store_op_facts:
  "Update env t s = (None, t', s') \<Longrightarrow> Get s' (tk_ID t) = Some t'"
  "Update env t s = (Some e, t', s') \<Longrightarrow> st_tasks s' = st_tasks s"
  "store_Add env t s = (None, t', s') \<Longrightarrow> Get s' (tk_ID t) = Some t'"
  "store_Add env t s = (Some e, t', s') \<Longrightarrow> st_tasks s' = st_tasks s"
proof -
  have id: "tk_ID (stamp_new now t) = tk_ID t" for now by (simp add: stamp_new_def Let_def)
  note a = appendLocked_calls [of env "stamp_new (se_now env) t" s]
  note u = appendLocked_calls [of env "t\<lparr>tk_UpdatedAt := se_now env\<rparr>" s]
  show "Update env t s = (None, t', s') \<Longrightarrow> Get s' (tk_ID t) = Some t'"
    using u(1) by (auto simp: Update_def Let_def split: if_splits prod.splits)
  show "Update env t s = (Some e, t', s') \<Longrightarrow> st_tasks s' = st_tasks s"
    using u(2) by (auto simp: Update_def Let_def same_tasks_def split: if_splits prod.splits)
  show "store_Add env t s = (None, t', s') \<Longrightarrow> Get s' (tk_ID t) = Some t'"
    using a(1) id by (auto simp: store_Add_def Let_def split: if_splits prod.splits)
  show "store_Add env t s = (Some e, t', s') \<Longrightarrow> st_tasks s' = st_tasks s"
    using a(2) by (auto simp: store_Add_def Let_def same_tasks_def split: if_splits prod.splits)
qed

theorem store_calls:
  "(case store_Add env t s of
      (None, t', s') \<Rightarrow>
        t' = stamp_new (se_now env) t \<and> tk_ID t \<noteq> [] \<and> tk_Status t = StatusQueued \<and> ValidKind (tk_Kind t) \<and>
        Get s (tk_ID t) = None \<and> Get s' (tk_ID t) = Some t' \<and>
        (\<forall>i. i \<noteq> tk_ID t \<longrightarrow> Get s' i = Get s i) \<and> st_order s' = st_order s @ [tk_ID t]
    | (Some err, t', s') \<Rightarrow> same_tasks s s' \<and> (err \<noteq> AppendError \<longrightarrow> s' = s)) \<and>
   (case Update env t s of
      (None, t', s') \<Rightarrow>
        t' = t\<lparr>tk_UpdatedAt := se_now env\<rparr> \<and> Get s (tk_ID t) \<noteq> None \<and> Get s' (tk_ID t) = Some t' \<and>
        (\<forall>i. i \<noteq> tk_ID t \<longrightarrow> Get s' i = Get s i) \<and> st_order s' = st_order s
    | (Some err, t', s') \<Rightarrow> same_tasks s s' \<and> (err \<noteq> AppendError \<longrightarrow> s' = s))"
proof -
  have id: "tk_ID (stamp_new now t) = tk_ID t" for now by (simp add: stamp_new_def Let_def)
  have self: "same_tasks s s" by (simp add: same_tasks_def)
  note a = appendLocked_calls [of env "stamp_new (se_now env) t" s]
  note u = appendLocked_calls [of env "t\<lparr>tk_UpdatedAt := se_now env\<rparr>" s]
  show ?thesis
  proof (rule conjI, goal_cases)
    case 1
    show ?case
      unfolding store_Add_def Let_def using a id self
      by (auto simp: Get_def split: prod.splits option.splits)
  next
    case 2
    show ?case
      unfolding Update_def Let_def using u self
      by (auto simp: Get_def split: prod.splits option.splits)
  qed
qed

theorem store_calls_witness:
  "Get sample_store ''task_1'' = Some (stamp_new 7 sample_task) \<and> st_order sample_store = [''task_1'']"
proof -
  have "store_Add (sample_store_env WriteOK) sample_task empty_store = (None, stamp_new 7 sample_task, sample_store)"
    by code_simp
  with store_calls [of "sample_store_env WriteOK" sample_task empty_store] show ?thesis
    by (simp add: empty_store_def sample_task_def)
qed

end
