(* ===== verification/Event_Log.thy ===== *)
theory Event_Log
  imports Task
begin

text \<open>
  The event log of the tasks (\<^verbatim>\<open>src/ai-dispatch/task/event_log.go\<close>): an append-only file of JSON lines,
  the history of every task in memory, and subscribers that are woken by a signal channel of
  capacity one and then ask for the events after their cursor. A channel is its identity and
  whether a signal is in its buffer. The raw JSON of an update is kept as the value it denotes, so
  the white space and the escapes of the text are not modelled.
\<close>

section \<open>Events\<close>

abbreviation (input) EventUpdate :: string where "EventUpdate \<equiv> ''update''"
abbreviation (input) EventStatus :: string where "EventStatus \<equiv> ''status''"

text \<open>A raw message: empty, a JSON value, or bytes that are not JSON (which \<^verbatim>\<open>Marshal\<close> refuses).\<close>

datatype raw_message = RawEmpty | RawJson json | RawBad string

record TaskEvent =
  ev_TaskID :: string
  ev_Timestamp :: time
  ev_Type :: string
  ev_Update :: raw_message
  ev_From :: string
  ev_To :: string

definition validEvent :: "TaskEvent \<Rightarrow> bool" where
  "validEvent e \<longleftrightarrow>
    (if ev_TaskID e = [] then False
     else if ev_Type e = EventUpdate then ev_Update e \<noteq> RawEmpty
     else if ev_Type e = EventStatus then ev_To e \<noteq> []
     else False)"

fun raw_json :: "raw_message \<Rightarrow> (string \<times> json) list option" where
  "raw_json RawEmpty = Some []"
| "raw_json (RawJson v) = Some [(''update'', v)]"
| "raw_json (RawBad s) = None"

definition marshal_event :: "time_codec \<Rightarrow> TaskEvent \<Rightarrow> string option" where
  "marshal_event tz e =
    do { stamp \<leftarrow> tz_format tz (ev_Timestamp e);
         upd \<leftarrow> raw_json (ev_Update e);
         Some (json_text (JObj ([(''task_id'', JStr (ev_TaskID e)), (''timestamp'', JStr stamp),
           (''type'', JStr (ev_Type e))] @ upd @ opt_str ''from'' (ev_From e) @ opt_str ''to'' (ev_To e)))) }"

definition raw_field :: "string \<Rightarrow> (string \<times> json) list \<Rightarrow> raw_message" where
  "raw_field key m = (case members_of key m of [] \<Rightarrow> RawEmpty | vs \<Rightarrow> RawJson (last vs))"

definition event_of_members :: "time_codec \<Rightarrow> (string \<times> json) list \<Rightarrow> TaskEvent option" where
  "event_of_members tz m =
    do { tid \<leftarrow> string_field ''task_id'' m; stamp \<leftarrow> time_field tz ''timestamp'' m;
         typ \<leftarrow> string_field ''type'' m; from \<leftarrow> string_field ''from'' m; to \<leftarrow> string_field ''to'' m;
         Some \<lparr>ev_TaskID = tid, ev_Timestamp = stamp, ev_Type = typ, ev_Update = raw_field ''update'' m,
               ev_From = from, ev_To = to\<rparr> }"

definition unmarshal_event :: "time_codec \<Rightarrow> string \<Rightarrow> TaskEvent option" where
  "unmarshal_event tz line =
    (case json_parse line of
       Some (JObj m) \<Rightarrow> event_of_members tz m
     | Some JNull \<Rightarrow> event_of_members tz []
     | _ \<Rightarrow> None)"

section \<open>The log\<close>

record channel =
  ch_id :: nat
  ch_signal :: bool

record EventLog =
  el_file :: string
  el_events :: "(string \<times> TaskEvent list) list"
  el_subscribers :: "(string \<times> channel list) list"
  el_next :: nat

definition get_list :: "'k \<Rightarrow> ('k \<times> 'v list) list \<Rightarrow> 'v list" where
  "get_list k m = (case map_of m k of None \<Rightarrow> [] | Some xs \<Rightarrow> xs)"

definition add_event :: "TaskEvent \<Rightarrow> (string \<times> TaskEvent list) list \<Rightarrow> (string \<times> TaskEvent list) list" where
  "add_event e m = map_put (ev_TaskID e) (get_list (ev_TaskID e) m @ [e]) m"

datatype event_log_error =
    DirError | DirModeError | LogReadError | ScanError | TailError | TrimError | LogOpenError | FileModeError
  | InvalidEvent | EventMarshalError | EventAppendError

definition replay_event :: "time_codec \<Rightarrow> (string \<times> TaskEvent list) list \<Rightarrow> string \<Rightarrow> (string \<times> TaskEvent list) list" where
  "replay_event tz m line =
    (case unmarshal_event tz line of
       None \<Rightarrow> m
     | Some e \<Rightarrow> if \<not> validEvent e then m else add_event e m)"

definition replay_events :: "time_codec \<Rightarrow> string \<Rightarrow> event_log_error + (string \<times> TaskEvent list) list" where
  "replay_events tz f =
    (case scan_lines f of (ls, ok) \<Rightarrow>
       if ok then Inr (foldl (replay_event tz) [] ls) else Inl ScanError)"

definition trimPartialRecord :: "string \<Rightarrow> string" where
  "trimPartialRecord f =
    (if f = [] \<or> last f = nl then f else rev (dropWhile (\<lambda>c. c \<noteq> nl) (rev f)))"

text \<open>Which of the system calls succeed.\<close>

record log_env =
  le_mkdir :: bool
  le_chmod :: bool
  le_read :: bool
  le_tail :: bool
  le_trim :: bool
  le_open :: bool
  le_fchmod :: bool

definition OpenEventLog :: "log_env \<Rightarrow> time_codec \<Rightarrow> string option \<Rightarrow> event_log_error + EventLog" where
  "OpenEventLog env tz disk =
    (if \<not> le_mkdir env then Inl DirError
     else if \<not> le_chmod env then Inl DirModeError
     else (case (case disk of
                   None \<Rightarrow> Inr []
                 | Some f \<Rightarrow> if le_read env then replay_events tz f else Inl LogReadError) of
             Inl err \<Rightarrow> Inl err
           | Inr evs \<Rightarrow>
               (case (case disk of
                        None \<Rightarrow> Inr []
                      | Some f \<Rightarrow> if \<not> le_tail env then Inl TailError
                                  else if trimPartialRecord f \<noteq> f \<and> \<not> le_trim env then Inl TrimError
                                  else Inr (trimPartialRecord f)) of
                  Inl err \<Rightarrow> Inl err
                | Inr f \<Rightarrow>
                    if \<not> le_open env then Inl LogOpenError
                    else if \<not> le_fchmod env then Inl FileModeError
                    else Inr \<lparr>el_file = f, el_events = evs, el_subscribers = [], el_next = 0\<rparr>)))"

text \<open>The codec of times, the clock and the outcome of the write of one call of \<open>Append\<close>.\<close>

record append_env =
  pe_tz :: time_codec
  pe_now :: time
  pe_write :: write_result

definition signal :: "channel \<Rightarrow> channel" where
  "signal c = c\<lparr>ch_signal := True\<rparr>"

definition stamp_event :: "time \<Rightarrow> TaskEvent \<Rightarrow> TaskEvent" where
  "stamp_event now e = (if IsZero (ev_Timestamp e) then e\<lparr>ev_Timestamp := now\<rparr> else e)"

definition Append :: "append_env \<Rightarrow> TaskEvent \<Rightarrow> EventLog \<Rightarrow> event_log_error option \<times> EventLog" where
  "Append env e l =
    (if \<not> validEvent e then (Some InvalidEvent, l)
     else let e = stamp_event (pe_now env) e in
       (case marshal_event (pe_tz env) e of
          None \<Rightarrow> (Some EventMarshalError, l)
        | Some data \<Rightarrow>
            (case file_write (el_file l) (data @ [nl]) (pe_write env) of (f, ok) \<Rightarrow>
               if \<not> ok then (Some EventAppendError, l\<lparr>el_file := f\<rparr>)
               else (None,
                 l\<lparr>el_file := f, el_events := add_event e (el_events l),
                   el_subscribers :=
                     map (\<lambda>(k, cs). (k, if k = ev_TaskID e then map signal cs else cs)) (el_subscribers l)\<rparr>))))"

definition Subscribe :: "string \<Rightarrow> EventLog \<Rightarrow> TaskEvent list \<times> int \<times> nat \<times> EventLog" where
  "Subscribe tid l =
    (let history = get_list tid (el_events l);
         live = \<lparr>ch_id = el_next l, ch_signal = False\<rparr>
     in (history, int (length history), el_next l,
         l\<lparr>el_subscribers := map_put tid (get_list tid (el_subscribers l) @ [live]) (el_subscribers l),
           el_next := Suc (el_next l)\<rparr>))"

text \<open>The function that \<open>Subscribe\<close> returns: a second call finds nothing to delete.\<close>

definition unsubscribe :: "string \<Rightarrow> nat \<Rightarrow> EventLog \<Rightarrow> EventLog" where
  "unsubscribe tid c l =
    (let cs = filter (\<lambda>x. ch_id x \<noteq> c) (get_list tid (el_subscribers l))
     in l\<lparr>el_subscribers :=
          (if cs = [] then map_del tid (el_subscribers l) else map_put tid cs (el_subscribers l))\<rparr>)"

definition EventsAfter :: "string \<Rightarrow> int \<Rightarrow> EventLog \<Rightarrow> TaskEvent list \<times> int" where
  "EventsAfter tid cursor l =
    (let events = get_list tid (el_events l);
         cursor = (if cursor < 0 then 0 else cursor);
         cursor = (if cursor > int (length events) then int (length events) else cursor)
     in (drop (nat cursor) events, int (length events)))"

lemmas [task_defs] = validEvent_def Append_def Subscribe_def unsubscribe_def EventsAfter_def

section \<open>The codec\<close>

definition event_ok :: "time_codec \<Rightarrow> TaskEvent \<Rightarrow> bool" where
  "event_ok tz e \<longleftrightarrow>
    list_all valid_utf8 [ev_TaskID e, ev_Type e, ev_From e, ev_To e] \<and> time_ok tz (ev_Timestamp e) \<and>
    (case ev_Update e of RawEmpty \<Rightarrow> True | RawJson v \<Rightarrow> wf_json v | RawBad _ \<Rightarrow> False)"

definition event_keys :: "string list" where
  "event_keys = [''task_id'', ''timestamp'', ''type'', ''update'', ''from'', ''to'']"

lemma event_keys_fold:
  "k \<in> set event_keys \<Longrightarrow> k2 \<in> set event_keys \<Longrightarrow> EqualFold k k2 \<longleftrightarrow> k = k2"
proof -
  have "list_all (\<lambda>k. list_all (\<lambda>k2. EqualFold k k2 \<longrightarrow> k = k2) event_keys) event_keys" by code_simp
  then show "k \<in> set event_keys \<Longrightarrow> k2 \<in> set event_keys \<Longrightarrow> EqualFold k k2 \<longleftrightarrow> k = k2"
    by (auto simp: list_all_iff)
qed

lemma event_keys_utf8: "list_all valid_utf8 event_keys"
  by code_simp

lemma marshal_event_cases:
  assumes "event_ok tz e"
  obtains m where "marshal_event tz e = Some (json_text (JObj m))" "wf_json (JObj m)"
    "event_of_members tz m = Some e"
proof -
  obtain a upd where f: "tz_format tz (ev_Timestamp e) = Some a" "raw_json (ev_Update e) = Some upd"
    and p: "valid_utf8 a" "tz_parse tz a = Some (ev_Timestamp e)"
    using assms by (cases "ev_Update e") (auto simp: event_ok_def time_ok_def split: option.splits)
  define m where "m = [(''task_id'', JStr (ev_TaskID e)), (''timestamp'', JStr a), (''type'', JStr (ev_Type e))]
    @ upd @ opt_str ''from'' (ev_From e) @ opt_str ''to'' (ev_To e)"
  have "marshal_event tz e = Some (json_text (JObj m))" by (simp add: marshal_event_def f m_def)
  moreover have "wf_json (JObj m)"
    using assms p event_keys_utf8 f(2)
    by (cases "ev_Update e") (auto simp: m_def event_ok_def opt_str_def event_keys_def)
  moreover have "event_of_members tz m = Some e"
  proof -
    have k: "members_of k2 ((k, v) # m) = (if k = k2 then v # members_of k2 m else members_of k2 m)"
      if "k \<in> set event_keys" "k2 \<in> set event_keys" for k k2 v m
      using that by (simp add: event_keys_fold)
    have o: "members_of k2 (opt_str k s) = (if k = k2 \<and> s \<noteq> [] then [JStr s] else [])"
      if "k \<in> set event_keys" "k2 \<in> set event_keys" for k k2 s
      using that by (simp add: opt_str_def event_keys_fold)
    show ?thesis
      using p f(2) unfolding m_def
      by (cases "ev_Update e") (auto simp: event_of_members_def string_field_def time_field_def raw_field_def
          k o event_keys_def simp del: members_of_Cons)
  qed
  ultimately show thesis by (rule that)
qed

interpretation event_codec: line_codec "marshal_event tz" "unmarshal_event tz" id "event_ok tz"
proof
  fix t s p q
  assume t: "event_ok tz t"
  obtain m where m: "marshal_event tz t = Some (json_text (JObj m))" "wf_json (JObj m)"
      "event_of_members tz m = Some t"
    using t by (rule marshal_event_cases)
  show "unmarshal_event tz s = Some (id t)" if "marshal_event tz t = Some s"
    using that m json_parse_text [OF m(2)] by (simp add: unmarshal_event_def del: json_text.simps)
  show "unmarshal_event tz p = None" if "marshal_event tz t = Some (p @ q)" "q \<noteq> []"
    using that m json_prefix_None [OF m(2), of p q] by (simp add: unmarshal_event_def del: json_text.simps)
  show "s \<noteq> []" if "marshal_event tz t = Some s" using that m by auto
  show "list_all (\<lambda>c. 32 \<le> byte c) s" if "marshal_event tz t = Some s"
    using that m json_text_printable [OF m(2)] by (simp del: json_text.simps)
qed

section \<open>The file and the history agree\<close>

definition events_of :: "TaskEvent list \<Rightarrow> (string \<times> TaskEvent list) list" where
  "events_of es = foldl (\<lambda>m e. if validEvent e then add_event e m else m) [] es"

lemma events_of_snoc:
  "events_of (es @ [e]) = (if validEvent e then add_event e (events_of es) else events_of es)"
  by (simp add: events_of_def)

lemma replay_events_records: "replay_events tz f =
  (if snd (scan_lines f) then Inr (events_of (records (unmarshal_event tz) f)) else Inl ScanError)"
proof -
  have "foldl (replay_event tz) m ls =
      foldl (\<lambda>m e. if validEvent e then add_event e m else m) m (List.map_filter (unmarshal_event tz) ls)" for m ls
    by (induction ls arbitrary: m)
      (auto simp: replay_event_def List.map_filter_def split: option.split)
  then show ?thesis by (simp add: replay_events_def records_def events_of_def split: prod.split)
qed

definition log_inv :: "time_codec \<Rightarrow> EventLog \<Rightarrow> bool" where
  "log_inv tz l \<longleftrightarrow> scan_ok (el_file l) \<and>
     el_events l = events_of (records (unmarshal_event tz) (el_file l))"

definition event_fits :: "time_codec \<Rightarrow> TaskEvent \<Rightarrow> bool" where
  "event_fits tz e \<longleftrightarrow> event_ok tz e \<and>
     (case marshal_event tz e of Some s \<Rightarrow> length s < max_token | None \<Rightarrow> False)"

lemma event_fitsE:
  assumes "event_fits tz e"
  obtains d where "event_ok tz e" "marshal_event tz e = Some d" "length d < max_token"
  using assms by (auto simp: event_fits_def split: option.splits)

lemma trim_partial:
  assumes "complete f" "nl \<notin> set p"
  shows "trimPartialRecord (f @ p) = f"
proof (cases "p = []")
  case True
  with assms(1) show ?thesis by (auto simp: trimPartialRecord_def complete_def)
next
  case False
  then have "last p \<noteq> nl" using assms(2) last_in_set by metis
  moreover have "dropWhile (\<lambda>c. c \<noteq> nl) (rev p @ rev f) = rev f"
  proof -
    have "dropWhile (\<lambda>c. c \<noteq> nl) (rev p @ rev f) = dropWhile (\<lambda>c. c \<noteq> nl) (rev f)"
      using assms(2) by (intro dropWhile_append2) auto
    also have "\<dots> = rev f" using assms(1)
      by (cases "rev f") (auto simp: complete_def last_conv_nth rev_nth hd_rev [symmetric] dropWhile_eq_self_iff)
    finally show ?thesis .
  qed
  ultimately show ?thesis using False by (simp add: trimPartialRecord_def)
qed

lemma stamp_valid [simp]: "validEvent (stamp_event now e) \<longleftrightarrow> validEvent e"
  by (simp add: stamp_event_def validEvent_def)

lemma Append_cases:
  assumes "Append env e l = (err, l')"
  shows "(err \<noteq> None \<and> err \<noteq> Some EventAppendError \<and> l' = l) \<or>
    (\<exists>d f ok. validEvent e \<and> marshal_event (pe_tz env) (stamp_event (pe_now env) e) = Some d \<and>
       file_write (el_file l) (d @ [nl]) (pe_write env) = (f, ok) \<and>
       (if ok then err = None \<and> l' = l\<lparr>el_file := f,
            el_events := add_event (stamp_event (pe_now env) e) (el_events l),
            el_subscribers := map (\<lambda>(k, cs). (k, if k = ev_TaskID e then map signal cs else cs)) (el_subscribers l)\<rparr>
        else err = Some EventAppendError \<and> l' = l\<lparr>el_file := f\<rparr>))"
proof -
  have "ev_TaskID (stamp_event (pe_now env) e) = ev_TaskID e" by (simp add: stamp_event_def)
  then show ?thesis using assms
    by (auto simp: Append_def Let_def split: if_splits option.splits prod.splits)
qed

text \<open>
  The end of the file: whole records only, or one record behind them that was cut short inside, or
  lost: something was written behind a cut record, a cut fell between a record and its line feed, or
  a record was written that cannot be read back.
\<close>

datatype log_tail = Whole | Cut | Lost

definition tail_after :: "time_codec \<Rightarrow> event_log_error option \<Rightarrow> TaskEvent \<Rightarrow> EventLog \<Rightarrow> EventLog \<Rightarrow> log_tail \<Rightarrow> log_tail" where
  "tail_after tz err e l l' tail =
    (if el_file l' = el_file l then tail
     else if tail \<noteq> Whole \<or> \<not> event_fits tz e then Lost
     else if err = None then Whole
     else if length (el_file l') < length (el_file l) + length (the (marshal_event tz e)) then Cut
     else Lost)"

text \<open>
  The logs that the program reaches: a new file, appends with any event and any outcome of the write,
  subscribers, and restarts, which cut a torn record off.
\<close>

inductive log_reach :: "time_codec \<Rightarrow> log_tail \<Rightarrow> EventLog \<Rightarrow> bool" for tz where
  new: "OpenEventLog env tz None = Inr l \<Longrightarrow> log_reach tz Whole l"
| append: "log_reach tz tail l \<Longrightarrow> pe_tz env = tz \<Longrightarrow> Append env e l = (err, l') \<Longrightarrow>
    log_reach tz (tail_after tz err (stamp_event (pe_now env) e) l l' tail) l'"
| subscribe: "log_reach tz tail l \<Longrightarrow> Subscribe tid l = (history, cursor, ch, l') \<Longrightarrow> log_reach tz tail l'"
| cancel: "log_reach tz tail l \<Longrightarrow> log_reach tz tail (unsubscribe tid ch l)"
| restart: "log_reach tz tail l \<Longrightarrow> OpenEventLog env tz (Some (el_file l)) = Inr l' \<Longrightarrow>
    log_reach tz (if tail = Cut then Whole else tail) l'"

lemma OpenEventLog_Some:
  "OpenEventLog env tz (Some f) = Inr l \<Longrightarrow>
     el_file l = trimPartialRecord f \<and> el_events l = events_of (records (unmarshal_event tz) f)"
  by (auto simp: OpenEventLog_def replay_events_records split: if_splits sum.splits)

text \<open>A file of whole records and a piece of one more, which a restart cuts off.\<close>

definition cut_inv :: "time_codec \<Rightarrow> EventLog \<Rightarrow> bool" where
  "cut_inv tz l \<longleftrightarrow> (\<exists>f. scan_ok f \<and> trimPartialRecord (el_file l) = f \<and> snd (scan_lines (el_file l)) \<and>
     records (unmarshal_event tz) (el_file l) = records (unmarshal_event tz) f \<and>
     el_events l = events_of (records (unmarshal_event tz) f))"

definition tail_inv :: "time_codec \<Rightarrow> log_tail \<Rightarrow> EventLog \<Rightarrow> bool" where
  "tail_inv tz tail l = (case tail of Whole \<Rightarrow> log_inv tz l | Cut \<Rightarrow> cut_inv tz l | Lost \<Rightarrow> True)"

lemma log_inv_cut: "log_inv tz l \<Longrightarrow> cut_inv tz l"
  using trim_partial [of "el_file l" "[]"] by (auto simp: log_inv_def cut_inv_def scan_ok_def)

lemma tail_inv_same: "tail_inv tz tail l \<Longrightarrow> el_file l' = el_file l \<Longrightarrow> el_events l' = el_events l \<Longrightarrow> tail_inv tz tail l'"
  by (cases tail) (auto simp: tail_inv_def log_inv_def cut_inv_def)

lemma append_cut:
  assumes "log_inv tz l" and "event_fits tz e" and "marshal_event tz e = Some d" and "n < length d"
  shows "cut_inv tz (l\<lparr>el_file := el_file l @ take n d\<rparr>)"
proof -
  have d: "event_ok tz e" "length d < max_token" using assms(2,3) by (auto simp: event_fits_def)
  have ok: "scan_ok (el_file l)" using assms(1) by (simp add: log_inv_def)
  have nn: "nl \<notin> set (take n d)" using event_codec.one_line(1) [of tz e "take n d" "drop n d"] d(1) assms(3) by simp
  note c = event_codec.cut_short [OF d(1) assms(3) d(2) ok, of n]
  show ?thesis
    using trim_partial [OF _ nn, of "el_file l"] ok c assms(1,4) by (auto simp: cut_inv_def scan_ok_def log_inv_def)
qed

lemma append_tail:
  assumes "tail_inv (pe_tz env) tail l" and "Append env e l = (err, l')"
  shows "tail_inv (pe_tz env) (tail_after (pe_tz env) err (stamp_event (pe_now env) e) l l' tail) l'"
proof -
  let ?tz = "pe_tz env" and ?e = "stamp_event (pe_now env) e"
  let ?tail = "tail_after ?tz err ?e l l' tail"
  consider "l' = l" | d where "marshal_event ?tz ?e = Some d" "pe_write env = WriteOK" "err = None"
      "el_file l' = el_file l @ d @ [nl]" "el_events l' = add_event ?e (el_events l)" "validEvent e"
    | d n where "marshal_event ?tz ?e = Some d" "err \<noteq> None" "l' = l\<lparr>el_file := el_file l @ take n (d @ [nl])\<rparr>"
    using Append_cases [OF assms(2)] by (cases "pe_write env") (auto split: if_splits)
  then show ?thesis
  proof cases
    case 1
    with assms(1) show ?thesis by (simp add: tail_after_def)
  next
    case (2 d)
    show ?thesis
    proof (cases "tail = Whole \<and> event_fits ?tz ?e")
      case True
      then have d: "event_ok ?tz ?e" "length d < max_token" "log_inv ?tz l"
        using 2(1) assms(1) by (auto simp: event_fits_def tail_inv_def)
      with event_codec.written [OF d(1) 2(1) d(2), of "el_file l"] 2 True show ?thesis
        by (auto simp: tail_after_def tail_inv_def log_inv_def events_of_snoc)
    qed (use 2 in \<open>auto simp: tail_after_def tail_inv_def\<close>)
  next
    case (3 d n)
    show ?thesis
    proof (cases "tail = Whole \<and> event_fits ?tz ?e \<and> 0 < n \<and> n < length d")
      case True
      with append_cut [of ?tz l ?e d n] 3 assms(1) show ?thesis by (auto simp: tail_after_def tail_inv_def)
    next
      case False
      show ?thesis
      proof (cases "n = 0")
        case True
        with 3 tail_inv_same [OF assms(1), of l'] show ?thesis by (simp add: tail_after_def)
      qed (use False 3 in \<open>auto simp: tail_after_def tail_inv_def min_def\<close>)
    qed
  qed
qed

lemma log_reach_inv: "log_reach tz tail l \<Longrightarrow> tail_inv tz tail l"
proof (induction rule: log_reach.induct)
  case (new env l)
  then show ?case by (auto simp: OpenEventLog_def tail_inv_def log_inv_def events_of_def split: if_splits)
next
  case (append tail l env e err l')
  then show ?case using append_tail [of env tail l e err l'] by simp
next
  case (subscribe tail l tid history cursor ch l')
  then show ?case by (auto simp: Subscribe_def Let_def intro: tail_inv_same)
next
  case (cancel tail l tid ch)
  then show ?case by (auto simp: unsubscribe_def Let_def intro: tail_inv_same)
next
  case (restart tail l env l')
  show ?case
  proof (cases "tail = Lost")
    case False
    then have "cut_inv tz l" using restart(3) log_inv_cut by (cases tail) (auto simp: tail_inv_def)
    with OpenEventLog_Some [OF restart(2)] False show ?thesis
      by (cases tail) (auto simp: tail_inv_def log_inv_def cut_inv_def)
  qed (simp add: tail_inv_def)
qed

definition log_ok :: log_env where
  "log_ok = \<lparr>le_mkdir = True, le_chmod = True, le_read = True, le_tail = True, le_trim = True,
     le_open = True, le_fchmod = True\<rparr>"

text \<open>
  C15 A restart finds the history of every task as the process had it, with any events, subscribers,
  failed writes and earlier restarts on the way, as long as nothing was written behind a record that
  had been cut short: a record that is cut inside costs nothing but itself, and the restart takes it
  from the file. The three ways to lose an event are outside (\<open>Lost\<close>): an append behind a cut record
  without a restart between, a cut between a record and its line feed, and a record that is too long or
  cannot be read back.
\<close>

theorem event_log_durable:
  assumes "log_reach tz tail l" and "tail \<noteq> Lost"
  shows "\<exists>l'. OpenEventLog log_ok tz (Some (el_file l)) = Inr l' \<and> el_events l' = el_events l \<and>
           complete (el_file l') \<and> (tail = Whole \<longrightarrow> el_file l' = el_file l) \<and> log_reach tz Whole l'"
proof -
  have c: "cut_inv tz l" using log_reach_inv [OF assms(1)] assms(2) log_inv_cut by (cases tail) (auto simp: tail_inv_def)
  then obtain l' where l': "OpenEventLog log_ok tz (Some (el_file l)) = Inr l'"
    by (auto simp: OpenEventLog_def log_ok_def replay_events_records cut_inv_def)
  have "log_reach tz Whole l'" using log_reach.restart [OF assms(1) l'] assms(2) by (cases tail) simp_all
  moreover have "el_file l' = el_file l" if "tail = Whole"
    using log_reach_inv [OF assms(1)] that OpenEventLog_Some [OF l'] trim_partial [of "el_file l" "[]"]
    by (auto simp: tail_inv_def log_inv_def scan_ok_def)
  ultimately show ?thesis using OpenEventLog_Some [OF l'] l' c by (auto simp: cut_inv_def scan_ok_def)
qed

definition status_event :: "string \<Rightarrow> string \<Rightarrow> TaskEvent" where
  "status_event tid to = \<lparr>ev_TaskID = tid, ev_Timestamp = 0, ev_Type = EventStatus, ev_Update = RawEmpty,
     ev_From = [], ev_To = to\<rparr>"

definition sample_append_env :: "write_result \<Rightarrow> append_env" where
  "sample_append_env w = \<lparr>pe_tz = decimal_times, pe_now = 5, pe_write = w\<rparr>"

definition empty_log :: EventLog where
  "empty_log = \<lparr>el_file = [], el_events = [], el_subscribers = [], el_next = 0\<rparr>"

definition crashed_log :: EventLog where
  "crashed_log = projr (OpenEventLog log_ok decimal_times (Some (el_file
     (snd (Append (sample_append_env (WriteFail 9)) (status_event ''t1'' StatusQueued) empty_log)))))"

definition resumed_log :: EventLog where
  "resumed_log = snd (Append (sample_append_env WriteOK) (status_event ''t1'' StatusQueued) crashed_log)"

theorem event_log_durable_witness:
  "map_option (length) (map_of (el_events (projr (OpenEventLog log_ok decimal_times
     (Some (el_file resumed_log))))) ''t1'') = Some 1"
proof -
  let ?e = "status_event ''t1'' StatusQueued"
  let ?l = "snd (Append (sample_append_env (WriteFail 9)) ?e empty_log)"
  have tz: "pe_tz (sample_append_env w) = decimal_times" for w by (simp add: sample_append_env_def)
  have a: "log_reach decimal_times Whole empty_log" by (rule log_reach.new [of log_ok]) code_simp
  have "log_reach decimal_times (tail_after decimal_times (fst (Append (sample_append_env (WriteFail 9)) ?e empty_log))
      (stamp_event (pe_now (sample_append_env (WriteFail 9))) ?e) empty_log ?l Whole) ?l"
    by (rule log_reach.append [OF a tz]) simp
  moreover have "tail_after decimal_times (fst (Append (sample_append_env (WriteFail 9)) ?e empty_log))
      (stamp_event (pe_now (sample_append_env (WriteFail 9))) ?e) empty_log ?l Whole = Cut" by code_simp
  ultimately have "log_reach decimal_times Cut ?l" by simp
  moreover have "OpenEventLog log_ok decimal_times (Some (el_file ?l)) = Inr crashed_log" by code_simp
  ultimately have c: "log_reach decimal_times Whole crashed_log" using log_reach.restart [of decimal_times Cut ?l log_ok] by simp
  have "log_reach decimal_times (tail_after decimal_times (fst (Append (sample_append_env WriteOK) ?e crashed_log))
      (stamp_event (pe_now (sample_append_env WriteOK)) ?e) crashed_log resumed_log Whole) resumed_log"
    unfolding resumed_log_def by (rule log_reach.append [OF c tz]) simp
  moreover have "tail_after decimal_times (fst (Append (sample_append_env WriteOK) ?e crashed_log))
      (stamp_event (pe_now (sample_append_env WriteOK)) ?e) crashed_log resumed_log Whole = Whole" by code_simp
  ultimately have "log_reach decimal_times Whole resumed_log" by simp
  from event_log_durable [OF this] have
    "el_events (projr (OpenEventLog log_ok decimal_times (Some (el_file resumed_log)))) = el_events resumed_log"
    by auto
  moreover have "map_option length (map_of (el_events resumed_log) ''t1'') = Some 1" by code_simp
  ultimately show ?thesis by simp
qed

definition whole_length :: nat where
  "whole_length = length (the (marshal_event decimal_times (stamp_event 5 (status_event ''t1'' StatusQueued))))"

definition whole_log :: EventLog where
  "whole_log = projr (OpenEventLog log_ok decimal_times (Some (el_file
     (snd (Append (sample_append_env (WriteFail whole_length)) (status_event ''t1'' StatusQueued) empty_log)))))"

text \<open>
  When a crash leaves a whole record without its line feed, \<open>OpenEventLog\<close> replays the record and
  then trims it from the file: the event is in the history of this run and gone after the next start.
\<close>

theorem unterminated_record_lost:
  "length (get_list ''t1'' (el_events whole_log)) = 1 \<and> el_file whole_log = [] \<and>
   get_list ''t1'' (el_events (projr (OpenEventLog log_ok decimal_times (Some (el_file whole_log))))) = []"
  by code_simp

text \<open>
  An append that breaks off inside the record leaves the piece in the file: the next event of the same
  process is glued to it, acknowledged, delivered, and gone after a restart.
\<close>

definition glued_log :: EventLog where
  "glued_log = snd (Append (sample_append_env WriteOK) (status_event ''t1'' StatusQueued)
     (snd (Append (sample_append_env (WriteFail 9)) (status_event ''t1'' StatusQueued) empty_log)))"

lemma glued_event_lost:
  "length (get_list ''t1'' (el_events glued_log)) = 1 \<and>
   get_list ''t1'' (el_events (projr (OpenEventLog log_ok decimal_times (Some (el_file glued_log))))) = []"
  by code_simp

section \<open>Subscribers miss nothing\<close>

definition has_signal :: "string \<Rightarrow> nat \<Rightarrow> EventLog \<Rightarrow> bool" where
  "has_signal tid ch l \<longleftrightarrow> list_ex (\<lambda>c. ch_id c = ch \<and> ch_signal c) (get_list tid (el_subscribers l))"

text \<open>Receiving the signal of a channel.\<close>

definition take_signal :: "string \<Rightarrow> nat \<Rightarrow> EventLog \<Rightarrow> EventLog option" where
  "take_signal tid ch l =
    (if has_signal tid ch l then
       Some (l\<lparr>el_subscribers := map_put tid
         (map (\<lambda>c. if ch_id c = ch then c\<lparr>ch_signal := False\<rparr> else c) (get_list tid (el_subscribers l)))
         (el_subscribers l)\<rparr>)
     else None)"

text \<open>
  A subscriber that follows the documented protocol, with the log, its cursor and the events it
  has received, while events of any task are appended and other subscribers come and go.
\<close>

inductive follow :: "string \<Rightarrow> nat \<Rightarrow> EventLog \<Rightarrow> int \<Rightarrow> TaskEvent list \<Rightarrow> bool" for tid ch where
  start: "Subscribe tid l = (history, cursor, ch, l') \<Longrightarrow> follow tid ch l' cursor history"
| appended: "follow tid ch l cursor seen \<Longrightarrow> Append env e l = (err, l') \<Longrightarrow> follow tid ch l' cursor seen"
| woken: "follow tid ch l cursor seen \<Longrightarrow> take_signal tid ch l = Some l' \<Longrightarrow>
    EventsAfter tid cursor l' = (evs, cursor') \<Longrightarrow> follow tid ch l' cursor' (seen @ evs)"
| joined: "follow tid ch l cursor seen \<Longrightarrow> Subscribe tid2 l = (h, c2, ch2, l') \<Longrightarrow> follow tid ch l' cursor seen"
| left: "follow tid ch l cursor seen \<Longrightarrow> ch2 \<noteq> ch \<Longrightarrow> follow tid ch (unsubscribe tid2 ch2 l) cursor seen"

definition follow_inv :: "string \<Rightarrow> nat \<Rightarrow> EventLog \<Rightarrow> int \<Rightarrow> TaskEvent list \<Rightarrow> bool" where
  "follow_inv tid ch l cursor seen \<longleftrightarrow>
     cursor = int (length seen) \<and> seen = take (length seen) (get_list tid (el_events l)) \<and>
     list_ex (\<lambda>c. ch_id c = ch) (get_list tid (el_subscribers l)) \<and>
     (seen \<noteq> get_list tid (el_events l) \<longrightarrow> has_signal tid ch l)"

lemma get_list_put [simp]: "get_list k (map_put k' v m) = (if k = k' then v else get_list k m)"
  by (simp add: get_list_def)

lemma get_list_del [simp]: "get_list k (map_del k' m) = (if k = k' then [] else get_list k m)"
  by (simp add: get_list_def)

lemma get_list_signal:
  "get_list k (map (\<lambda>(k, cs). (k, if k = x then map f cs else cs)) m) =
     (if k = x then map f (get_list k m) else get_list k m)"
  by (induction m) (auto simp: get_list_def)

lemma follow_inv_append:
  assumes "follow_inv tid ch l cursor seen" "Append env e l = (err, l')"
  shows "follow_inv tid ch l' cursor seen"
proof -
  have id: "ev_TaskID (stamp_event (pe_now env) e) = ev_TaskID e" by (simp add: stamp_event_def)
  have le: "length seen \<le> length (get_list tid (el_events l))"
    using assms(1) unfolding follow_inv_def by (metis length_take min.cobounded1 min_def)
  from Append_cases [OF assms(2)] show ?thesis
  proof (elim disjE exE conjE)
    assume "l' = l"
    with assms(1) show ?thesis by simp
  next
    fix d f ok
    assume *: "if ok then err = None \<and> l' = l\<lparr>el_file := f,
            el_events := add_event (stamp_event (pe_now env) e) (el_events l),
            el_subscribers := map (\<lambda>(k, cs). (k, if k = ev_TaskID e then map signal cs else cs)) (el_subscribers l)\<rparr>
        else err = Some EventAppendError \<and> l' = l\<lparr>el_file := f\<rparr>"
    show ?thesis
    proof (cases "ok \<and> ev_TaskID e = tid")
      case True
      with * assms(1) id le show ?thesis
        by (auto simp: follow_inv_def has_signal_def add_event_def get_list_signal list_ex_iff signal_def)
    next
      case False
      with * assms(1) id show ?thesis
        by (auto simp: follow_inv_def has_signal_def add_event_def get_list_signal split: if_splits)
    qed
  qed
qed

lemma list_ex_clear:
  "list_ex (\<lambda>c. ch_id c = ch) (map (\<lambda>c. if ch_id c = ch then c\<lparr>ch_signal := False\<rparr> else c) cs) =
   list_ex (\<lambda>c. ch_id c = ch) cs"
  by (induction cs) auto

lemma follow_inv_woken:
  assumes "follow_inv tid ch l cursor seen" "take_signal tid ch l = Some l'"
    "EventsAfter tid cursor l' = (evs, cursor')"
  shows "follow_inv tid ch l' cursor' (seen @ evs)"
proof -
  let ?es = "get_list tid (el_events l)"
  have ex: "list_ex (\<lambda>c. ch_id c = ch) (get_list tid (el_subscribers l))"
    using assms(1) unfolding follow_inv_def by blast
  have l': "l' = l\<lparr>el_subscribers := map_put tid
         (map (\<lambda>c. if ch_id c = ch then c\<lparr>ch_signal := False\<rparr> else c) (get_list tid (el_subscribers l)))
         (el_subscribers l)\<rparr>"
    using assms(2) by (simp add: take_signal_def split: if_splits)
  have same: "el_events l' = el_events l"
    "list_ex (\<lambda>c. ch_id c = ch) (get_list tid (el_subscribers l'))"
    using ex by (simp_all add: l' list_ex_clear)
  have s: "seen = take (length seen) ?es" "cursor = int (length seen)" using assms(1) by (auto simp: follow_inv_def)
  then have "length seen \<le> length ?es" by (metis length_take min.cobounded1 min_def)
  then have e: "evs = drop (length seen) ?es" "cursor' = int (length ?es)"
    using assms(3) s(2) by (auto simp: EventsAfter_def same Let_def split: if_splits)
  have "seen @ evs = ?es" using s(1) e(1) by (metis append_take_drop_id)
  then show ?thesis using same e(2) by (simp add: follow_inv_def)
qed

lemma follow_keeps: "follow tid ch l cursor seen \<Longrightarrow> follow_inv tid ch l cursor seen"
proof (induction rule: follow.induct)
  case (start l history cursor l')
  then show ?case by (auto simp: Subscribe_def follow_inv_def Let_def)
next
  case (appended l cursor seen env e err l')
  then show ?case using follow_inv_append by blast
next
  case (woken l cursor seen l' evs cursor')
  then show ?case using follow_inv_woken by blast
next
  case (joined l cursor seen tid2 h c2 ch2 l')
  then show ?case by (auto simp: Subscribe_def follow_inv_def has_signal_def Let_def)
next
  case (left l cursor seen ch2 tid2)
  let ?cs = "filter (\<lambda>x. ch_id x \<noteq> ch2) (get_list tid (el_subscribers l))"
  have "?cs \<noteq> []" using left by (auto simp: follow_inv_def list_ex_iff filter_empty_conv)
  moreover have "list_ex (\<lambda>c. ch_id c = ch) ?cs = list_ex (\<lambda>c. ch_id c = ch) (get_list tid (el_subscribers l))"
    "list_ex (\<lambda>c. ch_id c = ch \<and> ch_signal c) ?cs =
     list_ex (\<lambda>c. ch_id c = ch \<and> ch_signal c) (get_list tid (el_subscribers l))"
    using left(2) by (auto simp: list_ex_iff)
  ultimately show ?case using left(3)
    by (auto simp: unsubscribe_def follow_inv_def has_signal_def Let_def)
qed

text \<open>
  C16 A subscriber that asks for the events after its cursor whenever it is woken has received the
  events of its task in order, each once: what it has seen is always the beginning of the history,
  and the whole history when no signal waits, although the channel holds one signal only.
\<close>

theorem subscriber_misses_nothing:
  assumes "follow tid ch l cursor seen"
  shows "seen = take (length seen) (get_list tid (el_events l)) \<and> cursor = int (length seen) \<and>
         (\<not> has_signal tid ch l \<longrightarrow> seen = get_list tid (el_events l))"
  using follow_keeps [OF assms] by (auto simp: follow_inv_def)

definition followed_log :: EventLog where
  "followed_log = snd (Append (sample_append_env WriteOK) (status_event ''t1'' StatusWorking)
     (snd (Append (sample_append_env WriteOK) (status_event ''t1'' StatusQueued)
        (snd (snd (snd (Subscribe ''t1'' empty_log)))))))"

definition woken_log :: EventLog where
  "woken_log = the (take_signal ''t1'' 0 followed_log)"

theorem subscriber_misses_nothing_witness:
  "\<exists>seen. follow ''t1'' 0 woken_log 2 seen \<and> seen = get_list ''t1'' (el_events woken_log) \<and> length seen = 2"
proof -
  have "follow ''t1'' 0 (snd (snd (snd (Subscribe ''t1'' empty_log)))) 0 []"
    by (rule follow.start [of _ empty_log]) code_simp
  then have "follow ''t1'' 0 followed_log 0 []"
    unfolding followed_log_def by (intro follow.appended [OF _ surjective_pairing])
  moreover have "take_signal ''t1'' 0 followed_log = Some woken_log" by code_simp
  moreover have "EventsAfter ''t1'' 0 woken_log = (get_list ''t1'' (el_events woken_log), 2)" by code_simp
  ultimately have f: "follow ''t1'' 0 woken_log 2 ([] @ get_list ''t1'' (el_events woken_log))"
    by (rule follow.woken)
  show ?thesis using subscriber_misses_nothing [OF f] f by (intro exI [of _ "get_list ''t1'' (el_events woken_log)"]) simp
qed

end
