(* ===== verification/Dispatch.thy ===== *)
theory Dispatch
  imports Task_Store
begin

text \<open>
  The dispatch of a task to a worker: the git workspace (\<^verbatim>\<open>src/ai-dispatch/workspace.go\<close>) and the
  orchestrator (\<^verbatim>\<open>src/ai-dispatch/orchestrator.go\<close>). What happens outside the program is the
  environment of a run: git, the worker behind the ACP client, the clock, the context and the
  outcome of each write; each answer may depend on the number of the interaction, so the
  environment can change its mind at any point. The world records the store, the git commands
  that ran, the sessions that were asked for and the status events that were published.
  \<open>Run\<close> is the sequence of its stages; an error of a stage goes to \<open>fail\<close>, the end of the context
  during the prompt to \<open>cancelInto\<close>. Progress updates and permission requests of the worker are
  passed through to callbacks and not modelled.
\<close>

section \<open>The environment of a run\<close>

text \<open>The errors of a run; the wording of those that other packages make is a parameter.\<close>

datatype dispatch_error =
    StoreErr store_error | TransErr transition_error | Told string | Extern string string | CtxErr

record dispatch_env =
  de_cancelled :: "nat \<Rightarrow> bool"
  de_git :: "nat \<Rightarrow> string \<Rightarrow> string list \<Rightarrow> string + string"
  de_tz :: time_codec
  de_now :: "nat \<Rightarrow> time"
  de_write :: "nat \<Rightarrow> write_result"
  de_home :: "string option"
  de_start :: "string option"
  de_init :: "string + bool"
  de_load :: "nat \<Rightarrow> string \<Rightarrow> string \<Rightarrow> string option"
  de_new :: "nat \<Rightarrow> string \<Rightarrow> string + string"
  de_prompt :: "string \<Rightarrow> string \<Rightarrow> string + string"
  de_listener :: bool
  de_text :: "dispatch_error \<Rightarrow> string"

datatype acp_call = LoadCall string string | NewCall string | PromptCall string string

record world =
  w_step :: nat
  w_store :: Store
  w_git :: "(string \<times> string list) list"
  w_acp :: "acp_call list"
  w_events :: "(string \<times> string \<times> string) list"

definition tick :: "world \<Rightarrow> world" where
  "tick w = w\<lparr>w_step := Suc (w_step w)\<rparr>"

section \<open>Git\<close>

text \<open>
  \<open>runGit\<close>: with a context that is done, the command is not started; otherwise it runs and answers
  with its output or an error.
\<close>

definition runGit :: "dispatch_env \<Rightarrow> string \<Rightarrow> string list \<Rightarrow> world \<Rightarrow> (string + string) \<times> world" where
  "runGit env dir args w =
    (if de_cancelled env (w_step w) then (Inl ''context canceled'', tick w)
     else (de_git env (w_step w) dir args, tick (w\<lparr>w_git := w_git w @ [(dir, args)]\<rparr>)))"

definition DetectGit :: "dispatch_env \<Rightarrow> string \<Rightarrow> world \<Rightarrow> bool \<times> world" where
  "DetectGit env dir w =
    (case runGit env dir [''rev-parse'', ''--is-inside-work-tree''] w of (out, w) \<Rightarrow>
       ((case out of Inr t \<Rightarrow> TrimSpace t = ''true'' | Inl _ \<Rightarrow> False), w))"

definition HeadCommit :: "dispatch_env \<Rightarrow> string \<Rightarrow> world \<Rightarrow> (string + string) \<times> world" where
  "HeadCommit env dir w =
    (case runGit env dir [''rev-parse'', ''HEAD''] w of (out, w) \<Rightarrow> (map_sum id TrimSpace out, w))"

definition AddWorktree :: "dispatch_env \<Rightarrow> string \<Rightarrow> string \<Rightarrow> string \<Rightarrow> world \<Rightarrow> string option \<times> world" where
  "AddWorktree env repo path branch w =
    (case runGit env repo [''worktree'', ''add'', path, ''-b'', branch] w of (out, w) \<Rightarrow>
       ((case out of Inl e \<Rightarrow> Some e | Inr _ \<Rightarrow> None), w))"

definition RemoveWorktree ::
  "dispatch_env \<Rightarrow> string \<Rightarrow> string \<Rightarrow> string \<Rightarrow> bool \<Rightarrow> world \<Rightarrow> string option \<times> world" where
  "RemoveWorktree env repo path branch deleteBranch w =
    (case runGit env repo [''worktree'', ''remove'', ''--force'', path] w of
       (Inl e, w) \<Rightarrow> (Some e, w)
     | (Inr _, w) \<Rightarrow>
         if deleteBranch then
           (case runGit env repo [''branch'', ''-D'', branch] w of
              (Inl e, w) \<Rightarrow> (Some e, w)
            | (Inr _, w) \<Rightarrow> (None, w))
         else (None, w))"

definition commit_lines :: "string \<Rightarrow> string list" where
  "commit_lines out = filter (\<lambda>l. l \<noteq> []) (map TrimSpace (Split (TrimSpace out) nl))"

definition CollectCommits :: "dispatch_env \<Rightarrow> string \<Rightarrow> string \<Rightarrow> world \<Rightarrow> (string + string list) \<times> world" where
  "CollectCommits env dir base w =
    (case runGit env dir [''log'', ''--oneline'', base @ ''..HEAD''] w of (out, w) \<Rightarrow>
       (map_sum id commit_lines out, w))"

section \<open>Saving, failing, cancelling\<close>

definition store_env_at :: "dispatch_env \<Rightarrow> world \<Rightarrow> store_env" where
  "store_env_at env w =
    \<lparr>se_tz = de_tz env, se_now = de_now env (w_step w), se_write = de_write env (w_step w)\<rparr>"

definition save :: "dispatch_env \<Rightarrow> Task \<Rightarrow> world \<Rightarrow> store_error option \<times> Task \<times> world" where
  "save env t w =
    (let old = Get (w_store w) (tk_ID t);
         (err, t, s) = (if old \<noteq> None then Update (store_env_at env w) t (w_store w)
                        else store_Add (store_env_at env w) t (w_store w));
         was = (case old of Some o' \<Rightarrow> tk_Status o' | None \<Rightarrow> []);
         w = tick (w\<lparr>w_store := s\<rparr>)
     in (err, t,
         if err = None \<and> de_listener env \<and> was \<noteq> tk_Status t
         then w\<lparr>w_events := w_events w @ [(tk_ID t, was, tk_Status t)]\<rparr> else w))"

definition cleanupCodeWorkspace :: "dispatch_env \<Rightarrow> Task \<Rightarrow> world \<Rightarrow> world" where
  "cleanupCodeWorkspace env t w =
    (if tk_Kind t \<noteq> KindCode \<or> tk_Worktree t = [] then w
     else snd (RemoveWorktree env (tk_Repo t) (tk_Worktree t) (tk_Branch t) False w))"

definition dispatch_fail :: "dispatch_env \<Rightarrow> dispatch_error \<Rightarrow> Task \<Rightarrow> world \<Rightarrow> Task \<times> world" where
  "dispatch_fail env cause t w =
    (case FailInto (de_now env (w_step w)) (de_text env cause) t of
       Inl _ \<Rightarrow> (case save env t w of (_, t, w) \<Rightarrow> (t, w))
     | Inr t \<Rightarrow> (case save env t w of (_, t, w) \<Rightarrow> (t, cleanupCodeWorkspace env t w)))"

definition cancelInto :: "dispatch_env \<Rightarrow> dispatch_error \<Rightarrow> Task \<Rightarrow> world \<Rightarrow> Task \<times> world" where
  "cancelInto env cause t w =
    (let t = (case Transition (de_now env (w_step w)) StatusCancelled t of
                Inr t' \<Rightarrow> t'
              | Inl _ \<Rightarrow> (case FailInto (de_now env (w_step w)) (de_text env cause) t of
                            Inr t' \<Rightarrow> t' | Inl _ \<Rightarrow> t))
     in (case save env t w of (_, t, w) \<Rightarrow> (t, cleanupCodeWorkspace env t w)))"

section \<open>Before the worker\<close>

definition code_branch :: "Task \<Rightarrow> string" where
  "code_branch t = ''dispatch/'' @ tk_ID t"

definition code_worktree :: "Task \<Rightarrow> string" where
  "code_worktree t = path_join [tk_Repo t, ''.goworker'', ''dispatch'', tk_ID t]"

definition prepare :: "dispatch_env \<Rightarrow> Task \<Rightarrow> world \<Rightarrow> dispatch_error option \<times> Task \<times> world" where
  "prepare env t w =
    (if tk_Kind t = KindCode then
       if tk_Repo t = [] then (Some (Told ''code task requires repo''), t, w)
       else (case DetectGit env (tk_Repo t) w of (git, w) \<Rightarrow>
         if \<not> git then (Some (Told (''repo '' @ tk_Repo t @ '' is not a git work tree'')), t, w)
         else (case HeadCommit env (tk_Repo t) w of
             (Inl e, w) \<Rightarrow> (Some (Extern ''resolve HEAD'' e), t, w)
           | (Inr base, w) \<Rightarrow>
               let t = t\<lparr>tk_BaseCommit := base, tk_Branch := code_branch t, tk_Worktree := code_worktree t\<rparr>
               in (case AddWorktree env (tk_Repo t) (tk_Worktree t) (tk_Branch t) w of
                     (Some e, w) \<Rightarrow> (Some (Extern ''add worktree'' e), t, w)
                   | (None, w) \<Rightarrow> (None, t, w))))
     else if tk_Kind t = KindGeneral then
       if tk_Repo t = [] then
         (case de_home env of
            None \<Rightarrow> (Some (Told ''general task without repo requires home dir''), t, w)
          | Some home \<Rightarrow> (None, t\<lparr>tk_Repo := home\<rparr>, w))
       else (None, t, w)
     else (Some (Told (''invalid kind '' @ tk_Kind t)), t, w))"

definition verifyWorkspace :: "dispatch_env \<Rightarrow> Task \<Rightarrow> world \<Rightarrow> dispatch_error option \<times> world" where
  "verifyWorkspace env t w =
    (if tk_Kind t \<noteq> KindCode \<or> tk_Worktree t = [] then (None, w)
     else (case DetectGit env (tk_Worktree t) w of (git, w) \<Rightarrow>
       ((if git then None
         else Some (Told (''worktree '' @ tk_Worktree t @ '' is gone or not a git work tree''))), w)))"

section \<open>The run\<close>

text \<open>
  The state of a run: the task, the world, and the local variables of \<open>Run\<close>. A stage may fail;
  \<open>seq\<close> composes stages.
\<close>

record run_state =
  rs_task :: Task
  rs_world :: world
  rs_worker :: bool
  rs_loadable :: bool
  rs_session :: string
  rs_stop :: string

type_synonym stage = "run_state \<Rightarrow> dispatch_error option \<times> run_state"

fun seq :: "stage list \<Rightarrow> stage" where
  "seq [] r = (None, r)"
| "seq (f # fs) r = (case f r of (Some e, r) \<Rightarrow> (Some e, r) | (None, r) \<Rightarrow> seq fs r)"

definition save_stage :: "dispatch_env \<Rightarrow> stage" where
  "save_stage env r =
    (case save env (rs_task r) (rs_world r) of (err, t, w) \<Rightarrow>
       (map_option StoreErr err, r\<lparr>rs_task := t, rs_world := w\<rparr>))"

definition move_stage :: "dispatch_env \<Rightarrow> string \<Rightarrow> stage" where
  "move_stage env to r =
    (case Transition (de_now env (w_step (rs_world r))) to (rs_task r) of
       Inl e \<Rightarrow> (Some (TransErr e), r)
     | Inr t \<Rightarrow> (None, r\<lparr>rs_task := t\<rparr>))"

definition prepare_stage :: "dispatch_env \<Rightarrow> stage" where
  "prepare_stage env r =
    (case prepare env (rs_task r) (rs_world r) of (err, t, w) \<Rightarrow> (err, r\<lparr>rs_task := t, rs_world := w\<rparr>))"

definition verify_stage :: "dispatch_env \<Rightarrow> stage" where
  "verify_stage env r =
    (case verifyWorkspace env (rs_task r) (rs_world r) of (err, w) \<Rightarrow> (err, r\<lparr>rs_world := w\<rparr>))"

definition start_stage :: "dispatch_env \<Rightarrow> stage" where
  "start_stage env r =
    (case de_start env of
       Some e \<Rightarrow> (Some (Extern ''start'' e), r)
     | None \<Rightarrow>
         let r = r\<lparr>rs_worker := True\<rparr> in
         (case de_init env of
            Inl e \<Rightarrow> (Some (Extern ''initialize worker'' e), r)
          | Inr caps \<Rightarrow> (None, r\<lparr>rs_loadable := caps\<rparr>)))"

definition task_cwd :: "Task \<Rightarrow> string" where
  "task_cwd t = (if tk_Worktree t = [] then tk_Repo t else tk_Worktree t)"

definition acp :: "acp_call \<Rightarrow> run_state \<Rightarrow> run_state" where
  "acp c r = r\<lparr>rs_world := tick ((rs_world r)\<lparr>w_acp := w_acp (rs_world r) @ [c]\<rparr>)\<rparr>"

definition new_session :: "dispatch_env \<Rightarrow> string \<Rightarrow> stage" where
  "new_session env what r =
    (let cwd = task_cwd (rs_task r) in
     (case de_new env (w_step (rs_world r)) cwd of
        Inl e \<Rightarrow> (Some (Extern what e), acp (NewCall cwd) r)
      | Inr sid \<Rightarrow>
          (None, (acp (NewCall cwd) r)\<lparr>rs_task := (rs_task r)\<lparr>tk_WorkerSession := sid\<rparr>, rs_session := sid\<rparr>)))"

definition establishSession :: "dispatch_env \<Rightarrow> bool \<Rightarrow> stage" where
  "establishSession env resuming r =
    (let old = tk_WorkerSession (rs_task r); cwd = task_cwd (rs_task r) in
     if resuming \<and> old \<noteq> [] \<and> rs_loadable r then
       (case de_load env (w_step (rs_world r)) old cwd of
          None \<Rightarrow> new_session env ''new session after failed load'' (acp (LoadCall old cwd) r)
        | Some sid \<Rightarrow>
            (None, (acp (LoadCall old cwd) r)
                     \<lparr>rs_task := (rs_task r)\<lparr>tk_WorkerSession := sid\<rparr>, rs_session := sid\<rparr>))
     else new_session env ''new session'' r)"

definition working_stage :: "dispatch_env \<Rightarrow> stage" where
  "working_stage env r =
    (if tk_Status (rs_task r) \<noteq> StatusWorking then move_stage env StatusWorking r else (None, r))"

definition prompt_stage :: "dispatch_env \<Rightarrow> stage" where
  "prompt_stage env r =
    (let r2 = acp (PromptCall (rs_session r) (tk_Prompt (rs_task r))) r in
     (case de_prompt env (rs_session r) (tk_Prompt (rs_task r)) of
        Inr stop \<Rightarrow> (None, r2\<lparr>rs_stop := stop\<rparr>)
      | Inl e \<Rightarrow>
          (Some (if de_cancelled env (w_step (rs_world r2)) then CtxErr else Extern ''prompt'' e), r2)))"

definition collect_stage :: "dispatch_env \<Rightarrow> stage" where
  "collect_stage env r =
    (if tk_Kind (rs_task r) = KindCode then
       (case CollectCommits env (tk_Worktree (rs_task r)) (tk_BaseCommit (rs_task r)) (rs_world r) of
          (Inl e, w) \<Rightarrow> (Some (Extern ''collect commits'' e), r\<lparr>rs_world := w\<rparr>)
        | (Inr commits, w) \<Rightarrow>
            (None, r\<lparr>rs_world := w, rs_task := (rs_task r)\<lparr>tk_Commits := commits\<rparr>\<rparr>))
     else (None, r))"

definition resuming :: "Task \<Rightarrow> bool" where
  "resuming t \<longleftrightarrow> tk_Status t = StatusDispatching \<or> tk_Status t = StatusWorking"

definition run_stages :: "dispatch_env \<Rightarrow> bool \<Rightarrow> stage list" where
  "run_stages env res =
    (if res then [verify_stage env]
     else [prepare_stage env, save_stage env, move_stage env StatusDispatching, save_stage env]) @
    [start_stage env, establishSession env res, working_stage env, save_stage env, prompt_stage env,
     collect_stage env, move_stage env StatusAwaitingReview, save_stage env]"

text \<open>
  \<open>Run\<close>: the error or the stop reason, the task, and the world. The worker is closed on every way
  out, which is the end of the run state.
\<close>

definition Run :: "dispatch_env \<Rightarrow> Task \<Rightarrow> world \<Rightarrow> (dispatch_error + string) \<times> Task \<times> world" where
  "Run env t w =
    (let res = resuming t in
     (case (if res then (None, t, w) else save env t w) of
        (Some err, t, w) \<Rightarrow> (Inl (StoreErr err), t, w)
      | (None, t, w) \<Rightarrow>
          (case seq (run_stages env res)
                  \<lparr>rs_task = t, rs_world = w, rs_worker = False, rs_loadable = False, rs_session = [], rs_stop = []\<rparr> of
             (None, r) \<Rightarrow> (Inr (rs_stop r), rs_task r, rs_world r)
           | (Some CtxErr, r) \<Rightarrow>
               (case cancelInto env CtxErr (rs_task r) (rs_world r) of (t, w) \<Rightarrow> (Inl CtxErr, t, w))
           | (Some err, r) \<Rightarrow>
               (case dispatch_fail env err (rs_task r) (rs_world r) of (t, w) \<Rightarrow> (Inl err, t, w)))))"

section \<open>Reasoning about stages\<close>

text \<open>
  A triple for a sequence of stages: from \<open>P\<close>, the sequence ends without error in \<open>Q\<close> or with an
  error in \<open>R\<close>.
\<close>

definition stages :: "(run_state \<Rightarrow> bool) \<Rightarrow> stage list \<Rightarrow> (run_state \<Rightarrow> bool) \<Rightarrow> (run_state \<Rightarrow> bool) \<Rightarrow> bool" where
  "stages P fs Q R \<longleftrightarrow>
    (\<forall>r e r'. P r \<longrightarrow> seq fs r = (e, r') \<longrightarrow> (if e = None then Q r' else R r'))"

lemma seq_append:
  "seq (fs @ gs) r = (case seq fs r of (Some e, r) \<Rightarrow> (Some e, r) | (None, r) \<Rightarrow> seq gs r)"
  by (induction fs arbitrary: r) (auto split: prod.splits option.splits)

lemma stages_append:
  assumes "stages P fs Q R" "stages Q gs Q' R"
  shows "stages P (fs @ gs) Q' R"
  unfolding stages_def
proof (intro allI impI)
  fix r e r'
  assume r: "P r" "seq (fs @ gs) r = (e, r')"
  obtain e1 r1 where f: "seq fs r = (e1, r1)" by (cases "seq fs r")
  show "if e = None then Q' r' else R r'"
  proof (cases e1)
    case None
    with f r assms(1) have "Q r1" by (auto simp: stages_def)
    with None f r(2) assms(2) show ?thesis by (auto simp: stages_def seq_append)
  next
    case (Some x)
    with f r assms(1) show ?thesis by (auto simp: stages_def seq_append)
  qed
qed

lemma stages_Cons: "stages P [f] Q R \<Longrightarrow> stages Q (g # gs) Q' R \<Longrightarrow> stages P (f # g # gs) Q' R"
  using stages_append [of P "[f]" Q R "g # gs" Q'] by simp

lemma stages_Cons2:
  "stages P [f, g] Q R \<Longrightarrow> stages Q (h # hs) Q' R \<Longrightarrow> stages P (f # g # h # hs) Q' R"
  using stages_append [of P "[f, g]" Q R "h # hs" Q'] by simp

lemma seq_one [simp]: "seq [f] r = f r"
  by (simp split: prod.split option.split)

lemma stages_one:
  "(\<And>r e r'. P r \<Longrightarrow> f r = (e, r') \<Longrightarrow> if e = None then Q r' else R r') \<Longrightarrow> stages P [f] Q R"
  by (simp add: stages_def del: seq.simps)

lemma stages_keep: "(\<And>r. P r \<Longrightarrow> P (snd (f r))) \<Longrightarrow> (\<And>r. P r \<Longrightarrow> R r) \<Longrightarrow> stages P [f] P R"
  by (rule stages_one) (metis snd_conv)

lemma stagesD:
  assumes "stages P fs Q R" "P r" "seq fs r = (e, r')"
  shows "if e = None then Q r' else R r'"
  using assms unfolding stages_def by blast

text \<open>What the stages other than saving and moving leave alone.\<close>

definition same_core :: "run_state \<Rightarrow> run_state \<Rightarrow> bool" where
  "same_core r r' \<longleftrightarrow>
     tk_ID (rs_task r') = tk_ID (rs_task r) \<and> tk_Status (rs_task r') = tk_Status (rs_task r) \<and>
     tk_Kind (rs_task r') = tk_Kind (rs_task r) \<and>
     w_store (rs_world r') = w_store (rs_world r) \<and> w_events (rs_world r') = w_events (rs_world r)"

lemma runGit_core: "runGit env d a w = (x, w') \<Longrightarrow> w_store w' = w_store w \<and> w_events w' = w_events w"
  by (auto simp: runGit_def tick_def split: if_splits)

lemmas git_defs = DetectGit_def HeadCommit_def AddWorktree_def CollectCommits_def RemoveWorktree_def

lemma git_core:
  "DetectGit env d w = (x, w') \<Longrightarrow> w_store w' = w_store w \<and> w_events w' = w_events w"
  "HeadCommit env d w = (y, w') \<Longrightarrow> w_store w' = w_store w \<and> w_events w' = w_events w"
  "AddWorktree env d p b w = (z, w') \<Longrightarrow> w_store w' = w_store w \<and> w_events w' = w_events w"
  "CollectCommits env d b w = (u, w') \<Longrightarrow> w_store w' = w_store w \<and> w_events w' = w_events w"
  "RemoveWorktree env d p b del w = (z, w') \<Longrightarrow> w_store w' = w_store w \<and> w_events w' = w_events w"
  by (auto simp: git_defs split: prod.splits sum.splits if_splits dest!: runGit_core)

lemma prepare_core:
  assumes "prepare env t w = (e, t', w')"
  shows "tk_ID t' = tk_ID t \<and> tk_Status t' = tk_Status t \<and> tk_Kind t' = tk_Kind t \<and>
    w_store w' = w_store w \<and> w_events w' = w_events w"
  using assms by (auto simp: prepare_def Let_def split: if_splits prod.splits sum.splits option.splits
      dest!: git_core)

lemma acp_core [simp]:
  "rs_task (acp c r) = rs_task r" "w_store (rs_world (acp c r)) = w_store (rs_world r)"
  "w_events (rs_world (acp c r)) = w_events (rs_world r)" "w_git (rs_world (acp c r)) = w_git (rs_world r)"
  "w_acp (rs_world (acp c r)) = w_acp (rs_world r) @ [c]"
  by (simp_all add: acp_def tick_def)

lemma new_session_core: "same_core r (snd (new_session env what r))"
  by (auto simp: new_session_def same_core_def Let_def split: sum.split)

lemma same_core_trans: "same_core r r' \<Longrightarrow> same_core r' r'' \<Longrightarrow> same_core r r''"
  by (simp add: same_core_def)

lemma stage_core:
  "same_core r (snd (prepare_stage env r))" "same_core r (snd (verify_stage env r))"
  "same_core r (snd (start_stage env r))" "same_core r (snd (establishSession env res r))"
  "same_core r (snd (prompt_stage env r))" "same_core r (snd (collect_stage env r))"
proof -
  show "same_core r (snd (prepare_stage env r))"
  proof -
    obtain e t w where p: "prepare env (rs_task r) (rs_world r) = (e, t, w)"
      by (cases "prepare env (rs_task r) (rs_world r)") auto
    from prepare_core [OF p] show ?thesis by (simp add: prepare_stage_def p same_core_def)
  qed
  show "same_core r (snd (verify_stage env r))"
    by (auto simp: verify_stage_def verifyWorkspace_def same_core_def split: prod.splits dest!: git_core)
  show "same_core r (snd (start_stage env r))"
    by (auto simp: start_stage_def same_core_def Let_def split: option.split sum.split)
  have "same_core r (acp c r)" for c by (simp add: same_core_def)
  then have "same_core r (snd (new_session env what (acp c r)))" for what c
    using new_session_core same_core_trans by blast
  then show "same_core r (snd (establishSession env res r))"
    using new_session_core by (auto simp: establishSession_def Let_def split: option.split)
      (auto simp: same_core_def)
  show "same_core r (snd (prompt_stage env r))"
    by (auto simp: prompt_stage_def Let_def same_core_def split: sum.split)
  show "same_core r (snd (collect_stage env r))"
    by (auto simp: collect_stage_def same_core_def split: prod.splits sum.splits dest!: git_core)
qed

lemma save_task: "save env t w = (e, t', w') \<Longrightarrow>
    tk_ID t' = tk_ID t \<and> tk_Status t' = tk_Status t \<and> tk_Kind t' = tk_Kind t \<and>
    tk_Worktree t' = tk_Worktree t \<and> tk_Repo t' = tk_Repo t \<and> tk_Branch t' = tk_Branch t \<and>
    w_git w' = w_git w \<and> w_acp w' = w_acp w"
  by (auto simp: save_def Let_def Update_def store_Add_def stamp_new_def tick_def split: if_splits prod.splits)

lemma save_Get:
  assumes "save env t w = (e, t', w')"
  shows "(if e = None then Get (w_store w') (tk_ID t) = Some t'
          else st_tasks (w_store w') = st_tasks (w_store w))"
proof -
  let ?se = "store_env_at env w"
  have u: "Update ?se t (w_store w) = (None, t1, s1) \<Longrightarrow> Get s1 (tk_ID t) = Some t1"
    "Update ?se t (w_store w) = (Some x, t1, s1) \<Longrightarrow> st_tasks s1 = st_tasks (w_store w)"
    "store_Add ?se t (w_store w) = (None, t1, s1) \<Longrightarrow> Get s1 (tk_ID t) = Some t1"
    "store_Add ?se t (w_store w) = (Some x, t1, s1) \<Longrightarrow> st_tasks s1 = st_tasks (w_store w)" for t1 s1 x
    using store_op_facts [of ?se t "w_store w"] by auto
  show ?thesis using assms u
    by (cases e) (auto simp: save_def Let_def tick_def split: prod.splits if_splits)
qed

section \<open>How a run ends\<close>

definition known_status :: "string \<Rightarrow> bool" where
  "known_status s \<longleftrightarrow> s \<in> set (map fst transitions) \<or> Terminal s"

lemma CanTransition_known: "CanTransition a b \<Longrightarrow> known_status a \<and> known_status b \<and> \<not> Terminal a"
  unfolding CanTransition_iff known_status_def
  by (elim disjE conjE insertE emptyE) (simp_all add: transitions_def Terminal_def)

lemma known_cases: "known_status s \<Longrightarrow> \<not> Terminal s \<Longrightarrow> CanTransition s StatusFailed \<and> CanTransition s StatusCancelled"
  by (auto simp: known_status_def transitions_def CanTransition_iff)


lemma move_stage_status:
  "move_stage env to r = (None, r') \<Longrightarrow>
     CanTransition (tk_Status (rs_task r)) to \<and> tk_Status (rs_task r') = to \<and>
     tk_ID (rs_task r') = tk_ID (rs_task r) \<and> rs_world r' = rs_world r"
  "move_stage env to r = (Some e, r') \<Longrightarrow> r' = r"
  by (auto simp: move_stage_def Transition_Inr split: sum.splits)

lemma save_stage_task:
  "save_stage env r = (e, r') \<Longrightarrow> tk_Status (rs_task r') = tk_Status (rs_task r) \<and> tk_ID (rs_task r') = tk_ID (rs_task r)"
  by (auto simp: save_stage_def split: prod.splits dest!: save_task)

abbreviation known_run :: "run_state \<Rightarrow> bool" where
  "known_run r \<equiv> known_status (tk_Status (rs_task r))"

lemma known_keep: "same_core r r' \<Longrightarrow> known_run r \<Longrightarrow> known_run r'"
  by (simp add: same_core_def)

lemma seq_keep: "(\<And>f r. f \<in> set fs \<Longrightarrow> P r \<Longrightarrow> P (snd (f r))) \<Longrightarrow> P r \<Longrightarrow> P (snd (seq fs r))"
proof (induction fs arbitrary: r)
  case (Cons f fs)
  then have "P (snd (f r))" by simp
  with Cons show ?case by (cases "f r"; cases "fst (f r)") auto
qed simp

lemma known_save: "known_run r \<Longrightarrow> known_run (snd (save_stage env r))"
  using save_stage_task [of env r "fst (save_stage env r)" "snd (save_stage env r)"] by simp

lemma known_move: "known_run r \<Longrightarrow> known_run (snd (move_stage env to r))"
proof (cases "move_stage env to r")
  case (Pair e r')
  assume "known_run r"
  then show ?thesis
  proof (cases e)
    case None
    with Pair move_stage_status(1) [of env to r r'] CanTransition_known show ?thesis by auto
  next
    case (Some x)
    with Pair move_stage_status(2) [of env to r x r'] \<open>known_run r\<close> show ?thesis by simp
  qed
qed

lemma known_working: "known_run r \<Longrightarrow> known_run (snd (working_stage env r))"
  by (auto simp: working_stage_def known_move)

lemma run_stages_cases:
  assumes "f \<in> set (run_stages env res)"
  obtains (prepare) "f = prepare_stage env" | (verify) "f = verify_stage env" | (save) "f = save_stage env"
    | (move) to where "f = move_stage env to" | (start) "f = start_stage env"
    | (session) "f = establishSession env res" | (work) "f = working_stage env"
    | (prompt) "f = prompt_stage env" | (collect) "f = collect_stage env"
  using assms by (auto simp: run_stages_def split: if_splits)

lemma run_known: "known_run r \<Longrightarrow> known_run (snd (seq (run_stages env res) r))"
proof (rule seq_keep)
  fix f r
  assume "f \<in> set (run_stages env res)" "known_run r"
  then show "known_run (snd (f r))"
    by (cases rule: run_stages_cases)
      (auto simp: known_save known_move known_working known_keep [OF stage_core(1)] known_keep [OF stage_core(2)]
        known_keep [OF stage_core(3)] known_keep [OF stage_core(4)] known_keep [OF stage_core(5)]
        known_keep [OF stage_core(6)])
qed

lemma seq_snoc_None:
  "seq (fs @ [g]) r = (None, r') \<Longrightarrow> \<exists>r1. seq fs r = (None, r1) \<and> g r1 = (None, r')"
  by (auto simp: seq_append split: prod.splits option.splits)

lemma run_success:
  assumes "seq (run_stages env res) r = (None, r')"
  shows "tk_Status (rs_task r') = StatusAwaitingReview \<and>
    Get (w_store (rs_world r')) (tk_ID (rs_task r')) = Some (rs_task r')"
proof -
  let ?fs = "(if res then [verify_stage env]
      else [prepare_stage env, save_stage env, move_stage env StatusDispatching, save_stage env]) @
     [start_stage env, establishSession env res, working_stage env, save_stage env, prompt_stage env, collect_stage env]"
  have "run_stages env res = (?fs @ [move_stage env StatusAwaitingReview]) @ [save_stage env]"
    by (simp add: run_stages_def)
  with assms obtain r2 where m: "seq (?fs @ [move_stage env StatusAwaitingReview]) r = (None, r2)"
      and s: "save_stage env r2 = (None, r')"
    using seq_snoc_None [of "?fs @ [move_stage env StatusAwaitingReview]" "save_stage env" r r'] by auto
  obtain r1 where "move_stage env StatusAwaitingReview r1 = (None, r2)"
    using seq_snoc_None [OF m] by blast
  then have "tk_Status (rs_task r2) = StatusAwaitingReview" by (simp add: move_stage_status)
  moreover obtain t w where sv: "save env (rs_task r2) (rs_world r2) = (None, t, w)" "r' = r2\<lparr>rs_task := t, rs_world := w\<rparr>"
    using s by (auto simp: save_stage_def split: prod.splits)
  ultimately show ?thesis using save_task [OF sv(1)] save_Get [OF sv(1)] by simp
qed

lemma fail_terminal:
  assumes "known_status (tk_Status t)" "dispatch_fail env e t w = (t', w')"
  shows "Terminal (tk_Status t')"
proof -
  obtain t1 where f: "FailInto (de_now env (w_step w)) (de_text env e) t = Inr t1"
    using assms(1) known_cases by (cases "Terminal (tk_Status t)") (auto simp: FailInto_Inr)
  then have "Terminal (tk_Status t1)" by (auto simp: FailInto_Inr Terminal_def)
  moreover obtain x t2 w2 where s: "save env t1 w = (x, t2, w2)" by (cases "save env t1 w") auto
  ultimately show ?thesis using assms(2) f save_task [OF s] by (auto simp: dispatch_fail_def)
qed

lemma cancel_terminal:
  assumes "known_status (tk_Status t)" "cancelInto env e t w = (t', w')"
  shows "Terminal (tk_Status t')"
proof -
  let ?now = "de_now env (w_step w)"
  define t1 where "t1 = (case Transition ?now StatusCancelled t of Inr t' \<Rightarrow> t'
    | Inl _ \<Rightarrow> (case FailInto ?now (de_text env e) t of Inr t' \<Rightarrow> t' | Inl _ \<Rightarrow> t))"
  have "Terminal (tk_Status t1)"
  proof (cases "Terminal (tk_Status t)")
    case True
    then show ?thesis by (simp add: t1_def Transition_def FailInto_def)
  next
    case False
    with assms(1) known_cases have "Transition ?now StatusCancelled t =
        Inr (t\<lparr>tk_Status := StatusCancelled, tk_UpdatedAt := ?now\<rparr>)" by (simp add: Transition_Inr)
    then show ?thesis by (simp add: t1_def Terminal_def)
  qed
  moreover obtain x t2 w2 where s: "save env t1 w = (x, t2, w2)" by (cases "save env t1 w") auto
  ultimately show ?thesis using assms(2) save_task [OF s] by (auto simp: cancelInto_def Let_def t1_def [symmetric])
qed

lemma Run_cases:
  assumes "Run env t w = (res, t', w')"
  obtains (unsaved) x where "\<not> resuming t" "save env t w = (Some x, t', w')" "res = Inl (StoreErr x)"
  | (ran) t0 w0 e r where "(if resuming t then (None, t, w) else save env t w) = (None, t0, w0)"
      "seq (run_stages env (resuming t)) \<lparr>rs_task = t0, rs_world = w0, rs_worker = False, rs_loadable = False,
          rs_session = [], rs_stop = []\<rparr> = (e, r)"
      "case e of None \<Rightarrow> res = Inr (rs_stop r) \<and> t' = rs_task r \<and> w' = rs_world r
       | Some x \<Rightarrow> res = Inl x \<and> (if x = CtxErr then cancelInto env x (rs_task r) (rs_world r) = (t', w')
                                  else dispatch_fail env x (rs_task r) (rs_world r) = (t', w'))"
proof -
  obtain x t0 w0 where s: "(if resuming t then (None, t, w) else save env t w) = (x, t0, w0)"
    by (cases "if resuming t then (None, t, w) else save env t w") auto
  show thesis
  proof (cases x)
    case (Some y)
    with s assms show thesis by (intro unsaved [of y]) (auto simp: Run_def Let_def split: if_splits)
  next
    case None
    obtain e r where q: "seq (run_stages env (resuming t)) \<lparr>rs_task = t0, rs_world = w0, rs_worker = False,
        rs_loadable = False, rs_session = [], rs_stop = []\<rparr> = (e, r)" by (cases "seq (run_stages env (resuming t))
        \<lparr>rs_task = t0, rs_world = w0, rs_worker = False, rs_loadable = False, rs_session = [], rs_stop = []\<rparr>")
    show thesis
    proof (rule ran [OF _ q])
      show "(if resuming t then (None, t, w) else save env t w) = (None, t0, w0)" using s None by simp
      show "case e of None \<Rightarrow> res = Inr (rs_stop r) \<and> t' = rs_task r \<and> w' = rs_world r
       | Some x \<Rightarrow> res = Inl x \<and> (if x = CtxErr then cancelInto env x (rs_task r) (rs_world r) = (t', w')
                                  else dispatch_fail env x (rs_task r) (rs_world r) = (t', w'))"
        using assms unfolding Run_def Let_def s None prod.case option.case q
        by (cases e) (auto split: prod.splits dispatch_error.splits)
    qed
  qed
qed

text \<open>
  C17 A run returns without an error exactly when the task awaits review, and then the store holds the
  task as returned. With an error the task has a terminal status, unless not even its first
  snapshot could be stored, which leaves its status as it was.
\<close>

theorem run_settles:
  assumes "known_status (tk_Status t)" and "Run env t w = (res, t', w')"
  shows "case res of
      Inr stop \<Rightarrow> tk_Status t' = StatusAwaitingReview \<and> Get (w_store w') (tk_ID t') = Some t'
    | Inl err \<Rightarrow> Terminal (tk_Status t') \<or>
        (tk_Status t' = tk_Status t \<and> (\<exists>x. fst (save env t w) = Some x \<and> err = StoreErr x) \<and>
         st_tasks (w_store w') = st_tasks (w_store w))"
  using assms(2)
proof (cases rule: Run_cases)
  case (unsaved x)
  then show ?thesis using save_task [OF unsaved(2)] save_Get [OF unsaved(2)] by simp
next
  case (ran t0 w0 e r)
  have k0: "known_status (tk_Status t0)"
    using ran(1) assms(1) save_task [of env t w None t0 w0] by (cases "resuming t") auto
  have k: "known_run r"
    using run_known [of "\<lparr>rs_task = t0, rs_world = w0, rs_worker = False, rs_loadable = False,
          rs_session = [], rs_stop = []\<rparr>" env "resuming t"] ran(2) k0 by simp
  show ?thesis
  proof (cases e)
    case None
    then show ?thesis using ran(3) run_success [of env "resuming t" _ r] ran(2) by auto
  next
    case (Some x)
    then show ?thesis
      using ran(3) k fail_terminal [of "rs_task r" env x "rs_world r" t' w']
        cancel_terminal [of "rs_task r" env x "rs_world r" t' w'] by (auto split: if_splits)
  qed
qed


section \<open>The events of a run\<close>

definition legal_event :: "string \<Rightarrow> string \<times> string \<times> string \<Rightarrow> bool" where
  "legal_event i e \<longleftrightarrow> (case e of (j, a, b) \<Rightarrow> j = i \<and> ((a = [] \<and> b = StatusQueued) \<or> CanTransition a b))"

text \<open>
  The status in the store against the status of the task, and the events published since \<open>evs\<close>:
  \<open>lagging\<close> allows one transition that is not stored yet.
\<close>

definition lagging :: "bool \<Rightarrow> (string \<times> string \<times> string) list \<Rightarrow> string \<Rightarrow> Task \<Rightarrow> world \<Rightarrow> bool" where
  "lagging lag evs i t w \<longleftrightarrow> tk_ID t = i \<and>
    (\<exists>st. Get (w_store w) i = Some st \<and>
       (tk_Status st = tk_Status t \<or> (lag \<and> CanTransition (tk_Status st) (tk_Status t)))) \<and>
    (\<exists>new. w_events w = evs @ new \<and> list_all (legal_event i) new)"

abbreviation lag_run :: "bool \<Rightarrow> (string \<times> string \<times> string) list \<Rightarrow> string \<Rightarrow> run_state \<Rightarrow> bool" where
  "lag_run lag evs i r \<equiv> lagging lag evs i (rs_task r) (rs_world r)"

lemma lagging_weaken: "lagging False evs i t w \<Longrightarrow> lagging lag evs i t w"
  by (auto simp: lagging_def)

lemma save_events:
  assumes "save env t w = (e, t', w')"
  shows "w_events w' = w_events w @
    (let was = (case Get (w_store w) (tk_ID t) of Some st \<Rightarrow> tk_Status st | None \<Rightarrow> []) in
     if e = None \<and> de_listener env \<and> was \<noteq> tk_Status t then [(tk_ID t, was, tk_Status t)] else [])"
  using assms save_task [OF assms]
  by (auto simp: save_def Let_def tick_def split: prod.splits if_splits)

lemma save_lagging:
  assumes "lagging lag evs i t w" "save env t w = (e, t', w')"
  shows "lagging (e \<noteq> None \<and> lag) evs i t' w'"
proof -
  obtain st new where st: "tk_ID t = i" "Get (w_store w) i = Some st"
      "tk_Status st = tk_Status t \<or> (lag \<and> CanTransition (tk_Status st) (tk_Status t))"
      "w_events w = evs @ new" "list_all (legal_event i) new"
    using assms(1) by (auto simp: lagging_def)
  note t = save_task [OF assms(2)] save_Get [OF assms(2)] save_events [OF assms(2)]
  have "\<exists>new. w_events w' = evs @ new \<and> list_all (legal_event i) new"
    using t(3) st by (auto simp: Let_def legal_event_def)
  moreover have "\<exists>st. Get (w_store w') i = Some st \<and> (tk_Status st = tk_Status t' \<or>
      ((e \<noteq> None \<and> lag) \<and> CanTransition (tk_Status st) (tk_Status t')))"
    using t(1,2) st by (cases e) (auto simp: Get_def)
  ultimately show ?thesis using t(1) st(1) by (simp add: lagging_def)
qed

lemma core_lagging: "same_core r r' \<Longrightarrow> lag_run lag evs i r \<Longrightarrow> lag_run lag evs i r'"
  by (simp add: same_core_def lagging_def)

lemma save_block: "stages (lag_run False evs i) [save_stage env] (lag_run False evs i) (lag_run True evs i)"
proof (rule stages_one)
  fix r e r'
  assume r: "lag_run False evs i r" "save_stage env r = (e, r')"
  obtain x t w where s: "save env (rs_task r) (rs_world r) = (x, t, w)"
    by (cases "save env (rs_task r) (rs_world r)") auto
  from save_lagging [OF r(1) s] r(2) s lagging_weaken [of evs i t w True]
  show "if e = None then lag_run False evs i r' else lag_run True evs i r'"
    by (auto simp: save_stage_def)
qed

lemma moved_save:
  assumes "lag_run False evs i r" "CanTransition (tk_Status (rs_task r)) (tk_Status (rs_task r1))"
    "tk_ID (rs_task r1) = tk_ID (rs_task r)" "rs_world r1 = rs_world r" "save_stage env r1 = (e, r')"
  shows "if e = None then lag_run False evs i r' else lag_run True evs i r'"
proof -
  have l: "lag_run True evs i r1" using assms(1-4) by (auto simp: lagging_def)
  obtain x t w where s: "save env (rs_task r1) (rs_world r1) = (x, t, w)"
    by (cases "save env (rs_task r1) (rs_world r1)") auto
  from save_lagging [OF l s] assms(5) s show ?thesis by (auto simp: save_stage_def)
qed

lemma move_block:
  "stages (lag_run False evs i) [move_stage env to, save_stage env] (lag_run False evs i) (lag_run True evs i)"
  unfolding stages_def
proof (intro allI impI)
  fix r e r'
  assume r: "lag_run False evs i r" "seq [move_stage env to, save_stage env] r = (e, r')"
  obtain x r1 where m: "move_stage env to r = (x, r1)" by (cases "move_stage env to r")
  show "if e = None then lag_run False evs i r' else lag_run True evs i r'"
  proof (cases x)
    case None
    with m r(2) have s: "save_stage env r1 = (e, r')" by (auto split: prod.splits option.splits)
    show ?thesis using move_stage_status(1) [of env to r r1] m None by (intro moved_save [OF r(1) _ _ _ s]) auto
  next
    case (Some y)
    then have "r' = r" "e = Some y" using r(2) m move_stage_status(2) [of env to r y r1] by auto
    then show ?thesis using r(1) lagging_weaken by simp
  qed
qed

lemma working_block:
  "stages (lag_run False evs i) [working_stage env, save_stage env] (lag_run False evs i) (lag_run True evs i)"
  unfolding stages_def
proof (intro allI impI)
  fix r e r'
  assume r: "lag_run False evs i r" "seq [working_stage env, save_stage env] r = (e, r')"
  show "if e = None then lag_run False evs i r' else lag_run True evs i r'"
  proof (cases "tk_Status (rs_task r) = StatusWorking")
    case True
    then have "seq [save_stage env] r = (e, r')" using r(2) by (simp add: working_stage_def)
    then show ?thesis using stagesD [OF save_block r(1)] by simp
  next
    case False
    then have "seq [move_stage env StatusWorking, save_stage env] r = (e, r')"
      using r(2) by (simp add: working_stage_def)
    then show ?thesis using stagesD [OF move_block r(1)] by simp
  qed
qed

lemma core_block:
  "(\<And>r. same_core r (snd (f r))) \<Longrightarrow> stages (lag_run False evs i) [f] (lag_run False evs i) (lag_run True evs i)"
  by (rule stages_keep) (metis core_lagging, rule lagging_weaken)

lemma run_lagging: "stages (lag_run False evs i) (run_stages env res) (lag_run False evs i) (lag_run True evs i)"
proof -
  let ?S = "lag_run False evs i" and ?L = "lag_run True evs i"
  note core = core_block [OF stage_core(1)] core_block [OF stage_core(2)] core_block [OF stage_core(3)]
    core_block [OF stage_core(4)] core_block [OF stage_core(5)] core_block [OF stage_core(6)]
  have tail: "stages ?S [start_stage env, establishSession env res, working_stage env, save_stage env,
      prompt_stage env, collect_stage env, move_stage env StatusAwaitingReview, save_stage env] ?S ?L"
    by (intro stages_Cons [OF core(3)] stages_Cons [OF core(4)] stages_Cons2 [OF working_block]
        stages_Cons [OF core(5)] stages_Cons [OF core(6)] move_block)
  have fresh: "stages ?S [prepare_stage env, save_stage env, move_stage env StatusDispatching, save_stage env] ?S ?L"
    by (intro stages_Cons [OF core(1)] stages_Cons [OF save_block] move_block)
  have verify: "stages ?S [verify_stage env] ?S ?L" by (rule core(2))
  have "stages ?S (if res then [verify_stage env]
      else [prepare_stage env, save_stage env, move_stage env StatusDispatching, save_stage env]) ?S ?L"
    using fresh verify by (cases res) (simp_all only: if_True if_False)
  from stages_append [OF this tail] show ?thesis unfolding run_stages_def .
qed

lemma cleanup_core: "w_store (cleanupCodeWorkspace env t w) = w_store w \<and>
    w_events (cleanupCodeWorkspace env t w) = w_events w"
  using git_core(5) [of env "tk_Repo t" "tk_Worktree t" "tk_Branch t" False w]
  by (auto simp: cleanupCodeWorkspace_def) (metis surjective_pairing)+

lemma end_lagging:
  assumes "lagging True evs i t w" "tk_ID t1 = tk_ID t" "save env t1 w = (e, t2, w2)"
    "tk_Status t1 = tk_Status t \<or>
     (CanTransition (tk_Status t) (tk_Status t1) \<and> tk_Status t1 \<in> {StatusFailed, StatusCancelled})"
  shows "\<exists>new. w_events w2 = evs @ new \<and> list_all (legal_event i) new"
proof -
  obtain st where st: "Get (w_store w) i = Some st"
      "tk_Status st = tk_Status t \<or> CanTransition (tk_Status st) (tk_Status t)"
    using assms(1) by (auto simp: lagging_def)
  have "CanTransition (tk_Status st) (tk_Status t1) \<or> tk_Status st = tk_Status t1"
  proof (cases "tk_Status t1 = tk_Status t")
    case False
    with assms(4) have c: "CanTransition (tk_Status t) (tk_Status t1)" "tk_Status t1 \<in> {StatusFailed, StatusCancelled}"
      by auto
    then have "known_status (tk_Status st) \<and> \<not> Terminal (tk_Status st)" using st(2) CanTransition_known by auto
    with c(2) known_cases show ?thesis by auto
  qed (use st(2) in auto)
  then have "lagging True evs i t1 w" using assms(1,2) st(1) by (auto simp: lagging_def)
  from save_lagging [OF this assms(3)] show ?thesis by (simp add: lagging_def)
qed

lemma fail_events:
  assumes "lagging True evs i t w" "dispatch_fail env e t w = (t', w')"
  shows "\<exists>new. w_events w' = evs @ new \<and> list_all (legal_event i) new"
proof (cases "FailInto (de_now env (w_step w)) (de_text env e) t")
  case (Inl x)
  obtain y t2 w2 where s: "save env t w = (y, t2, w2)" by (cases "save env t w") auto
  with end_lagging [OF assms(1) refl s] assms(2) Inl show ?thesis by (simp add: dispatch_fail_def)
next
  case (Inr t1)
  obtain y t2 w2 where s: "save env t1 w = (y, t2, w2)" by (cases "save env t1 w") auto
  have "\<exists>new. w_events w2 = evs @ new \<and> list_all (legal_event i) new"
    using Inr by (intro end_lagging [OF assms(1) _ s]) (auto simp: FailInto_Inr)
  then show ?thesis using assms(2) Inr s cleanup_core by (auto simp: dispatch_fail_def)
qed

lemma cancel_events:
  assumes "lagging True evs i t w" "cancelInto env e t w = (t', w')"
  shows "\<exists>new. w_events w' = evs @ new \<and> list_all (legal_event i) new"
proof -
  let ?now = "de_now env (w_step w)"
  define t1 where "t1 = (case Transition ?now StatusCancelled t of Inr t' \<Rightarrow> t'
    | Inl _ \<Rightarrow> (case FailInto ?now (de_text env e) t of Inr t' \<Rightarrow> t' | Inl _ \<Rightarrow> t))"
  obtain y t2 w2 where s: "save env t1 w = (y, t2, w2)" by (cases "save env t1 w") auto
  have "\<exists>new. w_events w2 = evs @ new \<and> list_all (legal_event i) new"
    by (intro end_lagging [OF assms(1) _ s])
      (auto simp: t1_def FailInto_Inr Transition_Inr split: sum.splits)
  then show ?thesis using assms(2) s cleanup_core by (auto simp: cancelInto_def Let_def t1_def [symmetric])
qed

text \<open>
  C18 The status events that a run publishes are steps of the transition table, for this task only, and the
  first one of a new task is its entry into the queue: whatever fails, and whether or not the
  writes of the store succeed.
\<close>

theorem run_events_legal:
  assumes "case Get (w_store w) (tk_ID t) of None \<Rightarrow> tk_Status t = StatusQueued | Some st \<Rightarrow> tk_Status st = tk_Status t"
    and "Run env t w = (res, t', w')"
  shows "\<exists>new. w_events w' = w_events w @ new \<and> list_all (legal_event (tk_ID t)) new"
  using assms(2)
proof (cases rule: Run_cases)
  case (unsaved x)
  then show ?thesis using save_events [OF unsaved(2)] by (simp add: Let_def)
next
  case (ran t0 w0 e r)
  have l: "lagging False (w_events w) (tk_ID t) t0 w0"
  proof (cases "resuming t")
    case True
    then show ?thesis using assms(1) ran(1) by (auto simp: lagging_def resuming_def split: option.splits)
  next
    case False
    then have s: "save env t w = (None, t0, w0)" using ran(1) by simp
    show ?thesis
    proof (cases "Get (w_store w) (tk_ID t)")
      case None
      then show ?thesis
        using save_task [OF s] save_Get [OF s] save_events [OF s] assms(1)
        by (auto simp: lagging_def Let_def legal_event_def)
    next
      case (Some st)
      then have "lagging False (w_events w) (tk_ID t) t w" using assms(1) by (simp add: lagging_def)
      from save_lagging [OF this s] show ?thesis by simp
    qed
  qed
  have "if e = None then lag_run False (w_events w) (tk_ID t) r else lag_run True (w_events w) (tk_ID t) r"
    using stagesD [OF run_lagging _ ran(2)] l by simp
  then show ?thesis
    using ran(3) fail_events [of "w_events w" "tk_ID t" "rs_task r" "rs_world r" env _ t' w']
      cancel_events [of "w_events w" "tk_ID t" "rs_task r" "rs_world r" env _ t' w']
    by (cases e) (auto simp: lagging_def split: if_splits)
qed


section \<open>Isolation\<close>

lemma path_clean_ne: "path_clean p \<noteq> []"
  by (simp add: path_clean_def Let_def)

lemma code_worktree_ne: "tk_Repo t \<noteq> [] \<Longrightarrow> code_worktree t \<noteq> []"
  by (simp add: code_worktree_def path_join_def path_clean_ne)

fun call_in :: "string \<Rightarrow> acp_call \<Rightarrow> bool" where
  "call_in d (LoadCall s cwd) = (cwd = d)"
| "call_in d (NewCall cwd) = (cwd = d)"
| "call_in d (PromptCall s p) = True"

text \<open>
  What the worker's stages do to the directory of the task, the sessions and the git commands:
  sessions are opened in the directory of the task, and git commands are only added.
\<close>

definition in_dir :: "run_state \<Rightarrow> run_state \<Rightarrow> bool" where
  "in_dir r r' \<longleftrightarrow> task_cwd (rs_task r') = task_cwd (rs_task r) \<and>
     set (w_git (rs_world r)) \<subseteq> set (w_git (rs_world r')) \<and>
     (list_all (call_in (task_cwd (rs_task r))) (w_acp (rs_world r)) \<longrightarrow>
      list_all (call_in (task_cwd (rs_task r))) (w_acp (rs_world r')))"

lemma in_dir_trans: "in_dir r r' \<Longrightarrow> in_dir r' r'' \<Longrightarrow> in_dir r r''"
  by (auto simp: in_dir_def)

lemma runGit_log: "runGit env d a w = (x, w') \<Longrightarrow> w_acp w' = w_acp w \<and> set (w_git w) \<subseteq> set (w_git w')"
  by (auto simp: runGit_def tick_def split: if_splits)

lemma git_log:
  "DetectGit env d w = (x, w') \<Longrightarrow> w_acp w' = w_acp w \<and> set (w_git w) \<subseteq> set (w_git w')"
  "HeadCommit env d w = (y, w') \<Longrightarrow> w_acp w' = w_acp w \<and> set (w_git w) \<subseteq> set (w_git w')"
  "AddWorktree env d p b w = (z, w') \<Longrightarrow> w_acp w' = w_acp w \<and> set (w_git w) \<subseteq> set (w_git w')"
  "CollectCommits env d b w = (u, w') \<Longrightarrow> w_acp w' = w_acp w \<and> set (w_git w) \<subseteq> set (w_git w')"
  "RemoveWorktree env d p b del w = (z, w') \<Longrightarrow> w_acp w' = w_acp w \<and> set (w_git w) \<subseteq> set (w_git w')"
proof -
  show "RemoveWorktree env d p b del w = (z, w') \<Longrightarrow> w_acp w' = w_acp w \<and> set (w_git w) \<subseteq> set (w_git w')"
    by (auto simp: RemoveWorktree_def split: prod.splits sum.splits if_splits dest!: runGit_log)
qed (auto simp: git_defs split: prod.splits sum.splits if_splits dest!: runGit_log)

lemma in_dir_stages:
  "in_dir r (snd (save_stage env r))" "in_dir r (snd (move_stage env to r))"
  "in_dir r (snd (start_stage env r))" "in_dir r (snd (new_session env what r))"
  "in_dir r (snd (prompt_stage env r))" "in_dir r (snd (collect_stage env r))"
  "in_dir r (snd (verify_stage env r))"
proof -
  show "in_dir r (snd (save_stage env r))"
    by (auto simp: save_stage_def in_dir_def task_cwd_def split: prod.splits dest!: save_task)
  show "in_dir r (snd (move_stage env to r))"
    by (auto simp: move_stage_def in_dir_def task_cwd_def Transition_Inr split: sum.splits)
  show "in_dir r (snd (start_stage env r))"
    by (auto simp: start_stage_def in_dir_def task_cwd_def Let_def split: option.split sum.split)
  show "in_dir r (snd (new_session env what r))"
    by (auto simp: new_session_def in_dir_def task_cwd_def Let_def split: sum.split)
  show "in_dir r (snd (prompt_stage env r))"
    by (auto simp: prompt_stage_def in_dir_def Let_def split: sum.split)
  show "in_dir r (snd (collect_stage env r))"
    by (auto simp: collect_stage_def in_dir_def task_cwd_def split: prod.splits sum.splits dest!: git_log)
  show "in_dir r (snd (verify_stage env r))"
    by (auto simp: verify_stage_def verifyWorkspace_def in_dir_def split: prod.splits dest!: git_log)
qed

lemma in_dir_session: "in_dir r (snd (establishSession env res r))"
proof -
  let ?old = "tk_WorkerSession (rs_task r)" and ?cwd = "task_cwd (rs_task r)"
  have l: "in_dir r (acp (LoadCall ?old ?cwd) r)" by (auto simp: in_dir_def)
  show ?thesis
    using in_dir_stages(4) [of r env] in_dir_trans [OF l in_dir_stages(4)] l
    by (auto simp: establishSession_def Let_def split: option.split) (auto simp: in_dir_def task_cwd_def)
qed

lemma in_dir_working: "in_dir r (snd (working_stage env r))"
  using in_dir_stages(2) [of r env] by (auto simp: working_stage_def) (simp add: in_dir_def)

lemma seq_in_dir:
  "(\<And>f r. f \<in> set fs \<Longrightarrow> in_dir r (snd (f r))) \<Longrightarrow> in_dir r (snd (seq fs r))"
proof (induction fs arbitrary: r)
  case Nil
  then show ?case by (simp add: in_dir_def)
next
  case (Cons f fs)
  then have "in_dir r (snd (f r))" "\<And>r. in_dir r (snd (seq fs r))" by auto
  then show ?case by (cases "f r"; cases "fst (f r)") (auto intro: in_dir_trans)
qed

definition worktree_add :: "Task \<Rightarrow> string \<times> string list" where
  "worktree_add t = (tk_Repo t, [''worktree'', ''add'', code_worktree t, ''-b'', code_branch t])"

lemma prepare_code:
  assumes "tk_Kind t = KindCode" "prepare env t w = (e, t', w')"
  shows "w_acp w' = w_acp w \<and> set (w_git w) \<subseteq> set (w_git w') \<and>
    (e = None \<longrightarrow> task_cwd t' = code_worktree t \<and> worktree_add t \<in> set (w_git w'))"
proof -
  obtain g w1 where g: "DetectGit env (tk_Repo t) w = (g, w1)" by (cases "DetectGit env (tk_Repo t) w")
  obtain h w2 where h: "HeadCommit env (tk_Repo t) w1 = (h, w2)" by (cases "HeadCommit env (tk_Repo t) w1")
  obtain a w3 where a: "AddWorktree env (tk_Repo t) (code_worktree t) (code_branch t) w2 = (a, w3)"
    by (cases "AddWorktree env (tk_Repo t) (code_worktree t) (code_branch t) w2")
  have "a = None \<Longrightarrow> worktree_add t \<in> set (w_git w3)"
    using a by (auto simp: AddWorktree_def runGit_def worktree_add_def tick_def split: if_splits prod.splits sum.splits)
  moreover have "code_worktree t \<noteq> []" if "tk_Repo t \<noteq> []" using that by (rule code_worktree_ne)
  ultimately show ?thesis
    using assms git_log(1) [OF g] git_log(2) [OF h] git_log(3) [OF a]
    by (auto simp: prepare_def g h a task_cwd_def Let_def split: if_splits sum.splits option.splits)
qed

lemma end_log:
  "dispatch_fail env e t w = (t', w') \<Longrightarrow> w_acp w' = w_acp w \<and> set (w_git w) \<subseteq> set (w_git w')"
  "cancelInto env e t w = (t', w') \<Longrightarrow> w_acp w' = w_acp w \<and> set (w_git w) \<subseteq> set (w_git w')"
proof -
  have c: "w_acp (cleanupCodeWorkspace env t w) = w_acp w \<and> set (w_git w) \<subseteq> set (w_git (cleanupCodeWorkspace env t w))"
    for t w
    using git_log(5) [of env "tk_Repo t" "tk_Worktree t" "tk_Branch t" False w]
    by (auto simp: cleanupCodeWorkspace_def) (metis surjective_pairing subsetD)+
  show "dispatch_fail env e t w = (t', w') \<Longrightarrow> w_acp w' = w_acp w \<and> set (w_git w) \<subseteq> set (w_git w')"
    using c by (fastforce simp: dispatch_fail_def split: sum.splits prod.splits dest!: save_task)
  show "cancelInto env e t w = (t', w') \<Longrightarrow> w_acp w' = w_acp w \<and> set (w_git w) \<subseteq> set (w_git w')"
    using c by (fastforce simp: cancelInto_def Let_def split: prod.splits dest!: save_task)
qed

lemma Run_log:
  assumes "Run env t w = (res, t', w')"
    and "seq (run_stages env (resuming t)) r0 = (e, r)"
    and "case e of None \<Rightarrow> w' = rs_world r
       | Some x \<Rightarrow> (if x = CtxErr then cancelInto env x (rs_task r) (rs_world r) = (t', w')
                                  else dispatch_fail env x (rs_task r) (rs_world r) = (t', w'))"
  shows "w_acp w' = w_acp (rs_world r) \<and> set (w_git (rs_world r)) \<subseteq> set (w_git w')"
  using assms(3) end_log [of env _ "rs_task r" "rs_world r" t' w'] by (cases e) (auto split: if_splits)

text \<open>
  C19 A new code task works in its own worktree: every session of the worker is opened in the
  directory \<^verbatim>\<open>.goworker/dispatch/<id>\<close> of the repository, and none before git has created that
  worktree on the branch of the task.
\<close>

theorem code_task_isolated:
  assumes "tk_Kind t = KindCode" and "\<not> resuming t" and "w_acp w = []" and "Run env t w = (res, t', w')"
  shows "list_all (call_in (code_worktree t)) (w_acp w') \<and>
         (w_acp w' \<noteq> [] \<longrightarrow> worktree_add t \<in> set (w_git w'))"
  using assms(4)
proof (cases rule: Run_cases)
  case (unsaved x)
  then show ?thesis using save_task [OF unsaved(2)] assms(3) by simp
next
  case (ran t0 w0 e r)
  have s: "save env t w = (None, t0, w0)" using ran(1) assms(2) by simp
  let ?r0 = "\<lparr>rs_task = t0, rs_world = w0, rs_worker = False, rs_loadable = False, rs_session = [], rs_stop = []\<rparr>"
  have t0: "tk_Kind t0 = KindCode" "code_worktree t0 = code_worktree t" "worktree_add t0 = worktree_add t" "w_acp w0 = []"
    using save_task [OF s] assms(1,3) by (simp_all add: code_worktree_def worktree_add_def code_branch_def)
  obtain x t1 w1 where p: "prepare env t0 w0 = (x, t1, w1)" by (cases "prepare env t0 w0") auto
  note pc = prepare_code [OF t0(1) p]
  let ?r1 = "?r0\<lparr>rs_task := t1, rs_world := w1\<rparr>"
  let ?rest = "tl (run_stages env False)"
  have "list_all (call_in (code_worktree t)) (w_acp (rs_world r)) \<and>
    (w_acp (rs_world r) \<noteq> [] \<longrightarrow> worktree_add t \<in> set (w_git (rs_world r)))"
  proof (cases x)
    case (Some y)
    then have "r = ?r1" using ran(2) assms(2) p by (auto simp: run_stages_def prepare_stage_def)
    then show ?thesis using pc t0 by simp
  next
    case None
    then have r: "r = snd (seq ?rest ?r1)"
      using ran(2) assms(2) p by (simp add: run_stages_def prepare_stage_def del: seq.simps(2))
        (simp add: prepare_stage_def)
    have d: "in_dir ?r1 (snd (seq ?rest ?r1))"
      by (rule seq_in_dir) (auto simp: run_stages_def in_dir_stages in_dir_session in_dir_working)
    then show ?thesis using None pc t0 r by (auto simp: in_dir_def)
  qed
  with Run_log [OF assms(4) ran(2)] ran(3) show ?thesis by (cases e) (auto split: if_splits)
qed


section \<open>A sample run\<close>

definition sample_git :: "nat \<Rightarrow> string \<Rightarrow> string list \<Rightarrow> string + string" where
  "sample_git n dir args =
    (if args = [''rev-parse'', ''--is-inside-work-tree''] then Inr (''true'' @ [nl])
     else if args = [''rev-parse'', ''HEAD''] then Inr (''abc'' @ [nl])
     else if take 1 args = [''log''] then Inr (''def fix'' @ [nl])
     else Inr [])"

definition sample_dispatch :: "nat \<Rightarrow> string + string \<Rightarrow> dispatch_env" where
  "sample_dispatch k answer =
    \<lparr>de_cancelled = (\<lambda>n. k \<le> n), de_git = sample_git, de_tz = decimal_times, de_now = (\<lambda>n. int n + 1),
     de_write = (\<lambda>n. WriteOK), de_home = Some ''/home/u'', de_start = None, de_init = Inr True,
     de_load = (\<lambda>n s c. Some s), de_new = (\<lambda>n c. Inr ''s1''), de_prompt = (\<lambda>s p. answer),
     de_listener = True, de_text = (\<lambda>e. ''error'')\<rparr>"

definition empty_world :: world where
  "empty_world = \<lparr>w_step = 0, w_store = empty_store, w_git = [], w_acp = [], w_events = []\<rparr>"

definition code_task :: Task where
  "code_task = sample_task\<lparr>tk_Kind := KindCode\<rparr>"

definition sample_run :: "(dispatch_error + string) \<times> Task \<times> world" where
  "sample_run = Run (sample_dispatch 100 (Inr ''end_turn'')) code_task empty_world"

lemma sample_run_eq: "sample_run = (Inr ''end_turn'', fst (snd sample_run), snd (snd sample_run))"
  by code_simp

lemma sample_start: "known_status (tk_Status code_task)" "tk_Kind code_task = KindCode" "\<not> resuming code_task"
    "w_acp empty_world = []" "Get (w_store empty_world) (tk_ID code_task) = None" "tk_Status code_task = StatusQueued"
  by code_simp+

theorem run_settles_witness:
  "tk_Status (fst (snd sample_run)) = StatusAwaitingReview"
  using run_settles [OF sample_start(1) sample_run_eq [unfolded sample_run_def]] by (simp add: sample_run_def)

theorem run_events_legal_witness:
  "map snd (w_events (snd (snd sample_run))) =
     [([], StatusQueued), (StatusQueued, StatusDispatching), (StatusDispatching, StatusWorking),
      (StatusWorking, StatusAwaitingReview)] \<and>
   list_all (legal_event (tk_ID code_task)) (w_events (snd (snd sample_run)))"
proof
  show "list_all (legal_event (tk_ID code_task)) (w_events (snd (snd sample_run)))"
    using run_events_legal [OF _ sample_run_eq [unfolded sample_run_def]] sample_start(5,6)
    by (simp add: sample_run_def empty_world_def)
qed code_simp

theorem code_task_isolated_witness:
  "w_acp (snd (snd sample_run)) = [NewCall ''/r/.goworker/dispatch/task_1'', PromptCall ''s1'' ''p''] \<and>
   worktree_add code_task \<in> set (w_git (snd (snd sample_run)))"
proof
  show a: "w_acp (snd (snd sample_run)) = [NewCall ''/r/.goworker/dispatch/task_1'', PromptCall ''s1'' ''p'']"
    by code_simp
  show "worktree_add code_task \<in> set (w_git (snd (snd sample_run)))"
    using code_task_isolated [OF sample_start(2-4) sample_run_eq [unfolded sample_run_def]] a
    by (simp add: sample_run_def)
qed

definition cancelled_run :: "(dispatch_error + string) \<times> Task \<times> world" where
  "cancelled_run = Run (sample_dispatch 9 (Inl ''context canceled'')) code_task empty_world"

definition failed_run :: "(dispatch_error + string) \<times> Task \<times> world" where
  "failed_run = Run (sample_dispatch 100 (Inl ''broken pipe'')) code_task empty_world"

definition removes :: "string \<times> string list \<Rightarrow> bool" where
  "removes g \<longleftrightarrow> take 2 (snd g) = [''worktree'', ''remove'']"

text \<open>
  When the user cancels while the worker is busy, the run ends as cancelled, but the worktree stays:
  the clean-up runs git under the cancelled context, so the command is not started. The same
  end of the prompt without a cancelled context removes the worktree.
\<close>

theorem cancel_leaves_worktree:
  "(case cancelled_run of (res, t, w) \<Rightarrow>
      res = Inl CtxErr \<and> tk_Status t = StatusCancelled \<and> worktree_add code_task \<in> set (w_git w) \<and>
      \<not> list_ex removes (w_git w)) \<and>
   (case failed_run of (res, t, w) \<Rightarrow> tk_Status t = StatusFailed \<and> list_ex removes (w_git w))"
  by code_simp

end
