(* ===== verification/Jsonl.thy ===== *)
theory Jsonl
  imports Go_Files
begin

text \<open>
  The scan of a file of JSON lines that the session store and the run journal share (\<^verbatim>\<open>scanJSONL\<close> of
  \<^verbatim>\<open>src/ai-runtime/session/store.go\<close>): the records, and the offset behind the last good line, to which a
  file with a torn end is cut back. The lemmas give the meaning of the scan after a complete write and
  after a write that was cut short, for every type of records that are written as JSON objects.
\<close>

section \<open>The scan\<close>

definition max_line :: nat where
  "max_line = 1024 * 1024"

definition jsonl_step :: "(string \<Rightarrow> 'a option) \<Rightarrow> nat \<times> nat \<times> 'a list \<Rightarrow> string \<Rightarrow> nat \<times> nat \<times> 'a list" where
  "jsonl_step dec s l =
    (case s of (pos, good, rs) \<Rightarrow>
       let bytes = drop_cr l; line = TrimSpace bytes; lineEnd = pos + length bytes + 1 in
       if line = [] then (lineEnd, good, rs)
       else (case dec line of
               None \<Rightarrow> (lineEnd, good, rs)
             | Some r \<Rightarrow> (lineEnd, lineEnd, rs @ [r])))"

text \<open>\<open>None\<close>: a line does not fit the buffer of the scanner.\<close>

definition scanJSONL :: "(string \<Rightarrow> 'a option) \<Rightarrow> string \<Rightarrow> ('a list \<times> nat) option" where
  "scanJSONL dec f =
    (if list_all (\<lambda>l. length l < max_line) (raw_lines f) then
       (case foldl (jsonl_step dec) (0, 0, []) (raw_lines f) of (pos, good, rs) \<Rightarrow>
          Some (rs, min good (length f)))
     else None)"

text \<open>A file of complete lines whose last line is good.\<close>

definition jsonl :: "(string \<Rightarrow> 'a option) \<Rightarrow> string \<Rightarrow> 'a list \<Rightarrow> bool" where
  "jsonl dec f rs \<longleftrightarrow> complete f \<and> list_all (\<lambda>l. length l < max_line) (raw_lines f) \<and>
     foldl (jsonl_step dec) (0, 0, []) (raw_lines f) = (length f, length f, rs)"

lemma jsonl_Nil [simp]: "jsonl dec [] []"
  by (simp add: jsonl_def)

lemma jsonl_scan: "jsonl dec f rs \<Longrightarrow> scanJSONL dec f = Some (rs, length f)"
  by (simp add: jsonl_def scanJSONL_def)

lemma jsonl_unique: "jsonl dec f rs \<Longrightarrow> jsonl dec f rs' \<Longrightarrow> rs' = rs"
  by (simp add: jsonl_def)

section \<open>Trimming the text of an object\<close>

lemma TrimSpace_front:
  assumes "byte c < 0x80" and "\<not> isSpace (byte c)"
  shows "\<exists>q. c # s = TrimSpace (c # s) @ q \<and> TrimSpace (c # s) \<noteq> []"
proof -
  have r: "runes (c # s) = (byte c, [c]) # runes s" by (rule runes_Cons_ascii [OF assms(1)])
  obtain q where q: "rev (dropWhile space_rune (rev (runes s @ []))) @ q = runes s"
    by (metis append_Nil2 rev_append rev_rev_ident takeWhile_dropWhile_id)
  have "dropWhile space_rune (rev (runes s) @ [(byte c, [c])]) = dropWhile space_rune (rev (runes s)) @ [(byte c, [c])]"
    using assms(2) by (simp add: dropWhile_append)
  then have t: "TrimSpace (c # s) = c # bytes_of (rev (dropWhile space_rune (rev (runes s))))"
    using assms(2) by (simp add: TrimSpace_def r del: runes.simps)
  have "s = bytes_of (rev (dropWhile space_rune (rev (runes s))) @ q)"
    using q bytes_of_runes [of s] by simp
  then show ?thesis unfolding t by auto
qed

lemma TrimSpace_both:
  assumes "byte c < 0x80" "\<not> isSpace (byte c)" "byte d < 0x80" "\<not> isSpace (byte d)"
  shows "TrimSpace (c # s @ [d]) = c # s @ [d]"
proof -
  have "runes (c # s @ [d]) = (byte c, [c]) # runes s @ [(byte d, [d])]"
    using assms runes_append [of d s "[]"] by (simp add: runes_Cons_ascii cont_byte_def del: runes.simps(2))
  then show ?thesis using assms by (simp add: TrimSpace_def del: runes.simps(2))
qed

lemma object_text: "\<exists>t. json_text (JObj m) = CHR ''{'' # t @ [CHR ''}'']"
  by simp

lemma TrimSpace_object [simp]: "TrimSpace (json_text (JObj m)) = json_text (JObj m)"
  using object_text [of m] TrimSpace_both [of "CHR ''{''" "CHR ''}''"] by (auto simp: isSpace_def simp del: json_text.simps)

section \<open>Writing to the file\<close>

context object_codec
begin

lemma trimmed:
  assumes "ok x" "enc x = Some s"
  shows "TrimSpace (drop_cr s) = s" "n < length s \<Longrightarrow> 0 < n \<Longrightarrow>
    TrimSpace (drop_cr (take n s)) \<noteq> [] \<and> unmarshal_object of_members (TrimSpace (drop_cr (take n s))) = None"
proof -
  obtain m where m: "s = json_text (JObj m)" using object [OF assms(1)] assms(2) by auto
  note l = one_line(2) [OF assms(1)]
  show "TrimSpace (drop_cr s) = s" using l [of s "[]"] assms(2) by (simp add: m del: json_text.simps)
  assume n: "n < length s" "0 < n"
  have d: "drop_cr (take n s) = take n s" using l [of "take n s" "drop n s"] assms(2) by simp
  obtain c p where t: "take n s = c # p" "c = CHR ''{''"
    using n object_text [of m] unfolding m by (cases n) auto
  obtain q where q: "take n s = TrimSpace (take n s) @ q" "TrimSpace (take n s) \<noteq> []"
    using TrimSpace_front [of c p] t by (auto simp: isSpace_def)
  have "enc x = Some (TrimSpace (take n s) @ q @ drop n s)"
    using assms(2) q(1) by (metis append_assoc append_take_drop_id)
  from torn [OF assms(1) this] n(1) q d
  show "TrimSpace (drop_cr (take n s)) \<noteq> [] \<and> unmarshal_object of_members (TrimSpace (drop_cr (take n s))) = None"
    by simp
qed

lemma jsonl_written:
  assumes "ok x" "enc x = Some s" "length s < max_line" "jsonl (unmarshal_object of_members) f rs"
  shows "jsonl (unmarshal_object of_members) (f @ s @ [nl]) (rs @ [norm x])"
proof -
  note l = one_line [of x s "[]", simplified, OF assms(1,2)]
  have s: "unmarshal_object of_members s = Some (norm x)" "s \<noteq> []"
    using dec_enc [OF assms(1,2)] nonempty [OF assms(1,2)] by simp_all
  have "raw_lines (f @ s @ [nl]) = raw_lines f @ [s]"
    using assms(4) l(1) by (simp add: raw_lines_append raw_lines_line jsonl_def)
  then show ?thesis
    using assms(3,4) s trimmed(1) [OF assms(1,2)] l(2) by (simp add: jsonl_def jsonl_step_def Let_def)
qed

text \<open>
  A write that is cut short: the scan stops in front of the torn line; without its line feed only, the
  record counts and the file ends in it.
\<close>

lemma jsonl_cut:
  assumes "ok x" "enc x = Some s" "length s < max_line" "jsonl (unmarshal_object of_members) f rs"
  shows "scanJSONL (unmarshal_object of_members) (f @ take n s) =
    (if n < length s then Some (rs, length f) else Some (rs @ [norm x], length (f @ s)))"
proof -
  have f: "complete f" "list_all (\<lambda>l. length l < max_line) (raw_lines f)"
    "foldl (jsonl_step (unmarshal_object of_members)) (0, 0, []) (raw_lines f) = (length f, length f, rs)"
    using assms(4) by (simp_all add: jsonl_def)
  note l = one_line [of x "take n s" "drop n s", simplified, OF assms(1,2)]
  have r: "raw_lines (f @ take n s) = raw_lines f @ (if take n s = [] then [] else [take n s])"
    using f(1) l(1) by (simp add: raw_lines_append raw_lines_one)
  show ?thesis
  proof (cases "n < length s")
    case True
    show ?thesis
    proof (cases "n = 0")
      case False
      with trimmed(2) [OF assms(1,2) True] True f r assms(3) show ?thesis
        by (auto simp: scanJSONL_def jsonl_step_def Let_def)
    qed (use True f r in \<open>simp add: scanJSONL_def\<close>)
  next
    case False
    with trimmed(1) [OF assms(1,2)] l(2) f r assms(3) dec_enc [OF assms(1,2)] nonempty [OF assms(1,2)]
    show ?thesis by (auto simp: scanJSONL_def jsonl_step_def Let_def)
  qed
qed

end

end
