(* ===== verification/Session_Record.thy ===== *)
theory Session_Record
  imports Core_Message Jsonl
begin

text \<open>
  The records of a session file (\<^verbatim>\<open>src/ai-runtime/session/record.go\<close>): messages, summaries of compacted
  parts, and the positions and marks of a session, each a line of JSON with one flat set of keys.
  A record carries the fields of its kind, so the datatype has one constructor for each; \<open>RUnknown\<close> is a
  record of a kind that the reader does not know, which it keeps without fields. The raw values of
  the map \<^verbatim>\<open>custom\<close> are the JSON values they denote.

  Shown: a record is read back from its line as it was written, and no part of the line is taken for
  a record (\<open>record_codec\<close>); a message survives the way into a record and back.
\<close>

section \<open>Records\<close>

record msgFields =
  sm_ID :: string
  sm_Parent :: string
  sm_Role :: string
  sm_Content :: string
  sm_ToolCalls :: "ToolCall list"
  sm_ToolCallID :: string
  sm_Thinking :: string
  sm_Custom :: "(string \<times> json) list"
  sm_CloneOf :: string
  sm_CreatedAt :: time

record compactFields =
  sc_ID :: string
  sc_Parent :: string
  sc_Summary :: string
  sc_CoveredFrom :: string
  sc_CoveredTo :: string
  sc_CreatedAt :: time

datatype Record =
    RMsg msgFields
  | RCompact compactFields
  | RHead string time
  | RCheckpoint string string string time
  | RCursor string time
  | RMetadata string time
  | RWorkspace string time
  | RArchived time
  | RUnknown string

fun record_kind :: "Record \<Rightarrow> string" where
  "record_kind (RMsg m) = ''msg''"
| "record_kind (RCompact c) = ''compact''"
| "record_kind (RHead tail t) = ''head''"
| "record_kind (RCheckpoint i anchor p t) = ''checkpoint''"
| "record_kind (RCursor i t) = ''cursor''"
| "record_kind (RMetadata i t) = ''metadata''"
| "record_kind (RWorkspace p t) = ''workspace''"
| "record_kind (RArchived t) = ''archived''"
| "record_kind (RUnknown k) = k"

definition known_kinds :: "string list" where
  "known_kinds = [''msg'', ''compact'', ''head'', ''checkpoint'', ''cursor'', ''metadata'', ''workspace'', ''archived'']"

fun NodeID :: "Record \<Rightarrow> string" where
  "NodeID (RMsg m) = sm_ID m"
| "NodeID (RCompact c) = sc_ID c"
| "NodeID (RCheckpoint i anchor p t) = i"
| "NodeID _ = []"

fun ParentID :: "Record \<Rightarrow> string" where
  "ParentID (RMsg m) = sm_Parent m"
| "ParentID (RCompact c) = sc_Parent c"
| "ParentID _ = []"

fun Created :: "Record \<Rightarrow> time" where
  "Created (RMsg m) = sm_CreatedAt m"
| "Created (RCompact c) = sc_CreatedAt c"
| "Created (RHead tail t) = t"
| "Created (RCheckpoint i anchor p t) = t"
| "Created (RCursor i t) = t"
| "Created (RMetadata i t) = t"
| "Created (RWorkspace p t) = t"
| "Created (RArchived t) = t"
| "Created (RUnknown k) = 0"

fun is_node :: "Record \<Rightarrow> bool" where
  "is_node (RMsg m) = True"
| "is_node (RCompact c) = True"
| "is_node _ = False"

section \<open>The line of a record\<close>

text \<open>The flat members of a record in the order of the source; a field that another kind owns is empty.\<close>

definition calls_member :: "ToolCall list \<Rightarrow> (string \<times> json) list" where
  "calls_member cs = (if cs = [] then [] else [(''tool_calls'', JArr (map call_json cs))])"

definition custom_member :: "(string \<times> json) list \<Rightarrow> (string \<times> json) list" where
  "custom_member m = (if m = [] then [] else [(''custom'', JObj (sort_kv m))])"

fun flat_members :: "Record \<Rightarrow> (string \<times> json) list" where
  "flat_members (RMsg m) =
     opt_str ''id'' (sm_ID m) @ opt_str ''parent'' (sm_Parent m) @ opt_str ''role'' (sm_Role m) @
     opt_str ''content'' (sm_Content m) @ calls_member (sm_ToolCalls m) @
     opt_str ''tool_call_id'' (sm_ToolCallID m) @ opt_str ''thinking'' (sm_Thinking m) @
     custom_member (sm_Custom m) @ opt_str ''clone_of'' (sm_CloneOf m)"
| "flat_members (RCompact c) =
     opt_str ''id'' (sc_ID c) @ opt_str ''parent'' (sc_Parent c) @ opt_str ''summary'' (sc_Summary c) @
     opt_str ''covered_from'' (sc_CoveredFrom c) @ opt_str ''covered_to'' (sc_CoveredTo c)"
| "flat_members (RHead tail t) = opt_str ''tail'' tail"
| "flat_members (RCheckpoint i anchor p t) = opt_str ''id'' i @ opt_str ''at'' anchor @ opt_str ''preview'' p"
| "flat_members (RCursor i t) = opt_str ''msg_id'' i"
| "flat_members (RMetadata i t) = opt_str ''session_id'' i"
| "flat_members (RWorkspace p t) = opt_str ''path'' p"
| "flat_members (RArchived t) = []"
| "flat_members (RUnknown k) = []"

definition marshal_record :: "time_codec \<Rightarrow> Record \<Rightarrow> string option" where
  "marshal_record tz r =
    do { created \<leftarrow> tz_format tz (Created r);
         Some (json_text (JObj ([(''kind'', JStr (record_kind r))] @ flat_members r @
           [(''created_at'', JStr created)]))) }"

text \<open>Slices of tool calls and maps, as \<^verbatim>\<open>Unmarshal\<close> assigns them.\<close>

fun set_function :: "ToolCall option \<Rightarrow> json \<Rightarrow> ToolCall option" where
  "set_function (Some c) JNull = Some c"
| "set_function (Some c) (JObj m) =
     do { name \<leftarrow> foldl set_string (Some (call_Name c)) (members_of ''name'' m);
          args \<leftarrow> foldl set_string (Some (call_Arguments c)) (members_of ''arguments'' m);
          Some (c\<lparr>call_Name := name, call_Arguments := args\<rparr>) }"
| "set_function _ _ = None"

fun elem_call :: "json \<Rightarrow> ToolCall option" where
  "elem_call JNull = Some \<lparr>call_ID = [], call_Type = [], call_Name = [], call_Arguments = []\<rparr>"
| "elem_call (JObj m) =
     do { i \<leftarrow> string_field ''id'' m; t \<leftarrow> string_field ''type'' m;
          foldl set_function (Some \<lparr>call_ID = i, call_Type = t, call_Name = [], call_Arguments = []\<rparr>)
            (members_of ''function'' m) }"
| "elem_call _ = None"

fun set_calls :: "ToolCall list option \<Rightarrow> json \<Rightarrow> ToolCall list option" where
  "set_calls (Some cs) JNull = Some []"
| "set_calls (Some cs) (JArr ys) = those (map elem_call ys)"
| "set_calls _ _ = None"

fun set_map :: "(string \<times> json) list option \<Rightarrow> json \<Rightarrow> (string \<times> json) list option" where
  "set_map (Some c) JNull = Some []"
| "set_map (Some c) (JObj m) = Some (foldl (\<lambda>c (k, v). map_put k v c) c m)"
| "set_map _ _ = None"

definition msg_of_members :: "time_codec \<Rightarrow> (string \<times> json) list \<Rightarrow> msgFields option" where
  "msg_of_members tz m =
    do { i \<leftarrow> string_field ''id'' m; parent \<leftarrow> string_field ''parent'' m; role \<leftarrow> string_field ''role'' m;
         content \<leftarrow> string_field ''content'' m;
         calls \<leftarrow> foldl set_calls (Some []) (members_of ''tool_calls'' m);
         tid \<leftarrow> string_field ''tool_call_id'' m; thinking \<leftarrow> string_field ''thinking'' m;
         custom \<leftarrow> foldl set_map (Some []) (members_of ''custom'' m);
         clone \<leftarrow> string_field ''clone_of'' m; created \<leftarrow> time_field tz ''created_at'' m;
         Some \<lparr>sm_ID = i, sm_Parent = parent, sm_Role = role, sm_Content = content, sm_ToolCalls = calls,
               sm_ToolCallID = tid, sm_Thinking = thinking, sm_Custom = custom, sm_CloneOf = clone,
               sm_CreatedAt = created\<rparr> }"

definition compact_of_members :: "time_codec \<Rightarrow> (string \<times> json) list \<Rightarrow> compactFields option" where
  "compact_of_members tz m =
    do { i \<leftarrow> string_field ''id'' m; parent \<leftarrow> string_field ''parent'' m;
         summary \<leftarrow> string_field ''summary'' m; from \<leftarrow> string_field ''covered_from'' m;
         to \<leftarrow> string_field ''covered_to'' m; created \<leftarrow> time_field tz ''created_at'' m;
         Some \<lparr>sc_ID = i, sc_Parent = parent, sc_Summary = summary, sc_CoveredFrom = from,
               sc_CoveredTo = to, sc_CreatedAt = created\<rparr> }"

definition record_of_members :: "time_codec \<Rightarrow> (string \<times> json) list \<Rightarrow> Record option" where
  "record_of_members tz m =
    do { kind \<leftarrow> string_field ''kind'' m;
         if kind = ''msg'' then map_option RMsg (msg_of_members tz m)
         else if kind = ''compact'' then map_option RCompact (compact_of_members tz m)
         else if kind = ''head'' then
           do { tail \<leftarrow> string_field ''tail'' m; t \<leftarrow> time_field tz ''created_at'' m; Some (RHead tail t) }
         else if kind = ''checkpoint'' then
           do { i \<leftarrow> string_field ''id'' m; anchor \<leftarrow> string_field ''at'' m; p \<leftarrow> string_field ''preview'' m;
                t \<leftarrow> time_field tz ''created_at'' m; Some (RCheckpoint i anchor p t) }
         else if kind = ''cursor'' then
           do { i \<leftarrow> string_field ''msg_id'' m; t \<leftarrow> time_field tz ''created_at'' m; Some (RCursor i t) }
         else if kind = ''metadata'' then
           do { i \<leftarrow> string_field ''session_id'' m; t \<leftarrow> time_field tz ''created_at'' m; Some (RMetadata i t) }
         else if kind = ''workspace'' then
           do { p \<leftarrow> string_field ''path'' m; t \<leftarrow> time_field tz ''created_at'' m; Some (RWorkspace p t) }
         else if kind = ''archived'' then
           do { t \<leftarrow> time_field tz ''created_at'' m; Some (RArchived t) }
         else Some (RUnknown kind) }"

abbreviation unmarshal_record :: "time_codec \<Rightarrow> string \<Rightarrow> Record option" where
  "unmarshal_record tz \<equiv> unmarshal_object (record_of_members tz)"

section \<open>Constructors and messages\<close>

definition newMsgRecord ::
  "string \<Rightarrow> string \<Rightarrow> string \<Rightarrow> string \<Rightarrow> ToolCall list \<Rightarrow> string \<Rightarrow> string \<Rightarrow> time \<Rightarrow> msgFields" where
  "newMsgRecord i parent role content tc tid cloneOf created =
    \<lparr>sm_ID = i, sm_Parent = parent, sm_Role = role, sm_Content = content, sm_ToolCalls = tc,
     sm_ToolCallID = tid, sm_Thinking = [], sm_Custom = [], sm_CloneOf = cloneOf, sm_CreatedAt = created\<rparr>"

definition newCompactRecord :: "string \<Rightarrow> string \<Rightarrow> string \<Rightarrow> string \<Rightarrow> string \<Rightarrow> time \<Rightarrow> Record" where
  "newCompactRecord i parent summary from to created =
    RCompact \<lparr>sc_ID = i, sc_Parent = parent, sc_Summary = summary, sc_CoveredFrom = from,
              sc_CoveredTo = to, sc_CreatedAt = created\<rparr>"

definition zero_message :: Message where
  "zero_message = \<lparr>m_Role = [], m_Content = [], m_ToolCallID = [], m_ToolCalls = [], m_Thinking = [],
     m_Custom = [], m_MsgID = [], m_CreatedAt = 0\<rparr>"

fun recordToMessage :: "Record \<Rightarrow> Message" where
  "recordToMessage (RCompact c) =
     zero_message\<lparr>m_Role := ''system'', m_Content := sc_Summary c, m_MsgID := sc_ID c, m_CreatedAt := sc_CreatedAt c\<rparr>"
| "recordToMessage (RMsg m) =
     \<lparr>m_Role = sm_Role m, m_Content = sm_Content m, m_ToolCallID = sm_ToolCallID m, m_ToolCalls = sm_ToolCalls m,
      m_Thinking = sm_Thinking m, m_Custom = sm_Custom m, m_MsgID = sm_ID m, m_CreatedAt = sm_CreatedAt m\<rparr>"
| "recordToMessage _ = zero_message"

definition messageToRecord :: "Message \<Rightarrow> msgFields" where
  "messageToRecord m =
    (newMsgRecord (m_MsgID m) [] (m_Role m) (m_Content m) (m_ToolCalls m) (m_ToolCallID m) [] (m_CreatedAt m))
      \<lparr>sm_Thinking := m_Thinking m, sm_Custom := m_Custom m\<rparr>"

definition isRealMessage :: "Message \<Rightarrow> bool" where
  "isRealMessage m \<longleftrightarrow> \<not> (m_Role m = ''system'' \<and> 2 < length (m_MsgID m) \<and> take 2 (m_MsgID m) = ''s_'')"

lemma recordToMessage_toRecord: "recordToMessage (RMsg (messageToRecord m)) = m"
  by (simp add: messageToRecord_def newMsgRecord_def)

section \<open>Round trip\<close>

definition call_ok :: "ToolCall \<Rightarrow> bool" where
  "call_ok c \<longleftrightarrow> list_all valid_utf8 [call_ID c, call_Type c, call_Name c, call_Arguments c]"

definition custom_ok :: "(string \<times> json) list \<Rightarrow> bool" where
  "custom_ok m \<longleftrightarrow> distinct (map fst m) \<and> sort_kv m = m \<and> list_all (\<lambda>(k, v). valid_utf8 k \<and> wf_json v) m"

text \<open>
  The records that survive: valid UTF-8, a time that the codec knows, and custom values in the order of
  their keys, which is how they are written.
\<close>

fun fields_ok :: "Record \<Rightarrow> bool" where
  "fields_ok (RMsg m) \<longleftrightarrow>
     list_all valid_utf8 [sm_ID m, sm_Parent m, sm_Role m, sm_Content m, sm_ToolCallID m, sm_Thinking m,
       sm_CloneOf m] \<and> list_all call_ok (sm_ToolCalls m) \<and> custom_ok (sm_Custom m)"
| "fields_ok (RCompact c) \<longleftrightarrow>
     list_all valid_utf8 [sc_ID c, sc_Parent c, sc_Summary c, sc_CoveredFrom c, sc_CoveredTo c]"
| "fields_ok (RHead tail t) \<longleftrightarrow> valid_utf8 tail"
| "fields_ok (RCheckpoint i anchor p t) \<longleftrightarrow> valid_utf8 i \<and> valid_utf8 anchor \<and> valid_utf8 p"
| "fields_ok (RCursor i t) \<longleftrightarrow> valid_utf8 i"
| "fields_ok (RMetadata i t) \<longleftrightarrow> valid_utf8 i"
| "fields_ok (RWorkspace p t) \<longleftrightarrow> valid_utf8 p"
| "fields_ok (RArchived t) \<longleftrightarrow> True"
| "fields_ok (RUnknown k) \<longleftrightarrow> valid_utf8 k \<and> k \<notin> set known_kinds"

definition record_ok :: "time_codec \<Rightarrow> Record \<Rightarrow> bool" where
  "record_ok tz r \<longleftrightarrow> fields_ok r \<and> time_ok tz (Created r)"

definition record_keys :: "string list" where
  "record_keys = [''kind'', ''id'', ''parent'', ''summary'', ''role'', ''content'', ''tool_calls'', ''tool_call_id'',
    ''thinking'', ''custom'', ''covered_from'', ''covered_to'', ''clone_of'', ''tail'', ''at'', ''preview'', ''msg_id'',
    ''session_id'', ''path'', ''created_at'', ''type'', ''function'', ''name'', ''arguments'']"

lemma record_keys_apart:
  "list_all (\<lambda>k. list_all (\<lambda>k2. EqualFold k k2 \<longrightarrow> k = k2) record_keys) record_keys"
  by code_simp

lemma record_keys_utf8: "list_all valid_utf8 record_keys"
  by code_simp

lemma record_key_fold: "k \<in> set record_keys \<Longrightarrow> k2 \<in> set record_keys \<Longrightarrow> EqualFold k k2 \<longleftrightarrow> k = k2"
  using record_keys_apart by (auto simp: list_all_iff)

lemma record_members_Cons:
  "k \<in> set record_keys \<Longrightarrow> k2 \<in> set record_keys \<Longrightarrow>
   members_of k2 ((k, v) # m) = (if k = k2 then v # members_of k2 m else members_of k2 m)"
  by (simp add: record_key_fold)

lemma record_members_opt:
  "k \<in> set record_keys \<Longrightarrow> k2 \<in> set record_keys \<Longrightarrow>
   members_of k2 (opt_str k s) = (if k = k2 \<and> s \<noteq> [] then [JStr s] else [])"
  by (simp add: opt_str_def record_key_fold)

lemma record_keys_in [simp]:
  "''kind'' \<in> set record_keys" "''id'' \<in> set record_keys" "''parent'' \<in> set record_keys"
  "''summary'' \<in> set record_keys" "''role'' \<in> set record_keys" "''content'' \<in> set record_keys"
  "''tool_calls'' \<in> set record_keys" "''tool_call_id'' \<in> set record_keys" "''thinking'' \<in> set record_keys"
  "''custom'' \<in> set record_keys" "''covered_from'' \<in> set record_keys" "''covered_to'' \<in> set record_keys"
  "''clone_of'' \<in> set record_keys" "''tail'' \<in> set record_keys" "''at'' \<in> set record_keys"
  "''preview'' \<in> set record_keys" "''msg_id'' \<in> set record_keys" "''session_id'' \<in> set record_keys"
  "''path'' \<in> set record_keys" "''created_at'' \<in> set record_keys" "''type'' \<in> set record_keys"
  "''function'' \<in> set record_keys" "''name'' \<in> set record_keys" "''arguments'' \<in> set record_keys"
  by (simp_all add: record_keys_def)

lemma record_members_calls:
  "k \<in> set record_keys \<Longrightarrow>
   members_of k (calls_member cs) = (if k = ''tool_calls'' \<and> cs \<noteq> [] then [JArr (map call_json cs)] else [])"
  by (simp add: calls_member_def record_members_Cons eq_commute [of k] del: members_of_Cons)

lemma record_members_custom:
  "k \<in> set record_keys \<Longrightarrow>
   members_of k (custom_member m) = (if k = ''custom'' \<and> m \<noteq> [] then [JObj (sort_kv m)] else [])"
  by (simp add: custom_member_def record_members_Cons eq_commute [of k] del: members_of_Cons)

lemmas record_members = record_members_Cons record_members_opt record_members_calls record_members_custom

lemma elem_call_json [simp]: "elem_call (call_json c) = Some c"
  by (simp add: call_json_def string_field_def record_members del: members_of_Cons)

lemma those_calls [simp]: "those (map (elem_call \<circ> call_json) cs) = Some cs"
  by (induction cs) simp_all

lemma put_all:
  "distinct (map fst (c @ m)) \<Longrightarrow> foldl (\<lambda>c (k, v). map_put k v c) c m = c @ m"
proof (induction m arbitrary: c)
  case (Cons e m)
  then show ?case by (cases e) (auto simp: map_put_new)
qed simp

lemma record_of_flat:
  assumes "record_ok tz r" and "tz_format tz (Created r) = Some created"
  shows "record_of_members tz ([(''kind'', JStr (record_kind r))] @ flat_members r @ [(''created_at'', JStr created)]) = Some r"
proof -
  have p: "tz_parse tz created = Some (Created r)"
    using assms by (simp add: record_ok_def time_ok_def)
  note [simp] = string_field_def time_field_def record_members
  note [simp del] = members_of_Cons
  show ?thesis
  proof (cases r)
    case (RMsg m)
    then have "distinct (map fst (sm_Custom m))" "sort_kv (sm_Custom m) = sm_Custom m"
      using assms(1) by (simp_all add: record_ok_def custom_ok_def)
    then have "set_map (Some []) (JObj (sort_kv (sm_Custom m))) = Some (sm_Custom m)"
      by (simp add: put_all)
    with RMsg p show ?thesis
      by (simp add: record_of_members_def msg_of_members_def)
  next
    case (RUnknown k)
    with assms(1) show ?thesis by (simp add: record_of_members_def record_ok_def known_kinds_def)
  qed (use p in \<open>simp_all add: record_of_members_def compact_of_members_def\<close>)
qed

lemma opt_str_wf: "valid_utf8 k \<Longrightarrow> valid_utf8 s \<Longrightarrow> list_all (\<lambda>(k, v). valid_utf8 k \<and> wf_json v) (opt_str k s)"
  by (simp add: opt_str_def)

lemma record_key_utf8: "k \<in> set record_keys \<Longrightarrow> valid_utf8 k"
  using record_keys_utf8 by (simp add: list_all_iff)

lemma call_json_wf: "call_ok c \<Longrightarrow> wf_json (call_json c)"
  by (simp add: call_json_def call_ok_def record_key_utf8)

lemma flat_wf: "fields_ok r \<Longrightarrow> list_all (\<lambda>(k, v). valid_utf8 k \<and> wf_json v) (flat_members r)"
proof (cases r)
  case (RMsg m)
  moreover assume "fields_ok r"
  moreover have "list_all (\<lambda>(k, v). valid_utf8 k \<and> wf_json v) (calls_member cs)" if "list_all call_ok cs" for cs
    using that by (auto simp: calls_member_def record_key_utf8 list_all_iff call_json_wf)
  moreover have "list_all (\<lambda>(k, v). valid_utf8 k \<and> wf_json v) (custom_member c)" if "custom_ok c" for c
    using that by (auto simp: custom_member_def record_key_utf8 custom_ok_def)
  ultimately show ?thesis by (simp add: opt_str_wf record_key_utf8)
qed (simp_all add: opt_str_wf record_key_utf8)

lemma kind_wf: "fields_ok r \<Longrightarrow> valid_utf8 (record_kind r)"
proof -
  have "list_all valid_utf8 known_kinds" by code_simp
  then show "fields_ok r \<Longrightarrow> valid_utf8 (record_kind r)" by (cases r) (simp_all add: known_kinds_def)
qed

interpretation record_codec: object_codec "marshal_record tz" "record_of_members tz" "\<lambda>r. r" "record_ok tz"
proof
  fix r
  assume r: "record_ok tz r"
  then obtain created where c: "tz_format tz (Created r) = Some created" "valid_utf8 created"
    by (auto simp: record_ok_def time_ok_def split: option.splits)
  let ?m = "[(''kind'', JStr (record_kind r))] @ flat_members r @ [(''created_at'', JStr created)]"
  have "wf_json (JObj ?m)"
    using r c(2) flat_wf [of r] kind_wf [of r] by (simp add: record_ok_def record_key_utf8)
  moreover have "marshal_record tz r = Some (json_text (JObj ?m))" by (simp add: marshal_record_def c)
  ultimately show "\<exists>m. marshal_record tz r = Some (json_text (JObj m)) \<and> wf_json (JObj m) \<and>
      record_of_members tz m = Some r"
    using record_of_flat [OF r c(1)] by blast
qed

end
