(* ===== verification/Session_Store.thy ===== *)
theory Session_Store
  imports Session_Record
begin

text \<open>
  The session store (\<^verbatim>\<open>src/ai-runtime/session/store.go\<close>): a conversation as an append-only file of records
  that form a tree, with a head. The active view is the path from the head to the root; a commit
  appends to it, a rewind moves the head, a compaction hangs a summary and copies of the recent
  messages beside the old part. The state is the file, the records in memory, the identity, the head
  and the cursor of the consolidation.

  A call takes its clock, its fresh identifiers and the outcome of each of its writes from the
  environment, by position; a failed \<^verbatim>\<open>Sync\<close> is a write that failed after the last byte. The locks are
  left out: a call is a step.
\<close>

section \<open>State\<close>

record Metadata =
  md_SessionID :: string
  md_CreatedAt :: time

record SessionStore =
  ss_file :: string
  ss_recs :: "Record list"
  ss_metadata :: Metadata
  ss_head :: string
  ss_cursor :: string

datatype session_error =
    DirFailed | DirModeFailed | ArchiveModeFailed | StoreLocked | LoadFailed | OpenFailed | ModeFailed
  | RepairFailed | RepairSyncFailed | MetadataFailed
  | RecordFailed | EmptySession | EmptyPath | BadRange string string | EmptyWorkspace

record session_env =
  xe_tz :: time_codec
  xe_now :: "nat \<Rightarrow> time"
  xe_newID :: "nat \<Rightarrow> string"
  xe_write :: "nat \<Rightarrow> write_result"

section \<open>Reading the records\<close>

definition node_ids :: "Record list \<Rightarrow> string list" where
  "node_ids recs = map NodeID (filter is_node recs)"

text \<open>The index \<^verbatim>\<open>byID\<close>: of two nodes with one identifier the later one counts.\<close>

definition byID :: "Record list \<Rightarrow> string \<Rightarrow> Record option" where
  "byID recs i = find (\<lambda>r. is_node r \<and> NodeID r = i) (rev recs)"

lemma byID_Some: "byID recs i = Some r \<Longrightarrow> r \<in> set recs \<and> is_node r \<and> NodeID r = i"
  unfolding byID_def by (drule find_SomeD) simp

text \<open>The walk from a node along its parents, with the guard against cycles.\<close>

function walk :: "Record list \<Rightarrow> string list \<Rightarrow> string \<Rightarrow> Record list" where
  "walk recs visited cur =
    (if cur = [] \<or> cur \<in> set visited then []
     else (case byID recs cur of
             None \<Rightarrow> []
           | Some r \<Rightarrow> r # walk recs (cur # visited) (ParentID r)))"
  by pat_completeness auto

termination
proof (relation "measure (\<lambda>(recs, visited, cur). card (NodeID ` set recs - set visited))")
  fix recs visited cur r
  assume "\<not> (cur = [] \<or> cur \<in> set visited)" "byID recs cur = Some r"
  then have "cur \<in> NodeID ` set recs - set visited" using byID_Some [of recs cur r] by auto
  then have "card (NodeID ` set recs - set (cur # visited)) < card (NodeID ` set recs - set visited)"
    by (intro psubset_card_mono) auto
  then show "((recs, cur # visited, ParentID r), recs, visited, cur)
      \<in> measure (\<lambda>(recs, visited, cur). card (NodeID ` set recs - set visited))" by simp
qed simp

declare walk.simps [simp del]

definition buildActiveView :: "Record list \<Rightarrow> string \<Rightarrow> Message list" where
  "buildActiveView recs h = (if h = [] then [] else map recordToMessage (rev (walk recs [] h)))"

definition activePathIDs :: "SessionStore \<Rightarrow> string list" where
  "activePathIDs s = map NodeID (rev (walk (ss_recs s) [] (ss_head s)))"

definition ActiveView :: "SessionStore \<Rightarrow> Message list" where
  "ActiveView s = buildActiveView (ss_recs s) (ss_head s)"

definition hasID :: "SessionStore \<Rightarrow> string \<Rightarrow> bool" where
  "hasID s i \<longleftrightarrow> list_ex (\<lambda>r. is_node r \<and> NodeID r = i) (ss_recs s)"

fun metadata_of :: "Record \<Rightarrow> Metadata option" where
  "metadata_of (RMetadata i t) = (if i = [] then None else Some \<lparr>md_SessionID = i, md_CreatedAt = t\<rparr>)"
| "metadata_of _ = None"

definition metadataFromRecords :: "Record list \<Rightarrow> Metadata option" where
  "metadataFromRecords recs = (case List.map_filter metadata_of recs of [] \<Rightarrow> None | m # _ \<Rightarrow> Some m)"

fun workspace_of :: "Record \<Rightarrow> string option" where
  "workspace_of (RWorkspace p t) = Some p"
| "workspace_of _ = None"

definition workspaceFromRecords :: "Record list \<Rightarrow> string" where
  "workspaceFromRecords recs = (case List.map_filter workspace_of (rev recs) of [] \<Rightarrow> [] | p # _ \<Rightarrow> p)"

fun is_archived :: "Record \<Rightarrow> bool" where
  "is_archived (RArchived t) = True"
| "is_archived _ = False"

definition archivedFromRecords :: "Record list \<Rightarrow> bool" where
  "archivedFromRecords recs \<longleftrightarrow> list_ex is_archived recs"

definition firstNodeID :: "Record list \<Rightarrow> string" where
  "firstNodeID recs = (case filter (\<lambda>i. i \<noteq> []) (node_ids recs) of [] \<Rightarrow> [] | i # _ \<Rightarrow> i)"

definition timeFromRecords :: "Record list \<Rightarrow> time" where
  "timeFromRecords recs = (case filter (\<lambda>t. \<not> IsZero t) (map Created recs) of [] \<Rightarrow> 0 | t # _ \<Rightarrow> t)"

record Checkpoint =
  ck_ID :: string
  ck_At :: string
  ck_Preview :: string
  ck_CreatedAt :: time

fun checkpoint_of :: "Record \<Rightarrow> Checkpoint option" where
  "checkpoint_of (RCheckpoint i anchor p t) =
     Some \<lparr>ck_ID = i, ck_At = anchor, ck_Preview = p, ck_CreatedAt = t\<rparr>"
| "checkpoint_of _ = None"

definition checkpointsFromRecords :: "Record list \<Rightarrow> int \<Rightarrow> Checkpoint list" where
  "checkpointsFromRecords recs limit =
    (let cks = List.map_filter checkpoint_of (rev recs)
     in if 0 < limit then take (nat limit) cks else cks)"

text \<open>
  The head and the cursor of a file: \<open>Open\<close> looks from the end for the last record with a target that
  is not empty.
\<close>

fun head_step :: "string \<Rightarrow> Record \<Rightarrow> string" where
  "head_step h (RHead tail t) = (if tail = [] then h else tail)"
| "head_step h _ = h"

fun cursor_step :: "string \<Rightarrow> Record \<Rightarrow> string" where
  "cursor_step c (RCursor i t) = (if i = [] then c else i)"
| "cursor_step c _ = c"

definition last_head :: "Record list \<Rightarrow> string" where
  "last_head recs = foldl head_step [] recs"

definition last_cursor :: "Record list \<Rightarrow> string" where
  "last_cursor recs = foldl cursor_step [] recs"

section \<open>Opening\<close>

text \<open>
  The environment of \<open>Open\<close>: which system calls succeed, the clock, a fresh session identifier and the
  digest of \<^verbatim>\<open>legacySessionID\<close> (of the first node, or of the content of a file without nodes).
\<close>

record open_env =
  xo_mkdir :: bool
  xo_chmod :: bool
  xo_archive :: bool
  xo_lock :: bool
  xo_open :: bool
  xo_fchmod :: bool
  xo_stat :: bool
  xo_truncate :: bool
  xo_sync :: bool
  xo_read :: bool
  xo_write :: write_result
  xo_tz :: time_codec
  xo_now :: time
  xo_sessionID :: string
  xo_legacyID :: "string \<Rightarrow> string \<Rightarrow> string"

definition appendRecord :: "time_codec \<Rightarrow> write_result \<Rightarrow> Record \<Rightarrow> SessionStore \<Rightarrow> bool \<times> SessionStore" where
  "appendRecord tz w r s =
    (case marshal_record tz r of
       None \<Rightarrow> (False, s)
     | Some data \<Rightarrow> (case file_write (ss_file s) (data @ [nl]) w of (f, ok) \<Rightarrow> (ok, s\<lparr>ss_file := f\<rparr>)))"

definition repair_tail :: "open_env \<Rightarrow> string \<Rightarrow> nat \<Rightarrow> session_error + string" where
  "repair_tail env f good =
    (if xo_stat env \<and> good < length f then
       (if \<not> xo_truncate env then Inl RepairFailed
        else if \<not> xo_sync env then Inl RepairSyncFailed
        else Inr (take good f))
     else Inr f)"

definition session_metadata :: "open_env \<Rightarrow> string \<Rightarrow> Record list \<Rightarrow> Metadata" where
  "session_metadata env f recs =
    (let content = (if xo_read env then f else []); firstID = firstNodeID recs
     in \<lparr>md_SessionID = (if firstID = [] \<and> content = [] then xo_sessionID env else xo_legacyID env firstID content),
         md_CreatedAt = xo_now env\<rparr>)"

definition open_metadata :: "open_env \<Rightarrow> string \<Rightarrow> Record list \<Rightarrow> session_error + SessionStore" where
  "open_metadata env f recs =
    (case metadataFromRecords recs of
       Some m \<Rightarrow> Inr \<lparr>ss_file = f, ss_recs = recs, ss_metadata = m, ss_head = [], ss_cursor = []\<rparr>
     | None \<Rightarrow>
         let m = session_metadata env f recs;
             r = RMetadata (md_SessionID m) (md_CreatedAt m)
         in (case appendRecord (xo_tz env) (xo_write env) r
                    \<lparr>ss_file = f, ss_recs = recs, ss_metadata = m, ss_head = [], ss_cursor = []\<rparr> of
               (ok, s) \<Rightarrow> if ok then Inr (s\<lparr>ss_recs := recs @ [r]\<rparr>) else Inl MetadataFailed))"

definition Open_session :: "open_env \<Rightarrow> string option \<Rightarrow> session_error + SessionStore" where
  "Open_session env disk =
    (if \<not> xo_mkdir env then Inl DirFailed
     else if \<not> xo_chmod env then Inl DirModeFailed
     else if \<not> xo_archive env then Inl ArchiveModeFailed
     else if \<not> xo_lock env then Inl StoreLocked
     else (case (case disk of None \<Rightarrow> Some ([], 0) | Some f \<Rightarrow> scanJSONL (unmarshal_record (xo_tz env)) f) of
             None \<Rightarrow> Inl LoadFailed
           | Some (recs, good) \<Rightarrow>
               if \<not> xo_open env then Inl OpenFailed
               else if \<not> xo_fchmod env then Inl ModeFailed
               else (case repair_tail env (case disk of None \<Rightarrow> [] | Some f \<Rightarrow> f) good of
                       Inl e \<Rightarrow> Inl e
                     | Inr f \<Rightarrow>
                         (case open_metadata env f recs of
                            Inl e \<Rightarrow> Inl e
                          | Inr s \<Rightarrow> Inr (s\<lparr>ss_head := last_head (ss_recs s), ss_cursor := last_cursor (ss_recs s)\<rparr>)))))"

section \<open>Operations\<close>

definition stamp_commit :: "time \<Rightarrow> Message \<Rightarrow> Message" where
  "stamp_commit now m = (if IsZero (m_CreatedAt m) then m\<lparr>m_CreatedAt := now\<rparr> else m)"

definition commit_record :: "time \<Rightarrow> string \<Rightarrow> Message \<Rightarrow> Record" where
  "commit_record now prev m = RMsg ((messageToRecord (stamp_commit now m))\<lparr>sm_Parent := prev, sm_CreatedAt := now\<rparr>)"

text \<open>
  The loop of \<open>Commit\<close>: the error, the messages that were stored, the store. The variable \<^verbatim>\<open>prev\<close> of the
  source is the head throughout.
\<close>

fun commit_msgs :: "session_env \<Rightarrow> nat \<Rightarrow> Message list \<Rightarrow> Message list \<Rightarrow> SessionStore
    \<Rightarrow> session_error option \<times> Message list \<times> SessionStore" where
  "commit_msgs env k committed [] s = (None, committed, s)"
| "commit_msgs env k committed (m # ms) s =
     (if m_MsgID m = [] then commit_msgs env k committed ms s
      else if hasID s (m_MsgID m) then commit_msgs env k committed ms s
      else
        let now = xe_now env k;
            rec = commit_record now (ss_head s) m;
            headRec = RHead (m_MsgID m) now in
        (case appendRecord (xe_tz env) (xe_write env (2 * k)) rec s of (ok, s) \<Rightarrow>
           if \<not> ok then (Some RecordFailed, committed, s)
           else (case appendRecord (xe_tz env) (xe_write env (2 * k + 1)) headRec s of (ok, s) \<Rightarrow>
                   if \<not> ok then (Some RecordFailed, committed, s)
                   else commit_msgs env (Suc k) (committed @ [stamp_commit now m]) ms
                          (s\<lparr>ss_recs := ss_recs s @ [rec, headRec], ss_head := m_MsgID m\<rparr>))))"

definition Commit :: "session_env \<Rightarrow> Message list \<Rightarrow> SessionStore \<Rightarrow> session_error option \<times> Message list \<times> SessionStore" where
  "Commit env msgs s = commit_msgs env 0 [] msgs s"

definition clone_record :: "time \<Rightarrow> string \<Rightarrow> string \<Rightarrow> msgFields \<Rightarrow> Record" where
  "clone_record now cloneID prev orig =
    RMsg ((newMsgRecord cloneID prev (sm_Role orig) (sm_Content orig) (sm_ToolCalls orig) (sm_ToolCallID orig)
             (sm_ID orig) now)\<lparr>sm_Thinking := sm_Thinking orig, sm_Custom := sm_Custom orig\<rparr>)"

text \<open>
  The loop that copies the retained part: it skips what is not a message. The result is whether all
  records were written, the last copy, the map of the copies and the store. Copy \<open>k\<close> is write \<open>k + 1\<close>
  of the call.
\<close>

fun copy_retained :: "session_env \<Rightarrow> Record list \<Rightarrow> nat \<Rightarrow> string list \<Rightarrow> string \<Rightarrow> (string \<times> string) list \<Rightarrow>
    SessionStore \<Rightarrow> bool \<times> string \<times> (string \<times> string) list \<times> SessionStore" where
  "copy_retained env old k [] prev cloneMap s = (True, prev, cloneMap, s)"
| "copy_retained env old k (origID # ids) prev cloneMap s =
     (case byID old origID of
        Some (RMsg orig) \<Rightarrow>
          (let cloneID = xe_newID env k; r = clone_record (xe_now env 0) cloneID prev orig in
           case appendRecord (xe_tz env) (xe_write env (Suc k)) r s of (ok, s) \<Rightarrow>
             if \<not> ok then (False, prev, cloneMap, s)
             else copy_retained env old (Suc k) ids cloneID (map_put origID cloneID cloneMap)
                    (s\<lparr>ss_recs := ss_recs s @ [r]\<rparr>))
      | _ \<Rightarrow> copy_retained env old k ids prev cloneMap s)"

definition remapCursor :: "string list \<Rightarrow> (string \<times> string) list \<Rightarrow> string \<Rightarrow> SessionStore \<Rightarrow> SessionStore" where
  "remapCursor retainIDs cloneMap lastClone s =
    (if ss_cursor s = [] then s
     else if ss_cursor s \<in> set retainIDs then
       (case map_of cloneMap (ss_cursor s) of Some c \<Rightarrow> s\<lparr>ss_cursor := c\<rparr> | None \<Rightarrow> s)
     else if ss_cursor s = ss_head s then s\<lparr>ss_cursor := lastClone\<rparr>
     else s)"

text \<open>The last index of an identifier in a list.\<close>

definition index_of :: "string \<Rightarrow> string list \<Rightarrow> nat option" where
  "index_of i ids = (case rev (filter (\<lambda>k. ids ! k = i) [0..<length ids]) of [] \<Rightarrow> None | k # _ \<Rightarrow> Some k)"

definition compact_at :: "session_env \<Rightarrow> string \<Rightarrow> string \<Rightarrow> string \<Rightarrow> string \<Rightarrow> string list \<Rightarrow> SessionStore
    \<Rightarrow> session_error option \<times> SessionStore" where
  "compact_at env from to summary parent retainIDs s =
    (let now = xe_now env 0;
         compactID = ''s_'' @ to;
         compactRec = newCompactRecord compactID parent summary from to now in
     case appendRecord (xe_tz env) (xe_write env 0) compactRec s of (ok, s1) \<Rightarrow>
       if \<not> ok then (Some RecordFailed, s1)
       else
         (case copy_retained env (ss_recs s) 0 retainIDs compactID [] (s1\<lparr>ss_recs := ss_recs s1 @ [compactRec]\<rparr>) of
            (ok, prevClone, cloneMap, s2) \<Rightarrow>
              if \<not> ok then (Some RecordFailed, s2)
              else
                let s3 = remapCursor retainIDs cloneMap prevClone s2;
                    headRec = RHead prevClone now in
                (case appendRecord (xe_tz env) (xe_write env (Suc (length retainIDs))) headRec s3 of (ok, s4) \<Rightarrow>
                   if \<not> ok then (Some RecordFailed, s4)
                   else (None, s4\<lparr>ss_recs := ss_recs s4 @ [headRec], ss_head := prevClone\<rparr>))))"

definition Compact :: "session_env \<Rightarrow> string \<Rightarrow> string \<Rightarrow> string \<Rightarrow> SessionStore \<Rightarrow> session_error option \<times> SessionStore" where
  "Compact env from to summary s =
    (if ss_head s = [] then (Some EmptySession, s)
     else
       let ids = activePathIDs s in
       if ids = [] then (Some EmptyPath, s)
       else (case (index_of from ids, index_of to ids) of
               (Some fi, Some ti) \<Rightarrow>
                 if fi > ti then (Some (BadRange from to), s)
                 else compact_at env from to summary (if 0 < fi then ids ! (fi - 1) else []) (drop (Suc ti) ids) s
             | _ \<Rightarrow> (Some (BadRange from to), s)))"

text \<open>The calls that append one record.\<close>

definition append_one :: "session_env \<Rightarrow> Record \<Rightarrow> (SessionStore \<Rightarrow> SessionStore) \<Rightarrow> SessionStore
    \<Rightarrow> session_error option \<times> SessionStore" where
  "append_one env r upd s =
    (case appendRecord (xe_tz env) (xe_write env 0) r s of (ok, s) \<Rightarrow>
       if \<not> ok then (Some RecordFailed, s) else (None, upd (s\<lparr>ss_recs := ss_recs s @ [r]\<rparr>)))"

definition SetHead :: "session_env \<Rightarrow> string \<Rightarrow> SessionStore \<Rightarrow> session_error option \<times> SessionStore" where
  "SetHead env atID s = append_one env (RHead atID (xe_now env 0)) (\<lambda>s. s\<lparr>ss_head := atID\<rparr>) s"

definition store_Checkpoint :: "session_env \<Rightarrow> string \<Rightarrow> SessionStore \<Rightarrow> session_error option \<times> SessionStore" where
  "store_Checkpoint env preview s =
    (if ss_head s = [] then (Some EmptySession, s)
     else append_one env (RCheckpoint (''ck_'' @ ss_head s) (ss_head s) preview (xe_now env 0)) (\<lambda>s. s) s)"

definition Checkpoints :: "int \<Rightarrow> SessionStore \<Rightarrow> Checkpoint list" where
  "Checkpoints limit s = checkpointsFromRecords (ss_recs s) limit"

definition AdvanceCursor :: "session_env \<Rightarrow> string \<Rightarrow> SessionStore \<Rightarrow> session_error option \<times> SessionStore" where
  "AdvanceCursor env i s = append_one env (RCursor i (xe_now env 0)) (\<lambda>s. s\<lparr>ss_cursor := i\<rparr>) s"

definition PendingAfterCursor :: "SessionStore \<Rightarrow> Message list" where
  "PendingAfterCursor s =
    (let realMsgs = filter (\<lambda>m. m_MsgID m \<noteq> [] \<and> isRealMessage m) (ActiveView s)
     in if ss_cursor s = [] then realMsgs
        else (case dropWhile (\<lambda>m. m_MsgID m \<noteq> ss_cursor s) realMsgs of
                [] \<Rightarrow> realMsgs
              | _ # rest \<Rightarrow> rest))"

definition DeclareWorkspace :: "session_env \<Rightarrow> string \<Rightarrow> SessionStore \<Rightarrow> session_error option \<times> SessionStore" where
  "DeclareWorkspace env path s =
    (if path = [] then (Some EmptyWorkspace, s)
     else append_one env (RWorkspace path (xe_now env 0)) (\<lambda>s. s) s)"

definition Workspace :: "SessionStore \<Rightarrow> string" where
  "Workspace s = workspaceFromRecords (ss_recs s)"

definition MarkArchived :: "session_env \<Rightarrow> SessionStore \<Rightarrow> session_error option \<times> SessionStore" where
  "MarkArchived env s =
    (if archivedFromRecords (ss_recs s) then (None, s)
     else append_one env (RArchived (xe_now env 0)) (\<lambda>s. s) s)"

definition Archived :: "SessionStore \<Rightarrow> bool" where
  "Archived s \<longleftrightarrow> archivedFromRecords (ss_recs s)"

section \<open>Detecting a compaction\<close>

definition DetectCompact :: "Message list \<Rightarrow> Message list \<Rightarrow> (string \<times> string \<times> string) option" where
  "DetectCompact oldView newConv =
    (if length newConv \<ge> length oldView \<or> newConv = [] then None
     else if m_Role (hd newConv) \<noteq> ''system'' then None
     else
       let summary = m_Content (hd newConv);
           newIDs = filter (\<lambda>i. i \<noteq> []) (map m_MsgID newConv);
           covered = takeWhile (\<lambda>m. \<not> (m_MsgID m \<noteq> [] \<and> m_MsgID m \<in> set newIDs)) oldView in
       if covered = [] then None
       else if m_MsgID (hd covered) \<noteq> [] \<and> m_MsgID (last covered) \<noteq> [] then
         Some (m_MsgID (hd covered), m_MsgID (last covered), summary)
       else None)"

end
