(* ===== verification/Session_History.thy ===== *)
theory Session_History
  imports Session_Store
begin

text \<open>
  What the session store promises. In memory: the records are a tree (\<open>tree\<close>), and on it commits, rewinds
  and compactions act on the active view as on a list. On disk: the file holds the records of the
  memory, so that a restart finds the conversation as it was, and a crash in the middle of a call
  leaves the conversation of a point between two messages.
\<close>

section \<open>The tree of the records\<close>

inductive tree :: "Record list \<Rightarrow> bool" where
  empty: "tree []"
| other: "tree rs \<Longrightarrow> \<not> is_node r \<Longrightarrow> tree (rs @ [r])"
| node: "tree rs \<Longrightarrow> is_node r \<Longrightarrow> NodeID r \<noteq> [] \<Longrightarrow> NodeID r \<notin> set (node_ids rs) \<Longrightarrow>
    ParentID r = [] \<or> ParentID r \<in> set (node_ids rs) \<Longrightarrow> tree (rs @ [r])"

lemma node_ids_simps [simp]:
  "node_ids [] = []" "node_ids (xs @ ys) = node_ids xs @ node_ids ys"
  "node_ids (r # rs) = (if is_node r then [NodeID r] else []) @ node_ids rs"
  by (simp_all add: node_ids_def)

lemma tree_snoc:
  "tree (rs @ [r]) \<longleftrightarrow> tree rs \<and> (is_node r \<longrightarrow> NodeID r \<noteq> [] \<and> NodeID r \<notin> set (node_ids rs) \<and>
     (ParentID r = [] \<or> ParentID r \<in> set (node_ids rs)))"
  by (subst tree.simps) auto

text \<open>The same, computed from the end.\<close>

fun tree_back :: "Record list \<Rightarrow> bool" where
  "tree_back [] \<longleftrightarrow> True"
| "tree_back (r # rs) \<longleftrightarrow> tree_back rs \<and> (is_node r \<longrightarrow> NodeID r \<noteq> [] \<and> NodeID r \<notin> set (node_ids rs) \<and>
     (ParentID r = [] \<or> ParentID r \<in> set (node_ids rs)))"

lemma tree_code [code]: "tree rs \<longleftrightarrow> tree_back (rev rs)"
proof -
  have "set (node_ids (rev rs)) = set (node_ids rs)" for rs by (simp add: node_ids_def rev_filter [symmetric])
  then show ?thesis
    by (induction rs rule: rev_induct) (simp_all add: tree_snoc tree.empty)
qed

lemma tree_prefix: "tree (xs @ ys) \<Longrightarrow> tree xs"
  by (induction ys rule: rev_induct) (simp_all add: tree_snoc flip: append_assoc)

lemma tree_ids: "tree rs \<Longrightarrow> distinct (node_ids rs) \<and> [] \<notin> set (node_ids rs)"
  by (induction rule: tree.induct) auto

text \<open>The path to a node, root first; with a tree, the walk of the source is the way back.\<close>

fun back_path :: "Record list \<Rightarrow> string \<Rightarrow> Record list" where
  "back_path [] i = []"
| "back_path (r # rs) i = (if is_node r \<and> NodeID r = i then r # back_path rs (ParentID r) else back_path rs i)"

definition path :: "Record list \<Rightarrow> string \<Rightarrow> Record list" where
  "path rs i = rev (back_path (rev rs) i)"

lemma path_Nil [simp]: "path [] i = []"
  by (simp add: path_def)

lemma path_snoc:
  "path (rs @ [r]) i = (if is_node r \<and> NodeID r = i then path rs (ParentID r) @ [r] else path rs i)"
  by (simp add: path_def)

lemma path_unknown: "i \<notin> set (node_ids rs) \<Longrightarrow> path rs i = []"
  by (induction rs rule: rev_induct) (auto simp: path_snoc)

lemma path_append: "tree (xs @ ys) \<Longrightarrow> i \<in> set (node_ids xs) \<Longrightarrow> path (xs @ ys) i = path xs i"
proof (induction ys rule: rev_induct)
  case (snoc r ys)
  then have "tree ((xs @ ys) @ [r])" by simp
  then have "tree (xs @ ys)" "is_node r \<Longrightarrow> NodeID r \<notin> set (node_ids (xs @ ys))"
    unfolding tree_snoc by blast+
  with snoc show ?case using path_snoc [of "xs @ ys" r i] by auto
qed simp

lemma path_empty_id: "tree rs \<Longrightarrow> path rs [] = []"
  using tree_ids [of rs] by (simp add: path_unknown)

lemma path_nodes: "r \<in> set (path rs i) \<Longrightarrow> r \<in> set rs \<and> is_node r"
  by (induction rs arbitrary: i rule: rev_induct) (auto simp: path_snoc split: if_splits)

lemma path_ids_distinct: "tree rs \<Longrightarrow> distinct (map NodeID (path rs i))"
proof (induction rs arbitrary: i rule: rev_induct)
  case (snoc r rs)
  have "NodeID r \<notin> NodeID ` set (path rs j)" if "is_node r" for j
    using snoc.prems that path_nodes [of _ rs j] by (auto simp: tree_snoc node_ids_def)
  with snoc show ?case by (auto simp: path_snoc tree_snoc)
qed simp

lemma path_last: "tree rs \<Longrightarrow> i \<in> set (node_ids rs) \<Longrightarrow> \<exists>p r. path rs i = p @ [r] \<and> NodeID r = i"
  by (induction rs rule: rev_induct) (auto simp: path_snoc tree_snoc split: if_splits)

lemma find_append_None: "find P xs = None \<Longrightarrow> find P (xs @ ys) = find P ys"
  by (induction xs) (auto split: if_splits)

lemma byID_tree:
  assumes "tree (xs @ r # ys)" and "is_node r"
  shows "byID (xs @ r # ys) (NodeID r) = Some r"
proof -
  have "distinct (node_ids (xs @ r # ys))" using tree_ids [OF assms(1)] by blast
  then have "\<not> (is_node q \<and> NodeID q = NodeID r)" if "q \<in> set ys" for q
    using that assms(2) by (force simp: node_ids_def image_iff)
  then have "find (\<lambda>q. is_node q \<and> NodeID q = NodeID r) (rev ys) = None"
    by (auto simp: find_None_iff)
  then show ?thesis using assms(2) by (simp add: byID_def find_append_None)
qed

lemma walk_path:
  assumes "tree (xs @ ys)" and "set vis \<inter> set (node_ids xs) = {}"
    and "i \<in> set (node_ids xs) \<or> i \<notin> set (node_ids (xs @ ys))"
  shows "walk (xs @ ys) vis i = rev (path xs i)"
  using assms
proof (induction xs arbitrary: ys vis i rule: rev_induct)
  case Nil
  then have "byID ys i = None" by (auto simp: byID_def find_None_iff node_ids_def)
  then show ?case by (subst walk.simps) simp
next
  case (snoc r xs)
  note t = snoc.prems(1) [simplified]
  have tx: "tree (xs @ [r])" using tree_prefix [OF snoc.prems(1)] .
  show ?case
  proof (cases "is_node r \<and> NodeID r = i")
    case True
    then have i: "i \<noteq> []" "i \<notin> set vis" "i \<notin> set (node_ids xs)"
      using tx snoc.prems(2) by (auto simp: tree_snoc)
    have p: "ParentID r \<in> set (node_ids xs) \<or> ParentID r \<notin> set (node_ids (xs @ r # ys))"
      using tx True tree_ids [OF t] by (auto simp: tree_snoc)
    have "walk (xs @ r # ys) (i # vis) (ParentID r) = rev (path xs (ParentID r))"
      using snoc.IH [OF t _ p, of "i # vis"] snoc.prems(2) i(3) by auto
    then show ?thesis
      using True i byID_tree [OF t, of] by (subst walk.simps) (simp add: path_snoc)
  next
    case False
    have "i \<in> set (node_ids xs) \<or> i \<notin> set (node_ids (xs @ r # ys))"
      using snoc.prems(3) False by (auto split: if_splits)
    with snoc.IH [OF t, of vis i] snoc.prems(2) False show ?thesis by (auto simp: path_snoc split: if_splits)
  qed
qed

lemma walk_tree: "tree rs \<Longrightarrow> walk rs [] i = rev (path rs i)"
  using walk_path [of rs "[]" "[]" i] by simp

section \<open>Commits\<close>

definition tree_inv :: "SessionStore \<Rightarrow> bool" where
  "tree_inv s \<longleftrightarrow> tree (ss_recs s) \<and> (ss_head s = [] \<or> ss_head s \<in> set (node_ids (ss_recs s)))"

definition active_path :: "SessionStore \<Rightarrow> Record list" where
  "active_path s = path (ss_recs s) (ss_head s)"

lemma tree_inv_views:
  assumes "tree_inv s"
  shows "ActiveView s = map recordToMessage (active_path s)" "activePathIDs s = map NodeID (active_path s)"
  using assms
  by (simp_all add: tree_inv_def ActiveView_def buildActiveView_def activePathIDs_def active_path_def walk_tree
      path_empty_id)

text \<open>A message without its time; the store stamps its own.\<close>

definition content :: "Message \<Rightarrow> Message" where
  "content m = m\<lparr>m_CreatedAt := 0\<rparr>"

text \<open>The messages that a commit adds: those with an identifier that is not stored yet.\<close>

fun unseen :: "string list \<Rightarrow> Message list \<Rightarrow> Message list" where
  "unseen ids [] = []"
| "unseen ids (m # ms) =
     (if m_MsgID m = [] \<or> m_MsgID m \<in> set ids then unseen ids ms else m # unseen (ids @ [m_MsgID m]) ms)"

lemma hasID_iff: "hasID s i \<longleftrightarrow> i \<in> set (node_ids (ss_recs s))"
  by (auto simp: hasID_def list_ex_iff node_ids_def)

lemma commit_record_simps [simp]:
  "is_node (commit_record now prev m)" "NodeID (commit_record now prev m) = m_MsgID m"
  "ParentID (commit_record now prev m) = prev"
  "content (recordToMessage (commit_record now prev m)) = content m"
  by (simp_all add: commit_record_def messageToRecord_def newMsgRecord_def stamp_commit_def content_def)

lemma content_stamp [simp]: "content (stamp_commit now m) = content m"
  by (simp add: content_def stamp_commit_def)

lemma appendRecord_simps [simp]:
  "appendRecord tz w r s = (ok, s') \<Longrightarrow> ss_recs s' = ss_recs s"
  "appendRecord tz w r s = (ok, s') \<Longrightarrow> ss_head s' = ss_head s"
  "appendRecord tz w r s = (ok, s') \<Longrightarrow> ss_cursor s' = ss_cursor s"
  "appendRecord tz w r s = (ok, s') \<Longrightarrow> ss_metadata s' = ss_metadata s"
  by (auto simp: appendRecord_def split: option.splits prod.splits)

lemma tree_commit:
  assumes "tree_inv s" and "m_MsgID m \<noteq> []" and "m_MsgID m \<notin> set (node_ids (ss_recs s))"
  shows "tree (ss_recs s @ [commit_record now (ss_head s) m, RHead (m_MsgID m) now])"
    "path (ss_recs s @ [commit_record now (ss_head s) m, RHead (m_MsgID m) now]) (m_MsgID m) =
       active_path s @ [commit_record now (ss_head s) m]"
proof -
  let ?r = "commit_record now (ss_head s) m" and ?h = "RHead (m_MsgID m) now"
  have "ss_recs s @ [?r, ?h] = (ss_recs s @ [?r]) @ [?h]" by simp
  then show "tree (ss_recs s @ [?r, ?h])" "path (ss_recs s @ [?r, ?h]) (m_MsgID m) = active_path s @ [?r]"
    using assms tree_snoc [of "ss_recs s @ [?r]" ?h] path_snoc [of "ss_recs s @ [?r]" ?h]
    by (auto simp: tree_snoc path_snoc tree_inv_def active_path_def)
qed

lemma commit_skip:
  "m_MsgID m = [] \<or> hasID s (m_MsgID m) \<Longrightarrow> commit_msgs env k c (m # ms) s = commit_msgs env k c ms s"
  by auto

text \<open>One message that is stored: the two writes, and the rest of the loop when both succeed.\<close>

lemma commit_store:
  assumes "\<not> (m_MsgID m = [] \<or> hasID s (m_MsgID m))" and "commit_msgs env k c (m # ms) s = (err, c', s')"
  obtains ok1 s1 ok2 s2 where
    "appendRecord (xe_tz env) (xe_write env (2 * k)) (commit_record (xe_now env k) (ss_head s) m) s = (ok1, s1)"
    "appendRecord (xe_tz env) (xe_write env (2 * k + 1)) (RHead (m_MsgID m) (xe_now env k)) s1 = (ok2, s2)"
    "\<not> ok1 \<Longrightarrow> err = Some RecordFailed \<and> c' = c \<and> s' = s1"
    "ok1 \<Longrightarrow> \<not> ok2 \<Longrightarrow> err = Some RecordFailed \<and> c' = c \<and> s' = s2"
    "ok1 \<Longrightarrow> ok2 \<Longrightarrow> commit_msgs env (Suc k) (c @ [stamp_commit (xe_now env k) m]) ms
       (s2\<lparr>ss_recs := ss_recs s @ [commit_record (xe_now env k) (ss_head s) m, RHead (m_MsgID m) (xe_now env k)],
           ss_head := m_MsgID m\<rparr>) = (err, c', s')"
proof -
  obtain ok1 s1 where a1: "appendRecord (xe_tz env) (xe_write env (2 * k))
      (commit_record (xe_now env k) (ss_head s) m) s = (ok1, s1)" by fastforce
  obtain ok2 s2 where a2: "appendRecord (xe_tz env) (xe_write env (2 * k + 1))
      (RHead (m_MsgID m) (xe_now env k)) s1 = (ok2, s2)" by fastforce
  have "ss_recs s2 = ss_recs s" using a1 a2 by simp
  with assms a1 a2 show thesis by (intro that [OF a1 a2]) (simp_all add: Let_def)
qed

lemma commit_msgs_view:
  assumes "commit_msgs env k c ms s = (err, c', s')" and "tree_inv s"
  shows "tree_inv s' \<and> (\<exists>n. map content (ActiveView s') = map content (ActiveView s) @
             map content (take n (unseen (node_ids (ss_recs s)) ms)) \<and>
           map content c' = map content c @ map content (take n (unseen (node_ids (ss_recs s)) ms)) \<and>
           (err = None \<longrightarrow> length (unseen (node_ids (ss_recs s)) ms) \<le> n))"
  using assms
proof (induction ms arbitrary: k c s)
  case (Cons m ms)
  show ?case
  proof (cases "m_MsgID m = [] \<or> hasID s (m_MsgID m)")
    case True
    then have "unseen (node_ids (ss_recs s)) (m # ms) = unseen (node_ids (ss_recs s)) ms" by (auto simp: hasID_iff)
    with Cons.IH [OF Cons.prems(1) [unfolded commit_skip [OF True]] Cons.prems(2)] show ?thesis by simp
  next
    case new: False
    let ?r = "commit_record (xe_now env k) (ss_head s) m" and ?h = "RHead (m_MsgID m) (xe_now env k)"
    from new Cons.prems(1) show ?thesis
    proof (rule commit_store)
      fix ok1 ok2 and s1 s2 :: SessionStore
      let ?s = "s2\<lparr>ss_recs := ss_recs s @ [?r, ?h], ss_head := m_MsgID m\<rparr>"
      assume a: "appendRecord (xe_tz env) (xe_write env (2 * k)) ?r s = (ok1, s1)"
          "appendRecord (xe_tz env) (xe_write env (2 * k + 1)) ?h s1 = (ok2, s2)"
        and f: "\<not> ok1 \<Longrightarrow> err = Some RecordFailed \<and> c' = c \<and> s' = s1"
          "ok1 \<Longrightarrow> \<not> ok2 \<Longrightarrow> err = Some RecordFailed \<and> c' = c \<and> s' = s2"
        and ok: "ok1 \<Longrightarrow> ok2 \<Longrightarrow> commit_msgs env (Suc k) (c @ [stamp_commit (xe_now env k) m]) ms ?s = (err, c', s')"
      show ?thesis
      proof (cases "ok1 \<and> ok2")
        case False
        then have "ss_recs s' = ss_recs s" "ss_head s' = ss_head s" "err \<noteq> None" "c' = c"
          using f a by (cases ok1; auto)+
        then show ?thesis
          using Cons.prems(2) by (auto simp: tree_inv_def ActiveView_def intro!: exI [of _ 0])
      next
        case True
        have n0: "m_MsgID m \<noteq> []" "m_MsgID m \<notin> set (node_ids (ss_recs s))" using new by (simp_all add: hasID_iff)
        have inv: "tree_inv ?s" and ap: "active_path ?s = active_path s @ [?r]"
          using tree_commit [OF Cons.prems(2) n0, of "xe_now env k"] by (simp_all add: tree_inv_def active_path_def)
        have v: "map content (ActiveView ?s) = map content (ActiveView s) @ [content m]"
          using ap Cons.prems(2) inv by (simp add: tree_inv_views)
        have ids: "node_ids (ss_recs ?s) = node_ids (ss_recs s) @ [m_MsgID m]" by simp
        have u: "unseen (node_ids (ss_recs s)) (m # ms) = m # unseen (node_ids (ss_recs s) @ [m_MsgID m]) ms"
          using n0 by simp
        from Cons.IH [OF ok inv] True
        obtain n where n: "tree_inv s'" "map content (ActiveView s') = map content (ActiveView ?s) @
               map content (take n (unseen (node_ids (ss_recs ?s)) ms))"
             "map content c' = map content (c @ [stamp_commit (xe_now env k) m]) @ map content (take n (unseen (node_ids (ss_recs ?s)) ms))"
             "err = None \<longrightarrow> length (unseen (node_ids (ss_recs ?s)) ms) \<le> n" by blast
        then show ?thesis unfolding u ids v by (intro conjI exI [of _ "Suc n"]) auto
      qed
    qed
  qed
qed (auto intro: exI [of _ 0])

section \<open>Rewinds\<close>

lemma path_prefix: "tree rs \<Longrightarrow> path rs i = p @ r # q \<Longrightarrow> path rs (NodeID r) = p @ [r]"
proof (induction rs arbitrary: i q rule: rev_induct)
  case (snoc x rs)
  have t: "tree rs" using snoc.prems(1) by (simp add: tree_snoc)
  have sub: "path (rs @ [x]) (NodeID r) = p @ [r]" if "path rs j = p @ r # q'" for j q'
  proof -
    have "r \<in> set rs" "is_node r" using path_nodes [of r rs j] that by auto
    then have "\<not> (is_node x \<and> NodeID x = NodeID r)"
      using snoc.prems(1) by (auto simp: tree_snoc node_ids_def)
    then show ?thesis using snoc.IH [OF t that] by (auto simp: path_snoc)
  qed
  show ?case
  proof (cases "is_node x \<and> NodeID x = i")
    case True
    with snoc.prems(2) have "path rs (ParentID x) @ [x] = p @ r # q" by (simp add: path_snoc)
    then show ?thesis
    proof (cases q rule: rev_cases)
      case Nil
      with \<open>path rs (ParentID x) @ [x] = p @ r # q\<close> True show ?thesis by (auto simp: path_snoc)
    next
      case (snoc q' y)
      with \<open>path rs (ParentID x) @ [x] = p @ r # q\<close> show ?thesis by (intro sub [of "ParentID x" q']) auto
    qed
  next
    case False
    with snoc.prems(2) show ?thesis by (intro sub [of i q]) (auto simp: path_snoc split: if_splits)
  qed
qed simp

lemma set_head_view:
  assumes "tree_inv s" and "SetHead env i s = (None, s')" and "active_path s = p @ r # q" and "NodeID r = i"
  shows "tree_inv s' \<and> active_path s' = p @ [r]"
proof -
  have t: "tree (ss_recs s)" "path (ss_recs s) (ss_head s) = p @ r # q"
    using assms(1,3) by (simp_all add: tree_inv_def active_path_def)
  have n: "r \<in> set (ss_recs s)" "is_node r" using path_nodes [of r "ss_recs s" "ss_head s"] t(2) by auto
  have s': "ss_recs s' = ss_recs s @ [RHead i (xe_now env 0)]" "ss_head s' = i"
    using assms(2) by (auto simp: SetHead_def append_one_def split: prod.splits if_splits)
  then have "tree (ss_recs s')" using t(1) by (simp add: tree_snoc)
  moreover have "i \<in> set (node_ids (ss_recs s'))" using n assms(4) by (auto simp: s' node_ids_def)
  ultimately show ?thesis
    using path_prefix [OF t] assms(4) by (simp add: tree_inv_def active_path_def s' path_snoc)
qed

section \<open>Compactions\<close>

text \<open>A message without time and identifier: what a copy keeps.\<close>

definition body :: "Message \<Rightarrow> Message" where
  "body m = m\<lparr>m_CreatedAt := 0, m_MsgID := []\<rparr>"

lemma clone_record_simps [simp]:
  "is_node (clone_record now i prev m)" "NodeID (clone_record now i prev m) = i"
  "ParentID (clone_record now i prev m) = prev"
  "body (recordToMessage (clone_record now i prev m)) = body (recordToMessage (RMsg m))"
  by (simp_all add: clone_record_def newMsgRecord_def body_def)

definition fresh_ids :: "session_env \<Rightarrow> string list \<Rightarrow> nat \<Rightarrow> nat \<Rightarrow> bool" where
  "fresh_ids env ids k n \<longleftrightarrow> distinct (map (xe_newID env) [k..<n]) \<and>
     (\<forall>j \<in> {k..<n}. xe_newID env j \<noteq> [] \<and> xe_newID env j \<notin> set ids)"

lemma copy_retained_path:
  assumes "copy_retained env old k ids prev cm s = (ok, prev', cm', s')"
    and "tree (ss_recs s)" and "prev \<in> set (node_ids (ss_recs s))"
    and "list_all2 (\<lambda>i m. byID old i = Some (RMsg m)) ids ms"
    and "fresh_ids env (node_ids (ss_recs s)) k (k + length ids)"
  shows "tree (ss_recs s') \<and> ss_head s' = ss_head s \<and> ss_cursor s' = ss_cursor s \<and> ss_metadata s' = ss_metadata s \<and>
    (\<exists>clones. ss_recs s' = ss_recs s @ clones \<and>
       (ok \<longrightarrow> prev' \<in> set (node_ids (ss_recs s')) \<and> path (ss_recs s') prev' = path (ss_recs s) prev @ clones \<and>
               map (body \<circ> recordToMessage) clones = map (body \<circ> recordToMessage \<circ> RMsg) ms))"
  using assms
proof (induction ids arbitrary: k prev cm s ms)
  case (Cons i ids)
  obtain m ms' where ms: "ms = m # ms'" "byID old i = Some (RMsg m)"
      "list_all2 (\<lambda>i m. byID old i = Some (RMsg m)) ids ms'"
    using Cons.prems(4) by (auto simp: list_all2_Cons1)
  let ?c = "xe_newID env k"
  let ?r = "clone_record (xe_now env 0) ?c prev m"
  obtain ok1 s1 where a: "appendRecord (xe_tz env) (xe_write env (Suc k)) ?r s = (ok1, s1)" by fastforce
  have e: "ss_recs s1 = ss_recs s" "ss_head s1 = ss_head s" "ss_cursor s1 = ss_cursor s" "ss_metadata s1 = ss_metadata s"
    using a by simp_all
  show ?case
  proof (cases ok1)
    case False
    then have "s' = s1" "\<not> ok" using Cons.prems(1) ms(2) a by (auto simp: Let_def)
    then show ?thesis using Cons.prems(2) e by simp
  next
    case True
    let ?s = "s1\<lparr>ss_recs := ss_recs s1 @ [?r]\<rparr>"
    have rest: "copy_retained env old (Suc k) ids ?c (map_put i ?c cm) ?s = (ok, prev', cm', s')"
      using Cons.prems(1) ms(2) a True by (simp add: Let_def)
    have new: "?c \<noteq> []" "?c \<notin> set (node_ids (ss_recs s))"
      using Cons.prems(5) by (auto simp: fresh_ids_def)
    have t: "tree (ss_recs ?s)" using Cons.prems(2,3) new e by (auto simp: tree_snoc)
    have upt: "[k..<k + length (i # ids)] = k # [Suc k..<Suc k + length ids]" by (simp add: upt_conv_Cons del: upt_Suc)
    have "distinct (map (xe_newID env) [k..<k + length (i # ids)])" using Cons.prems(5) by (simp add: fresh_ids_def)
    then have "distinct (map (xe_newID env) [Suc k..<Suc k + length ids])" "?c \<notin> set (map (xe_newID env) [Suc k..<Suc k + length ids])"
      unfolding upt by simp_all
    then have f: "fresh_ids env (node_ids (ss_recs ?s)) (Suc k) (Suc k + length ids)"
      using Cons.prems(5) e unfolding fresh_ids_def upt
      by (auto simp del: upt_Suc) (metis Suc_leD atLeastLessThan_iff image_eqI set_upt)
    have "?c \<in> set (node_ids (ss_recs ?s))" by simp
    from Cons.IH [OF rest t this ms(3) f]
    obtain clones where c: "tree (ss_recs s')" "ss_head s' = ss_head ?s" "ss_cursor s' = ss_cursor ?s"
        "ss_metadata s' = ss_metadata ?s" "ss_recs s' = ss_recs ?s @ clones"
        "ok \<longrightarrow> prev' \<in> set (node_ids (ss_recs s')) \<and> path (ss_recs s') prev' = path (ss_recs ?s) ?c @ clones \<and>
           map (body \<circ> recordToMessage) clones = map (body \<circ> recordToMessage \<circ> RMsg) ms'"
      by blast
    have p: "path (ss_recs ?s) ?c = path (ss_recs s) prev @ [?r]" using e by (simp add: path_snoc)
    have r: "ss_recs s' = ss_recs s @ ?r # clones" using c(5) e by simp
    have "ok \<longrightarrow> prev' \<in> set (node_ids (ss_recs s')) \<and> path (ss_recs s') prev' = path (ss_recs s) prev @ ?r # clones \<and>
        map (body \<circ> recordToMessage) (?r # clones) = map (body \<circ> recordToMessage \<circ> RMsg) ms"
      using c(6) unfolding p ms(1) by (simp del: recordToMessage.simps)
    moreover have "ss_head s' = ss_head s" "ss_cursor s' = ss_cursor s" "ss_metadata s' = ss_metadata s"
      using c(2-4) e by simp_all
    ultimately show ?thesis using r c(1) by blast
  qed
qed auto

lemma index_of_unique:
  assumes "distinct ids" and "ids = p @ i # q"
  shows "index_of i ids = Some (length p)"
proof -
  have "filter (\<lambda>k. ids ! k = i) [0..<length ids] = [length p]"
  proof -
    have u: "[0..<length ids] = [0..<length p] @ length p # [Suc (length p)..<length ids]"
    proof -
      have "[0..<length p + length (i # q)] = [0..<length p] @ [length p..<length p + length (i # q)]"
        by (rule upt_add_eq_append) simp
      then show ?thesis using assms(2) by (simp add: upt_conv_Cons del: upt_Suc)
    qed
    have k: "ids ! k = i \<longleftrightarrow> k = length p" if "k < length ids" for k
      using nth_eq_iff_index_eq [OF assms(1) that, of "length p"] assms(2) by simp
    have l: "length p < length ids" using assms(2) by simp
    have "filter (\<lambda>k. ids ! k = i) [0..<length p] = []" "filter (\<lambda>k. ids ! k = i) [Suc (length p)..<length ids] = []"
      using k l by (auto simp: filter_empty_conv)
    then show ?thesis unfolding u using k [OF l] by simp
  qed
  then show ?thesis by (simp add: index_of_def)
qed

lemma remapCursor_simps [simp]:
  "ss_recs (remapCursor r c l s) = ss_recs s" "ss_head (remapCursor r c l s) = ss_head s"
  "ss_file (remapCursor r c l s) = ss_file s" "ss_metadata (remapCursor r c l s) = ss_metadata s"
  by (simp_all add: remapCursor_def split: option.split)

lemma newCompactRecord_simps [simp]:
  "is_node (newCompactRecord i p sm a b t)" "NodeID (newCompactRecord i p sm a b t) = i"
  "ParentID (newCompactRecord i p sm a b t) = p"
  by (simp_all add: newCompactRecord_def)

lemma compact_at_path:
  assumes "tree_inv s" and "compact_at env from to summary parent retain s = (err, s')"
    and "parent = [] \<or> parent \<in> set (node_ids (ss_recs s))" and "''s_'' @ to \<notin> set (node_ids (ss_recs s))"
    and "list_all2 (\<lambda>i m. byID (ss_recs s) i = Some (RMsg m)) retain ms"
    and "fresh_ids env ((''s_'' @ to) # node_ids (ss_recs s)) 0 (length retain)"
  shows "tree_inv s' \<and> (err \<noteq> None \<longrightarrow> active_path s' = active_path s) \<and>
    (err = None \<longrightarrow> (\<exists>clones t. active_path s' = path (ss_recs s) parent @
          newCompactRecord (''s_'' @ to) parent summary from to t # clones \<and>
        map (body \<circ> recordToMessage) clones = map (body \<circ> recordToMessage \<circ> RMsg) ms))"
proof -
  let ?cr = "newCompactRecord (''s_'' @ to) parent summary from to (xe_now env 0)"
  obtain ok1 s1 where a1: "appendRecord (xe_tz env) (xe_write env 0) ?cr s = (ok1, s1)" by fastforce
  let ?s1 = "s1\<lparr>ss_recs := ss_recs s1 @ [?cr]\<rparr>"
  obtain ok2 prev cm s2 where cp: "copy_retained env (ss_recs s) 0 retain (''s_'' @ to) [] ?s1 = (ok2, prev, cm, s2)"
    by (metis prod_cases4)
  let ?s3 = "remapCursor retain cm prev s2" and ?h = "RHead prev (xe_now env 0)"
  obtain ok4 s4 where a4: "appendRecord (xe_tz env) (xe_write env (Suc (length retain))) ?h ?s3 = (ok4, s4)" by fastforce
  have tr: "tree (ss_recs s)" and hd: "ss_head s = [] \<or> ss_head s \<in> set (node_ids (ss_recs s))"
    using assms(1) by (simp_all add: tree_inv_def)
  have e1: "ss_recs s1 = ss_recs s" "ss_head s1 = ss_head s" using a1 by simp_all
  have t1: "tree (ss_recs ?s1)" using tr assms(3,4) e1 by (auto simp: tree_snoc)
  have "fresh_ids env (node_ids (ss_recs ?s1)) 0 (0 + length retain)"
    using assms(6) e1 by (auto simp: fresh_ids_def)
  from copy_retained_path [OF cp t1 _ assms(5) this]
  obtain clones where c: "tree (ss_recs s2)" "ss_head s2 = ss_head s" "ss_recs s2 = ss_recs s @ [?cr] @ clones"
      "ok2 \<longrightarrow> prev \<in> set (node_ids (ss_recs s2)) \<and> path (ss_recs s2) prev = path (ss_recs ?s1) (''s_'' @ to) @ clones \<and>
         map (body \<circ> recordToMessage) clones = map (body \<circ> recordToMessage \<circ> RMsg) ms"
    using e1 by auto
  have e4: "ss_recs s4 = ss_recs s2" "ss_head s4 = ss_head s" using a4 c(2) by simp_all
  have keep: "tree_inv t \<and> active_path t = active_path s"
    if "ss_recs t = ss_recs s \<or> ss_recs t = ss_recs s2" "ss_head t = ss_head s" for t
    using that
  proof (elim disjE)
    assume r: "ss_recs t = ss_recs s2"
    have "path (ss_recs s2) (ss_head s) = path (ss_recs s) (ss_head s)"
      using hd path_append [of "ss_recs s" "[?cr] @ clones" "ss_head s"] c(1,3) path_empty_id [OF tr] path_empty_id [OF c(1)]
      by auto
    with r that(2) c(1,3) hd show ?thesis by (auto simp: tree_inv_def active_path_def)
  qed (use assms(1) in \<open>simp_all add: tree_inv_def active_path_def\<close>)
  consider "\<not> ok1" "err \<noteq> None" "s' = s1" | "ok1" "\<not> ok2" "err \<noteq> None" "s' = s2"
    | "ok1" "ok2" "\<not> ok4" "err \<noteq> None" "s' = s4"
    | "ok1" "ok2" "ok4" "err = None" "s' = s4\<lparr>ss_recs := ss_recs s4 @ [?h], ss_head := prev\<rparr>"
    using assms(2) a1 cp a4 by (auto simp: compact_at_def Let_def split: if_splits)
  then show ?thesis
  proof cases
    case 4
    have "path (ss_recs ?s1) (''s_'' @ to) = path (ss_recs s) parent @ [?cr]" using e1 by (simp add: path_snoc)
    then have "path (ss_recs s2) prev = path (ss_recs s) parent @ ?cr # clones" using 4 c(4) by simp
    moreover have "active_path s' = path (ss_recs s2) prev"
      using 4 e4 path_snoc [of "ss_recs s2" ?h prev] by (simp add: active_path_def)
    ultimately have "active_path s' = path (ss_recs s) parent @ ?cr # clones" by simp
    moreover have "tree_inv s'" using 4 c(1,4) e4 tree_snoc [of "ss_recs s2" ?h] by (simp add: tree_inv_def)
    ultimately show ?thesis using 4 c(4) by auto
  next
    case 1
    with keep [of s1] e1 show ?thesis by auto
  next
    case 2
    with keep [of s2] c(2) show ?thesis by auto
  next
    case 3
    with keep [of s4] e4 show ?thesis by auto
  qed
qed

section \<open>The store as a conversation\<close>

text \<open>
  C24 On a store whose records are a tree, the operations act on the active view as on a list. A
  commit appends, in order, those of the messages that have an identifier which is not stored yet,
  each once; when a write fails, it has appended the ones before. A rewind to a node of the view
  cuts the view behind that node. Both leave a tree.
\<close>

theorem commit_and_rewind:
  assumes "tree_inv s"
  shows "(\<forall>env msgs err committed s'. Commit env msgs s = (err, committed, s') \<longrightarrow>
            tree_inv s' \<and> map content (ActiveView s') = map content (ActiveView s) @ map content committed \<and>
            (\<exists>n. map content committed = map content (take n (unseen (node_ids (ss_recs s)) msgs)) \<and>
                 (err = None \<longrightarrow> length (unseen (node_ids (ss_recs s)) msgs) \<le> n))) \<and>
         (\<forall>env n s'. n < length (ActiveView s) \<longrightarrow> SetHead env (m_MsgID (ActiveView s ! n)) s = (None, s') \<longrightarrow>
            tree_inv s' \<and> ActiveView s' = take (Suc n) (ActiveView s))"
proof (intro conjI allI impI)
  fix env msgs err committed s'
  assume "Commit env msgs s = (err, committed, s')"
  from commit_msgs_view [OF this [unfolded Commit_def] assms]
  show "tree_inv s'" "map content (ActiveView s') = map content (ActiveView s) @ map content committed"
    "\<exists>n. map content committed = map content (take n (unseen (node_ids (ss_recs s)) msgs)) \<and>
         (err = None \<longrightarrow> length (unseen (node_ids (ss_recs s)) msgs) \<le> n)" by auto
next
  fix env n s'
  assume n: "n < length (ActiveView s)" and h: "SetHead env (m_MsgID (ActiveView s ! n)) s = (None, s')"
  let ?p = "active_path s"
  have l: "n < length ?p" using n by (simp add: tree_inv_views [OF assms])
  then have sp: "?p = take n ?p @ ?p ! n # drop (Suc n) ?p" by (rule id_take_nth_drop)
  have "is_node (?p ! n)" using path_nodes l unfolding active_path_def by (meson nth_mem)
  then have "NodeID (?p ! n) = m_MsgID (recordToMessage (?p ! n))" by (cases "?p ! n") simp_all
  then have "NodeID (?p ! n) = m_MsgID (ActiveView s ! n)" using l by (simp add: tree_inv_views [OF assms])
  from set_head_view [OF assms h sp this]
  show "tree_inv s'" "ActiveView s' = take (Suc n) (ActiveView s)"
    using l by (simp_all add: tree_inv_views assms take_Suc_conv_app_nth take_map)
qed

lemma active_nodes:
  assumes "tree_inv s" and "n < length (active_path s)"
  shows "byID (ss_recs s) (NodeID (active_path s ! n)) = Some (active_path s ! n)"
    "NodeID (active_path s ! n) \<in> set (node_ids (ss_recs s))"
    "path (ss_recs s) (NodeID (active_path s ! n)) = take (Suc n) (active_path s)"
proof -
  let ?r = "active_path s ! n"
  have tr: "tree (ss_recs s)" using assms(1) by (simp add: tree_inv_def)
  have r: "?r \<in> set (ss_recs s)" "is_node ?r"
    using path_nodes [of ?r "ss_recs s" "ss_head s"] assms(2) by (simp_all add: active_path_def)
  obtain xs ys where "ss_recs s = xs @ ?r # ys" using split_list [OF r(1)] by blast
  then show "byID (ss_recs s) (NodeID ?r) = Some ?r" using byID_tree r(2) tr by metis
  show "NodeID ?r \<in> set (node_ids (ss_recs s))" using r by (auto simp: node_ids_def)
  from path_prefix [OF tr id_take_nth_drop [OF assms(2), unfolded active_path_def]] assms(2)
  show "path (ss_recs s) (NodeID ?r) = take (Suc n) (active_path s)"
    by (simp add: active_path_def [symmetric] take_Suc_conv_app_nth)
qed

text \<open>The records of the last part of the active path, when they are all messages.\<close>

lemma kept_messages:
  assumes "tree_inv s" and "activePathIDs s = front @ kept"
    and "\<forall>i \<in> set kept. \<exists>f. byID (ss_recs s) i = Some (RMsg f)"
  obtains ms where "list_all2 (\<lambda>i m. byID (ss_recs s) i = Some (RMsg m)) kept ms"
    "map RMsg ms = drop (length front) (active_path s)"
proof -
  let ?p = "active_path s"
  have ids: "map NodeID ?p = front @ kept" using tree_inv_views [OF assms(1)] assms(2) by simp
  then have pl: "length ?p = length front + length kept" by (metis length_append length_map)
  obtain f where f: "\<And>i. i \<in> set kept \<Longrightarrow> byID (ss_recs s) i = Some (RMsg (f i))" using assms(3) by metis
  have "RMsg (f (kept ! j)) = ?p ! (length front + j)" if "j < length kept" for j
  proof -
    have "NodeID (?p ! (length front + j)) = kept ! j"
      using that pl ids by (metis add.commute add_less_cancel_left nth_append_length_plus nth_map)
    then show ?thesis using active_nodes(1) [OF assms(1), of "length front + j"] f [of "kept ! j"] that pl by simp
  qed
  then have "map RMsg (map f kept) = drop (length front) ?p" using pl by (intro nth_equalityI) simp_all
  moreover have "list_all2 (\<lambda>i m. byID (ss_recs s) i = Some (RMsg m)) kept (map f kept)"
    using f by (simp add: list_all2_conv_all_nth)
  ultimately show thesis using that by blast
qed

lemma compact_stretch:
  assumes "tree_inv s" and "activePathIDs s = pre @ (from # mid) @ kept" and "to = last (from # mid)"
  defines "parent \<equiv> if pre = [] then [] else last pre"
  shows "Compact env from to summary s = compact_at env from to summary parent kept s"
    "parent = [] \<or> parent \<in> set (node_ids (ss_recs s))"
    "path (ss_recs s) parent = take (length pre) (active_path s)"
proof -
  let ?ids = "activePathIDs s" and ?p = "active_path s"
  have ids: "?ids = map NodeID ?p" "distinct ?ids"
    using tree_inv_views [OF assms(1)] path_ids_distinct assms(1) by (simp_all add: tree_inv_def active_path_def)
  have tr: "tree (ss_recs s)" using assms(1) by (simp add: tree_inv_def)
  obtain q where q: "from # mid = q @ [to]" using assms(3) by (metis append_butlast_last_id list.distinct(1))
  then have sp: "?ids = (pre @ q) @ to # kept" using assms(2) by simp
  have ix: "index_of from ?ids = Some (length pre)" "index_of to ?ids = Some (length (pre @ q))"
    using index_of_unique [OF ids(2), of pre "from" "mid @ kept"] index_of_unique [OF ids(2) sp] assms(2) by simp_all
  have pl: "length pre < length ?p" using arg_cong [OF assms(2), of length] ids(1) by simp
  have hd: "ss_head s \<noteq> []" using pl path_empty_id [OF tr] by (auto simp: active_path_def)
  have par: "(if 0 < length pre then ?ids ! (length pre - 1) else []) = parent"
    using assms(2) by (auto simp: parent_def nth_append last_conv_nth)
  have "drop (Suc (length (pre @ q))) ?ids = kept" by (simp add: sp)
  moreover have "?ids \<noteq> []" "\<not> length pre > length (pre @ q)" by (simp_all add: sp)
  ultimately show "Compact env from to summary s = compact_at env from to summary parent kept s"
    unfolding Compact_def Let_def ix using hd par by simp
  have "NodeID (?p ! (length pre - 1)) = parent" if "pre \<noteq> []" using that par pl ids(1) by simp
  then show "parent = [] \<or> parent \<in> set (node_ids (ss_recs s))"
    "path (ss_recs s) parent = take (length pre) ?p"
    using active_nodes(2,3) [OF assms(1), of "length pre - 1"] pl path_empty_id [OF tr]
    by (cases "pre = []"; simp add: parent_def)+
qed

text \<open>
  The first \<open>n\<close> messages stay, the next \<open>k\<close> are replaced by a summary, the others are kept up to identifier
  and time.
\<close>

definition compacted :: "nat \<Rightarrow> nat \<Rightarrow> string \<Rightarrow> Message list \<Rightarrow> Message list \<Rightarrow> bool" where
  "compacted n k summary v v' \<longleftrightarrow>
     take n v' = take n v \<and> n < length v' \<and> m_Role (v' ! n) = ''system'' \<and> m_Content (v' ! n) = summary \<and>
     map body (drop (Suc n) v') = map body (drop (n + k) v)"

lemma compact_view:
  assumes "tree_inv s" and "activePathIDs s = pre @ (from # mid) @ kept" and "to = last (from # mid)"
    and "''s_'' @ to \<notin> set (node_ids (ss_recs s))"
    and "fresh_ids env ((''s_'' @ to) # node_ids (ss_recs s)) 0 (length kept)"
    and "\<forall>i \<in> set kept. \<exists>f. byID (ss_recs s) i = Some (RMsg f)"
    and "Compact env from to summary s = (err, s')"
  shows "tree_inv s' \<and> (err \<noteq> None \<longrightarrow> ActiveView s' = ActiveView s) \<and>
    (err = None \<longrightarrow> compacted (length pre) (length (from # mid)) summary (ActiveView s) (ActiveView s'))"
proof -
  let ?p = "active_path s" and ?parent = "if pre = [] then [] else last pre"
  note st = compact_stretch [OF assms(1-3)]
  have c: "compact_at env from to summary ?parent kept s = (err, s')" using assms(7) unfolding st(1) .
  have "activePathIDs s = (pre @ from # mid) @ kept" using assms(2) by simp
  then obtain ms where ms: "list_all2 (\<lambda>i m. byID (ss_recs s) i = Some (RMsg m)) kept ms"
      "map RMsg ms = drop (length (pre @ from # mid)) ?p"
    using kept_messages [OF assms(1) _ assms(6)] by blast
  have pl: "length pre < length ?p"
    using arg_cong [OF assms(2), of length] tree_inv_views(2) [OF assms(1)] by simp
  note r = compact_at_path [OF assms(1) c st(2) assms(4) ms(1) assms(5)]
  show ?thesis
  proof (cases err)
    case None
    with r st(3) obtain clones t where a: "tree_inv s'"
        "active_path s' = take (length pre) ?p @ newCompactRecord (''s_'' @ to) ?parent summary from to t # clones"
        "map (body \<circ> recordToMessage) clones = map (body \<circ> recordToMessage) (map RMsg ms)" by auto
    from a(3) have "map (body \<circ> recordToMessage) clones = map (body \<circ> recordToMessage) (drop (length (pre @ from # mid)) ?p)"
      unfolding ms(2) .
    with None a(1,2) pl show ?thesis
      by (simp add: tree_inv_views assms(1) take_map drop_map nth_append newCompactRecord_def compacted_def)
  qed (use r assms(1) in \<open>auto simp: tree_inv_views\<close>)
qed

text \<open>
  C25 A compaction of a stretch of the active view replaces it by the summary: what
  is in front stays as it is, what is behind is kept in copies that differ in identifier and time
  only. When a write fails the view is the one before. The new identifiers must be new, and the part
  behind the stretch consists of messages.
\<close>

theorem compact_replaces:
  assumes "tree_inv s" and "activePathIDs s = pre @ (from # mid) @ kept" and "to = last (from # mid)"
    and "''s_'' @ to \<notin> set (node_ids (ss_recs s))"
    and "fresh_ids env ((''s_'' @ to) # node_ids (ss_recs s)) 0 (length kept)"
    and "\<forall>i \<in> set kept. \<exists>f. byID (ss_recs s) i = Some (RMsg f)"
    and "Compact env from to summary s = (err, s')"
  shows "tree_inv s' \<and> (err \<noteq> None \<longrightarrow> ActiveView s' = ActiveView s) \<and>
    (err = None \<longrightarrow> compacted (length pre) (length (from # mid)) summary (ActiveView s) (ActiveView s'))"
  using assms by (rule compact_view)

end
