(* ===== verification/Session_Files.thy ===== *)
theory Session_Files
  imports Session_History "HOL-Library.Sublist"
begin

text \<open>
  The file of a session store: it holds the records of the memory (\<open>file_inv\<close>), every call extends both
  by the same records (\<open>extends\<close>), so a restart finds the session as it was, up to the cursor, which a
  compaction moves in memory only. A call that breaks off leaves a part of its lines (\<open>part_of\<close>); a restart
  cuts the torn one off and finds a point between two messages, or, for a compaction, the view before or
  after it. The file states of \<open>session_file\<close> tell when a restart finds the session and when it need not.
\<close>

section \<open>The file and the memory\<close>

definition record_fits :: "time_codec \<Rightarrow> Record \<Rightarrow> bool" where
  "record_fits tz r \<longleftrightarrow> record_ok tz r \<and>
     (case marshal_record tz r of Some d \<Rightarrow> length d < max_line | None \<Rightarrow> False)"

lemma record_fitsE:
  assumes "record_fits tz r"
  obtains d where "record_ok tz r" "marshal_record tz r = Some d" "length d < max_line"
  using assms by (auto simp: record_fits_def split: option.splits)

definition file_inv :: "time_codec \<Rightarrow> SessionStore \<Rightarrow> bool" where
  "file_inv tz s \<longleftrightarrow> jsonl (unmarshal_record tz) (ss_file s) (ss_recs s) \<and>
     metadataFromRecords (ss_recs s) = Some (ss_metadata s) \<and> ss_head s = last_head (ss_recs s)"

definition line_of :: "time_codec \<Rightarrow> Record \<Rightarrow> string" where
  "line_of tz r = (case marshal_record tz r of Some d \<Rightarrow> d @ [nl] | None \<Rightarrow> [])"

text \<open>A call that writes the records that it adds to the memory, and moves the head accordingly.\<close>

definition extends :: "time_codec \<Rightarrow> SessionStore \<Rightarrow> SessionStore \<Rightarrow> bool" where
  "extends tz s s' \<longleftrightarrow> (\<exists>rs. ss_recs s' = ss_recs s @ rs \<and> ss_file s' = ss_file s @ concat (map (line_of tz) rs) \<and>
     (\<forall>r \<in> set rs. marshal_record tz r \<noteq> None) \<and> ss_head s' = foldl head_step (ss_head s) rs \<and>
     ss_metadata s' = ss_metadata s)"

lemma extends_refl [intro]: "ss_recs s' = ss_recs s \<Longrightarrow> ss_file s' = ss_file s \<Longrightarrow> ss_head s' = ss_head s \<Longrightarrow>
    ss_metadata s' = ss_metadata s \<Longrightarrow> extends tz s s'"
  by (auto simp: extends_def)

lemma extends_trans: "extends tz s1 s2 \<Longrightarrow> extends tz s2 s3 \<Longrightarrow> extends tz s1 s3"
proof -
  assume "extends tz s1 s2" "extends tz s2 s3"
  then obtain a b where "ss_recs s2 = ss_recs s1 @ a" "ss_file s2 = ss_file s1 @ concat (map (line_of tz) a)"
      "\<forall>r \<in> set a. marshal_record tz r \<noteq> None" "ss_head s2 = foldl head_step (ss_head s1) a" "ss_metadata s2 = ss_metadata s1"
    and "ss_recs s3 = ss_recs s2 @ b" "ss_file s3 = ss_file s2 @ concat (map (line_of tz) b)"
      "\<forall>r \<in> set b. marshal_record tz r \<noteq> None" "ss_head s3 = foldl head_step (ss_head s2) b" "ss_metadata s3 = ss_metadata s2"
    unfolding extends_def by blast
  then show "extends tz s1 s3" unfolding extends_def by (intro exI [of _ "a @ b"]) auto
qed

lemma metadata_append:
  "metadataFromRecords rs = Some m \<Longrightarrow> metadataFromRecords (rs @ rs') = Some m"
  by (auto simp: metadataFromRecords_def List.map_filter_def split: list.splits)

lemma jsonl_lines:
  assumes "jsonl (unmarshal_record tz) f rs" and "\<forall>r \<in> set rs'. record_fits tz r"
  shows "jsonl (unmarshal_record tz) (f @ concat (map (line_of tz) rs')) (rs @ rs')"
  using assms
proof (induction rs' arbitrary: f rs)
  case (Cons r rs')
  then obtain d where d: "record_ok tz r" "marshal_record tz r = Some d" "length d < max_line"
    by (auto elim: record_fitsE)
  have "jsonl (unmarshal_record tz) (f @ d @ [nl]) (rs @ [r])"
    using record_codec.jsonl_written [OF d Cons.prems(1)] .
  from Cons.IH [OF this] Cons.prems(2) d(2) show ?case by (simp add: line_of_def)
qed simp

lemma extends_inv:
  assumes "file_inv tz s" and "extends tz s s'" and "\<forall>r \<in> set (drop (length (ss_recs s)) (ss_recs s')). record_fits tz r"
  shows "file_inv tz s'"
  using assms jsonl_lines [of tz "ss_file s" "ss_recs s"]
  by (auto simp: file_inv_def extends_def metadata_append last_head_def)

section \<open>Calls whose writes succeed\<close>

lemma marshal_None: "marshal_record tz r = None \<longleftrightarrow> tz_format tz (Created r) = None"
  by (simp add: marshal_record_def bind_eq_None_conv)

lemma append_ok:
  "appendRecord tz WriteOK r s =
    (if tz_format tz (Created r) = None then (False, s) else (True, s\<lparr>ss_file := ss_file s @ line_of tz r\<rparr>))"
  using marshal_None [of tz r]
  by (cases "marshal_record tz r") (simp_all add: appendRecord_def line_of_def)

definition writes_ok :: "session_env \<Rightarrow> bool" where
  "writes_ok env \<longleftrightarrow> (\<forall>k. xe_write env k = WriteOK)"

lemma append_one_cases:
  assumes "writes_ok env" and "append_one env r upd s = (err, s')"
  shows "s' = s \<or> (marshal_record (xe_tz env) r \<noteq> None \<and>
    s' = upd (s\<lparr>ss_file := ss_file s @ line_of (xe_tz env) r, ss_recs := ss_recs s @ [r]\<rparr>))"
  using assms marshal_None [of "xe_tz env" r]
  by (auto simp: append_one_def writes_ok_def append_ok split: if_splits)

lemma simple_extends:
  assumes "writes_ok env"
  shows "SetHead env i s = (err, s') \<Longrightarrow> i \<noteq> [] \<Longrightarrow> extends (xe_tz env) s s'"
    "store_Checkpoint env p s = (err, s') \<Longrightarrow> extends (xe_tz env) s s'"
    "AdvanceCursor env i s = (err, s') \<Longrightarrow> extends (xe_tz env) s s'"
    "DeclareWorkspace env p s = (err, s') \<Longrightarrow> extends (xe_tz env) s s'"
    "MarkArchived env s = (err, s') \<Longrightarrow> extends (xe_tz env) s s'"
  using append_one_cases [OF assms]
  by (fastforce simp: SetHead_def store_Checkpoint_def AdvanceCursor_def DeclareWorkspace_def MarkArchived_def
      extends_def split: if_splits)+

lemma commit_extends:
  assumes "writes_ok env" and "commit_msgs env k c ms s = (err, c', s')"
  shows "extends (xe_tz env) s s'"
  using assms(2)
proof (induction ms arbitrary: k c s)
  case (Cons m ms)
  show ?case
  proof (cases "m_MsgID m = [] \<or> hasID s (m_MsgID m)")
    case True
    with Cons show ?thesis by (simp add: commit_skip del: commit_msgs.simps)
  next
    case False
    let ?r = "commit_record (xe_now env k) (ss_head s) m" and ?h = "RHead (m_MsgID m) (xe_now env k)"
    let ?s = "s\<lparr>ss_file := ss_file s @ concat (map (line_of (xe_tz env)) [?r, ?h]), ss_recs := ss_recs s @ [?r, ?h],
                ss_head := m_MsgID m\<rparr>"
    have t: "Created ?r = xe_now env k" "Created ?h = xe_now env k" by (simp_all add: commit_record_def)
    show ?thesis
    proof (cases "tz_format (xe_tz env) (xe_now env k) = None")
      case True
      with False Cons.prems t assms(1) show ?thesis by (simp add: Let_def append_ok writes_ok_def extends_refl)
    next
      case ok: False
      then obtain y where "tz_format (xe_tz env) (xe_now env k) = Some y" by blast
      then have "commit_msgs env (Suc k) (c @ [stamp_commit (xe_now env k) m]) ms ?s = (err, c', s')"
        using False Cons.prems t assms(1) by (simp add: Let_def append_ok writes_ok_def)
      moreover have "extends (xe_tz env) s ?s"
        using ok t False by (auto simp: extends_def marshal_None intro!: exI [of _ "[?r, ?h]"])
      ultimately show ?thesis using Cons.IH extends_trans by blast
    qed
  qed
qed (simp add: extends_refl)

lemma copy_extends:
  assumes "writes_ok env" and "copy_retained env old k ids prev cm s = (ok, prev', cm', s')"
  shows "extends (xe_tz env) s s' \<and> (tz_format (xe_tz env) (xe_now env 0) \<noteq> None \<longrightarrow> ok)"
  using assms(2)
proof (induction ids arbitrary: k prev cm s)
  case (Cons i ids)
  show ?case
  proof (cases "\<exists>m. byID old i = Some (RMsg m)")
    case False
    then have "copy_retained env old k (i # ids) prev cm s = copy_retained env old k ids prev cm s"
      by (auto split: option.split Record.split)
    with Cons show ?thesis by simp
  next
    case True
    then obtain m where m: "byID old i = Some (RMsg m)" by blast
    let ?r = "clone_record (xe_now env 0) (xe_newID env k) prev m"
    have t: "Created ?r = xe_now env 0" by (simp add: clone_record_def newMsgRecord_def)
    show ?thesis
    proof (cases "tz_format (xe_tz env) (xe_now env 0)")
      case None
      with Cons.prems m t assms(1) show ?thesis by (simp add: Let_def append_ok writes_ok_def extends_refl)
    next
      case (Some y)
      let ?s = "s\<lparr>ss_file := ss_file s @ line_of (xe_tz env) ?r, ss_recs := ss_recs s @ [?r]\<rparr>"
      have "copy_retained env old (Suc k) ids (xe_newID env k) (map_put i (xe_newID env k) cm) ?s = (ok, prev', cm', s')"
        using Cons.prems m t assms(1) Some by (simp add: Let_def append_ok writes_ok_def)
      moreover have "extends (xe_tz env) s ?s"
        using Some t by (auto simp: extends_def marshal_None clone_record_def intro!: exI [of _ "[?r]"])
      ultimately show ?thesis using Cons.IH extends_trans by blast
    qed
  qed
qed (simp add: extends_refl)

lemma compact_extends:
  assumes "writes_ok env" and "Compact env from to summary s = (err, s')"
    and "\<And>k. xe_newID env k \<noteq> []"
  shows "extends (xe_tz env) s s'"
proof -
  have "extends (xe_tz env) s s'" if c: "compact_at env from to summary parent retain s = (err, s')" for parent retain
  proof (cases "tz_format (xe_tz env) (xe_now env 0)")
    case None
    then show ?thesis
      using c assms(1) by (simp add: compact_at_def append_ok writes_ok_def newCompactRecord_def extends_refl)
  next
    case (Some y)
    let ?cr = "newCompactRecord (''s_'' @ to) parent summary from to (xe_now env 0)"
    let ?s1 = "s\<lparr>ss_file := ss_file s @ line_of (xe_tz env) ?cr, ss_recs := ss_recs s @ [?cr]\<rparr>"
    obtain ok prev cm s2 where cp: "copy_retained env (ss_recs s) 0 retain (''s_'' @ to) [] ?s1 = (ok, prev, cm, s2)"
      by (metis prod_cases4)
    note e2 = copy_extends [OF assms(1) cp]
    have "prev \<noteq> []"
    proof -
      have "prev' \<noteq> []" if "copy_retained env old k ids prev cm s = (ok, prev', cm', s')" "prev \<noteq> []"
        for old k ids prev cm prev' cm' ok and s s' :: SessionStore
        using that assms(3) by (induction env old k ids prev cm s rule: copy_retained.induct)
          (auto simp: Let_def split: option.splits Record.splits prod.splits if_splits)
      from this [OF cp] show ?thesis by simp
    qed
    let ?s3 = "remapCursor retain cm prev s2" and ?h = "RHead prev (xe_now env 0)"
    let ?s4 = "?s3\<lparr>ss_file := ss_file ?s3 @ line_of (xe_tz env) ?h, ss_recs := ss_recs ?s3 @ [?h], ss_head := prev\<rparr>"
    have "s' = ?s4"
      using c cp e2 Some assms(1) by (auto simp: compact_at_def append_ok writes_ok_def newCompactRecord_def Let_def)
    moreover have "extends (xe_tz env) s ?s1"
      using Some by (auto simp: extends_def marshal_None newCompactRecord_def intro!: exI [of _ "[?cr]"])
    moreover have "extends (xe_tz env) s2 ?s4"
      using Some \<open>prev \<noteq> []\<close> by (auto simp: extends_def marshal_None intro!: exI [of _ "[?h]"])
    ultimately show ?thesis using e2 extends_trans by blast
  qed
  then show ?thesis
    using assms(2) by (auto simp: Compact_def Let_def split: if_splits option.splits)
qed

section \<open>Calls\<close>

datatype session_call =
    CallCommit "Message list" | CallCompact string string string | CallSetHead string | CallCheckpoint string
  | CallCursor string | CallWorkspace string | CallArchive

definition run_call :: "session_env \<Rightarrow> session_call \<Rightarrow> SessionStore \<Rightarrow> SessionStore" where
  "run_call env c s =
    (case c of
       CallCommit msgs \<Rightarrow> snd (snd (Commit env msgs s))
     | CallCompact from to summary \<Rightarrow> snd (Compact env from to summary s)
     | CallSetHead i \<Rightarrow> snd (SetHead env i s)
     | CallCheckpoint p \<Rightarrow> snd (store_Checkpoint env p s)
     | CallCursor i \<Rightarrow> snd (AdvanceCursor env i s)
     | CallWorkspace p \<Rightarrow> snd (DeclareWorkspace env p s)
     | CallArchive \<Rightarrow> snd (MarkArchived env s))"

lemma run_call_extends:
  assumes "writes_ok env" and "\<And>k. xe_newID env k \<noteq> []" and "c \<noteq> CallSetHead []"
  shows "extends (xe_tz env) s (run_call env c s)"
proof (cases c)
  case (CallCommit msgs)
  obtain err c' s' where e: "commit_msgs env 0 [] msgs s = (err, c', s')" by (rule prod_cases3)
  from commit_extends [OF assms(1) e] show ?thesis by (simp add: CallCommit run_call_def Commit_def e)
next
  case (CallCompact a b sm)
  obtain err s' where e: "Compact env a b sm s = (err, s')" by fastforce
  from compact_extends [OF assms(1) e assms(2)] show ?thesis by (simp add: CallCompact run_call_def e)
qed (use assms(3) in \<open>auto simp: run_call_def intro: simple_extends [OF assms(1) prod.collapse [symmetric]]\<close>)

section \<open>Calls whose writes fail\<close>

text \<open>
  A call stops at its first write that fails. Compared with the same call on a disk that works, the
  memory has a part of the new records, and the file a part of the new lines, at least those of the
  records in memory.
\<close>

definition all_written :: "session_env \<Rightarrow> session_env" where
  "all_written env = env\<lparr>xe_write := \<lambda>_. WriteOK\<rparr>"

lemma all_written_simps [simp]:
  "writes_ok (all_written env)" "xe_tz (all_written env) = xe_tz env" "xe_now (all_written env) = xe_now env"
  "xe_newID (all_written env) = xe_newID env" "xe_write (all_written env) k = WriteOK"
  by (simp_all add: all_written_def writes_ok_def)

definition lines_of :: "time_codec \<Rightarrow> Record list \<Rightarrow> string" where
  "lines_of tz rs = concat (map (line_of tz) rs)"

lemma lines_of_append [simp]: "lines_of tz [] = []" "lines_of tz (rs @ rs') = lines_of tz rs @ lines_of tz rs'"
  by (simp_all add: lines_of_def)

definition part_of :: "time_codec \<Rightarrow> SessionStore \<Rightarrow> SessionStore \<Rightarrow> SessionStore \<Rightarrow> bool" where
  "part_of tz s s' s1 \<longleftrightarrow> (\<exists>j rs. ss_recs s1 = ss_recs s @ rs \<and> ss_file s1 = ss_file s @ lines_of tz rs \<and>
     ss_recs s' = ss_recs s @ take j rs \<and> prefix (ss_file s @ lines_of tz (take j rs)) (ss_file s') \<and>
     prefix (ss_file s') (ss_file s1) \<and> ss_metadata s' = ss_metadata s)"

lemma extends_file: "extends tz s s1 \<Longrightarrow> prefix (ss_file s) (ss_file s1)"
  by (auto simp: extends_def)

lemma part_of_here:
  assumes "extends tz s s1" and "ss_recs s' = ss_recs s" and "ss_metadata s' = ss_metadata s"
    and "prefix (ss_file s) (ss_file s')" and "prefix (ss_file s') (ss_file s1)"
  shows "part_of tz s s' s1"
proof -
  obtain rs where "ss_recs s1 = ss_recs s @ rs" "ss_file s1 = ss_file s @ lines_of tz rs"
    using assms(1) by (auto simp: extends_def lines_of_def)
  then show ?thesis unfolding part_of_def using assms(2-5) by (intro exI [of _ 0] exI [of _ rs]) simp
qed

lemma part_of_refl: "extends tz s s' \<Longrightarrow> part_of tz s s' s'"
proof -
  assume "extends tz s s'"
  then obtain rs where "ss_recs s' = ss_recs s @ rs" "ss_file s' = ss_file s @ lines_of tz rs" "ss_metadata s' = ss_metadata s"
    by (auto simp: extends_def lines_of_def)
  then show ?thesis unfolding part_of_def by (intro exI [of _ "length rs"] exI [of _ rs]) simp
qed

lemma part_of_same [simp]: "part_of tz s s s"
  by (rule part_of_refl) (simp add: extends_refl)

lemma part_of_trans:
  assumes "extends tz s s2" and "part_of tz s2 s' s1"
  shows "part_of tz s s' s1"
proof -
  obtain rs2 where a: "ss_recs s2 = ss_recs s @ rs2" "ss_file s2 = ss_file s @ lines_of tz rs2" "ss_metadata s2 = ss_metadata s"
    using assms(1) by (auto simp: extends_def lines_of_def)
  obtain j rs where b: "ss_recs s1 = ss_recs s2 @ rs" "ss_file s1 = ss_file s2 @ lines_of tz rs" "ss_recs s' = ss_recs s2 @ take j rs"
      "prefix (ss_file s2 @ lines_of tz (take j rs)) (ss_file s')" "prefix (ss_file s') (ss_file s1)" "ss_metadata s' = ss_metadata s2"
    using assms(2) by (auto simp: part_of_def)
  show ?thesis unfolding part_of_def
    using a b by (intro exI [of _ "length rs2 + j"] exI [of _ "rs2 @ rs"]) simp
qed

lemma part_of_more:
  assumes "part_of tz s s' s1" and "extends tz s1 s2"
  shows "part_of tz s s' s2"
proof -
  obtain j rs where b: "ss_recs s1 = ss_recs s @ rs" "ss_file s1 = ss_file s @ lines_of tz rs" "ss_recs s' = ss_recs s @ take j rs"
      "prefix (ss_file s @ lines_of tz (take j rs)) (ss_file s')" "prefix (ss_file s') (ss_file s1)" "ss_metadata s' = ss_metadata s"
    using assms(1) by (auto simp: part_of_def)
  obtain rs2 where a: "ss_recs s2 = ss_recs s1 @ rs2" "ss_file s2 = ss_file s1 @ lines_of tz rs2"
    using assms(2) by (auto simp: extends_def lines_of_def)
  have "take (min j (length rs)) (rs @ rs2) = take j rs" by (simp add: min_def)
  then show ?thesis unfolding part_of_def
    using a b prefix_order.trans [OF b(5), of "ss_file s2"]
    by (intro exI [of _ "min j (length rs)"] exI [of _ "rs @ rs2"]) simp
qed

lemma append_part:
  assumes "appendRecord tz w r s = (ok, s')"
  shows "ss_recs s' = ss_recs s \<and> ss_metadata s' = ss_metadata s \<and> ss_head s' = ss_head s \<and> ss_cursor s' = ss_cursor s \<and>
    prefix (ss_file s) (ss_file s') \<and> prefix (ss_file s') (ss_file s @ line_of tz r) \<and>
    (ok \<longrightarrow> s' = s\<lparr>ss_file := ss_file s @ line_of tz r\<rparr> \<and> tz_format tz (Created r) \<noteq> None)"
proof (cases "marshal_record tz r")
  case (Some d)
  have "prefix (take n (d @ [nl])) (d @ [nl])" for n by (rule take_is_prefix)
  with Some show ?thesis
    using assms marshal_None [of tz r] by (cases w) (auto simp: appendRecord_def line_of_def simp del: take_append)
qed (use assms in \<open>simp add: appendRecord_def\<close>)

lemma append_one_part:
  assumes "extends (xe_tz env) s (snd (append_one (all_written env) r upd s))"
    and "\<And>s. ss_recs (upd s) = ss_recs s \<and> ss_file (upd s) = ss_file s \<and> ss_metadata (upd s) = ss_metadata s"
  shows "part_of (xe_tz env) s (snd (append_one env r upd s)) (snd (append_one (all_written env) r upd s))"
proof -
  obtain ok s' where a: "appendRecord (xe_tz env) (xe_write env 0) r s = (ok, s')" by fastforce
  note p = append_part [OF a]
  show ?thesis
  proof (cases "tz_format (xe_tz env) (Created r)")
    case None
    then have "s' = s" "\<not> ok" using a marshal_None [of "xe_tz env" r] by (simp_all add: appendRecord_def)
    with None a show ?thesis by (auto simp: append_one_def append_ok intro: part_of_refl extends_refl)
  next
    case (Some x)
    let ?s1 = "snd (append_one (all_written env) r upd s)"
    have s1: "?s1 = upd (s\<lparr>ss_file := ss_file s @ line_of (xe_tz env) r, ss_recs := ss_recs s @ [r]\<rparr>)"
      using Some by (simp add: append_one_def append_ok)
    show ?thesis
    proof (cases ok)
      case True
      then have "snd (append_one env r upd s) = ?s1" using a p s1 by (simp add: append_one_def)
      with part_of_refl [OF assms(1)] show ?thesis by simp
    next
      case False
      then have "snd (append_one env r upd s) = s'" using a by (simp add: append_one_def)
      with part_of_here [OF assms(1)] p s1 assms(2) show ?thesis by simp
    qed
  qed
qed

lemma commit_part:
  "part_of (xe_tz env) s (snd (snd (commit_msgs env k c ms s))) (snd (snd (commit_msgs (all_written env) k c ms s)))"
proof (induction ms arbitrary: k c s)
  case Nil
  then show ?case by (simp add: part_of_refl extends_refl)
next
  case (Cons m ms)
  show ?case
  proof (cases "m_MsgID m = [] \<or> hasID s (m_MsgID m)")
    case True
    with Cons show ?thesis by (simp add: commit_skip del: commit_msgs.simps)
  next
    case new: False
    let ?tz = "xe_tz env" and ?r = "commit_record (xe_now env k) (ss_head s) m" and ?h = "RHead (m_MsgID m) (xe_now env k)"
    let ?c = "c @ [stamp_commit (xe_now env k) m]"
    let ?s = "s\<lparr>ss_file := (ss_file s @ line_of ?tz ?r) @ line_of ?tz ?h, ss_recs := ss_recs s @ [?r, ?h], ss_head := m_MsgID m\<rparr>"
    have t: "Created ?r = xe_now env k" "Created ?h = xe_now env k" by (simp_all add: commit_record_def)
    obtain ok1 s1 where a1: "appendRecord ?tz (xe_write env (2 * k)) ?r s = (ok1, s1)" by fastforce
    obtain ok2 s2 where a2: "appendRecord ?tz (xe_write env (2 * k + 1)) ?h s1 = (ok2, s2)" by fastforce
    note p1 = append_part [OF a1] and p2 = append_part [OF a2]
    show ?thesis
    proof (cases "tz_format ?tz (xe_now env k)")
      case None
      then have "appendRecord ?tz w ?r s = (False, s)" for w
        using marshal_None [of ?tz ?r] t(1) by (simp add: appendRecord_def)
      then have "commit_msgs e k c (m # ms) s = (Some RecordFailed, c, s)" if "e \<in> {env, all_written env}" for e
        using that new by (auto simp: Let_def)
      then show ?thesis by (simp del: commit_msgs.simps)
    next
      case (Some y)
      have full: "commit_msgs (all_written env) k c (m # ms) s = commit_msgs (all_written env) (Suc k) ?c ms ?s"
        using new Some t by (simp add: Let_def append_ok)
      have e: "extends ?tz s ?s"
        using Some t new by (auto simp: extends_def marshal_None intro!: exI [of _ "[?r, ?h]"])
      obtain e1 c1 f1 where f1: "commit_msgs (all_written env) (Suc k) ?c ms ?s = (e1, c1, f1)" by (rule prod_cases3)
      have ef: "extends ?tz ?s f1" using commit_extends [OF _ f1] by simp
      have stop: "part_of ?tz s x f1" if "ss_recs x = ss_recs s" "ss_metadata x = ss_metadata s"
          "prefix (ss_file s) (ss_file x)" "prefix (ss_file x) (ss_file ?s)" for x
        using part_of_here [OF extends_trans [OF e ef] that(1-3)] that(4) extends_file [OF ef] prefix_order.trans by blast
      consider "\<not> ok1" | "ok1" "\<not> ok2" | "ok1" "ok2" by blast
      then show ?thesis
      proof cases
        case 1
        with new a1 have "snd (snd (commit_msgs env k c (m # ms) s)) = s1" by (simp add: Let_def)
        moreover have "prefix (ss_file s1) (ss_file ?s)" using p1 by (auto intro: prefix_order.trans)
        ultimately show ?thesis unfolding full f1 using stop [of s1] p1 by simp
      next
        case 2
        with new a1 a2 have "snd (snd (commit_msgs env k c (m # ms) s)) = s2" by (simp add: Let_def)
        moreover have "prefix (ss_file s) (ss_file s2)" "prefix (ss_file s2) (ss_file ?s)"
          using p1 p2 2(1) by (auto intro: prefix_order.trans)
        ultimately show ?thesis unfolding full f1 using stop [of s2] p1 p2 2(1) by simp
      next
        case 3
        then have "s2\<lparr>ss_recs := ss_recs s @ [?r, ?h], ss_head := m_MsgID m\<rparr> = ?s" using p1 p2 by simp
        then have same: "commit_msgs env k c (m # ms) s = commit_msgs env (Suc k) ?c ms ?s" using new a1 a2 3 p1 by (auto simp: Let_def)
        show ?thesis unfolding full same by (rule part_of_trans [OF e Cons.IH])
      qed
    qed
  qed
qed

lemma copy_part:
  assumes "copy_retained env old k ids prev cm s = (ok, prev', cm', s')"
    and "copy_retained (all_written env) old k ids prev cm s = (ok1, prev1, cm1, s1)"
    and "tz_format (xe_tz env) (xe_now env 0) \<noteq> None"
  shows "if ok then (ok1, prev1, cm1, s1) = (ok, prev', cm', s') else part_of (xe_tz env) s s' s1"
  using assms(1,2)
proof (induction ids arbitrary: k prev cm s)
  case (Cons i ids)
  show ?case
  proof (cases "\<exists>m. byID old i = Some (RMsg m)")
    case False
    then have "copy_retained env old k (i # ids) prev cm s = copy_retained env old k ids prev cm s" for env
      by (auto split: option.split Record.split)
    with Cons show ?thesis by metis
  next
    case True
    then obtain m where m: "byID old i = Some (RMsg m)" by blast
    let ?tz = "xe_tz env" and ?r = "clone_record (xe_now env 0) (xe_newID env k) prev m"
    let ?s = "s\<lparr>ss_file := ss_file s @ line_of ?tz ?r, ss_recs := ss_recs s @ [?r]\<rparr>"
    let ?cm = "map_put i (xe_newID env k) cm"
    have t: "Created ?r = xe_now env 0" by (simp add: clone_record_def newMsgRecord_def)
    have c1: "copy_retained (all_written env) old (Suc k) ids (xe_newID env k) ?cm ?s = (ok1, prev1, cm1, s1)"
      using Cons.prems(2) m t assms(3) by (auto simp: Let_def append_ok)
    have e: "extends ?tz s ?s"
      using assms(3) t by (auto simp: extends_def marshal_None clone_record_def intro!: exI [of _ "[?r]"])
    obtain oka sa where a: "appendRecord ?tz (xe_write env (Suc k)) ?r s = (oka, sa)" by fastforce
    note p = append_part [OF a]
    show ?thesis
    proof (cases oka)
      case True
      then have "copy_retained env old (Suc k) ids (xe_newID env k) ?cm ?s = (ok, prev', cm', s')"
        using Cons.prems(1) m a p by (simp add: Let_def)
      from Cons.IH [OF this c1] show ?thesis using part_of_trans [OF e] by (auto split: if_splits)
    next
      case False
      then have "\<not> ok" "s' = sa" using Cons.prems(1) m a by (auto simp: Let_def)
      moreover have "extends ?tz ?s s1" using copy_extends [OF _ c1] by simp
      then have "part_of ?tz s sa s1"
        using part_of_here [OF extends_trans [OF e]] p extends_file [of ?tz ?s s1] prefix_order.trans by fastforce
      ultimately show ?thesis by simp
    qed
  qed
qed simp

lemma remapCursor_same [simp]:
  "ss_recs (remapCursor a b c x) = ss_recs x" "ss_file (remapCursor a b c x) = ss_file x"
  "ss_metadata (remapCursor a b c x) = ss_metadata x" "ss_head (remapCursor a b c x) = ss_head x"
  by (auto simp: remapCursor_def split: option.splits)

text \<open>The end of a compaction: the head record behind the copies.\<close>

definition compact_head :: "session_env \<Rightarrow> string list \<Rightarrow> string \<Rightarrow> (string \<times> string) list \<Rightarrow> SessionStore \<Rightarrow> session_error option \<times> SessionStore" where
  "compact_head env retain prev cm s =
    (let s3 = remapCursor retain cm prev s; h = RHead prev (xe_now env 0) in
     case appendRecord (xe_tz env) (xe_write env (Suc (length retain))) h s3 of (ok, s4) \<Rightarrow>
       if \<not> ok then (Some RecordFailed, s4) else (None, s4\<lparr>ss_recs := ss_recs s4 @ [h], ss_head := prev\<rparr>))"

lemma compact_head_part:
  assumes "prev \<noteq> []" and "tz_format (xe_tz env) (xe_now env 0) \<noteq> None"
  shows "extends (xe_tz env) s (snd (compact_head (all_written env) retain prev cm s))"
    "part_of (xe_tz env) s (snd (compact_head env retain prev cm s)) (snd (compact_head (all_written env) retain prev cm s))"
proof -
  let ?tz = "xe_tz env" and ?h = "RHead prev (xe_now env 0)" and ?s3 = "remapCursor retain cm prev s"
  let ?full = "snd (compact_head (all_written env) retain prev cm s)"
  have full: "?full = ?s3\<lparr>ss_file := ss_file s @ line_of ?tz ?h, ss_recs := ss_recs s @ [?h], ss_head := prev\<rparr>"
    using assms(2) by (auto simp: compact_head_def append_ok Let_def)
  show e: "extends ?tz s ?full"
    unfolding full using assms by (auto simp: extends_def marshal_None intro!: exI [of _ "[?h]"])
  obtain ok s4 where a: "appendRecord ?tz (xe_write env (Suc (length retain))) ?h ?s3 = (ok, s4)" by fastforce
  note p = append_part [OF a]
  show "part_of ?tz s (snd (compact_head env retain prev cm s)) ?full"
  proof (cases ok)
    case True
    then have "snd (compact_head env retain prev cm s) = ?full" unfolding full using a p by (simp add: compact_head_def Let_def)
    with part_of_refl [OF e] show ?thesis by simp
  next
    case False
    then have "snd (compact_head env retain prev cm s) = s4" using a by (simp add: compact_head_def Let_def)
    with part_of_here [OF e] p show ?thesis unfolding full by simp
  qed
qed

text \<open>A compaction is the record of the summary, the copies and the head record.\<close>

lemma compact_at_steps:
  assumes "summ = newCompactRecord (''s_'' @ to) parent summary from to (xe_now env 0)"
    and "appendRecord (xe_tz env) (xe_write env 0) summ s = (ok, s1)"
    and "copy_retained env (ss_recs s) 0 retain (''s_'' @ to) [] (s1\<lparr>ss_recs := ss_recs s1 @ [summ]\<rparr>) = (ok2, prev, cm, s2)"
  shows "snd (compact_at env from to summary parent retain s) =
    (if \<not> ok then s1 else if \<not> ok2 then s2 else snd (compact_head env retain prev cm s2))"
  using assms(2,3) unfolding assms(1) by (simp add: compact_at_def compact_head_def Let_def split: prod.split)

lemma copy_prev:
  assumes "copy_retained env old k ids prev cm s = (ok, prev', cm', s')" and "prev \<noteq> []" and "\<And>k. xe_newID env k \<noteq> []"
  shows "prev' \<noteq> []"
  using assms by (induction env old k ids prev cm s rule: copy_retained.induct)
    (auto simp: Let_def split: option.splits Record.splits prod.splits if_splits)

lemma compact_at_part:
  assumes "\<And>k. xe_newID env k \<noteq> []"
  shows "part_of (xe_tz env) s (snd (compact_at env from to summary parent retain s))
    (snd (compact_at (all_written env) from to summary parent retain s))"
proof (cases "tz_format (xe_tz env) (xe_now env 0) = None")
  case True
  let ?cr = "newCompactRecord (''s_'' @ to) parent summary from to (xe_now env 0)"
  have "appendRecord (xe_tz env) w ?cr s = (False, s)" for w
    using True marshal_None [of "xe_tz env" ?cr] by (simp add: appendRecord_def newCompactRecord_def)
  then show ?thesis by (simp add: compact_at_def Let_def)
next
  case now: False
  let ?tz = "xe_tz env" and ?cr = "newCompactRecord (''s_'' @ to) parent summary from to (xe_now env 0)"
  let ?s1 = "s\<lparr>ss_file := ss_file s @ line_of ?tz ?cr, ss_recs := ss_recs s @ [?cr]\<rparr>"
  obtain ok s1 where a: "appendRecord ?tz (xe_write env 0) ?cr s = (ok, s1)" by fastforce
  obtain okf pf cf sf where cf: "copy_retained (all_written env) (ss_recs s) 0 retain (''s_'' @ to) [] ?s1 = (okf, pf, cf, sf)" by (metis prod_cases4)
  obtain ok2 p2 c2 s2 where c: "copy_retained env (ss_recs s) 0 retain (''s_'' @ to) [] (s1\<lparr>ss_recs := ss_recs s1 @ [?cr]\<rparr>) = (ok2, p2, c2, s2)"
    by (metis prod_cases4)
  let ?full = "snd (compact_head (all_written env) retain pf cf sf)"
  have "Created ?cr = xe_now env 0" by (simp add: newCompactRecord_def)
  then have "appendRecord (xe_tz (all_written env)) (xe_write (all_written env) 0) ?cr s = (True, s\<lparr>ss_file := ss_file s @ line_of ?tz ?cr\<rparr>)"
    using now by (auto simp: append_ok)
  moreover have okf: okf "extends ?tz ?s1 sf" using copy_extends [OF _ cf] now by simp_all
  ultimately have full: "snd (compact_at (all_written env) from to summary parent retain s) = ?full"
    using compact_at_steps [where env = "all_written env" and s = s, OF refl, of "to" parent summary "from" True _ retain okf pf cf sf] cf by simp
  have e1: "extends ?tz s ?s1" using now by (auto simp: extends_def marshal_None newCompactRecord_def intro!: exI [of _ "[?cr]"])
  have "pf \<noteq> []" using copy_prev [OF cf] assms by simp
  note h = compact_head_part [OF this now, of sf retain cf]
  note p = append_part [OF a]
  consider "\<not> ok" | "ok" "\<not> ok2" | "ok" "ok2" by blast
  then show ?thesis unfolding full compact_at_steps [OF refl a c]
  proof cases
    case 1
    have "prefix (ss_file s1) (ss_file ?full)"
      using p extends_file [OF okf(2)] extends_file [OF h(1)] by (auto intro: prefix_order.trans)
    with 1 p show "part_of ?tz s (if \<not> ok then s1 else if \<not> ok2 then s2 else snd (compact_head env retain p2 c2 s2)) ?full"
      using part_of_here [OF extends_trans [OF e1 extends_trans [OF okf(2) h(1)]]] by simp
  next
    case 2
    then have "part_of ?tz ?s1 s2 sf" using copy_part [OF _ cf now, of ok2 p2 c2 s2] c p by simp
    with 2 show "part_of ?tz s (if \<not> ok then s1 else if \<not> ok2 then s2 else snd (compact_head env retain p2 c2 s2)) ?full"
      using part_of_trans [OF e1 part_of_more [OF _ h(1)]] by simp
  next
    case 3
    then have "(p2, c2, s2) = (pf, cf, sf)" using copy_part [OF _ cf now, of ok2 p2 c2 s2] c p by simp
    with 3 show "part_of ?tz s (if \<not> ok then s1 else if \<not> ok2 then s2 else snd (compact_head env retain p2 c2 s2)) ?full"
      using part_of_trans [OF extends_trans [OF e1 okf(2)] h(2)] by simp
  qed
qed

lemma compact_part:
  assumes "\<And>k. xe_newID env k \<noteq> []"
  shows "part_of (xe_tz env) s (snd (Compact env from to summary s)) (snd (Compact (all_written env) from to summary s))"
  using compact_at_part [OF assms] by (auto simp: Compact_def Let_def split: option.splits)

lemma run_call_part:
  assumes "\<And>k. xe_newID env k \<noteq> []" and "c \<noteq> CallSetHead []"
  shows "part_of (xe_tz env) s (run_call env c s) (run_call (all_written env) c s)"
proof (cases c)
  case (CallCommit msgs)
  then show ?thesis by (simp add: run_call_def Commit_def commit_part)
next
  case (CallCompact a b sm)
  then show ?thesis using compact_part [OF assms(1)] by (simp add: run_call_def)
qed (use run_call_extends [of "all_written env" c s] assms in
  \<open>auto simp: run_call_def SetHead_def store_Checkpoint_def AdvanceCursor_def DeclareWorkspace_def MarkArchived_def
     intro!: append_one_part part_of_same\<close>)

section \<open>Restarts\<close>

definition open_works :: "open_env \<Rightarrow> bool" where
  "open_works env \<longleftrightarrow> xo_mkdir env \<and> xo_chmod env \<and> xo_archive env \<and> xo_lock env \<and> xo_open env \<and> xo_fchmod env \<and>
     xo_truncate env \<and> xo_sync env"

text \<open>A file whose scan gives these records.\<close>

definition scans_to :: "time_codec \<Rightarrow> string \<Rightarrow> Record list \<Rightarrow> bool" where
  "scans_to tz f rs \<longleftrightarrow> (\<exists>good. scanJSONL (unmarshal_record tz) f = Some (rs, good))"

lemma open_scanned:
  assumes "scans_to (xo_tz env) f rs" and "open_works env" and "metadataFromRecords rs = Some m"
  shows "\<exists>f'. Open_session env (Some f) = Inr \<lparr>ss_file = f', ss_recs = rs, ss_metadata = m,
           ss_head = last_head rs, ss_cursor = last_cursor rs\<rparr>"
  using assms by (auto simp: scans_to_def open_works_def Open_session_def repair_tail_def open_metadata_def)

lemma open_extended:
  assumes "scans_to (xo_tz env) f (ss_recs s @ rs)" and "open_works env"
    and "metadataFromRecords (ss_recs s) = Some (ss_metadata s)"
  obtains s' where "Open_session env (Some f) = Inr s'" "ss_metadata s' = ss_metadata s"
    "ss_recs s' = ss_recs s @ rs" "ss_head s' = last_head (ss_recs s @ rs)"
  using open_scanned [OF assms(1,2) metadata_append [OF assms(3)]] by auto

lemma reopen:
  assumes "file_inv (xo_tz env) s" and "open_works env"
  shows "Open_session env (Some (ss_file s)) = Inr (s\<lparr>ss_cursor := last_cursor (ss_recs s)\<rparr>)"
  using assms jsonl_scan [of "unmarshal_record (xo_tz env)" "ss_file s" "ss_recs s"]
  by (simp add: file_inv_def open_works_def Open_session_def repair_tail_def open_metadata_def)

text \<open>
  The file of a session: it holds what the memory holds, or a call broke off and nothing was called since,
  or it is lost: something was written behind a piece of a line, a record was written that cannot be read
  back, or the head was set to the empty identifier, which the memory takes and a restart ignores.
\<close>

datatype session_file = FileWhole | FileCut | FileLost

definition file_after :: "session_env \<Rightarrow> session_call \<Rightarrow> SessionStore \<Rightarrow> session_file \<Rightarrow> session_file" where
  "file_after env c s st =
    (let s' = run_call env c s; full = run_call (all_written env) c s in
     if s' = s then st
     else if st \<noteq> FileWhole \<or> c = CallSetHead [] \<or>
       \<not> list_all (record_fits (xe_tz env)) (drop (length (ss_recs s)) (ss_recs full)) then FileLost
     else if s' = full then FileWhole
     else FileCut)"

text \<open>A restart repairs the end of the file; a record that lacks only its line feed stays as it is.\<close>

definition file_reopened :: "SessionStore \<Rightarrow> session_file \<Rightarrow> session_file" where
  "file_reopened s st = (if st = FileCut then if complete (ss_file s) then FileWhole else FileLost else st)"

text \<open>
  The stores of a session that the program reaches: created, used by calls with any arguments and any
  outcome of each write, and opened again.
\<close>

inductive session_reach :: "time_codec \<Rightarrow> session_file \<Rightarrow> SessionStore \<Rightarrow> bool" for tz where
  new: "Open_session env None = Inr s \<Longrightarrow> xo_tz env = tz \<Longrightarrow> xo_sessionID env \<noteq> [] \<Longrightarrow>
    record_fits tz (RMetadata (xo_sessionID env) (xo_now env)) \<Longrightarrow> session_reach tz FileWhole s"
| call: "session_reach tz st s \<Longrightarrow> xe_tz env = tz \<Longrightarrow> (\<And>k. xe_newID env k \<noteq> []) \<Longrightarrow>
    session_reach tz (file_after env c s st) (run_call env c s)"
| reopened: "session_reach tz st s \<Longrightarrow> Open_session env (Some (ss_file s)) = Inr s' \<Longrightarrow> xo_tz env = tz \<Longrightarrow>
    session_reach tz (file_reopened s' st) s'"

text \<open>
  A file between two states of the memory: the scan finds the records of complete lines, and what the
  repair leaves is a good file when it ends with a line feed.
\<close>

lemma inside_line:
  assumes "prefix f g" and "prefix g (f @ (d @ [nl]) @ rest)" and "\<not> prefix (f @ d @ [nl]) g"
  obtains n where "g = f @ take n d" "n \<le> length d"
proof -
  obtain q where q: "g = f @ q" using assms(1) by (auto simp: prefix_def)
  have "prefix q ((d @ [nl]) @ rest)" "\<not> prefix (d @ [nl]) q" using assms(2,3) q by simp_all
  then have "strict_prefix q (d @ [nl])"
    by (metis prefix_same_cases strict_prefix_def append_prefixD prefix_order.eq_iff prefix_prefix)
  then have "prefix q d" by (auto simp: strict_prefix_def)
  then show thesis using that q by (metis append_eq_conv_conj prefix_def prefix_length_le)
qed

lemma torn_incomplete:
  assumes "nl \<notin> set d" and "take n d \<noteq> []"
  shows "\<not> complete (f @ take n d)"
proof -
  have "last (take n d) \<in> set d" using in_set_takeD [OF last_in_set] assms(2) by blast
  with assms show ?thesis by (auto simp: complete_def)
qed

lemma scan_between:
  assumes "jsonl (unmarshal_record tz) f rs" and "\<forall>r \<in> set rs'. record_fits tz r"
    and "prefix (f @ lines_of tz (take j rs')) g" and "prefix g (f @ lines_of tz rs')"
  shows "\<exists>k good. scanJSONL (unmarshal_record tz) g = Some (rs @ take k rs', good) \<and> (j \<le> k \<or> length rs' \<le> k) \<and>
    (\<forall>h. h = g \<or> h = take good g \<longrightarrow> complete h \<longrightarrow> jsonl (unmarshal_record tz) h (rs @ take k rs'))"
  using assms
proof (induction rs' arbitrary: f rs j)
  case Nil
  then have "g = f" by (simp add: prefix_order.eq_iff)
  with Nil.prems(1) jsonl_scan [OF Nil.prems(1)] show ?case by (intro exI [of _ 0] exI [of _ "length f"]) auto
next
  case (Cons r rs')
  obtain d where d: "record_ok tz r" "marshal_record tz r = Some d" "length d < max_line"
    using Cons.prems(2) by (auto elim: record_fitsE)
  have l: "lines_of tz (r # xs) = (d @ [nl]) @ lines_of tz xs" for xs by (simp add: lines_of_def line_of_def d(2))
  have j: "prefix ((f @ d @ [nl]) @ lines_of tz (take n rs')) g" if "j = Suc n" for n
    using Cons.prems(3) that l by simp
  show ?case
  proof (cases "prefix (f @ d @ [nl]) g")
    case True
    have "prefix ((f @ d @ [nl]) @ lines_of tz (take (j - 1) rs')) g" using True j by (cases j) simp_all
    from Cons.IH [OF record_codec.jsonl_written [OF d Cons.prems(1)] _ this] Cons.prems(2,4) l
    obtain k good where k: "scanJSONL (unmarshal_record tz) g = Some ((rs @ [r]) @ take k rs', good)" "j - 1 \<le> k \<or> length rs' \<le> k"
        "\<forall>h. h = g \<or> h = take good g \<longrightarrow> complete h \<longrightarrow> jsonl (unmarshal_record tz) h ((rs @ [r]) @ take k rs')" by auto
    then show ?thesis by (intro exI [of _ "Suc k"] exI [of _ good]) (simp, linarith)
  next
    case False
    have "j = 0" using False j append_prefixD by (cases j) blast+
    have "prefix f g" using Cons.prems(3) by (auto intro: append_prefixD)
    then obtain n where n: "g = f @ take n d" "n \<le> length d" using inside_line [OF _ Cons.prems(4) [unfolded l] False] by blast
    have nn: "nl \<notin> set d" using record_codec.one_line(1) [of tz r d "[]"] d by simp
    note c = record_codec.jsonl_cut [OF d Cons.prems(1), of n] and nc = torn_incomplete [OF nn, of n f]
    show ?thesis
    proof (cases "n < length d")
      case True
      have "jsonl (unmarshal_record tz) h rs" if "h = g \<or> h = take (length f) g" "complete h" for h
        using that nc Cons.prems(1) n(1) by (cases "take n d = []") auto
      with c True n(1) \<open>j = 0\<close> show ?thesis by (intro exI [of _ 0] exI [of _ "length f"]) simp
    next
      case False
      then have "n = length d" "take n d \<noteq> []" using n(2) record_codec.nonempty [OF d(1,2)] by auto
      with c nc n(1) \<open>j = 0\<close> show ?thesis by (intro exI [of _ 1] exI [of _ "length g"]) auto
    qed
  qed
qed

definition cut_file :: "time_codec \<Rightarrow> SessionStore \<Rightarrow> bool" where
  "cut_file tz s \<longleftrightarrow> (\<exists>rs good. scanJSONL (unmarshal_record tz) (ss_file s) = Some (rs, good) \<and> prefix (ss_recs s) rs \<and>
     metadataFromRecords (ss_recs s) = Some (ss_metadata s) \<and>
     (\<forall>h. h = ss_file s \<or> h = take good (ss_file s) \<longrightarrow> complete h \<longrightarrow> jsonl (unmarshal_record tz) h rs))"

lemma file_inv_cut: "file_inv tz s \<Longrightarrow> cut_file tz s"
  using jsonl_scan [of "unmarshal_record tz" "ss_file s" "ss_recs s"] by (auto simp: file_inv_def cut_file_def)

lemma part_cut:
  assumes "file_inv tz s" and "part_of tz s s' s1" and "list_all (record_fits tz) (drop (length (ss_recs s)) (ss_recs s1))"
  shows "cut_file tz s'"
proof -
  obtain j rs where p: "ss_recs s1 = ss_recs s @ rs" "ss_file s1 = ss_file s @ lines_of tz rs" "ss_recs s' = ss_recs s @ take j rs"
      "prefix (ss_file s @ lines_of tz (take j rs)) (ss_file s')" "prefix (ss_file s') (ss_file s @ lines_of tz rs)" "ss_metadata s' = ss_metadata s"
    using assms(2) by (auto simp: part_of_def)
  have f: "jsonl (unmarshal_record tz) (ss_file s) (ss_recs s)" "metadataFromRecords (ss_recs s) = Some (ss_metadata s)"
    using assms(1) by (simp_all add: file_inv_def)
  have fit: "\<forall>r \<in> set rs. record_fits tz r" using assms(3) p(1) by (simp add: list_all_iff)
  obtain k good where k: "scanJSONL (unmarshal_record tz) (ss_file s') = Some (ss_recs s @ take k rs, good)" "j \<le> k \<or> length rs \<le> k"
      "\<forall>h. h = ss_file s' \<or> h = take good (ss_file s') \<longrightarrow> complete h \<longrightarrow> jsonl (unmarshal_record tz) h (ss_recs s @ take k rs)"
    using scan_between [OF f(1) fit p(4,5)] by blast
  have "prefix (take j rs) (take k rs)" using k(2) by (metis take_all take_is_prefix min.absorb1 take_take)
  then show ?thesis unfolding cut_file_def
    using k p(3,6) metadata_append [OF f(2)] by (intro exI [of _ "ss_recs s @ take k rs"] exI [of _ good]) simp
qed

text \<open>What a successful \<open>Open\<close> leaves: the records of the scan, and the file, repaired or not.\<close>

lemma open_result:
  assumes "Open_session env (Some f) = Inr s'" and "scanJSONL (unmarshal_record (xo_tz env)) f = Some (rs, good)"
    and "metadataFromRecords rs = Some m"
  shows "ss_recs s' = rs \<and> ss_metadata s' = m \<and> ss_head s' = last_head rs \<and> (ss_file s' = f \<or> ss_file s' = take good f)"
  using assms by (auto simp: Open_session_def repair_tail_def open_metadata_def split: if_splits)

lemma cut_reopened:
  assumes "cut_file (xo_tz env) s" and "Open_session env (Some (ss_file s)) = Inr s'"
  shows "ss_metadata s' = ss_metadata s" "prefix (ss_recs s) (ss_recs s')" "complete (ss_file s') \<Longrightarrow> file_inv (xo_tz env) s'"
proof -
  obtain rs good where c: "scanJSONL (unmarshal_record (xo_tz env)) (ss_file s) = Some (rs, good)" "prefix (ss_recs s) rs"
      "metadataFromRecords (ss_recs s) = Some (ss_metadata s)"
      "\<forall>h. h = ss_file s \<or> h = take good (ss_file s) \<longrightarrow> complete h \<longrightarrow> jsonl (unmarshal_record (xo_tz env)) h rs"
    using assms(1) by (auto simp: cut_file_def)
  have m: "metadataFromRecords rs = Some (ss_metadata s)" using c(2,3) metadata_append by (auto simp: prefix_def)
  note o = open_result [OF assms(2) c(1) m]
  show "ss_metadata s' = ss_metadata s" "prefix (ss_recs s) (ss_recs s')" using o c(2) by simp_all
  show "file_inv (xo_tz env) s'" if "complete (ss_file s')" using that o c(4) m by (auto simp: file_inv_def)
qed

lemma new_inv:
  assumes "Open_session env None = Inr s" and "xo_sessionID env \<noteq> []"
    and "record_fits (xo_tz env) (RMetadata (xo_sessionID env) (xo_now env))"
  shows "file_inv (xo_tz env) s"
proof -
  let ?r = "RMetadata (xo_sessionID env) (xo_now env)"
  obtain d where d: "record_ok (xo_tz env) ?r" "marshal_record (xo_tz env) ?r = Some d" "length d < max_line"
    using assms(3) by (rule record_fitsE)
  have "session_metadata env [] [] = \<lparr>md_SessionID = xo_sessionID env, md_CreatedAt = xo_now env\<rparr>"
    by (simp add: session_metadata_def firstNodeID_def node_ids_def)
  then have w: "xo_write env = WriteOK" "ss_file s = d @ [nl]" "ss_recs s = [?r]" "ss_head s = []"
      "ss_metadata s = \<lparr>md_SessionID = xo_sessionID env, md_CreatedAt = xo_now env\<rparr>"
    using assms(1) d(2)
    by (cases "xo_write env"; auto simp: Open_session_def repair_tail_def open_metadata_def metadataFromRecords_def
        List.map_filter_def appendRecord_def last_head_def Let_def split: if_splits)+
  from record_codec.jsonl_written [OF d jsonl_Nil] w assms(2) show ?thesis
    by (simp add: file_inv_def metadataFromRecords_def List.map_filter_def last_head_def)
qed

definition session_inv :: "time_codec \<Rightarrow> session_file \<Rightarrow> SessionStore \<Rightarrow> bool" where
  "session_inv tz st s = (case st of FileWhole \<Rightarrow> file_inv tz s | FileCut \<Rightarrow> cut_file tz s | FileLost \<Rightarrow> True)"

lemma call_inv:
  assumes "session_inv (xe_tz env) st s" and "\<And>k. xe_newID env k \<noteq> []"
  shows "session_inv (xe_tz env) (file_after env c s st) (run_call env c s)"
proof -
  let ?s' = "run_call env c s" and ?full = "run_call (all_written env) c s"
  consider "?s' = s" | "file_after env c s st = FileLost"
    | "?s' \<noteq> s" "st = FileWhole" "c \<noteq> CallSetHead []" "list_all (record_fits (xe_tz env)) (drop (length (ss_recs s)) (ss_recs ?full))"
    unfolding file_after_def Let_def
    by (cases "?s' = s"; cases "st \<noteq> FileWhole \<or> c = CallSetHead [] \<or>
       \<not> list_all (record_fits (xe_tz env)) (drop (length (ss_recs s)) (ss_recs ?full))") simp_all
  then show ?thesis
  proof cases
    case 3
    have inv: "file_inv (xe_tz env) s" using assms(1) 3(2) by (simp add: session_inv_def)
    have ext: "extends (xe_tz env) s ?full" using run_call_extends [of "all_written env" c s] assms(2) 3(3) by simp
    show ?thesis
    proof (cases "?s' = ?full")
      case True
      with extends_inv [OF inv ext] 3 show ?thesis by (simp add: file_after_def session_inv_def list_all_iff Let_def)
    next
      case False
      with part_cut [OF inv run_call_part [OF assms(2) 3(3)] 3(4)] 3 show ?thesis
        by (simp add: file_after_def session_inv_def Let_def)
    qed
  qed (use assms(1) in \<open>simp_all add: file_after_def session_inv_def Let_def\<close>)
qed

lemma reach_session_inv: "session_reach tz st s \<Longrightarrow> session_inv tz st s"
proof (induction rule: session_reach.induct)
  case (new env s)
  then show ?case using new_inv [of env s] by (simp add: session_inv_def)
next
  case (call st s env c)
  then show ?case using call_inv [of env st s c] by simp
next
  case (reopened st s env s')
  show ?case
  proof (cases "st = FileLost")
    case False
    then have c: "cut_file (xo_tz env) s" using reopened.IH file_inv_cut reopened.hyps(3) by (cases st) (auto simp: session_inv_def)
    note r = cut_reopened [OF c reopened.hyps(2)]
    show ?thesis
    proof (cases st)
      case FileWhole
      then have f: "file_inv (xo_tz env) s" using reopened.IH reopened.hyps(3) by (simp add: session_inv_def)
      then have "scanJSONL (unmarshal_record (xo_tz env)) (ss_file s) = Some (ss_recs s, length (ss_file s))"
        "metadataFromRecords (ss_recs s) = Some (ss_metadata s)" by (simp_all add: file_inv_def jsonl_scan)
      from open_result [OF reopened.hyps(2) this] have "ss_file s' = ss_file s" by auto
      then have "complete (ss_file s')" using f by (simp add: file_inv_def jsonl_def)
      with r(3) FileWhole reopened.hyps(3) show ?thesis by (simp add: file_reopened_def session_inv_def)
    qed (use False r(3) reopened.hyps(3) in \<open>auto simp: file_reopened_def session_inv_def\<close>)
  qed (simp add: file_reopened_def session_inv_def)
qed

lemma reach_inv: "session_reach tz FileWhole s \<Longrightarrow> file_inv tz s"
  using reach_session_inv [of tz FileWhole s] by (simp add: session_inv_def)

text \<open>
  C26 A session whose calls succeeded, with calls that broke off at any byte and were followed by a
  restart on the way: a restart finds the same records, identity and head, and so the same conversation,
  checkpoints, workspace and archive mark, and the cursor of the last record that names it. Right after a
  call that broke off, a restart opens the session and finds at least the records that are in memory, and
  the session is whole again when the file ends with a line feed. Not covered (\<open>FileLost\<close>): calls after
  one that broke off without a restart between, a cut between a record and its line feed, records too
  long for the scanner, and a head set to the empty identifier.
\<close>

theorem restart_finds_session:
  assumes "session_reach tz st s" and "open_works env" and "xo_tz env = tz" and "st \<noteq> FileLost"
  shows "\<exists>s'. Open_session env (Some (ss_file s)) = Inr s' \<and> ss_metadata s' = ss_metadata s \<and>
      prefix (ss_recs s) (ss_recs s') \<and> (complete (ss_file s') \<longrightarrow> session_reach tz FileWhole s') \<and>
      (st = FileWhole \<longrightarrow> ActiveView s' = ActiveView s \<and>
         Checkpoints n s' = Checkpoints n s \<and> Workspace s' = Workspace s \<and> Archived s' = Archived s \<and>
         ss_head s' = ss_head s \<and> ss_file s' = ss_file s \<and> ss_cursor s' = last_cursor (ss_recs s))"
proof -
  have c: "cut_file (xo_tz env) s"
    using reach_session_inv [OF assms(1)] assms(3,4) file_inv_cut by (cases st) (auto simp: session_inv_def)
  then obtain rs good where "scanJSONL (unmarshal_record (xo_tz env)) (ss_file s) = Some (rs, good)" "prefix (ss_recs s) rs"
      "metadataFromRecords (ss_recs s) = Some (ss_metadata s)" by (auto simp: cut_file_def)
  then have "scans_to (xo_tz env) (ss_file s) rs" "metadataFromRecords rs = Some (ss_metadata s)"
    using metadata_append by (auto simp: scans_to_def prefix_def)
  then obtain s' where s': "Open_session env (Some (ss_file s)) = Inr s'" using open_scanned [OF _ assms(2)] by blast
  note r = cut_reopened [OF c s']
  have "session_reach tz FileWhole s'" if "complete (ss_file s')"
    using session_reach.reopened [OF assms(1) s' assms(3)] that assms(4) by (cases st) (simp_all add: file_reopened_def)
  moreover have "s' = s\<lparr>ss_cursor := last_cursor (ss_recs s)\<rparr>" if "st = FileWhole"
    using reopen [of env s] reach_inv assms(1-3) that s' by simp
  ultimately show ?thesis
    using s' r(1,2) by (auto simp: ActiveView_def Checkpoints_def Workspace_def Archived_def)
qed

section \<open>Crashes\<close>

lemma append_crash:
  assumes "jsonl (unmarshal_record tz) (ss_file s) (ss_recs s @ rs)" and "record_fits tz r"
    and "appendRecord tz w r s = (ok, s')"
  shows "(ok \<and> jsonl (unmarshal_record tz) (ss_file s') (ss_recs s @ rs @ [r])) \<or>
    (\<not> ok \<and> (\<exists>n. scans_to tz (ss_file s') (ss_recs s @ rs @ take n [r])))"
proof -
  obtain d where d: "record_ok tz r" "marshal_record tz r = Some d" "length d < max_line"
    using assms(2) by (rule record_fitsE)
  note full = record_codec.jsonl_written [OF d assms(1)]
  show ?thesis
  proof (cases w)
    case WriteOK
    with assms(3) d(2) full show ?thesis by (auto simp: appendRecord_def)
  next
    case (WriteFail n)
    then have f: "\<not> ok" "ss_file s' = ss_file s @ take n (d @ [nl])" using assms(3) d(2) by (auto simp: appendRecord_def)
    have "\<exists>k. scans_to tz (ss_file s') (ss_recs s @ rs @ take k [r])"
    proof (cases "n \<le> length d")
      case True
      with record_codec.jsonl_cut [OF d assms(1), of n] f(2)
      have "scanJSONL (unmarshal_record tz) (ss_file s') =
          (if n < length d then Some (ss_recs s @ rs, length (ss_file s)) else Some ((ss_recs s @ rs) @ [r], length (ss_file s @ d)))"
        by simp
      then show ?thesis
        by (cases "n < length d") (auto simp: scans_to_def intro: exI [of _ 0] exI [of _ 1])
    next
      case False
      with jsonl_scan [OF full] f(2) show ?thesis by (auto simp: scans_to_def intro!: exI [of _ 1])
    qed
    with f(1) show ?thesis by blast
  qed
qed

definition view_of :: "Record list \<Rightarrow> Message list" where
  "view_of rs = buildActiveView rs (last_head rs)"

definition tree_head :: "Record list \<Rightarrow> bool" where
  "tree_head rs \<longleftrightarrow> tree rs \<and> (last_head rs = [] \<or> last_head rs \<in> set (node_ids rs))"

lemma tree_head_inv: "file_inv tz s \<Longrightarrow> tree_inv s \<longleftrightarrow> tree_head (ss_recs s)"
  by (simp add: file_inv_def tree_inv_def tree_head_def)

lemma view_of_store: "file_inv tz s \<Longrightarrow> ActiveView s = view_of (ss_recs s)"
  by (simp add: file_inv_def ActiveView_def view_of_def)

lemma view_of_path: "tree_head rs \<Longrightarrow> view_of rs = map recordToMessage (path rs (last_head rs))"
  by (simp add: tree_head_def view_of_def buildActiveView_def walk_tree path_empty_id)

lemma tree_node_id: "tree rs \<Longrightarrow> r \<in> set rs \<Longrightarrow> is_node r \<Longrightarrow> NodeID r \<noteq> []"
  using tree_ids [of rs] by (force simp: node_ids_def image_iff)

text \<open>Nodes that no head record points to do not show.\<close>

lemma orphans_hidden:
  assumes "tree (rs @ xs)" and "tree_head rs" and "foldl head_step (last_head rs) xs = last_head rs"
  shows "tree_head (rs @ xs) \<and> view_of (rs @ xs) = view_of rs"
proof -
  have h: "last_head (rs @ xs) = last_head rs" using assms(3) by (simp add: last_head_def)
  have "path (rs @ xs) (last_head rs) = path rs (last_head rs)"
    using path_append [OF assms(1)] assms(1,2) path_empty_id by (auto simp: tree_head_def)
  moreover have "tree_head (rs @ xs)" using assms(1,2) h by (auto simp: tree_head_def)
  ultimately show ?thesis using view_of_path assms(2) h by simp
qed

subsection \<open>A crash inside a commit\<close>

text \<open>The records that a commit writes.\<close>

fun commit_records :: "session_env \<Rightarrow> nat \<Rightarrow> string \<Rightarrow> string list \<Rightarrow> Message list \<Rightarrow> Record list" where
  "commit_records env k h ids [] = []"
| "commit_records env k h ids (m # ms) =
     (if m_MsgID m = [] \<or> m_MsgID m \<in> set ids then commit_records env k h ids ms
      else commit_record (xe_now env k) h m # RHead (m_MsgID m) (xe_now env k) #
           commit_records env (Suc k) (m_MsgID m) (ids @ [m_MsgID m]) ms)"

lemma commit_crash_records:
  assumes "commit_msgs env k c ms s = (err, c', s')" and "jsonl (unmarshal_record (xe_tz env)) (ss_file s) (ss_recs s)"
    and "list_all (record_fits (xe_tz env)) (commit_records env k (ss_head s) (node_ids (ss_recs s)) ms)"
  shows "\<exists>n. scans_to (xe_tz env) (ss_file s')
      (ss_recs s @ take n (commit_records env k (ss_head s) (node_ids (ss_recs s)) ms)) \<and>
    2 * length c' \<le> 2 * length c + n"
  using assms
proof (induction ms arbitrary: k c s)
  case Nil
  then show ?case using jsonl_scan by (fastforce simp: scans_to_def)
next
  case (Cons m ms)
  let ?tz = "xe_tz env"
  show ?case
  proof (cases "m_MsgID m = [] \<or> hasID s (m_MsgID m)")
    case True
    then have "commit_records env k (ss_head s) (node_ids (ss_recs s)) (m # ms) =
        commit_records env k (ss_head s) (node_ids (ss_recs s)) ms" by (auto simp: hasID_iff)
    with Cons True show ?thesis by (simp add: commit_skip del: commit_msgs.simps commit_records.simps)
  next
    case new: False
    let ?r = "commit_record (xe_now env k) (ss_head s) m" and ?h = "RHead (m_MsgID m) (xe_now env k)"
    let ?rest = "commit_records env (Suc k) (m_MsgID m) (node_ids (ss_recs s) @ [m_MsgID m]) ms"
    have cr: "commit_records env k (ss_head s) (node_ids (ss_recs s)) (m # ms) = ?r # ?h # ?rest"
      using new by (auto simp: hasID_iff)
    have fit: "record_fits ?tz ?r" "record_fits ?tz ?h" "list_all (record_fits ?tz) ?rest"
      using Cons.prems(3) unfolding cr by simp_all
    from new Cons.prems(1) show ?thesis
    proof (rule commit_store)
      fix ok1 ok2 and s1 s2 :: SessionStore
      let ?s = "s2\<lparr>ss_recs := ss_recs s @ [?r, ?h], ss_head := m_MsgID m\<rparr>"
      assume a1: "appendRecord ?tz (xe_write env (2 * k)) ?r s = (ok1, s1)"
        and a2: "appendRecord ?tz (xe_write env (2 * k + 1)) ?h s1 = (ok2, s2)"
        and f: "\<not> ok1 \<Longrightarrow> err = Some RecordFailed \<and> c' = c \<and> s' = s1"
          "ok1 \<Longrightarrow> \<not> ok2 \<Longrightarrow> err = Some RecordFailed \<and> c' = c \<and> s' = s2"
        and ok: "ok1 \<Longrightarrow> ok2 \<Longrightarrow> commit_msgs env (Suc k) (c @ [stamp_commit (xe_now env k) m]) ms ?s = (err, c', s')"
      have j0: "jsonl (unmarshal_record ?tz) (ss_file s) (ss_recs s @ [])" using Cons.prems(2) by simp
      note c1 = append_crash [OF j0 fit(1) a1]
      have e1: "ss_recs s1 = ss_recs s" using a1 by simp
      show ?thesis unfolding cr
      proof (cases ok1)
        case False
        with c1 f(1) obtain n where "scans_to ?tz (ss_file s') (ss_recs s @ take n [?r])" "c' = c" by auto
        moreover have "take n [?r] = take (min n 1) (?r # ?h # ?rest)" by (cases n) auto
        ultimately show "\<exists>n. scans_to ?tz (ss_file s') (ss_recs s @ take n (?r # ?h # ?rest)) \<and> 2 * length c' \<le> 2 * length c + n"
          by auto
      next
        case True
        with c1 have "jsonl (unmarshal_record ?tz) (ss_file s1) (ss_recs s1 @ [?r])" by (simp add: e1)
        note c2 = append_crash [OF this fit(2) a2]
        show "\<exists>n. scans_to ?tz (ss_file s') (ss_recs s @ take n (?r # ?h # ?rest)) \<and> 2 * length c' \<le> 2 * length c + n"
        proof (cases ok2)
          case False
          with c2 f(2) True e1 obtain n where "scans_to ?tz (ss_file s') (ss_recs s @ ?r # take n [?h])" "c' = c" by auto
          moreover have "?r # take n [?h] = take (Suc (min n 1)) (?r # ?h # ?rest)" by (cases n) auto
          ultimately show ?thesis by (metis le_add1)
        next
          case ok2: True
          with c2 e1 have j2: "jsonl (unmarshal_record ?tz) (ss_file ?s) (ss_recs ?s)" by simp
          have "list_all (record_fits ?tz) (commit_records env (Suc k) (ss_head ?s) (node_ids (ss_recs ?s)) ms)"
            using fit(3) by simp
          from Cons.IH [OF ok [OF True ok2] j2 this]
          obtain n where "scans_to ?tz (ss_file s') (ss_recs ?s @ take n ?rest)" "2 * length c' \<le> 2 * length c + 2 + n" by auto
          then show ?thesis by (intro exI [of _ "Suc (Suc n)"]) simp
        qed
      qed
    qed
  qed
qed

lemma commit_prefix_view:
  assumes "tree_head rs" and "h = last_head rs"
  shows "map content (view_of (rs @ take n (commit_records env k h (node_ids rs) ms))) =
    map content (view_of rs) @ map content (take (n div 2) (unseen (node_ids rs) ms))"
  using assms
proof (induction ms arbitrary: rs k h n)
  case (Cons m ms)
  show ?case
  proof (cases "m_MsgID m = [] \<or> m_MsgID m \<in> set (node_ids rs)")
    case False
    let ?r = "commit_record (xe_now env k) h m" and ?h = "RHead (m_MsgID m) (xe_now env k)"
    have t: "tree (rs @ [?r])" using False Cons.prems by (auto simp: tree_head_def tree_snoc)
    have t2: "tree ((rs @ [?r]) @ [?h])" using t by (subst tree_snoc) simp
    have lh: "last_head (rs @ [?r, ?h]) = m_MsgID m" using False by (simp add: last_head_def commit_record_def)
    have th: "tree_head (rs @ [?r, ?h])" using t2 lh by (simp add: tree_head_def)
    have "path (rs @ [?r, ?h]) (m_MsgID m) = path rs h @ [?r]"
      using path_snoc [of "rs @ [?r]" ?h] path_snoc [of rs ?r] by simp
    then have v: "map content (view_of (rs @ [?r, ?h])) = map content (view_of rs) @ [content m]"
      using view_of_path [OF th] view_of_path [OF Cons.prems(1)] lh Cons.prems(2) by simp
    consider "n = 0" | "n = 1" | k where "n = Suc (Suc k)" by (metis One_nat_def not0_implies_Suc)
    then show ?thesis
    proof cases
      case 2
      have "foldl head_step (last_head rs) [?r] = last_head rs" by (simp add: commit_record_def)
      with orphans_hidden [OF t Cons.prems(1)] 2 False show ?thesis by simp
    next
      case (3 j)
      have "node_ids (rs @ [?r, ?h]) = node_ids rs @ [m_MsgID m]" by simp
      with Cons.IH [OF th lh [symmetric], of j "Suc k"] v False 3 show ?thesis by simp
    qed simp
  qed (use Cons in simp)
qed simp

text \<open>
  C27 Whatever happens to the writes of a commit, a crash at any byte included: the next start opens
  the session, and finds the conversation before, followed by the first of the new messages, none torn,
  none out of order, and at least those that the commit had acknowledged.
\<close>

theorem commit_crash_safe:
  assumes "file_inv (xe_tz env) s" and "tree_inv s"
    and "list_all (record_fits (xe_tz env)) (commit_records env 0 (ss_head s) (node_ids (ss_recs s)) msgs)"
    and "Commit env msgs s = (err, committed, s')" and "open_works oenv" and "xo_tz oenv = xe_tz env"
  shows "\<exists>s'' n. Open_session oenv (Some (ss_file s')) = Inr s'' \<and> ss_metadata s'' = ss_metadata s \<and>
      length committed \<le> n \<and>
      map content (ActiveView s'') = map content (ActiveView s) @ map content (take n (unseen (node_ids (ss_recs s)) msgs))"
proof -
  let ?rs = "commit_records env 0 (ss_head s) (node_ids (ss_recs s)) msgs"
  have j: "jsonl (unmarshal_record (xe_tz env)) (ss_file s) (ss_recs s)"
    and m: "metadataFromRecords (ss_recs s) = Some (ss_metadata s)" and h: "ss_head s = last_head (ss_recs s)"
    using assms(1) by (simp_all add: file_inv_def)
  from commit_crash_records [OF assms(4) [unfolded Commit_def] j assms(3)]
  obtain n where n: "scans_to (xe_tz env) (ss_file s') (ss_recs s @ take n ?rs)" "length committed \<le> n div 2" by auto
  have "scans_to (xo_tz oenv) (ss_file s') (ss_recs s @ take n ?rs)" using n(1) assms(6) by simp
  from open_extended [OF this assms(5) m]
  obtain s'' where o: "Open_session oenv (Some (ss_file s')) = Inr s''" "ss_metadata s'' = ss_metadata s"
      "ActiveView s'' = view_of (ss_recs s @ take n ?rs)"
    unfolding ActiveView_def view_of_def by metis
  have "tree_head (ss_recs s)" using tree_head_inv [OF assms(1)] assms(2) by simp
  from commit_prefix_view [OF this h, of n env 0 msgs] view_of_store [OF assms(1)] o n(2) show ?thesis by auto
qed

subsection \<open>A crash inside a compaction\<close>

fun clones_of :: "session_env \<Rightarrow> Record list \<Rightarrow> nat \<Rightarrow> string list \<Rightarrow> string \<Rightarrow> Record list" where
  "clones_of env old k [] prev = []"
| "clones_of env old k (i # ids) prev =
     (case byID old i of
        Some (RMsg m) \<Rightarrow> clone_record (xe_now env 0) (xe_newID env k) prev m # clones_of env old (Suc k) ids (xe_newID env k)
      | _ \<Rightarrow> clones_of env old k ids prev)"

lemma copy_crash:
  assumes "copy_retained env old k ids prev cm s = (ok, prev', cm', s')"
    and "jsonl (unmarshal_record (xe_tz env)) (ss_file s) (ss_recs s)"
    and "list_all (record_fits (xe_tz env)) (clones_of env old k ids prev)"
  shows "if ok then jsonl (unmarshal_record (xe_tz env)) (ss_file s') (ss_recs s') \<and> ss_recs s' = ss_recs s @ clones_of env old k ids prev
     else \<exists>n. scans_to (xe_tz env) (ss_file s') (ss_recs s @ take n (clones_of env old k ids prev))"
  using assms
proof (induction ids arbitrary: k prev cm s)
  case (Cons i ids)
  show ?case
  proof (cases "\<exists>m. byID old i = Some (RMsg m)")
    case False
    then have e: "copy_retained env old k (i # ids) prev cm s = copy_retained env old k ids prev cm s"
      "clones_of env old k (i # ids) prev = clones_of env old k ids prev"
      by (auto split: option.split Record.split)
    from Cons.IH [OF Cons.prems(1) [unfolded e(1)] Cons.prems(2) Cons.prems(3) [unfolded e(2)]]
    show ?thesis unfolding e(2) .
  next
    case True
    then obtain m where m: "byID old i = Some (RMsg m)" by blast
    let ?r = "clone_record (xe_now env 0) (xe_newID env k) prev m"
    let ?rest = "clones_of env old (Suc k) ids (xe_newID env k)"
    obtain ok1 s1 where a: "appendRecord (xe_tz env) (xe_write env (Suc k)) ?r s = (ok1, s1)" by fastforce
    have cl: "clones_of env old k (i # ids) prev = ?r # ?rest" using m by simp
    have fit: "record_fits (xe_tz env) ?r" "list_all (record_fits (xe_tz env)) ?rest" using Cons.prems(3) cl by simp_all
    have j0: "jsonl (unmarshal_record (xe_tz env)) (ss_file s) (ss_recs s @ [])" using Cons.prems(2) by simp
    note c = append_crash [OF j0 fit(1) a]
    have e: "ss_recs s1 = ss_recs s" using a by simp
    show ?thesis
    proof (cases ok1)
      case False
      then have "\<not> ok" "s' = s1" using Cons.prems(1) m a by (auto simp: Let_def)
      moreover obtain n where "scans_to (xe_tz env) (ss_file s1) (ss_recs s @ take n [?r])" using c False by auto
      moreover have "take n [?r] = take (min n 1) (?r # ?rest)" by (cases n) auto
      ultimately show ?thesis unfolding cl by auto
    next
      case True
      let ?s = "s1\<lparr>ss_recs := ss_recs s1 @ [?r]\<rparr>"
      have "copy_retained env old (Suc k) ids (xe_newID env k) (map_put i (xe_newID env k) cm) ?s = (ok, prev', cm', s')"
        using Cons.prems(1) m a True by (simp add: Let_def)
      moreover have "jsonl (unmarshal_record (xe_tz env)) (ss_file ?s) (ss_recs ?s)" using c True e by simp
      ultimately have ih: "if ok then jsonl (unmarshal_record (xe_tz env)) (ss_file s') (ss_recs s') \<and> ss_recs s' = ss_recs ?s @ ?rest
          else \<exists>n. scans_to (xe_tz env) (ss_file s') (ss_recs ?s @ take n ?rest)" using Cons.IH fit(2) by blast
      show ?thesis
      proof (cases ok)
        case False
        with ih e obtain n where "scans_to (xe_tz env) (ss_file s') (ss_recs s @ ?r # take n ?rest)" by auto
        then have "scans_to (xe_tz env) (ss_file s') (ss_recs s @ take (Suc n) (?r # ?rest))" by simp
        then have "\<exists>n. scans_to (xe_tz env) (ss_file s') (ss_recs s @ take n (?r # ?rest))" by blast
        with False show ?thesis unfolding cl by simp
      next
        case True
        with ih e show ?thesis unfolding cl by auto
      qed
    qed
  qed
qed simp

lemma clones_tree:
  assumes "tree rs" and "prev \<in> set (node_ids rs)" and "fresh_ids env (node_ids rs) k (k + length ids)"
  shows "tree (rs @ clones_of env old k ids prev)"
  using assms
proof (induction ids arbitrary: rs k prev)
  case (Cons i ids)
  have upt: "[k..<k + length (i # ids)] = k # [Suc k..<Suc k + length ids]" by (simp add: upt_conv_Cons del: upt_Suc)
  have f: "fresh_ids env (node_ids rs) k (k + length ids)" using Cons.prems(3) by (auto simp: fresh_ids_def)
  show ?case
  proof (cases "\<exists>m. byID old i = Some (RMsg m)")
    case False
    then have "clones_of env old k (i # ids) prev = clones_of env old k ids prev"
      by (auto split: option.split Record.split)
    with Cons.IH [OF Cons.prems(1,2) f] show ?thesis by simp
  next
    case True
    then obtain m where m: "byID old i = Some (RMsg m)" by blast
    let ?r = "clone_record (xe_now env 0) (xe_newID env k) prev m"
    have t: "tree (rs @ [?r])" using Cons.prems by (auto simp: tree_snoc fresh_ids_def)
    have "fresh_ids env (node_ids (rs @ [?r])) (Suc k) (Suc k + length ids)"
      using Cons.prems(3) unfolding fresh_ids_def upt
      by (auto simp del: upt_Suc) (metis Suc_leD atLeastLessThan_iff image_eqI set_upt)
    from Cons.IH [OF t _ this] m show ?thesis by simp
  qed
qed simp

lemma clones_nodes: "list_all is_node (clones_of env old k ids prev)"
proof (induction ids arbitrary: k prev)
  case (Cons i ids)
  then show ?case by (auto split: option.split Record.split)
qed simp

lemma nodes_keep_head: "list_all is_node xs \<Longrightarrow> foldl head_step h xs = h"
proof (induction xs arbitrary: h)
  case (Cons x xs)
  then show ?case by (cases x) simp_all
qed simp

lemma clones_writes [simp]: "clones_of (env\<lparr>xe_write := w\<rparr>) old k ids prev = clones_of env old k ids prev"
  by (induction ids arbitrary: k prev) (auto split: option.split Record.split)

lemma copy_last:
  "copy_retained env old k ids prev cm s = (True, prev', cm', s') \<Longrightarrow>
   prev' = (if clones_of env old k ids prev = [] then prev else NodeID (last (clones_of env old k ids prev)))"
proof (induction ids arbitrary: k prev cm s)
  case (Cons i ids)
  show ?case
  proof (cases "\<exists>m. byID old i = Some (RMsg m)")
    case False
    then have "copy_retained env old k (i # ids) prev cm s = copy_retained env old k ids prev cm s"
      "clones_of env old k (i # ids) prev = clones_of env old k ids prev"
      by (auto split: option.split Record.split)
    with Cons show ?thesis by metis
  next
    case True
    then obtain m where m: "byID old i = Some (RMsg m)" by blast
    obtain ok1 s1 where a: "appendRecord (xe_tz env) (xe_write env (Suc k))
        (clone_record (xe_now env 0) (xe_newID env k) prev m) s = (ok1, s1)" by fastforce
    with m Cons.prems have "ok1" by (auto simp: Let_def split: if_splits)
    with m a Cons.prems have "copy_retained env old (Suc k) ids (xe_newID env k) (map_put i (xe_newID env k) cm)
        (s1\<lparr>ss_recs := ss_recs s1 @ [clone_record (xe_now env 0) (xe_newID env k) prev m]\<rparr>) = (True, prev', cm', s')"
      by (simp add: Let_def)
    from Cons.IH [OF this] m show ?thesis by simp
  qed
qed simp

text \<open>The records that a compaction writes.\<close>

definition compact_nodes :: "session_env \<Rightarrow> string \<Rightarrow> string \<Rightarrow> string \<Rightarrow> string \<Rightarrow> string list \<Rightarrow> Record list \<Rightarrow> Record list" where
  "compact_nodes env from to summary parent retain old =
    newCompactRecord (''s_'' @ to) parent summary from to (xe_now env 0) # clones_of env old 0 retain (''s_'' @ to)"

definition compact_records :: "session_env \<Rightarrow> string \<Rightarrow> string \<Rightarrow> string \<Rightarrow> string \<Rightarrow> string list \<Rightarrow> Record list \<Rightarrow> Record list" where
  "compact_records env from to summary parent retain old =
    (let ns = compact_nodes env from to summary parent retain old in ns @ [RHead (NodeID (last ns)) (xe_now env 0)])"

lemma compact_at_crash:
  assumes "compact_at env from to summary parent retain s = (err, s')"
    and "jsonl (unmarshal_record (xe_tz env)) (ss_file s) (ss_recs s)"
    and "list_all (record_fits (xe_tz env)) (compact_records env from to summary parent retain (ss_recs s))"
  shows "\<exists>n. scans_to (xe_tz env) (ss_file s') (ss_recs s @ take n (compact_records env from to summary parent retain (ss_recs s))) \<and>
    (err = None \<longrightarrow> length (compact_records env from to summary parent retain (ss_recs s)) \<le> n)"
proof -
  let ?tz = "xe_tz env" and ?rs = "compact_records env from to summary parent retain (ss_recs s)"
  let ?cr = "newCompactRecord (''s_'' @ to) parent summary from to (xe_now env 0)"
  let ?cl = "clones_of env (ss_recs s) 0 retain (''s_'' @ to)"
  let ?h = "RHead (NodeID (last (?cr # ?cl))) (xe_now env 0)"
  have rs: "?rs = ?cr # ?cl @ [?h]" by (simp add: compact_records_def compact_nodes_def Let_def)
  have fit: "record_fits ?tz ?cr" "list_all (record_fits ?tz) ?cl" "record_fits ?tz ?h" using assms(3) unfolding rs by simp_all
  obtain ok1 s1 where a1: "appendRecord ?tz (xe_write env 0) ?cr s = (ok1, s1)" by fastforce
  let ?s1 = "s1\<lparr>ss_recs := ss_recs s1 @ [?cr]\<rparr>"
  obtain ok2 prev cm s2 where cp: "copy_retained env (ss_recs s) 0 retain (''s_'' @ to) [] ?s1 = (ok2, prev, cm, s2)"
    by (metis prod_cases4)
  let ?s3 = "remapCursor retain cm prev s2"
  obtain ok4 s4 where a4: "appendRecord ?tz (xe_write env (Suc (length retain))) (RHead prev (xe_now env 0)) ?s3 = (ok4, s4)"
    by fastforce
  have j0: "jsonl (unmarshal_record ?tz) (ss_file s) (ss_recs s @ [])" using assms(2) by simp
  note c1 = append_crash [OF j0 fit(1) a1]
  have e1: "ss_recs s1 = ss_recs s" using a1 by simp
  show ?thesis
  proof (cases ok1)
    case False
    then have "s' = s1" "err \<noteq> None" using assms(1) a1 by (auto simp: compact_at_def Let_def)
    moreover obtain n where "scans_to ?tz (ss_file s1) (ss_recs s @ take n [?cr])" using c1 False by auto
    moreover have "take n [?cr] = take (min n 1) ?rs" unfolding rs by (cases n) auto
    ultimately show ?thesis by auto
  next
    case True
    then have "jsonl (unmarshal_record ?tz) (ss_file ?s1) (ss_recs ?s1)" using c1 e1 by simp
    note c2 = copy_crash [OF cp this fit(2)]
    show ?thesis
    proof (cases ok2)
      case False
      then have "s' = s2" "err \<noteq> None" using assms(1) a1 cp True by (auto simp: compact_at_def Let_def)
      moreover obtain n where "scans_to ?tz (ss_file s2) (ss_recs ?s1 @ take n ?cl)" using c2 False by auto
      moreover have "ss_recs ?s1 @ take n ?cl = ss_recs s @ take (Suc (min n (length ?cl))) ?rs" unfolding rs by (simp add: e1 min_def)
      ultimately show ?thesis by auto
    next
      case ok2: True
      have prev: "prev = NodeID (last (?cr # ?cl))" using copy_last [OF cp [unfolded eqTrueI [OF ok2]]] by (simp split: if_splits)
      have "jsonl (unmarshal_record ?tz) (ss_file ?s3) (ss_recs ?s3 @ [])" "ss_recs ?s3 = ss_recs s @ ?cr # ?cl"
        using c2 ok2 e1 by auto
      then have e3: "ss_recs ?s3 = ss_recs s @ ?cr # ?cl" and j3: "jsonl (unmarshal_record ?tz) (ss_file ?s3) (ss_recs ?s3 @ [])" by auto
      have f3: "record_fits ?tz (RHead prev (xe_now env 0))" using fit(3) prev by simp
      note c4 = append_crash [OF j3 f3 a4]
      show ?thesis
      proof (cases ok4)
        case False
        then have "s' = s4" "err \<noteq> None" using assms(1) a1 cp a4 True ok2 by (auto simp: compact_at_def Let_def)
        moreover obtain n where "scans_to ?tz (ss_file s4) ((ss_recs s @ ?cr # ?cl) @ take n [?h])" using c4 False e3 prev by auto
        moreover have "(ss_recs s @ ?cr # ?cl) @ take n [?h] = ss_recs s @ take (length (?cr # ?cl) + n) ?rs" unfolding rs by simp
        ultimately show ?thesis by (metis (no_types))
      next
        case ok4: True
        then have "ss_file s' = ss_file s4" using assms(1) a1 cp a4 True ok2 by (auto simp: compact_at_def Let_def)
        moreover have "jsonl (unmarshal_record ?tz) (ss_file s4) ((ss_recs s @ ?cr # ?cl) @ [?h])" using c4 ok4 e3 prev by simp
        ultimately have "scans_to ?tz (ss_file s') (ss_recs s @ take (length ?rs) ?rs)"
          using jsonl_scan by (fastforce simp: scans_to_def rs)
        then show ?thesis by blast
      qed
    qed
  qed
qed

text \<open>With all writes done, the records are those of the memory.\<close>

lemma compact_at_ok:
  assumes "list_all (record_fits (xe_tz env)) (compact_records env from to summary parent retain (ss_recs s))"
    and "writes_ok env" and "jsonl (unmarshal_record (xe_tz env)) (ss_file s) (ss_recs s)"
    and "compact_at env from to summary parent retain s = (err, s')"
  shows "err = None \<and> ss_recs s' = ss_recs s @ compact_records env from to summary parent retain (ss_recs s) \<and>
         ss_head s' = NodeID (last (compact_nodes env from to summary parent retain (ss_recs s)))"
proof -
  let ?tz = "xe_tz env"
  let ?cr = "newCompactRecord (''s_'' @ to) parent summary from to (xe_now env 0)"
  let ?cl = "clones_of env (ss_recs s) 0 retain (''s_'' @ to)"
  have fit: "record_fits ?tz ?cr" "list_all (record_fits ?tz) ?cl"
    using assms(1) by (simp_all add: compact_records_def compact_nodes_def Let_def)
  then obtain y where y: "tz_format ?tz (xe_now env 0) = Some y"
    by (auto simp: record_fits_def record_ok_def time_ok_def newCompactRecord_def split: option.splits)
  let ?s1 = "s\<lparr>ss_file := ss_file s @ line_of ?tz ?cr, ss_recs := ss_recs s @ [?cr]\<rparr>"
  obtain ok prev cm s2 where cp: "copy_retained env (ss_recs s) 0 retain (''s_'' @ to) [] ?s1 = (ok, prev, cm, s2)"
    by (metis prod_cases4)
  have ok: "ok" using copy_extends [OF assms(2) cp] y by simp
  have "jsonl (unmarshal_record ?tz) (ss_file ?s1) (ss_recs ?s1)"
    using jsonl_lines [OF assms(3), of "[?cr]"] fit(1) by simp
  from copy_crash [OF cp this fit(2)] ok have r: "ss_recs s2 = ss_recs s @ ?cr # ?cl" by simp
  have prev: "prev = NodeID (last (?cr # ?cl))" using copy_last [OF cp [unfolded eqTrueI [OF ok]]] by (simp split: if_splits)
  have "err = None \<and> ss_recs s' = ss_recs s2 @ [RHead prev (xe_now env 0)] \<and> ss_head s' = prev"
    using assms(2,4) cp ok y by (auto simp: compact_at_def append_ok writes_ok_def newCompactRecord_def Let_def)
  with r prev show ?thesis by (simp add: compact_records_def compact_nodes_def Let_def)
qed

lemma node_prefix_hidden:
  assumes "tree_head rs" and "tree (rs @ ns @ zs)" and "list_all is_node ns"
  shows "view_of (rs @ take n ns) = view_of rs"
proof -
  have "tree ((rs @ take n ns) @ drop n ns @ zs)"
    using assms(2) by (metis append.assoc append_take_drop_id)
  then have "tree (rs @ take n ns)" by (rule tree_prefix)
  moreover have "list_all is_node (take n ns)" using assms(3) by (auto simp: list_all_iff dest: in_set_takeD)
  ultimately show ?thesis using orphans_hidden [OF _ assms(1)] nodes_keep_head by blast
qed

text \<open>All the records of a compaction: the tree and the view are those of the call that succeeds.\<close>

lemma compact_full_view:
  assumes "file_inv (xe_tz env) s" and "tree_inv s" and "activePathIDs s = pre @ (from # mid) @ kept"
    and "to = last (from # mid)" and "''s_'' @ to \<notin> set (node_ids (ss_recs s))"
    and "fresh_ids env ((''s_'' @ to) # node_ids (ss_recs s)) 0 (length kept)"
    and "\<forall>i \<in> set kept. \<exists>f. byID (ss_recs s) i = Some (RMsg f)"
    and "rs = compact_records env from to summary (if pre = [] then [] else last pre) kept (ss_recs s)"
    and "list_all (record_fits (xe_tz env)) rs"
  shows "tree (ss_recs s @ rs) \<and> compacted (length pre) (length (from # mid)) summary (ActiveView s) (view_of (ss_recs s @ rs))"
proof -
  let ?parent = "if pre = [] then [] else last pre" and ?env = "env\<lparr>xe_write := \<lambda>_. WriteOK\<rparr>"
  let ?ns = "compact_nodes env from to summary ?parent kept (ss_recs s)"
  have env: "compact_records ?env from to summary ?parent kept (ss_recs s) = rs"
    "compact_nodes ?env from to summary ?parent kept (ss_recs s) = ?ns"
    by (simp_all add: assms(8) compact_records_def compact_nodes_def)
  obtain err1 s1 where c1: "Compact ?env from to summary s = (err1, s1)" by fastforce
  note c1' = c1 [unfolded compact_stretch(1) [OF assms(2-4)]]
  have ok: "err1 = None" "ss_recs s1 = ss_recs s @ rs" "ss_head s1 = NodeID (last ?ns)"
    using compact_at_ok [of ?env "from" to summary ?parent kept s err1 s1] c1' assms(1,9) env
    by (simp_all add: writes_ok_def file_inv_def)
  have fr: "fresh_ids ?env ((''s_'' @ to) # node_ids (ss_recs s)) 0 (length kept)" using assms(6) by (simp add: fresh_ids_def)
  have cv: "tree_inv s1 \<and> compacted (length pre) (length (from # mid)) summary (ActiveView s) (ActiveView s1)"
    using compact_view [OF assms(2-5) fr assms(7) c1] ok(1) by simp
  have rs: "rs = ?ns @ [RHead (NodeID (last ?ns)) (xe_now env 0)]" by (simp add: assms(8) compact_records_def Let_def)
  have "?ns \<noteq> []" "list_all is_node ?ns" using clones_nodes by (simp_all add: compact_nodes_def newCompactRecord_def)
  then have "is_node (last ?ns)" "last ?ns \<in> set ?ns" by (simp_all add: list_all_iff)
  then have "last ?ns \<in> set (ss_recs s1)" "is_node (last ?ns)" unfolding ok(2) by (simp_all add: rs)
  then have "NodeID (last ?ns) \<noteq> []" using cv tree_node_id unfolding tree_inv_def by blast
  then have "view_of (ss_recs s @ rs) = ActiveView s1"
    unfolding view_of_def ActiveView_def ok(2,3) by (simp add: last_head_def rs)
  with cv ok(2) show ?thesis by (simp add: tree_inv_def)
qed

text \<open>
  C28 A compaction is atomic for the next start: whatever happens to its writes, the session opens with
  the view before or with the compacted view, and with the latter once the call has succeeded. The new
  identifiers must be new, and the part behind the compacted stretch consists of messages.
\<close>

theorem compact_crash_safe:
  assumes "file_inv (xe_tz env) s" and "tree_inv s" and "activePathIDs s = pre @ (from # mid) @ kept"
    and "to = last (from # mid)" and "''s_'' @ to \<notin> set (node_ids (ss_recs s))"
    and "fresh_ids env ((''s_'' @ to) # node_ids (ss_recs s)) 0 (length kept)"
    and "\<forall>i \<in> set kept. \<exists>f. byID (ss_recs s) i = Some (RMsg f)"
    and "list_all (record_fits (xe_tz env))
      (compact_records env from to summary (if pre = [] then [] else last pre) kept (ss_recs s))"
    and "Compact env from to summary s = (err, s')" and "open_works oenv" and "xo_tz oenv = xe_tz env"
  shows "\<exists>s''. Open_session oenv (Some (ss_file s')) = Inr s'' \<and> ss_metadata s'' = ss_metadata s \<and>
      ((ActiveView s'' = ActiveView s \<and> err \<noteq> None) \<or>
       compacted (length pre) (length (from # mid)) summary (ActiveView s) (ActiveView s''))"
proof -
  let ?parent = "if pre = [] then [] else last pre" and ?tz = "xe_tz env"
  let ?ns = "compact_nodes env from to summary ?parent kept (ss_recs s)"
  let ?rs = "compact_records env from to summary ?parent kept (ss_recs s)"
  have j: "jsonl (unmarshal_record ?tz) (ss_file s) (ss_recs s)"
    and m: "metadataFromRecords (ss_recs s) = Some (ss_metadata s)" using assms(1) by (simp_all add: file_inv_def)
  from compact_at_crash [OF assms(9) [unfolded compact_stretch(1) [OF assms(2-4)]] j assms(8)]
  obtain n where n: "scans_to ?tz (ss_file s') (ss_recs s @ take n ?rs)" "err = None \<longrightarrow> length ?rs \<le> n" by blast
  have "scans_to (xo_tz oenv) (ss_file s') (ss_recs s @ take n ?rs)" using n(1) assms(11) by simp
  from open_extended [OF this assms(10) m]
  obtain s'' where o: "Open_session oenv (Some (ss_file s')) = Inr s''" "ss_metadata s'' = ss_metadata s"
      "ActiveView s'' = view_of (ss_recs s @ take n ?rs)"
    unfolding ActiveView_def view_of_def by metis
  note full = compact_full_view [OF assms(1-7) refl assms(8)]
  show ?thesis
  proof (cases "length ?rs \<le> n")
    case False
    have rs: "?rs = ?ns @ [RHead (NodeID (last ?ns)) (xe_now env 0)]" by (simp add: compact_records_def Let_def)
    have "tree_head (ss_recs s)" using tree_head_inv [OF assms(1)] assms(2) by simp
    moreover have "list_all is_node ?ns" using clones_nodes by (simp add: compact_nodes_def)
    moreover have "take n ?rs = take n ?ns" using False by (simp add: rs)
    ultimately have "view_of (ss_recs s @ take n ?rs) = ActiveView s"
      using node_prefix_hidden full view_of_store [OF assms(1)] unfolding rs by metis
    with False n(2) o show ?thesis by auto
  qed (use o full in auto)
qed

end
