(* ===== verification/Session_Examples.thy ===== *)
theory Session_Examples
  imports Session_Files
begin

text \<open>
  A session on concrete data: the witnesses of the theorems about the session store, and the cases in
  which the store does not keep what it shows.
\<close>

section \<open>A sample session\<close>

definition sample_open :: open_env where
  "sample_open =
    \<lparr>xo_mkdir = True, xo_chmod = True, xo_archive = True, xo_lock = True, xo_open = True, xo_fchmod = True,
     xo_stat = True, xo_truncate = True, xo_sync = True, xo_read = True, xo_write = WriteOK, xo_tz = decimal_times,
     xo_now = 1, xo_sessionID = ''session_1'', xo_legacyID = (\<lambda>i c. ''legacy_1'')\<rparr>"

definition sample_env :: "(nat \<Rightarrow> write_result) \<Rightarrow> session_env" where
  "sample_env w = \<lparr>xe_tz = decimal_times, xe_now = (\<lambda>k. int k + 2), xe_newID = (\<lambda>k. CHR ''c'' # replicate k CHR ''x''),
     xe_write = w\<rparr>"

definition msg :: "string \<Rightarrow> string \<Rightarrow> string \<Rightarrow> Message" where
  "msg role i c = (plain_message role c)\<lparr>m_MsgID := i\<rparr>"

definition sample_talk :: "Message list" where
  "sample_talk = [msg ''user'' ''m1'' ''hi'', msg ''assistant'' ''m2'' ''hello'', msg ''user'' ''m3'' ''go'',
     msg ''user'' [] ''skipped'', msg ''assistant'' ''m2'' ''again'']"

definition fresh_store :: SessionStore where
  "fresh_store = projr (Open_session sample_open None)"

definition sample_store :: SessionStore where
  "sample_store = snd (snd (Commit (sample_env (\<lambda>_. WriteOK)) sample_talk fresh_store))"

lemma sample_env_ok: "xe_tz (sample_env w) = decimal_times" "xe_newID (sample_env w) k \<noteq> []"
    "all_written (sample_env (\<lambda>_. WriteOK)) = sample_env (\<lambda>_. WriteOK)"
  by (simp_all add: sample_env_def all_written_def)

lemma sample_call:
  assumes "session_reach decimal_times FileWhole s" and "c \<noteq> CallSetHead []"
    and "list_all (record_fits decimal_times) (drop (length (ss_recs s)) (ss_recs (run_call (sample_env (\<lambda>_. WriteOK)) c s)))"
  shows "session_reach decimal_times FileWhole (run_call (sample_env (\<lambda>_. WriteOK)) c s)"
proof -
  have "file_after (sample_env (\<lambda>_. WriteOK)) c s FileWhole = FileWhole"
    using assms(2,3) by (simp add: file_after_def sample_env_ok Let_def)
  with session_reach.call [OF assms(1) sample_env_ok(1) sample_env_ok(2), of "\<lambda>_. WriteOK" c] show ?thesis by simp
qed

lemma talk_reach: "session_reach decimal_times FileWhole sample_store"
proof -
  have "session_reach decimal_times FileWhole fresh_store"
  proof (rule session_reach.new [of sample_open])
    show "Open_session sample_open None = Inr fresh_store" unfolding fresh_store_def by code_simp
    show "record_fits decimal_times (RMetadata (xo_sessionID sample_open) (xo_now sample_open))" by code_simp
  qed (simp_all add: sample_open_def)
  moreover have "sample_store = run_call (sample_env (\<lambda>_. WriteOK)) (CallCommit sample_talk) fresh_store"
    by (simp add: sample_store_def run_call_def)
  moreover have "list_all (record_fits decimal_times) (drop (length (ss_recs fresh_store)) (ss_recs sample_store))" by code_simp
  ultimately show ?thesis using sample_call [of fresh_store "CallCommit sample_talk"] by simp
qed

lemma sample_tree: "tree_inv sample_store" by code_simp

lemma sample_file: "file_inv decimal_times sample_store" using talk_reach by (rule reach_inv)

section \<open>Witnesses\<close>

theorem commit_and_rewind_witness:
  "tree_inv sample_store \<and>
   (let env = sample_env (\<lambda>k. if k < 3 then WriteOK else WriteFail 7);
        msgs = [msg ''user'' ''m1'' ''old'', msg ''user'' ''m4'' ''four'', msg ''user'' ''m5'' ''five''];
        r = Commit env msgs sample_store
    in fst r = Some RecordFailed \<and> map m_MsgID (fst (snd r)) = [''m4''] \<and> tree_inv (snd (snd r)) \<and>
       map content (ActiveView (snd (snd r))) = map content (ActiveView sample_store) @ map content (fst (snd r))) \<and>
   (let s' = snd (SetHead (sample_env (\<lambda>_. WriteOK)) ''m2'' sample_store)
    in ActiveView s' = take 2 (ActiveView sample_store))"
proof -
  let ?c = "Commit (sample_env (\<lambda>k. if k < 3 then WriteOK else WriteFail 7))
     [msg ''user'' ''m1'' ''old'', msg ''user'' ''m4'' ''four'', msg ''user'' ''m5'' ''five''] sample_store"
  let ?h = "SetHead (sample_env (\<lambda>_. WriteOK)) ''m2'' sample_store"
  note t = commit_and_rewind [OF sample_tree]
  have c: "fst ?c = Some RecordFailed" "map m_MsgID (fst (snd ?c)) = [''m4'']" by code_simp+
  have "?c = (fst ?c, fst (snd ?c), snd (snd ?c))" by (simp only: prod.collapse)
  with t have v: "tree_inv (snd (snd ?c)) \<and>
      map content (ActiveView (snd (snd ?c))) = map content (ActiveView sample_store) @ map content (fst (snd ?c))"
    by blast
  have "m_MsgID (ActiveView sample_store ! 1) = ''m2''" "1 < length (ActiveView sample_store)" "fst ?h = None" by code_simp+
  moreover from this(3) have "?h = (None, snd ?h)" by (simp only: prod_eq_iff fst_conv snd_conv)
  ultimately have "ActiveView (snd ?h) = take (Suc 1) (ActiveView sample_store)" using t by metis
  with c v show ?thesis using sample_tree by (simp add: Let_def numeral_2_eq_2)
qed

lemma sample_kept: "\<forall>i \<in> set [''m3'']. \<exists>f. byID (ss_recs sample_store) i = Some (RMsg f)"
proof -
  have "(case byID (ss_recs sample_store) ''m3'' of Some (RMsg f) \<Rightarrow> True | _ \<Rightarrow> False)" by code_simp
  then show ?thesis by (auto split: option.splits Record.splits)
qed

lemma sample_path: "activePathIDs sample_store = [''m1''] @ (''m2'' # []) @ [''m3'']"
  by code_simp

lemma sample_fresh:
  "''s_m2'' \<notin> set (node_ids (ss_recs sample_store))"
  "fresh_ids (sample_env w) (''s_m2'' # node_ids (ss_recs sample_store)) 0 (length [''m3''])"
proof -
  have "node_ids (ss_recs sample_store) = [''m1'', ''m2'', ''m3'']" by code_simp
  then show "''s_m2'' \<notin> set (node_ids (ss_recs sample_store))"
    "fresh_ids (sample_env w) (''s_m2'' # node_ids (ss_recs sample_store)) 0 (length [''m3''])"
    by (simp_all add: fresh_ids_def sample_env_def)
qed

theorem compact_replaces_witness:
  "let r = Compact (sample_env (\<lambda>_. WriteOK)) ''m2'' ''m2'' ''short'' sample_store
   in fst r = None \<and> tree_inv (snd r) \<and> compacted 1 1 ''short'' (ActiveView sample_store) (ActiveView (snd r))"
proof -
  let ?r = "Compact (sample_env (\<lambda>_. WriteOK)) ''m2'' ''m2'' ''short'' sample_store"
  have e: "fst ?r = None" by code_simp
  have "?r = (fst ?r, snd ?r)" by simp
  from compact_replaces [OF sample_tree sample_path _ _ _ sample_kept this] sample_fresh e
  show ?thesis by (simp add: Let_def)
qed

definition broken_store :: SessionStore where
  "broken_store = run_call (sample_env (\<lambda>k. if k = 0 then WriteOK else WriteFail 7))
     (CallCommit [msg ''user'' ''m4'' ''four'']) sample_store"

lemma broken_reach: "session_reach decimal_times FileCut broken_store"
proof -
  let ?env = "sample_env (\<lambda>k. if k = 0 then WriteOK else WriteFail 7)"
  have "file_after ?env (CallCommit [msg ''user'' ''m4'' ''four'']) sample_store FileWhole = FileCut" by code_simp
  with session_reach.call [OF talk_reach sample_env_ok(1) sample_env_ok(2)] show ?thesis
    unfolding broken_store_def by metis
qed

theorem restart_finds_session_witness:
  "(\<exists>s'. Open_session sample_open (Some (ss_file sample_store)) = Inr s' \<and> ActiveView s' = ActiveView sample_store) \<and>
   (\<exists>s'. Open_session sample_open (Some (ss_file broken_store)) = Inr s' \<and> prefix (ss_recs broken_store) (ss_recs s'))"
  using restart_finds_session [OF talk_reach, of sample_open 0] restart_finds_session [OF broken_reach, of sample_open 0]
  by (auto simp: sample_open_def open_works_def)

lemma sample_opens: "open_works sample_open" "xo_tz sample_open = decimal_times"
  by (simp_all add: sample_open_def open_works_def)

theorem commit_crash_safe_witness:
  "let env = sample_env (\<lambda>k. if k = 0 then WriteOK else WriteFail 7);
       r = Commit env [msg ''user'' ''m4'' ''four''] sample_store
   in fst r = Some RecordFailed \<and> (\<exists>s'' n. Open_session sample_open (Some (ss_file (snd (snd r)))) = Inr s'' \<and>
        map content (ActiveView s'') = map content (ActiveView sample_store) @ map content (take n [msg ''user'' ''m4'' ''four'']))"
proof -
  let ?env = "sample_env (\<lambda>k. if k = 0 then WriteOK else WriteFail 7)"
  let ?r = "Commit ?env [msg ''user'' ''m4'' ''four''] sample_store"
  have e: "fst ?r = Some RecordFailed" by code_simp
  have tz: "xe_tz ?env = decimal_times" by (simp add: sample_env_def)
  have f: "list_all (record_fits decimal_times)
      (commit_records ?env 0 (ss_head sample_store) (node_ids (ss_recs sample_store)) [msg ''user'' ''m4'' ''four''])"
    by code_simp
  have u: "unseen (node_ids (ss_recs sample_store)) [msg ''user'' ''m4'' ''four''] = [msg ''user'' ''m4'' ''four'']" by code_simp
  have "?r = (fst ?r, fst (snd ?r), snd (snd ?r))" by simp
  from commit_crash_safe [OF _ sample_tree _ this sample_opens(1)] sample_file f sample_opens(2) u e tz
  show ?thesis unfolding Let_def by metis
qed

theorem compact_crash_safe_witness:
  "let env = sample_env (\<lambda>k. if k = 0 then WriteOK else WriteFail 7);
       r = Compact env ''m2'' ''m2'' ''short'' sample_store
   in fst r = Some RecordFailed \<and> (\<exists>s''. Open_session sample_open (Some (ss_file (snd r))) = Inr s'' \<and>
        (ActiveView s'' = ActiveView sample_store \<or>
         compacted 1 1 ''short'' (ActiveView sample_store) (ActiveView s'')))"
proof -
  let ?env = "sample_env (\<lambda>k. if k = 0 then WriteOK else WriteFail 7)"
  let ?r = "Compact ?env ''m2'' ''m2'' ''short'' sample_store"
  have e: "fst ?r = Some RecordFailed" by code_simp
  have tz: "xe_tz ?env = decimal_times" by (simp add: sample_env_def)
  have f: "list_all (record_fits decimal_times)
      (compact_records ?env ''m2'' ''m2'' ''short'' (if [''m1''] = [] then [] else last [''m1'']) [''m3''] (ss_recs sample_store))"
    by code_simp
  have "?r = (fst ?r, snd ?r)" by simp
  from compact_crash_safe [OF _ sample_tree sample_path _ _ _ sample_kept _ this sample_opens(1)]
    sample_file f sample_opens(2) sample_fresh e tz
  show ?thesis by (fastforce simp: Let_def)
qed

section \<open>What is not kept\<close>

text \<open>
  A head record whose line feed alone is missing counts as read, and is not completed. The message of
  the next commit is glued to it and unreadable, its head record is readable: after the next start
  the head names a node that is not there, and the conversation is empty, with no call having failed
  after the first.
\<close>

definition torn_file :: string where
  "torn_file = butlast (ss_file (snd (snd (Commit (sample_env (\<lambda>_. WriteOK)) [msg ''user'' ''m1'' ''hi''] fresh_store))))"

definition reopened_store :: SessionStore where
  "reopened_store = projr (Open_session sample_open (Some torn_file))"

definition used_store :: SessionStore where
  "used_store = snd (snd (Commit (sample_env (\<lambda>_. WriteOK)) [msg ''user'' ''m2'' ''go''] reopened_store))"

lemma torn_newline_hides_conversation:
  "map m_MsgID (ActiveView reopened_store) = [''m1''] \<and>
   map m_MsgID (ActiveView used_store) = [''m1'', ''m2''] \<and>
   map_sum (\<lambda>e. e) ActiveView (Open_session sample_open (Some (ss_file used_store))) = Inr []"
  by code_simp

text \<open>
  A compaction moves the cursor to the copy in memory and writes no record of it: after a restart
  messages that were consolidated are pending again.
\<close>

definition cursor_store :: SessionStore where
  "cursor_store = snd (Compact (sample_env (\<lambda>_. WriteOK)) ''m2'' ''m2'' ''short''
     (snd (AdvanceCursor (sample_env (\<lambda>_. WriteOK)) ''m3'' sample_store)))"

lemma cursor_reach: "session_reach decimal_times FileWhole cursor_store"
proof -
  let ?env = "sample_env (\<lambda>_. WriteOK)"
  let ?s1 = "snd (AdvanceCursor ?env ''m3'' sample_store)"
  have c: "?s1 = run_call ?env (CallCursor ''m3'') sample_store"
    "cursor_store = run_call ?env (CallCompact ''m2'' ''m2'' ''short'') ?s1" by (simp_all add: run_call_def cursor_store_def)
  have "list_all (record_fits decimal_times) (drop (length (ss_recs sample_store)) (ss_recs ?s1))" by code_simp
  then have r: "session_reach decimal_times FileWhole ?s1" using sample_call [OF talk_reach, of "CallCursor ''m3''"] c(1) by simp
  have "list_all (record_fits decimal_times) (drop (length (ss_recs ?s1)) (ss_recs cursor_store))" by code_simp
  then show ?thesis using sample_call [OF r, of "CallCompact ''m2'' ''m2'' ''short''"] c(2) by simp
qed

lemma remapped_cursor_lost:
  "PendingAfterCursor cursor_store = [] \<and>
   map_sum (\<lambda>e. e) (map m_MsgID \<circ> PendingAfterCursor) (Open_session sample_open (Some (ss_file cursor_store)))
     = Inr [''m1'', ''c'']"
proof -
  have "Open_session sample_open (Some (ss_file cursor_store)) = Inr (cursor_store\<lparr>ss_cursor := last_cursor (ss_recs cursor_store)\<rparr>)"
    using reopen [of sample_open cursor_store] reach_inv [OF cursor_reach] sample_opens by simp
  moreover have "map m_MsgID (PendingAfterCursor (cursor_store\<lparr>ss_cursor := last_cursor (ss_recs cursor_store)\<rparr>)) = [''m1'', ''c'']"
    by code_simp
  moreover have "PendingAfterCursor cursor_store = []" by code_simp
  ultimately show ?thesis by simp
qed

end
