(* ===== verification/Run_Journal.thy ===== *)
theory Run_Journal
  imports Jsonl
begin

text \<open>
  The journals of the runs of a session (\<^verbatim>\<open>src/ai-runtime/session/journal.go\<close> and
  \<^verbatim>\<open>journal_store.go\<close>): one file per run in the directory \<^verbatim>\<open>runs\<close> of the session, in which state records
  and event records share the lines and each reader takes the kind it knows. The state of the
  \<open>RunJournalStore\<close> is the identity, the open handles and the directory, a list of files in the
  order of their names, as \<^verbatim>\<open>os.ReadDir\<close> gives them.

  Payloads (\<^verbatim>\<open>json.RawMessage\<close>) are the JSON values they denote, \<open>None\<close> the empty one, so that encoding a
  payload cannot fail. The open cache of the repository and the system calls come from the
  environment of a call.
\<close>

section \<open>Records\<close>

record RunStateRecord =
  sr_Kind :: string
  sr_SessionID :: string
  sr_RunID :: string
  sr_State :: string
  sr_Err :: string
  sr_Persisted :: bool
  sr_At :: time

record EventRecord =
  er_Kind :: string
  er_SessionID :: string
  er_RunID :: string
  er_Type :: string
  er_Seq :: nat
  er_FromSeq :: nat
  er_Time :: time
  er_Payload :: "json option"

definition stateKind :: string where "stateKind = ''state''"
definition eventKind :: string where "eventKind = ''event''"
definition StateInterrupted :: string where "StateInterrupted = ''interrupted''"

definition key_events :: "string list" where
  "key_events = [''tool_call'', ''tool_result'', ''permission.requested'', ''permission.resolved'',
    ''assistant.message_finalized'', ''run.started'', ''run.state_changed'', ''run.finished'', ''run.error'']"

definition IsKeyEvent :: "string \<Rightarrow> bool" where
  "IsKeyEvent typ \<longleftrightarrow> typ \<in> set key_events"

definition isTerminalRunState :: "string \<Rightarrow> bool" where
  "isTerminalRunState state \<longleftrightarrow> state \<in> set [''completed'', ''failed'', ''cancelled'', StateInterrupted]"

section \<open>Lines\<close>

text \<open>Booleans and unsigned 64 bit integers, as \<^verbatim>\<open>Unmarshal\<close> assigns them.\<close>

definition parse_uint :: "string \<Rightarrow> nat option" where
  "parse_uint s = (if s \<noteq> [] \<and> list_all is_digit s \<and> read_nat s < 2 ^ 64 then Some (read_nat s) else None)"

fun set_uint :: "nat option \<Rightarrow> json \<Rightarrow> nat option" where
  "set_uint (Some n) JNull = Some n"
| "set_uint (Some n) (JNum s) = parse_uint s"
| "set_uint _ _ = None"

definition uint_field :: "string \<Rightarrow> (string \<times> json) list \<Rightarrow> nat option" where
  "uint_field key m = foldl set_uint (Some 0) (members_of key m)"

fun set_bool :: "bool option \<Rightarrow> json \<Rightarrow> bool option" where
  "set_bool (Some b) JNull = Some b"
| "set_bool (Some b) (JBool c) = Some c"
| "set_bool _ _ = None"

definition bool_field :: "string \<Rightarrow> (string \<times> json) list \<Rightarrow> bool option" where
  "bool_field key m = foldl set_bool (Some False) (members_of key m)"

definition raw_field :: "string \<Rightarrow> (string \<times> json) list \<Rightarrow> json option" where
  "raw_field key m = foldl (\<lambda>_ v. Some v) None (members_of key m)"

definition uint_json :: "nat \<Rightarrow> json" where
  "uint_json n = JNum (show_nat n)"

definition state_members :: "time_codec \<Rightarrow> RunStateRecord \<Rightarrow> (string \<times> json) list option" where
  "state_members tz r =
    do { t \<leftarrow> tz_format tz (sr_At r);
         Some ([(''kind'', JStr (sr_Kind r)), (''session_id'', JStr (sr_SessionID r)), (''run_id'', JStr (sr_RunID r)),
                (''state'', JStr (sr_State r))] @ opt_str ''err'' (sr_Err r) @
               (if sr_Persisted r then [(''persisted'', JBool True)] else []) @ [(''at'', JStr t)]) }"

definition event_members :: "time_codec \<Rightarrow> EventRecord \<Rightarrow> (string \<times> json) list option" where
  "event_members tz r =
    do { t \<leftarrow> tz_format tz (er_Time r);
         Some ([(''kind'', JStr (er_Kind r)), (''session_id'', JStr (er_SessionID r)), (''run_id'', JStr (er_RunID r)),
                (''type'', JStr (er_Type r)), (''seq'', uint_json (er_Seq r))] @
               (if er_FromSeq r = 0 then [] else [(''from_seq'', uint_json (er_FromSeq r))]) @ [(''time'', JStr t)] @
               (case er_Payload r of None \<Rightarrow> [] | Some v \<Rightarrow> [(''payload'', v)])) }"

definition state_of_members :: "time_codec \<Rightarrow> (string \<times> json) list \<Rightarrow> RunStateRecord option" where
  "state_of_members tz m =
    do { kind \<leftarrow> string_field ''kind'' m; sid \<leftarrow> string_field ''session_id'' m; rid \<leftarrow> string_field ''run_id'' m;
         state \<leftarrow> string_field ''state'' m; err \<leftarrow> string_field ''err'' m; p \<leftarrow> bool_field ''persisted'' m;
         t \<leftarrow> time_field tz ''at'' m;
         Some \<lparr>sr_Kind = kind, sr_SessionID = sid, sr_RunID = rid, sr_State = state, sr_Err = err,
               sr_Persisted = p, sr_At = t\<rparr> }"

definition event_of_members :: "time_codec \<Rightarrow> (string \<times> json) list \<Rightarrow> EventRecord option" where
  "event_of_members tz m =
    do { kind \<leftarrow> string_field ''kind'' m; sid \<leftarrow> string_field ''session_id'' m; rid \<leftarrow> string_field ''run_id'' m;
         typ \<leftarrow> string_field ''type'' m; seq \<leftarrow> uint_field ''seq'' m; fr \<leftarrow> uint_field ''from_seq'' m;
         t \<leftarrow> time_field tz ''time'' m;
         Some \<lparr>er_Kind = kind, er_SessionID = sid, er_RunID = rid, er_Type = typ, er_Seq = seq, er_FromSeq = fr,
               er_Time = t, er_Payload = raw_field ''payload'' m\<rparr> }"

section \<open>The file of a run\<close>

text \<open>\<open>None\<close> in \<open>loadStateRecords\<close> and \<open>loadEventRecords\<close>: the file could not be scanned.\<close>

definition appendRecordLine :: "write_result \<Rightarrow> (string \<times> json) list option \<Rightarrow> string \<Rightarrow> bool \<times> string" where
  "appendRecordLine w members f =
    (case members of
       None \<Rightarrow> (False, f)
     | Some m \<Rightarrow> (case file_write f (json_text (JObj m) @ [nl]) w of (f, ok) \<Rightarrow> (ok, f)))"

definition appendRunStateRecord :: "time_codec \<Rightarrow> write_result \<Rightarrow> RunStateRecord \<Rightarrow> string \<Rightarrow> bool \<times> string" where
  "appendRunStateRecord tz w r f = appendRecordLine w (state_members tz r) f"

definition appendEventRecord :: "time_codec \<Rightarrow> write_result \<Rightarrow> EventRecord \<Rightarrow> string \<Rightarrow> bool \<times> string" where
  "appendEventRecord tz w r f = appendRecordLine w (event_members tz r) f"

definition loadStateRecords :: "time_codec \<Rightarrow> string \<Rightarrow> (RunStateRecord list \<times> nat) option" where
  "loadStateRecords tz f = scanJSONL (unmarshal_object (state_of_members tz)) f"

definition loadEventRecords :: "time_codec \<Rightarrow> string \<Rightarrow> EventRecord list option" where
  "loadEventRecords tz f =
    (case scanJSONL (unmarshal_object (event_of_members tz)) f of
       None \<Rightarrow> None
     | Some (recs, good) \<Rightarrow> Some (filter (\<lambda>r. er_Kind r = eventKind) recs))"

definition last_state :: "RunStateRecord list \<Rightarrow> RunStateRecord option" where
  "last_state recs = (case rev (filter (\<lambda>r. sr_Kind r = stateKind) recs) of [] \<Rightarrow> None | r # _ \<Rightarrow> Some r)"

section \<open>Identifiers\<close>

definition validSessionID :: "string \<Rightarrow> bool" where
  "validSessionID i \<longleftrightarrow> \<not> (i = [] \<or> i = ''.'' \<or> i = ''..'') \<and> CHR ''/'' \<notin> set i \<and> CHR 0x5C \<notin> set i \<and>
     i = Base i \<and> i = path_clean i"

text \<open>
  The dashes of a run identifier: \<^verbatim>\<open>Cut\<close> splits at the first one, so the second part must not contain another.
\<close>

definition validRunID :: "string \<Rightarrow> bool" where
  "validRunID i \<longleftrightarrow> validSessionID i \<and> HasPrefix i ''run-'' \<and>
     (let rest = drop 4 i; nano = takeWhile (\<lambda>c. c \<noteq> CHR ''-'') rest; seq = drop (Suc (length nano)) rest
      in CHR ''-'' \<in> set rest \<and> nano \<noteq> [] \<and> seq \<noteq> [] \<and> list_all is_digit nano \<and> list_all is_digit seq)"

section \<open>The store of the journals\<close>

record RunJournal =
  jn_open :: bool
  jn_file :: string

record RunJournalStore =
  rs_sessionID :: string
  rs_handles :: "(string \<times> RunJournal) list"
  rs_runs :: "(string \<times> string) list option"

datatype journal_error =
    EmptyRunID | Cancelled | SessionNotOpen | InvalidRunID | RunsDirFailed | RunExists | CreateFailed
  | AppendFailed | AppendClosed | CloseFailed | ScanDirFailed | LoadJournalFailed | RepairTailFailed | MarkerFailed

record journal_env =
  je_tz :: time_codec
  je_now :: time
  je_live :: bool
  je_cached :: "string \<Rightarrow> bool"
  je_mkdir :: bool
  je_create :: bool
  je_write :: write_result
  je_close :: bool
  je_readdir :: bool
  je_read :: "string \<Rightarrow> bool"
  je_stat :: "string \<Rightarrow> bool"
  je_truncate :: "string \<Rightarrow> bool"
  je_sync :: "string \<Rightarrow> bool"
  je_reopen :: "string \<Rightarrow> bool"
  je_mark :: "string \<Rightarrow> write_result"

definition NewRunJournalStore :: "string \<Rightarrow> (string \<times> string) list option \<Rightarrow> RunJournalStore" where
  "NewRunJournalStore sid runs = \<lparr>rs_sessionID = sid, rs_handles = [], rs_runs = runs\<rparr>"

text \<open>The directory: files in the order of their names; a new file goes to its place.\<close>

type_synonym dir = "(string \<times> string) list"

definition put_file :: "string \<Rightarrow> string \<Rightarrow> dir \<Rightarrow> dir" where
  "put_file name f d = map (\<lambda>(n, g). if n = name then (n, f) else (n, g)) d"

definition runs_of :: "RunJournalStore \<Rightarrow> dir" where
  "runs_of s = (case rs_runs s of None \<Rightarrow> [] | Some d \<Rightarrow> d)"

definition journal_name :: "string \<Rightarrow> string" where
  "journal_name runID = runID @ ''.jsonl''"

definition OpenRunJournal :: "journal_env \<Rightarrow> string \<Rightarrow> string \<Rightarrow> dir option \<Rightarrow> (journal_error + RunJournal) \<times> dir option" where
  "OpenRunJournal env sid runID runs =
    (if \<not> je_live env then (Inl Cancelled, runs)
     else if \<not> validSessionID sid then (Inl SessionNotOpen, runs)
     else if \<not> validRunID runID then (Inl InvalidRunID, runs)
     else if \<not> je_cached env sid then (Inl SessionNotOpen, runs)
     else if \<not> je_mkdir env then (Inl RunsDirFailed, runs)
     else
       let d = (case runs of None \<Rightarrow> [] | Some d \<Rightarrow> d); name = journal_name runID in
       if map_of d name \<noteq> None then (Inl RunExists, Some d)
       else if \<not> je_create env then (Inl CreateFailed, Some d)
       else (Inr \<lparr>jn_open = True, jn_file = name\<rparr>, Some (insort_kv (name, []) d)))"

text \<open>The handle of a run: the cached one or a new file.\<close>

definition journal_handle :: "journal_env \<Rightarrow> string \<Rightarrow> RunJournalStore \<Rightarrow> (journal_error + RunJournal) \<times> RunJournalStore" where
  "journal_handle env runID s =
    (case map_of (rs_handles s) runID of
       Some j \<Rightarrow> (Inr j, s)
     | None \<Rightarrow>
         (case OpenRunJournal (env\<lparr>je_live := True\<rparr>) (rs_sessionID s) runID (rs_runs s) of
            (Inl e, runs) \<Rightarrow> (Inl e, s\<lparr>rs_runs := runs\<rparr>)
          | (Inr j, runs) \<Rightarrow> (Inr j, s\<lparr>rs_runs := runs, rs_handles := map_put runID j (rs_handles s)\<rparr>)))"

definition journal_append :: "journal_env \<Rightarrow> (string \<times> json) list option \<Rightarrow> RunJournal \<Rightarrow> RunJournalStore
    \<Rightarrow> journal_error option \<times> RunJournalStore" where
  "journal_append env members j s =
    (if \<not> jn_open j then (Some AppendClosed, s)
     else (case appendRecordLine (je_write env) members (case map_of (runs_of s) (jn_file j) of Some f \<Rightarrow> f | None \<Rightarrow> []) of
             (ok, f) \<Rightarrow> (if ok then None else Some AppendFailed,
                         s\<lparr>rs_runs := Some (put_file (jn_file j) f (runs_of s))\<rparr>)))"

definition AppendState :: "journal_env \<Rightarrow> RunStateRecord \<Rightarrow> RunJournalStore \<Rightarrow> journal_error option \<times> RunJournalStore" where
  "AppendState env r s =
    (if sr_RunID r = [] then (Some EmptyRunID, s)
     else (case journal_handle env (sr_RunID r) s of
             (Inl e, s) \<Rightarrow> (Some e, s)
           | (Inr j, s) \<Rightarrow>
               (case journal_append env (state_members (je_tz env) r) j s of (err, s) \<Rightarrow>
                  if isTerminalRunState (sr_State r) then
                    (if err = None \<and> \<not> je_close env then Some CloseFailed else err,
                     s\<lparr>rs_handles := filter (\<lambda>(k, h). k \<noteq> sr_RunID r) (rs_handles s)\<rparr>)
                  else (err, s))))"

definition journal_AppendEvent :: "journal_env \<Rightarrow> EventRecord \<Rightarrow> RunJournalStore \<Rightarrow> journal_error option \<times> RunJournalStore" where
  "journal_AppendEvent env r s =
    (if er_RunID r = [] then (Some EmptyRunID, s)
     else (case journal_handle env (er_RunID r) s of
             (Inl e, s) \<Rightarrow> (Some e, s)
           | (Inr j, s) \<Rightarrow> journal_append env (event_members (je_tz env) (r\<lparr>er_Kind := eventKind\<rparr>)) j s))"

text \<open>Reading: the files with the suffix in the order of their names.\<close>

definition is_journal :: "string \<Rightarrow> bool" where
  "is_journal name \<longleftrightarrow> HasPrefix (rev name) (rev ''.jsonl'')"

fun walk_files :: "journal_env \<Rightarrow> dir \<Rightarrow> journal_error + EventRecord list" where
  "walk_files env [] = Inr []"
| "walk_files env ((name, f) # d) =
     (if \<not> is_journal name then walk_files env d
      else if \<not> je_read env name then Inl LoadJournalFailed
      else (case loadEventRecords (je_tz env) f of
              None \<Rightarrow> Inl LoadJournalFailed
            | Some recs \<Rightarrow> map_sum (\<lambda>e. e) ((@) recs) (walk_files env d)))"

definition walkEventRecords :: "journal_env \<Rightarrow> RunJournalStore \<Rightarrow> journal_error + EventRecord list" where
  "walkEventRecords env s =
    (case rs_runs s of
       None \<Rightarrow> Inr []
     | Some d \<Rightarrow> if \<not> je_readdir env then Inl ScanDirFailed else walk_files env d)"

definition ReadEvents :: "journal_env \<Rightarrow> nat \<Rightarrow> RunJournalStore \<Rightarrow> journal_error + EventRecord list" where
  "ReadEvents env afterSeq s =
    map_sum (\<lambda>e. e) (filter (\<lambda>r. er_SessionID r = rs_sessionID s \<and> afterSeq < er_Seq r)) (walkEventRecords env s)"

definition seq_range :: "nat list \<Rightarrow> (nat \<times> nat) option" where
  "seq_range seqs = (case seqs of [] \<Rightarrow> None | n # ns \<Rightarrow> Some (foldl min n ns, foldl max n ns))"

definition SeqRange :: "journal_env \<Rightarrow> RunJournalStore \<Rightarrow> journal_error + (nat \<times> nat) option" where
  "SeqRange env s =
    map_sum (\<lambda>e. e) (\<lambda>recs. seq_range (map er_Seq (filter (\<lambda>r. er_SessionID r = rs_sessionID s) recs)))
      (walkEventRecords env s)"

definition LastRunState :: "journal_env \<Rightarrow> string \<Rightarrow> RunJournalStore \<Rightarrow> RunStateRecord option" where
  "LastRunState env runID s =
    (if \<not> validRunID runID then None
     else (case map_of (runs_of s) (journal_name runID) of
             None \<Rightarrow> None
           | Some f \<Rightarrow>
               if \<not> je_read env (journal_name runID) then None
               else (case loadStateRecords (je_tz env) f of None \<Rightarrow> None | Some (recs, good) \<Rightarrow> last_state recs)))"

section \<open>Recovery\<close>

definition interrupted_record :: "journal_env \<Rightarrow> string \<Rightarrow> string \<Rightarrow> RunStateRecord" where
  "interrupted_record env sid runID =
    \<lparr>sr_Kind = stateKind, sr_SessionID = sid, sr_RunID = runID, sr_State = StateInterrupted, sr_Err = [],
     sr_Persisted = False, sr_At = je_now env\<rparr>"

text \<open>One file of \<open>MarkInterruptedRuns\<close>: the error or whether it was marked, and the file.\<close>

definition mark_run :: "journal_env \<Rightarrow> string \<Rightarrow> string \<Rightarrow> string \<Rightarrow> string \<Rightarrow> (journal_error + bool) \<times> string" where
  "mark_run env sid name runID f =
    (if \<not> je_read env name then (Inl LoadJournalFailed, f)
     else (case loadStateRecords (je_tz env) f of
             None \<Rightarrow> (Inl LoadJournalFailed, f)
           | Some (recs, good) \<Rightarrow>
               let torn = je_stat env name \<and> good < length f in
               if torn \<and> \<not> je_truncate env name then (Inl RepairTailFailed, f)
               else if torn \<and> \<not> je_sync env name then (Inl RepairTailFailed, take good f)
               else
                 let f = (if torn then take good f else f) in
                 (case last_state recs of
                    None \<Rightarrow> (Inr False, f)
                  | Some r \<Rightarrow>
                      if isTerminalRunState (sr_State r) then (Inr False, f)
                      else if \<not> je_reopen env name then (Inl MarkerFailed, f)
                      else (case appendRunStateRecord (je_tz env) (je_mark env name) (interrupted_record env sid runID) f of
                              (ok, f) \<Rightarrow> (if ok \<and> je_close env then Inr True else Inl MarkerFailed, f)))))"

fun mark_runs :: "journal_env \<Rightarrow> string \<Rightarrow> string list \<Rightarrow> dir \<Rightarrow> (journal_error + string list) \<times> dir" where
  "mark_runs env sid marked [] = (Inr marked, [])"
| "mark_runs env sid marked ((name, f) # d) =
     (let runID = TrimSuffix name ''.jsonl'' in
      if \<not> is_journal name \<or> runID = [] then map_prod (\<lambda>r. r) ((#) (name, f)) (mark_runs env sid marked d)
      else (case mark_run env sid name runID f of
              (Inl e, f) \<Rightarrow> (Inl e, (name, f) # d)
            | (Inr m, f) \<Rightarrow> map_prod (\<lambda>r. r) ((#) (name, f))
                (mark_runs env sid (if m then marked @ [runID] else marked) d)))"

definition MarkInterruptedRuns :: "journal_env \<Rightarrow> string \<Rightarrow> dir option \<Rightarrow> (journal_error + string list) \<times> dir option" where
  "MarkInterruptedRuns env sid runs =
    (if \<not> je_live env then (Inl Cancelled, runs)
     else if \<not> validSessionID sid \<or> \<not> je_cached env sid then (Inl SessionNotOpen, runs)
     else (case runs of
             None \<Rightarrow> (Inr [], None)
           | Some d \<Rightarrow>
               if \<not> je_readdir env then (Inl ScanDirFailed, runs)
               else map_prod (\<lambda>r. r) Some (mark_runs env sid [] d)))"

section \<open>Records and their lines\<close>

lemma show_nat_digits: "list_all is_digit (show_nat n) \<and> show_nat n \<noteq> [] \<and> (0 < n \<longrightarrow> hd (show_nat n) \<noteq> CHR ''0'')"
proof (induction n rule: show_nat.induct)
  case (1 n)
  have d: "is_digit (char_of (48 + k))" if "k < 10" for k :: nat
    using that by (simp add: is_digit_def)
  have z: "char_of (48 + k) \<noteq> CHR ''0''" if "0 < k" "k < 10" for k :: nat
  proof
    assume "char_of (48 + k) = CHR ''0''"
    from arg_cong [OF this, of "of_char :: char \<Rightarrow> nat"] that show False by (simp add: of_char_of)
  qed
  show ?case
  proof (cases "n < 10")
    case True
    then show ?thesis using d z by (simp add: show_nat.simps [of n])
  next
    case False
    with 1 have "list_all is_digit (show_nat (n div 10))" "show_nat (n div 10) \<noteq> []" "hd (show_nat (n div 10)) \<noteq> CHR ''0''"
      by auto
    with False d show ?thesis by (simp add: show_nat.simps [of n])
  qed
qed

lemma valid_number_nat: "valid_number (show_nat n)"
proof -
  obtain c r where s: "show_nat n = c # r" using show_nat_digits by (cases "show_nat n") auto
  then have d: "is_digit c" "list_all is_digit r" using show_nat_digits [of n] by simp_all
  then have m: "c \<noteq> CHR ''-''" by (auto simp: is_digit_def)
  have w: "dropWhile is_digit r = []" using d(2) by (simp add: list_all_iff)
  have "int_part (c # r) = Some []"
  proof (cases "n = 0")
    case True
    have "char_of (48 :: nat) = CHR ''0''" by code_simp
    with True show ?thesis using s by (simp add: show_nat.simps [of 0] int_part_def)
  next
    case False
    then have "c \<noteq> CHR ''0''" using show_nat_digits [of n] s by simp
    then show ?thesis using d(1) w by (simp add: int_part_def digits1_def)
  qed
  then show ?thesis using m by (simp add: s valid_number_def frac_part_def exp_part_def)
qed

lemma uint_json_simps [simp]: "wf_json (uint_json n)" "n < 2 ^ 64 \<Longrightarrow> set_uint (Some k) (uint_json n) = Some n"
  using show_nat_digits [of n] by (simp_all add: uint_json_def valid_number_nat parse_uint_def)

definition journal_keys :: "string list" where
  "journal_keys = [''kind'', ''session_id'', ''run_id'', ''state'', ''err'', ''persisted'', ''at'', ''type'', ''seq'',
    ''from_seq'', ''time'', ''payload'', ''events'']"

lemma journal_keys_in [simp]:
  "''kind'' \<in> set journal_keys" "''session_id'' \<in> set journal_keys" "''run_id'' \<in> set journal_keys"
  "''state'' \<in> set journal_keys" "''err'' \<in> set journal_keys" "''persisted'' \<in> set journal_keys"
  "''at'' \<in> set journal_keys" "''type'' \<in> set journal_keys" "''seq'' \<in> set journal_keys"
  "''from_seq'' \<in> set journal_keys" "''time'' \<in> set journal_keys" "''payload'' \<in> set journal_keys"
  "''events'' \<in> set journal_keys"
  by (simp_all add: journal_keys_def)

lemma journal_keys_apart:
  "list_all (\<lambda>k. valid_utf8 k \<and> list_all (\<lambda>k2. EqualFold k k2 \<longrightarrow> k = k2) journal_keys) journal_keys"
  by code_simp

lemma journal_key_utf8: "k \<in> set journal_keys \<Longrightarrow> valid_utf8 k"
  using journal_keys_apart by (simp add: list_all_iff)

lemma journal_key_fold: "k \<in> set journal_keys \<Longrightarrow> k2 \<in> set journal_keys \<Longrightarrow> EqualFold k k2 \<longleftrightarrow> k = k2"
  using journal_keys_apart by (auto simp: list_all_iff)

lemma journal_members:
  "k \<in> set journal_keys \<Longrightarrow> k2 \<in> set journal_keys \<Longrightarrow>
     members_of k2 ((k, v) # m) = (if k = k2 then v # members_of k2 m else members_of k2 m)"
  "k \<in> set journal_keys \<Longrightarrow> k2 \<in> set journal_keys \<Longrightarrow>
     members_of k2 (opt_str k s) = (if k = k2 \<and> s \<noteq> [] then [JStr s] else [])"
  by (simp_all add: opt_str_def journal_key_fold)

definition state_ok :: "time_codec \<Rightarrow> RunStateRecord \<Rightarrow> bool" where
  "state_ok tz r \<longleftrightarrow> list_all valid_utf8 [sr_Kind r, sr_SessionID r, sr_RunID r, sr_State r, sr_Err r] \<and> time_ok tz (sr_At r)"

definition event_ok :: "time_codec \<Rightarrow> EventRecord \<Rightarrow> bool" where
  "event_ok tz r \<longleftrightarrow> list_all valid_utf8 [er_Kind r, er_SessionID r, er_RunID r, er_Type r] \<and> time_ok tz (er_Time r) \<and>
     er_Seq r < 2 ^ 64 \<and> er_FromSeq r < 2 ^ 64 \<and> (case er_Payload r of None \<Rightarrow> True | Some v \<Rightarrow> wf_json v)"

text \<open>Each record is read back by its reader, and the other reader sees its kind.\<close>

lemma state_line:
  assumes "state_ok tz r"
  obtains m e where "state_members tz r = Some m" "wf_json (JObj m)" "state_of_members tz m = Some r"
    "event_of_members tz m = Some e" "er_Kind e = sr_Kind r"
proof -
  obtain t where t: "tz_format tz (sr_At r) = Some t" "valid_utf8 t" "tz_parse tz t = Some (sr_At r)"
    using assms by (auto simp: state_ok_def time_ok_def split: option.splits)
  note [simp] = string_field_def time_field_def uint_field_def bool_field_def raw_field_def journal_members
  note [simp del] = members_of_Cons
  obtain m where m: "state_members tz r = Some m" by (simp add: state_members_def t)
  have "wf_json (JObj m)" using m assms t(2)
    by (auto simp: state_members_def t state_ok_def journal_key_utf8 opt_str_def)
  moreover have "state_of_members tz m = Some r" using m t(3)
    by (auto simp: state_members_def t state_of_members_def)
  moreover have "\<exists>e. event_of_members tz m = Some e \<and> er_Kind e = sr_Kind r" using m
    by (auto simp: state_members_def t event_of_members_def)
  ultimately show ?thesis using that m by blast
qed

lemma event_line:
  assumes "event_ok tz r"
  obtains m s where "event_members tz r = Some m" "wf_json (JObj m)" "event_of_members tz m = Some r"
    "state_of_members tz m = Some s" "sr_Kind s = er_Kind r"
proof -
  obtain t where t: "tz_format tz (er_Time r) = Some t" "valid_utf8 t" "tz_parse tz t = Some (er_Time r)"
    using assms by (auto simp: event_ok_def time_ok_def split: option.splits)
  note [simp] = string_field_def time_field_def uint_field_def bool_field_def raw_field_def journal_members
  note [simp del] = members_of_Cons
  obtain m where m: "event_members tz r = Some m" by (simp add: event_members_def t)
  have "wf_json (JObj m)" using m assms t(2)
    by (auto simp: event_members_def t event_ok_def journal_key_utf8 split: option.splits)
  moreover have "event_of_members tz m = Some r" using m t(3) assms
    by (cases "er_Payload r") (auto simp: event_members_def t event_of_members_def event_ok_def)
  moreover have "\<exists>s. state_of_members tz m = Some s \<and> sr_Kind s = er_Kind r" using m
    by (cases "er_Payload r") (auto simp: event_members_def t state_of_members_def)
  ultimately show ?thesis using that m by blast
qed

section \<open>The lines of a file and its two readers\<close>

interpretation line_objects: object_codec "\<lambda>m. Some (json_text (JObj m))" Some "\<lambda>m. m" "\<lambda>m. wf_json (JObj m)"
  by unfold_locales (simp del: json_text.simps)

lemma jsonl_step_line:
  "jsonl_step dec (p, g, rs) l =
    (if TrimSpace (drop_cr l) = [] then (p + length (drop_cr l) + 1, g, rs)
     else (case dec (TrimSpace (drop_cr l)) of
             None \<Rightarrow> (p + length (drop_cr l) + 1, g, rs)
           | Some r \<Rightarrow> (p + length (drop_cr l) + 1, p + length (drop_cr l) + 1, rs @ [r])))"
  by (simp add: jsonl_step_def Let_def split: option.split)

lemma jsonl_step_grows: "set ms \<subseteq> set (snd (snd (foldl (jsonl_step dec) (p, g, ms) ls)))"
proof (induction ls arbitrary: p g ms)
  case (Cons l ls)
  obtain p2 g2 ms2 where s: "jsonl_step dec (p, g, ms) l = (p2, g2, ms2)" by (cases "jsonl_step dec (p, g, ms) l")
  then have "set ms \<subseteq> set ms2" by (auto simp: jsonl_step_line split: if_splits option.splits)
  with Cons [of ms2 p2 g2] s show ?case by auto
qed simp

lemma reader_step:
  assumes "foldl (jsonl_step (unmarshal_object Some)) (p, g, ms) ls = (p', g', ms')"
    and "\<forall>m \<in> set ms'. D m \<noteq> None"
  shows "foldl (jsonl_step (unmarshal_object D)) (p, g, map (the \<circ> D) ms) ls = (p', g', map (the \<circ> D) ms')"
  using assms(1)
proof (induction ls arbitrary: p g ms)
  case (Cons l ls)
  let ?line = "TrimSpace (drop_cr l)" and ?stop = "p + length (drop_cr l) + 1"
  show ?case
  proof (cases "?line = []")
    case True
    with Cons.prems show ?thesis using Cons.IH [of ?stop g ms] by (simp add: jsonl_step_line)
  next
    case ne: False
    show ?thesis
    proof (cases "unmarshal_object Some ?line")
      case None
      then have "unmarshal_object D ?line = None" by (auto simp: unmarshal_object_def split: option.splits json.splits)
      with None ne Cons.prems show ?thesis using Cons.IH [of ?stop g ms] by (simp add: jsonl_step_line)
    next
      case (Some m)
      then have D: "unmarshal_object D ?line = D m" by (auto simp: unmarshal_object_def split: option.splits json.splits)
      have f: "foldl (jsonl_step (unmarshal_object Some)) (?stop, ?stop, ms @ [m]) ls = (p', g', ms')"
        using Cons.prems Some ne by (simp add: jsonl_step_line)
      then have "m \<in> set ms'" using jsonl_step_grows [of "ms @ [m]" "unmarshal_object Some" ?stop ?stop ls] by simp
      then obtain x where "D m = Some x" using assms(2) by fastforce
      with D ne show ?thesis using Cons.IH [OF f] by (simp add: jsonl_step_line)
    qed
  qed
qed simp

lemma reader_scan:
  assumes "scanJSONL (unmarshal_object Some) f = Some (ms, good)" and "\<forall>m \<in> set ms. D m \<noteq> None"
  shows "scanJSONL (unmarshal_object D) f = Some (map (the \<circ> D) ms, good)"
proof -
  obtain p g where s: "foldl (jsonl_step (unmarshal_object Some)) (0, 0, []) (raw_lines f) = (p, g, ms)"
      "good = min g (length f)" "list_all (\<lambda>l. length l < max_line) (raw_lines f)"
    using assms(1) by (auto simp: scanJSONL_def split: if_splits prod.splits)
  from reader_step [OF s(1) assms(2)] s(2,3) show ?thesis by (simp add: scanJSONL_def)
qed

text \<open>A file of complete lines that both readers can read.\<close>

definition readable :: "time_codec \<Rightarrow> (string \<times> json) list \<Rightarrow> bool" where
  "readable tz m \<longleftrightarrow> state_of_members tz m \<noteq> None \<and> event_of_members tz m \<noteq> None"

definition journal_file :: "time_codec \<Rightarrow> string \<Rightarrow> (string \<times> json) list list \<Rightarrow> bool" where
  "journal_file tz f ms \<longleftrightarrow> jsonl (unmarshal_object Some) f ms \<and> (\<forall>m \<in> set ms. readable tz m)"

definition line_states :: "time_codec \<Rightarrow> (string \<times> json) list list \<Rightarrow> RunStateRecord list" where
  "line_states tz ms = map (the \<circ> state_of_members tz) ms"

definition line_events :: "time_codec \<Rightarrow> (string \<times> json) list list \<Rightarrow> EventRecord list" where
  "line_events tz ms = filter (\<lambda>r. er_Kind r = eventKind) (map (the \<circ> event_of_members tz) ms)"

lemma journal_file_Nil [simp]: "journal_file tz [] []"
  by (simp add: journal_file_def)

lemma load_scanned:
  assumes "scanJSONL (unmarshal_object Some) f = Some (ms, good)" and "\<forall>m \<in> set ms. readable tz m"
  shows "loadStateRecords tz f = Some (line_states tz ms, good)" "loadEventRecords tz f = Some (line_events tz ms)"
  using reader_scan [OF assms(1), of "state_of_members tz"] reader_scan [OF assms(1), of "event_of_members tz"] assms(2)
  by (auto simp: loadStateRecords_def loadEventRecords_def line_states_def line_events_def readable_def)

lemma load_journal:
  assumes "journal_file tz f ms"
  shows "loadStateRecords tz f = Some (line_states tz ms, length f)" "loadEventRecords tz f = Some (line_events tz ms)"
  using load_scanned [of f ms "length f" tz] assms jsonl_scan by (auto simp: journal_file_def)

lemma journal_written:
  assumes "journal_file tz f ms" and "wf_json (JObj m)" and "length (json_text (JObj m)) < max_line" and "readable tz m"
  shows "journal_file tz (f @ json_text (JObj m) @ [nl]) (ms @ [m])"
  using line_objects.jsonl_written [OF assms(2) refl assms(3)] assms(1,4)
  by (auto simp: journal_file_def simp del: json_text.simps)

lemma journal_torn:
  assumes "journal_file tz f ms" and "wf_json (JObj m)" and "length (json_text (JObj m)) < max_line"
    and "n < length (json_text (JObj m))"
  shows "scanJSONL (unmarshal_object Some) (f @ take n (json_text (JObj m))) = Some (ms, length f)"
  using line_objects.jsonl_cut [OF assms(2) refl assms(3), of f ms n] assms(1,4)
  by (simp add: journal_file_def del: json_text.simps)

end
