(* ===== verification/Event_Hub.thy ===== *)
theory Event_Hub
  imports Run_Journal
begin

text \<open>
  The event hub of a session (\<^verbatim>\<open>src/ai-runtime/agent/event_hub.go\<close>): it numbers the events of the
  session's runs, writes the key events before it broadcasts them and the deltas in merged batches
  behind their broadcast, and gives a subscriber the written history followed by the live events.

  The hub works on any journal; the operations of the journal are part of the environment of a call,
  together with the clock and the order in which the runtime walks over a map. A call holds the lock of
  the hub throughout, so it is one step. The subscribers that the hub has dropped stay in the table
  with \<open>sub_in\<close> false: their goroutine still holds them. A batch of JSON values always encodes.
\<close>

section \<open>State\<close>

record SessionEvent =
  ev_SessionID :: string
  ev_RunID :: string
  ev_Seq :: nat
  ev_Type :: string
  ev_Time :: time
  ev_Payload :: "json option"

datatype ReplayIntegrity = ReplayIntegrityComplete | ReplayIntegrityUnknown | ReplayIntegrityIncomplete

datatype hub_error = HubClosed | CursorExpired | SeedFailed | KeyEventFailed | ReadFailed | JournalCloseFailed

record hubSub =
  sub_in :: bool
  sub_live :: "SessionEvent list"
  sub_watermark :: nat
  sub_dead :: bool

record DeltaPart =
  dp_Seq :: nat
  dp_Payload :: "json option"

record pendingDelta =
  pd_runID :: string
  pd_fromSeq :: nat
  pd_toSeq :: nat
  pd_lastTime :: time
  pd_parts :: "DeltaPart list"
  pd_bytes :: nat

record IngressEvent =
  in_RunID :: string
  in_Type :: string
  in_Payload :: "json option"

record 'j EventHub =
  hub_sessionID :: string
  hub_seq :: nat
  hub_earliest :: nat
  hub_latest :: nat
  hub_integrity :: ReplayIntegrity
  hub_subs :: "(nat \<times> hubSub) list"
  hub_nextSubID :: nat
  hub_journal :: "'j option"
  hub_curRunID :: string
  hub_deltaBuf :: "(string \<times> pendingDelta) list"
  hub_timer :: bool
  hub_closed :: bool

text \<open>
  The journal of the environment: whether the append with this number succeeded, what was read, the
  range; and what the state records, which the rest of the runtime writes to the same files, do to it.
\<close>

record 'j hub_env =
  he_append :: "nat \<Rightarrow> EventRecord \<Rightarrow> 'j \<Rightarrow> bool \<times> 'j"
  he_read :: "nat \<Rightarrow> 'j \<Rightarrow> EventRecord list option"
  he_range :: "'j \<Rightarrow> (nat \<times> nat) option option"
  he_close :: "'j \<Rightarrow> bool"
  he_now :: time
  he_order :: "string list \<Rightarrow> string list"
  he_states :: "'j \<Rightarrow> 'j"

definition deltaFlushBytes :: nat where "deltaFlushBytes = 4 * 1024"
definition subscriberBuffer :: nat where "subscriberBuffer = 256"

definition next_seq :: "nat \<Rightarrow> nat" where
  "next_seq n = Suc n mod 2 ^ 64"

definition NewEventHub :: "'j hub_env \<Rightarrow> string \<Rightarrow> 'j option \<Rightarrow> hub_error + 'j EventHub" where
  "NewEventHub env sid j =
    (let h = \<lparr>hub_sessionID = sid, hub_seq = 1, hub_earliest = 0, hub_latest = 0,
              hub_integrity = ReplayIntegrityComplete, hub_subs = [], hub_nextSubID = 0, hub_journal = j,
              hub_curRunID = [], hub_deltaBuf = [], hub_timer = False, hub_closed = False\<rparr> in
     case j of
       None \<Rightarrow> Inr h
     | Some jn \<Rightarrow>
         (case he_range env jn of
            None \<Rightarrow> Inl SeedFailed
          | Some None \<Rightarrow> Inr h
          | Some (Some (earliest, latest)) \<Rightarrow>
              Inr (h\<lparr>hub_earliest := earliest, hub_latest := latest, hub_integrity := ReplayIntegrityUnknown,
                     hub_seq := next_seq latest\<rparr>)))"

section \<open>Batches\<close>

definition part_json :: "DeltaPart \<Rightarrow> json" where
  "part_json p = JObj [(''seq'', uint_json (dp_Seq p)),
     (''payload'', case dp_Payload p of None \<Rightarrow> JNull | Some v \<Rightarrow> v)]"

definition batch_json :: "DeltaPart list \<Rightarrow> json" where
  "batch_json parts = JObj [(''events'', JArr (map part_json parts))]"

fun elem_part :: "json \<Rightarrow> DeltaPart option" where
  "elem_part JNull = Some \<lparr>dp_Seq = 0, dp_Payload = None\<rparr>"
| "elem_part (JObj m) = do { n \<leftarrow> uint_field ''seq'' m; Some \<lparr>dp_Seq = n, dp_Payload = raw_field ''payload'' m\<rparr> }"
| "elem_part _ = None"

fun set_parts :: "DeltaPart list option \<Rightarrow> json \<Rightarrow> DeltaPart list option" where
  "set_parts (Some ps) JNull = Some []"
| "set_parts (Some ps) (JArr ys) = those (map elem_part ys)"
| "set_parts _ _ = None"

fun decode_batch :: "json option \<Rightarrow> DeltaPart list option" where
  "decode_batch (Some JNull) = Some []"
| "decode_batch (Some (JObj m)) = foldl set_parts (Some []) (members_of ''events'' m)"
| "decode_batch _ = None"

fun decode_legacy :: "json option \<Rightarrow> bool" where
  "decode_legacy (Some JNull) = True"
| "decode_legacy (Some (JStr s)) = True"
| "decode_legacy _ = False"

definition validDeltaBatch :: "DeltaPart list \<Rightarrow> nat \<Rightarrow> nat \<Rightarrow> bool" where
  "validDeltaBatch parts fromSeq seq \<longleftrightarrow> parts \<noteq> [] \<and> dp_Seq (hd parts) = fromSeq \<and>
     (\<forall>i < length parts - 1. dp_Seq (parts ! i) < dp_Seq (parts ! Suc i)) \<and> dp_Seq (last parts) = seq"

section \<open>Writing\<close>

definition batch_record :: "'j EventHub \<Rightarrow> string \<Rightarrow> pendingDelta \<Rightarrow> EventRecord" where
  "batch_record h typ b =
    \<lparr>er_Kind = [], er_SessionID = hub_sessionID h, er_RunID = pd_runID b, er_Type = typ, er_Seq = pd_toSeq b,
     er_FromSeq = pd_fromSeq b, er_Time = pd_lastTime b, er_Payload = Some (batch_json (pd_parts b))\<rparr>"

definition append_event :: "'j hub_env \<Rightarrow> nat \<Rightarrow> EventRecord \<Rightarrow> 'j EventHub \<Rightarrow> bool \<times> 'j EventHub" where
  "append_event env k r h =
    (case hub_journal h of
       None \<Rightarrow> (True, h)
     | Some j \<Rightarrow>
         (case he_append env k r j of (ok, j) \<Rightarrow>
            (ok, h\<lparr>hub_journal := Some j,
                    hub_integrity := (if ok then hub_integrity h else ReplayIntegrityIncomplete)\<rparr>)))"

definition flushDeltaTypeLocked :: "'j hub_env \<Rightarrow> nat \<Rightarrow> string \<Rightarrow> 'j EventHub \<Rightarrow> 'j EventHub" where
  "flushDeltaTypeLocked env k typ h =
    (case map_of (hub_deltaBuf h) typ of
       None \<Rightarrow> h
     | Some b \<Rightarrow>
         snd (append_event env k (batch_record h typ b) (h\<lparr>hub_deltaBuf := map_del typ (hub_deltaBuf h)\<rparr>)))"

fun flush_types :: "'j hub_env \<Rightarrow> nat \<Rightarrow> string list \<Rightarrow> 'j EventHub \<Rightarrow> 'j EventHub" where
  "flush_types env k [] h = h"
| "flush_types env k (typ # typs) h = flush_types env (Suc k) typs (flushDeltaTypeLocked env k typ h)"

definition flushAllDeltaLocked :: "'j hub_env \<Rightarrow> 'j EventHub \<Rightarrow> 'j EventHub" where
  "flushAllDeltaLocked env h =
    (flush_types env 0 (he_order env (map fst (hub_deltaBuf h))) h)\<lparr>hub_timer := False\<rparr>"

definition payload_bytes :: "json option \<Rightarrow> nat" where
  "payload_bytes p = (case p of None \<Rightarrow> 0 | Some v \<Rightarrow> length (json_text v))"

text \<open>The bucket of a type with one more event.\<close>

definition pushed_delta :: "SessionEvent \<Rightarrow> 'j EventHub \<Rightarrow> pendingDelta" where
  "pushed_delta out h =
    (let b = (case map_of (hub_deltaBuf h) (ev_Type out) of
                Some b \<Rightarrow> b
              | None \<Rightarrow> \<lparr>pd_runID = ev_RunID out, pd_fromSeq = ev_Seq out, pd_toSeq = 0, pd_lastTime = 0,
                         pd_parts = [], pd_bytes = 0\<rparr>)
     in b\<lparr>pd_toSeq := ev_Seq out, pd_lastTime := ev_Time out,
          pd_parts := pd_parts b @ [\<lparr>dp_Seq = ev_Seq out, dp_Payload = ev_Payload out\<rparr>],
          pd_bytes := pd_bytes b + payload_bytes (ev_Payload out)\<rparr>)"

definition bufferDeltaLocked :: "'j hub_env \<Rightarrow> SessionEvent \<Rightarrow> 'j EventHub \<Rightarrow> 'j EventHub" where
  "bufferDeltaLocked env out h =
    (let b = pushed_delta out h;
         h = h\<lparr>hub_deltaBuf := map_put (ev_Type out) b (hub_deltaBuf h),
               hub_timer := (hub_timer h \<or> map_of (hub_deltaBuf h) (ev_Type out) = None)\<rparr> in
     if deltaFlushBytes \<le> pd_bytes b then
       let h = flushDeltaTypeLocked env 0 (ev_Type out) h in
       if hub_deltaBuf h = [] then h\<lparr>hub_timer := False\<rparr> else h
     else h)"

definition offer :: "SessionEvent \<Rightarrow> hubSub \<Rightarrow> hubSub" where
  "offer ev sub =
    (if \<not> sub_in sub \<or> ev_Seq ev \<le> sub_watermark sub then sub
     else if length (sub_live sub) < subscriberBuffer then sub\<lparr>sub_live := sub_live sub @ [ev]\<rparr>
     else sub\<lparr>sub_in := False, sub_dead := True\<rparr>)"

definition fanOutLocked :: "SessionEvent \<Rightarrow> 'j EventHub \<Rightarrow> 'j EventHub" where
  "fanOutLocked ev h = h\<lparr>hub_subs := map (\<lambda>(i, sub). (i, offer ev sub)) (hub_subs h)\<rparr>"

section \<open>Operations\<close>

definition BeginRun :: "'j hub_env \<Rightarrow> string \<Rightarrow> 'j EventHub \<Rightarrow> 'j EventHub" where
  "BeginRun env runID h = (if hub_closed h then h else (flushAllDeltaLocked env h)\<lparr>hub_curRunID := runID\<rparr>)"

definition EndRun :: "'j hub_env \<Rightarrow> 'j EventHub \<Rightarrow> 'j EventHub" where
  "EndRun env h = (if hub_closed h then h else (flushAllDeltaLocked env h)\<lparr>hub_curRunID := []\<rparr>)"

definition flushDeltaOnTimer :: "'j hub_env \<Rightarrow> 'j EventHub \<Rightarrow> 'j EventHub" where
  "flushDeltaOnTimer env h = (if hub_closed h then h else flushAllDeltaLocked env h)"

definition ingress_event :: "'j hub_env \<Rightarrow> IngressEvent \<Rightarrow> 'j EventHub \<Rightarrow> SessionEvent" where
  "ingress_event env ev h =
    \<lparr>ev_SessionID = hub_sessionID h,
     ev_RunID = (if in_RunID ev = [] then hub_curRunID h else in_RunID ev), ev_Seq = hub_seq h,
     ev_Type = in_Type ev, ev_Time = he_now env, ev_Payload = in_Payload ev\<rparr>"

definition event_record :: "SessionEvent \<Rightarrow> EventRecord" where
  "event_record e =
    \<lparr>er_Kind = [], er_SessionID = ev_SessionID e, er_RunID = ev_RunID e, er_Type = ev_Type e, er_Seq = ev_Seq e,
     er_FromSeq = 0, er_Time = ev_Time e, er_Payload = ev_Payload e\<rparr>"

definition Publish :: "'j hub_env \<Rightarrow> IngressEvent \<Rightarrow> 'j EventHub \<Rightarrow> hub_error option \<times> 'j EventHub" where
  "Publish env ev h =
    (if hub_closed h then (Some HubClosed, h)
     else
       let out = ingress_event env ev h; h = h\<lparr>hub_seq := next_seq (hub_seq h)\<rparr> in
       if IsKeyEvent (ev_Type out) then
         (case append_event env 0 (event_record out) h of (ok, h) \<Rightarrow>
            if \<not> ok then (Some KeyEventFailed, h)
            else (None, fanOutLocked out (h\<lparr>hub_latest := ev_Seq out\<rparr>)))
       else
         let h = fanOutLocked out (h\<lparr>hub_latest := ev_Seq out\<rparr>) in
         (None, if hub_journal h = None then h else bufferDeltaLocked env out h))"

text \<open>A record on its way to a subscriber: the events behind the cursor, and whether the record is damaged.\<close>

definition record_event :: "EventRecord \<Rightarrow> nat \<Rightarrow> json option \<Rightarrow> SessionEvent" where
  "record_event r n p =
    \<lparr>ev_SessionID = er_SessionID r, ev_RunID = er_RunID r, ev_Seq = n, ev_Type = er_Type r, ev_Time = er_Time r,
     ev_Payload = p\<rparr>"

definition replay_record :: "nat \<Rightarrow> EventRecord \<Rightarrow> SessionEvent list \<times> bool" where
  "replay_record fromSeq r =
    (if er_FromSeq r = 0 then ([record_event r (er_Seq r) (er_Payload r)], False)
     else (case decode_batch (er_Payload r) of
             None \<Rightarrow>
               if decode_legacy (er_Payload r) then ([record_event r (er_Seq r) (er_Payload r)], True) else ([], True)
           | Some parts \<Rightarrow>
               if \<not> validDeltaBatch parts (er_FromSeq r) (er_Seq r) then ([], True)
               else (map (\<lambda>p. record_event r (dp_Seq p) (dp_Payload p)) (filter (\<lambda>p. fromSeq < dp_Seq p) parts), False)))"

definition Subscribe_hub :: "'j hub_env \<Rightarrow> nat \<Rightarrow> 'j EventHub
    \<Rightarrow> (hub_error + nat \<times> SessionEvent list) \<times> 'j EventHub" where
  "Subscribe_hub env fromSeq h =
    (if hub_closed h then (Inl HubClosed, h)
     else if hub_latest h < fromSeq \<or> (fromSeq \<noteq> 0 \<and> next_seq fromSeq < hub_earliest h) then (Inl CursorExpired, h)
     else
       let h = (if hub_journal h = None then h else flushAllDeltaLocked env h) in
       case (case hub_journal h of None \<Rightarrow> Some [] | Some j \<Rightarrow> he_read env fromSeq j) of
         None \<Rightarrow> (Inl ReadFailed, h)
       | Some recs \<Rightarrow>
           let rs = map (replay_record fromSeq) recs;
               replay = sort_key ev_Seq (concat (map fst rs));
               sub = \<lparr>sub_in = True, sub_live = [], sub_watermark = hub_latest h, sub_dead = False\<rparr> in
           (Inr (hub_nextSubID h, replay),
            h\<lparr>hub_integrity := (if list_ex snd rs then ReplayIntegrityIncomplete else hub_integrity h),
              hub_subs := hub_subs h @ [(hub_nextSubID h, sub)], hub_nextSubID := Suc (hub_nextSubID h)\<rparr>))"

definition removeSub :: "nat \<Rightarrow> 'j EventHub \<Rightarrow> 'j EventHub" where
  "removeSub i h = h\<lparr>hub_subs := map (\<lambda>(k, sub). (k, if k = i then sub\<lparr>sub_in := False\<rparr> else sub)) (hub_subs h)\<rparr>"

definition disconnect :: "hubSub \<Rightarrow> hubSub" where
  "disconnect sub = (if sub_in sub then sub\<lparr>sub_in := False, sub_dead := True\<rparr> else sub)"

definition Close_hub :: "'j hub_env \<Rightarrow> 'j EventHub \<Rightarrow> hub_error option \<times> 'j EventHub" where
  "Close_hub env h =
    (if hub_closed h then (None, h)
     else
       let h = flushAllDeltaLocked env (h\<lparr>hub_closed := True\<rparr>);
           h = h\<lparr>hub_subs := map (\<lambda>(i, sub). (i, disconnect sub)) (hub_subs h)\<rparr> in
       (case hub_journal h of
          Some j \<Rightarrow> if he_close env j then (None, h) else (Some JournalCloseFailed, h)
        | None \<Rightarrow> (None, h)))"

end
