(* ===== verification/Event_Stream.thy ===== *)
theory Event_Stream
  imports Event_Hub "HOL-Library.Multiset" "HOL-Library.Sublist"
begin

text \<open>
  The streams of the subscribers: the hub together with the goroutine of each subscriber
  (\<^verbatim>\<open>pumpEvents\<close>) and the reader at the end of its channel, as a system of steps that interleave freely.
  The locale \<open>event_journal\<close> states what the hub needs of a journal; inside it the invariant of the
  system is proved once. The result is that every reader sees the events behind its cursor in order,
  without a gap and without a repetition.
\<close>

section \<open>The system\<close>

text \<open>
  A pump: what is left of the snapshot, the event in its hand, its channel, and the part that the
  reader has taken. The last three fields are for the statements: the whole snapshot, the number of
  events that had been broadcast at the registration, and whether the hub reported no damage then.
\<close>

record pump =
  pp_from :: nat
  pp_replay :: "SessionEvent list"
  pp_hold :: "SessionEvent option"
  pp_ch :: "SessionEvent list"
  pp_last :: nat
  pp_cancelled :: bool
  pp_exit :: bool
  pp_recv :: "SessionEvent list"
  pp_given :: "SessionEvent list"
  pp_start :: nat
  pp_whole :: bool

record 'j system =
  sy_hub :: "'j EventHub"
  sy_pumps :: "(nat \<times> pump) list"
  sy_log :: "SessionEvent list"

definition new_pump :: "nat \<Rightarrow> SessionEvent list \<Rightarrow> nat \<Rightarrow> bool \<Rightarrow> pump" where
  "new_pump c replay n whole =
    \<lparr>pp_from = c, pp_replay = replay, pp_hold = None, pp_ch = [], pp_last = 0, pp_cancelled = False, pp_exit = False,
     pp_recv = [], pp_given = replay, pp_start = n, pp_whole = whole\<rparr>"

text \<open>One event goes into the channel when it has room.\<close>

definition pump_send :: "SessionEvent \<Rightarrow> pump \<Rightarrow> pump" where
  "pump_send ev p = p\<lparr>pp_ch := pp_ch p @ [ev], pp_last := ev_Seq ev\<rparr>"

definition sub_update :: "nat \<Rightarrow> hubSub \<Rightarrow> 'j EventHub \<Rightarrow> 'j EventHub" where
  "sub_update i sub h = h\<lparr>hub_subs := map_put i sub (hub_subs h)\<rparr>"

inductive pump_step :: "nat \<Rightarrow> 'j EventHub \<Rightarrow> pump \<Rightarrow> 'j EventHub \<Rightarrow> pump \<Rightarrow> bool" for i where
  replay: "\<not> pp_exit p \<Longrightarrow> pp_replay p = ev # rest \<Longrightarrow> length (pp_ch p) < subscriberBuffer \<Longrightarrow>
    pump_step i h p h ((pump_send ev p)\<lparr>pp_replay := rest\<rparr>)"
| take_live: "\<not> pp_exit p \<Longrightarrow> pp_replay p = [] \<Longrightarrow> pp_hold p = None \<Longrightarrow> map_of (hub_subs h) i = Some sub \<Longrightarrow>
    sub_live sub = ev # rest \<Longrightarrow>
    pump_step i h p (sub_update i (sub\<lparr>sub_live := rest\<rparr>) h)
      (if ev_Seq ev \<le> pp_last p then p else p\<lparr>pp_hold := Some ev\<rparr>)"
| send_live: "\<not> pp_exit p \<Longrightarrow> pp_replay p = [] \<Longrightarrow> pp_hold p = Some ev \<Longrightarrow> length (pp_ch p) < subscriberBuffer \<Longrightarrow>
    pump_step i h p h ((pump_send ev p)\<lparr>pp_hold := None\<rparr>)"
| leave: "\<not> pp_exit p \<Longrightarrow> map_of (hub_subs h) i = Some sub \<Longrightarrow>
    pp_cancelled p \<or> sub_dead sub \<or> (hub_closed h \<and> pp_replay p \<noteq> []) \<Longrightarrow>
    pump_step i h p (removeSub i h) (p\<lparr>pp_exit := True\<rparr>)"
| receive: "pp_ch p = ev # rest \<Longrightarrow> pump_step i h p h (p\<lparr>pp_ch := rest, pp_recv := pp_recv p @ [ev]\<rparr>)"
| cancel: "pump_step i h p h (p\<lparr>pp_cancelled := True\<rparr>)"

text \<open>The record that a publication hands to the journal, now or with its bucket.\<close>

definition publish_record :: "'j hub_env \<Rightarrow> IngressEvent \<Rightarrow> 'j EventHub \<Rightarrow> EventRecord" where
  "publish_record env ev h =
    (let out = ingress_event env ev h in
     if IsKeyEvent (ev_Type out) then event_record out else batch_record h (ev_Type out) (pushed_delta out h))"

text \<open>
  The steps of the system, for environments that work and records that the journal accepts; the
  counter stays below its width.
\<close>

inductive sys_step :: "('j hub_env \<Rightarrow> bool) \<Rightarrow> (EventRecord \<Rightarrow> bool) \<Rightarrow> 'j system \<Rightarrow> 'j system \<Rightarrow> bool"
  for works accepts where
  publish: "works env \<Longrightarrow> Suc (hub_seq (sy_hub s)) < 2 ^ 64 \<Longrightarrow> accepts (publish_record env ev (sy_hub s)) \<Longrightarrow>
    Publish env ev (sy_hub s) = (err, h) \<Longrightarrow>
    sys_step works accepts s (s\<lparr>sy_hub := h,
      sy_log := sy_log s @ (if err = None then [ingress_event env ev (sy_hub s)] else [])\<rparr>)"
| begin_run: "works env \<Longrightarrow> sys_step works accepts s (s\<lparr>sy_hub := BeginRun env runID (sy_hub s)\<rparr>)"
| end_run: "works env \<Longrightarrow> sys_step works accepts s (s\<lparr>sy_hub := EndRun env (sy_hub s)\<rparr>)"
| timer: "works env \<Longrightarrow> sys_step works accepts s (s\<lparr>sy_hub := flushDeltaOnTimer env (sy_hub s)\<rparr>)"
| states: "works env \<Longrightarrow> hub_journal (sy_hub s) = Some j \<Longrightarrow>
    sys_step works accepts s (s\<lparr>sy_hub := (sy_hub s)\<lparr>hub_journal := Some (he_states env j)\<rparr>\<rparr>)"
| closing: "works env \<Longrightarrow> sys_step works accepts s (s\<lparr>sy_hub := snd (Close_hub env (sy_hub s))\<rparr>)"
| subscribe: "works env \<Longrightarrow> Subscribe_hub env c (sy_hub s) = (Inr (i, replay), h) \<Longrightarrow>
    sys_step works accepts s (s\<lparr>sy_hub := h, sy_pumps := sy_pumps s @ [(i, new_pump c replay (length (sy_log s))
      (hub_integrity h \<noteq> ReplayIntegrityIncomplete))]\<rparr>)"
| refused: "works env \<Longrightarrow> Subscribe_hub env c (sy_hub s) = (Inl e, h) \<Longrightarrow> sys_step works accepts s (s\<lparr>sy_hub := h\<rparr>)"
| pump: "sy_pumps s = ps @ (i, p) # qs \<Longrightarrow> pump_step i (sy_hub s) p h p' \<Longrightarrow>
    sys_step works accepts s (s\<lparr>sy_hub := h, sy_pumps := ps @ (i, p') # qs\<rparr>)"

inductive sys_reach :: "('j hub_env \<Rightarrow> bool) \<Rightarrow> (EventRecord \<Rightarrow> bool) \<Rightarrow> 'j \<Rightarrow> 'j system \<Rightarrow> bool"
  for works accepts j where
  new: "works env \<Longrightarrow> NewEventHub env sid (Some j) = Inr h \<Longrightarrow> Suc (hub_latest h) < 2 ^ 64 \<Longrightarrow>
    sys_reach works accepts j \<lparr>sy_hub = h, sy_pumps = [], sy_log = []\<rparr>"
| step: "sys_reach works accepts j s \<Longrightarrow> sys_step works accepts s s' \<Longrightarrow> sys_reach works accepts j s'"

section \<open>Events in records\<close>

definition payload_value :: "json option \<Rightarrow> json" where
  "payload_value p = (case p of None \<Rightarrow> JNull | Some v \<Rightarrow> v)"

text \<open>What a reader sees of an event: its number, type and payload.\<close>

definition view :: "SessionEvent \<Rightarrow> nat \<times> string \<times> json" where
  "view e = (ev_Seq e, ev_Type e, payload_value (ev_Payload e))"

definition expand :: "EventRecord \<Rightarrow> SessionEvent list" where
  "expand r = fst (replay_record 0 r)"

definition history :: "EventRecord list \<Rightarrow> SessionEvent list" where
  "history rs = concat (map expand rs)"

lemma record_event_simps [simp]:
  "ev_Seq (record_event r n p) = n" "ev_Type (record_event r n p) = er_Type r" "ev_Payload (record_event r n p) = p"
  by (simp_all add: record_event_def)

lemma batch_sorted: "validDeltaBatch parts n m \<Longrightarrow> sorted_wrt (<) (map dp_Seq parts)"
  by (subst sorted_wrt_iff_nth_Suc_transp) (auto simp: validDeltaBatch_def transp_def)

lemma batch_bounds:
  assumes "validDeltaBatch parts n m" and "p \<in> set parts"
  shows "n \<le> dp_Seq p \<and> dp_Seq p \<le> m"
proof -
  have s: "sorted (map dp_Seq parts)" using batch_sorted [OF assms(1)] by (simp add: strict_sorted_iff)
  obtain k where k: "k < length parts" "parts ! k = p" using assms(2) by (auto simp: in_set_conv_nth)
  have e: "dp_Seq (parts ! 0) = n" "dp_Seq (parts ! (length parts - 1)) = m" "parts \<noteq> []"
    using assms(1) by (auto simp: validDeltaBatch_def hd_conv_nth last_conv_nth)
  show ?thesis
    using sorted_nth_mono [OF s, of 0 k] sorted_nth_mono [OF s, of k "length parts - 1"] k e by auto
qed

lemma expand_seq: "e \<in> set (expand r) \<Longrightarrow> ev_Seq e \<le> er_Seq r"
  by (auto simp: expand_def replay_record_def record_event_def dest: batch_bounds split: if_splits option.splits)

lemma replay_expand:
  assumes "c < er_Seq r"
  shows "fst (replay_record c r) = filter (\<lambda>e. c < ev_Seq e) (expand r)"
proof (cases "decode_batch (er_Payload r)")
  case (Some ps)
  have "filter (\<lambda>p. 0 < dp_Seq p) ps = ps" if "validDeltaBatch ps (er_FromSeq r) (er_Seq r)" "er_FromSeq r \<noteq> 0"
    using that batch_bounds by (fastforce simp: filter_id_conv)
  then show ?thesis using Some assms by (auto simp: expand_def replay_record_def filter_map comp_def)
qed (use assms in \<open>simp add: expand_def replay_record_def\<close>)

lemma old_expand: "er_Seq r \<le> c \<Longrightarrow> filter (\<lambda>e. c < ev_Seq e) (expand r) = []"
  using expand_seq by (fastforce simp: filter_empty_conv)

lemma replay_history:
  "concat (map (fst \<circ> replay_record c) (filter (\<lambda>r. c < er_Seq r) rs)) = filter (\<lambda>e. c < ev_Seq e) (history rs)"
  by (induction rs) (simp_all add: history_def replay_expand old_expand not_less)

subsection \<open>Buckets\<close>

definition bucket_ok :: "nat \<Rightarrow> pendingDelta \<Rightarrow> bool" where
  "bucket_ok latest b \<longleftrightarrow> pd_parts b \<noteq> [] \<and> sorted_wrt (<) (map dp_Seq (pd_parts b)) \<and>
     dp_Seq (hd (pd_parts b)) = pd_fromSeq b \<and> dp_Seq (last (pd_parts b)) = pd_toSeq b \<and> 0 < pd_fromSeq b \<and>
     (\<forall>p \<in> set (pd_parts b). dp_Seq p \<le> latest)"

definition bucket_views :: "string \<times> pendingDelta \<Rightarrow> (nat \<times> string \<times> json) list" where
  "bucket_views x = map (\<lambda>p. (dp_Seq p, fst x, payload_value (dp_Payload p))) (pd_parts (snd x))"

lemma decode_batch_json:
  assumes "\<forall>p \<in> set parts. dp_Seq p < 2 ^ 64"
  shows "decode_batch (Some (batch_json parts)) = Some (map (\<lambda>p. p\<lparr>dp_Payload := Some (payload_value (dp_Payload p))\<rparr>) parts)"
proof -
  have e: "elem_part (part_json p) = Some (p\<lparr>dp_Payload := Some (payload_value (dp_Payload p))\<rparr>)" if "dp_Seq p < 2 ^ 64" for p
    using that by (cases p) (simp add: part_json_def uint_field_def raw_field_def journal_members payload_value_def del: members_of_Cons)
  have "those (map (elem_part \<circ> part_json) parts) = Some (map (\<lambda>p. p\<lparr>dp_Payload := Some (payload_value (dp_Payload p))\<rparr>) parts)"
    using assms by (induction parts) (simp_all add: e)
  then show ?thesis by (simp add: batch_json_def journal_members del: members_of_Cons)
qed

lemma expand_batch:
  assumes "bucket_ok latest b" and "latest < 2 ^ 64"
  shows "map view (expand ((batch_record h typ b)\<lparr>er_Kind := k\<rparr>)) = bucket_views (typ, b)"
proof -
  let ?up = "\<lambda>p. p\<lparr>dp_Payload := Some (payload_value (dp_Payload p))\<rparr>"
  have d: "decode_batch (Some (batch_json (pd_parts b))) = Some (map ?up (pd_parts b))"
    using assms by (intro decode_batch_json) (auto simp: bucket_ok_def)
  have s: "sorted_wrt (<) (map dp_Seq (pd_parts b))" using assms(1) by (simp add: bucket_ok_def)
  have "dp_Seq (pd_parts b ! i) < dp_Seq (pd_parts b ! Suc i)" if "Suc i < length (pd_parts b)" for i
    using sorted_wrt_nth_less [OF s, of i "Suc i"] that by simp
  then have v: "validDeltaBatch (map ?up (pd_parts b)) (pd_fromSeq b) (pd_toSeq b)"
    using assms(1) by (auto simp: validDeltaBatch_def bucket_ok_def hd_map last_map)
  have "\<forall>p \<in> set (pd_parts b). 0 < dp_Seq p"
    using batch_bounds [OF v] assms(1) by (fastforce simp: bucket_ok_def)
  then show ?thesis
    using assms(1) d v
    by (auto simp: expand_def replay_record_def batch_record_def bucket_ok_def bucket_views_def view_def record_event_def
        filter_map comp_def payload_value_def filter_id_conv)
qed

lemma bucket_pushed:
  assumes "\<forall>b. map_of (hub_deltaBuf h) (ev_Type out) = Some b \<longrightarrow> bucket_ok latest b" and "latest < ev_Seq out"
  shows "bucket_ok (ev_Seq out) (pushed_delta out h)"
proof (cases "map_of (hub_deltaBuf h) (ev_Type out)")
  case None
  then show ?thesis using assms(2) by (simp add: pushed_delta_def bucket_ok_def Let_def)
next
  case (Some b)
  with assms have "bucket_ok latest b" by blast
  with Some assms(2) show ?thesis
    by (fastforce simp: pushed_delta_def bucket_ok_def Let_def sorted_wrt_append)
qed

lemma pushed_views:
  "bucket_views (ev_Type out, pushed_delta out h) =
     (case map_of (hub_deltaBuf h) (ev_Type out) of Some b \<Rightarrow> bucket_views (ev_Type out, b) | None \<Rightarrow> []) @ [view out]"
  by (simp add: pushed_delta_def bucket_views_def view_def Let_def split: option.splits)

definition buffered :: "(string \<times> pendingDelta) list \<Rightarrow> (nat \<times> string \<times> json) multiset" where
  "buffered buf = mset (concat (map bucket_views buf))"

lemma buffered_del:
  assumes "map_of buf typ = Some b" and "distinct (map fst buf)"
  shows "buffered buf = buffered (map_del typ buf) + mset (bucket_views (typ, b))"
  using assms
proof (induction buf)
  case (Cons x buf)
  show ?case
  proof (cases "fst x = typ")
    case True
    then have "typ \<notin> fst ` set buf" using Cons.prems(2) by auto
    then have "map_del typ buf = buf" by (force simp: map_del_def filter_id_conv)
    then show ?thesis using True Cons.prems(1) by (cases x) (simp add: buffered_def map_del_def)
  next
    case False
    then show ?thesis using Cons by (cases x) (simp add: buffered_def map_del_def)
  qed
qed simp

lemma buffered_put:
  assumes "distinct (map fst buf)"
  shows "buffered (map_put typ b buf) + mset (case map_of buf typ of Some b \<Rightarrow> bucket_views (typ, b) | None \<Rightarrow> []) =
    buffered buf + mset (bucket_views (typ, b))"
  using assms
proof (induction buf)
  case (Cons x buf)
  then show ?case by (cases x) (auto simp: buffered_def dest: weak_map_of_SomeI split: option.splits)
qed (simp add: buffered_def)

section \<open>The journal and the hub\<close>

text \<open>
  What the hub needs of a journal, with \<open>events\<close> the records it holds for the session: a successful append
  of an acceptable record adds it, reading gives the records behind the cursor in any order, and the
  range bounds them. The order in which the runtime walks over a map is a permutation of its keys.
\<close>

locale event_journal =
  fixes jinv :: "'j \<Rightarrow> bool" and events :: "'j \<Rightarrow> EventRecord list"
    and accepts :: "EventRecord \<Rightarrow> bool" and works :: "'j hub_env \<Rightarrow> bool"
  assumes appended: "works env \<Longrightarrow> jinv j \<Longrightarrow> accepts r \<Longrightarrow> he_append env k r j = (True, j') \<Longrightarrow>
      jinv j' \<and> mset (events j') = add_mset (r\<lparr>er_Kind := eventKind\<rparr>) (mset (events j))"
    and read: "works env \<Longrightarrow> jinv j \<Longrightarrow> he_read env c j = Some rs \<Longrightarrow> mset rs = mset (filter (\<lambda>r. c < er_Seq r) (events j))"
    and range_none: "works env \<Longrightarrow> jinv j \<Longrightarrow> he_range env j = Some None \<Longrightarrow> events j = []"
    and range_some: "works env \<Longrightarrow> jinv j \<Longrightarrow> he_range env j = Some (Some (a, b)) \<Longrightarrow> r \<in> set (events j) \<Longrightarrow> er_Seq r \<le> b"
    and order: "works env \<Longrightarrow> mset (he_order env ks) = mset ks"
    and others: "works env \<Longrightarrow> jinv j \<Longrightarrow> jinv (he_states env j) \<and> mset (events (he_states env j)) = mset (events j)"

abbreviation undamaged :: "'j EventHub \<Rightarrow> bool" where
  "undamaged h \<equiv> hub_integrity h \<noteq> ReplayIntegrityIncomplete"

text \<open>
  The events of a hub, all of the session so far: as long as no damage is reported, each is in the journal
  or in a bucket, once.
\<close>

definition hub_inv :: "('j \<Rightarrow> bool) \<Rightarrow> ('j \<Rightarrow> EventRecord list) \<Rightarrow> (EventRecord \<Rightarrow> bool) \<Rightarrow> SessionEvent list \<Rightarrow> 'j EventHub \<Rightarrow> bool" where
  "hub_inv jinv events accepts evs h \<longleftrightarrow>
     (\<exists>j. hub_journal h = Some j \<and> (undamaged h \<longrightarrow> jinv j \<and>
        mset (map view (history (events j))) + buffered (hub_deltaBuf h) = mset (map view evs))) \<and>
     distinct (map fst (hub_deltaBuf h)) \<and>
     (\<forall>x \<in> set (hub_deltaBuf h). bucket_ok (hub_latest h) (snd x) \<and> accepts (batch_record h (fst x) (snd x))) \<and>
     (\<forall>e \<in> set evs. ev_Seq e \<le> hub_latest h) \<and> hub_latest h < hub_seq h \<and> hub_seq h < 2 ^ 64"

text \<open>What the writing part of the hub leaves alone.\<close>

definition same_streams :: "'j EventHub \<Rightarrow> 'j EventHub \<Rightarrow> bool" where
  "same_streams h h' \<longleftrightarrow> hub_subs h' = hub_subs h \<and> hub_latest h' = hub_latest h \<and> hub_seq h' = hub_seq h \<and>
     hub_nextSubID h' = hub_nextSubID h \<and> hub_closed h' = hub_closed h \<and> hub_sessionID h' = hub_sessionID h"

lemma same_streams_refl [simp]: "same_streams h h"
  by (simp add: same_streams_def)

lemma same_streams_trans: "same_streams h h' \<Longrightarrow> same_streams h' h'' \<Longrightarrow> same_streams h h''"
  by (simp add: same_streams_def)

lemma batch_record_cong: "hub_sessionID h' = hub_sessionID h \<Longrightarrow> batch_record h' typ b = batch_record h typ b"
  by (simp add: batch_record_def)

lemma append_event_cases:
  assumes "append_event env k r h = (ok, h')" and "hub_journal h = Some j"
  obtains j' where "he_append env k r j = (ok, j')" "h' = h\<lparr>hub_journal := Some j',
     hub_integrity := (if ok then hub_integrity h else ReplayIntegrityIncomplete)\<rparr>"
  using assms by (auto simp: append_event_def split: prod.splits)

lemma append_event_same: "same_streams h (snd (append_event env k r h)) \<and> hub_deltaBuf (snd (append_event env k r h)) = hub_deltaBuf h"
  by (auto simp: append_event_def same_streams_def split: option.splits prod.splits)

lemma flush_type_same: "same_streams h (flushDeltaTypeLocked env k typ h)"
proof (cases "map_of (hub_deltaBuf h) typ")
  case (Some b)
  let ?h = "h\<lparr>hub_deltaBuf := map_del typ (hub_deltaBuf h)\<rparr>"
  have "same_streams h ?h" by (simp add: same_streams_def)
  from same_streams_trans [OF this conjunct1 [OF append_event_same]] Some show ?thesis by (simp add: flushDeltaTypeLocked_def)
qed (simp add: flushDeltaTypeLocked_def)

lemma flush_type_buf: "hub_deltaBuf (flushDeltaTypeLocked env k typ h) = map_del typ (hub_deltaBuf h)"
proof (cases "map_of (hub_deltaBuf h) typ")
  case None
  then have "map_del typ (hub_deltaBuf h) = hub_deltaBuf h" by (auto simp: map_del_def filter_id_conv map_of_eq_None_iff)
  with None show ?thesis by (simp add: flushDeltaTypeLocked_def)
qed (simp add: flushDeltaTypeLocked_def append_event_same)

lemma flush_types_same:
  "same_streams h (flush_types env k typs h) \<and>
   fst ` set (hub_deltaBuf (flush_types env k typs h)) = fst ` set (hub_deltaBuf h) - set typs"
proof (induction typs arbitrary: k h)
  case (Cons t ts)
  have "fst ` set (map_del t (hub_deltaBuf h)) = fst ` set (hub_deltaBuf h) - {t}" by (auto simp: map_del_def)
  with Cons.IH [of "flushDeltaTypeLocked env k t h" "Suc k"] flush_type_same [of h env k t] show ?case
    by (auto simp: flush_type_buf intro: same_streams_trans)
qed simp

lemma views_mset:
  assumes "mset rs = mset rs'"
  shows "mset (map view (history rs)) = mset (map view (history rs'))"
proof -
  have "mset (map view (history rs)) = \<Sum>\<^sub># (image_mset (\<lambda>r. mset (map view (expand r))) (mset rs))" for rs
    by (induction rs) (simp_all add: history_def)
  with assms show ?thesis by simp
qed

context event_journal
begin

lemma append_views:
  assumes "works env" "jinv j" "accepts r" "he_append env k r j = (True, j')"
  shows "jinv j' \<and> mset (map view (history (events j'))) =
    mset (map view (history (events j))) + mset (map view (expand (r\<lparr>er_Kind := eventKind\<rparr>)))"
proof -
  have e: "mset (events j') = mset (r\<lparr>er_Kind := eventKind\<rparr> # events j)" and i: "jinv j'" using appended [OF assms] by simp_all
  have "mset (map view (history (events j'))) = mset (map view (history (r\<lparr>er_Kind := eventKind\<rparr> # events j)))"
    using e by (rule views_mset)
  with i show ?thesis by (simp add: history_def add_ac)
qed

lemma states_inv:
  assumes "works env" and "hub_inv jinv events accepts evs h" and "hub_journal h = Some j"
  shows "hub_inv jinv events accepts evs (h\<lparr>hub_journal := Some (he_states env j)\<rparr>)"
  using assms(2,3) others [OF assms(1), of j] views_mset [of "events (he_states env j)" "events j"]
  by (auto simp: hub_inv_def batch_record_def)

lemma flush_type_inv:
  assumes "works env" and "hub_inv jinv events accepts evs h"
  shows "hub_inv jinv events accepts evs (flushDeltaTypeLocked env k typ h)"
proof (cases "map_of (hub_deltaBuf h) typ")
  case (Some b)
  let ?h = "h\<lparr>hub_deltaBuf := map_del typ (hub_deltaBuf h)\<rparr>" and ?r = "batch_record h typ b"
  obtain j where j: "hub_journal h = Some j" "undamaged h \<longrightarrow> jinv j \<and>
      mset (map view (history (events j))) + buffered (hub_deltaBuf h) = mset (map view evs)"
    and d: "distinct (map fst (hub_deltaBuf h))" and l: "hub_latest h < 2 ^ 64"
    using assms(2) by (auto simp: hub_inv_def)
  have b: "bucket_ok (hub_latest h) b" "accepts ?r"
    using map_of_SomeD [OF Some] assms(2) by (auto simp: hub_inv_def)
  obtain ok h' where a: "append_event env k ?r ?h = (ok, h')" by fastforce
  have "hub_journal ?h = Some j" using j(1) by simp
  from append_event_cases [OF a this] obtain j' where h': "he_append env k ?r j = (ok, j')"
    "h' = ?h\<lparr>hub_journal := Some j', hub_integrity := (if ok then hub_integrity ?h else ReplayIntegrityIncomplete)\<rparr>"
    by blast
  have f: "flushDeltaTypeLocked env k typ h = h'" using Some a by (simp add: flushDeltaTypeLocked_def)
  have h: "hub_journal h' = Some j'" "hub_deltaBuf h' = map_del typ (hub_deltaBuf h)" "hub_latest h' = hub_latest h"
      "hub_seq h' = hub_seq h" "batch_record h' = batch_record h"
    by (simp_all add: h'(2) fun_eq_iff batch_record_def)
  have sub: "set (map_del typ (hub_deltaBuf h)) \<subseteq> set (hub_deltaBuf h)" by (auto simp: map_del_def)
  have "jinv j' \<and> mset (map view (history (events j'))) + buffered (map_del typ (hub_deltaBuf h)) = mset (map view evs)"
    if "undamaged h'"
  proof -
    have "ok" "undamaged h" using that h'(2) by (auto split: if_splits)
    with h'(1) have a: "he_append env k ?r j = (True, j')" by simp
    show ?thesis
      using append_views [OF assms(1) _ b(2) a] j(2) \<open>undamaged h\<close> expand_batch [OF b(1) l, of eventKind h "typ"] buffered_del [OF Some d]
      by (simp add: add_ac del: mset_map)
  qed
  then show ?thesis
    using assms(2) sub unfolding f hub_inv_def h by auto
qed (use assms(2) in \<open>simp add: flushDeltaTypeLocked_def\<close>)

lemma flush_types_inv:
  "works env \<Longrightarrow> hub_inv jinv events accepts evs h \<Longrightarrow> hub_inv jinv events accepts evs (flush_types env k typs h)"
  by (induction typs arbitrary: k h) (simp_all add: flush_type_inv)

lemma flush_all_inv:
  assumes "works env" and "hub_inv jinv events accepts evs h"
  shows "hub_inv jinv events accepts evs (flushAllDeltaLocked env h)" "hub_deltaBuf (flushAllDeltaLocked env h) = []"
    "same_streams h (flushAllDeltaLocked env h)"
proof -
  let ?h = "flush_types env 0 (he_order env (map fst (hub_deltaBuf h))) h"
  have "set (he_order env (map fst (hub_deltaBuf h))) = fst ` set (hub_deltaBuf h)"
    using arg_cong [OF order [OF assms(1)], of set_mset] by simp
  then show "hub_deltaBuf (flushAllDeltaLocked env h) = []" "same_streams h (flushAllDeltaLocked env h)"
    using flush_types_same [of h env 0 "he_order env (map fst (hub_deltaBuf h))"]
    by (auto simp: flushAllDeltaLocked_def same_streams_def)
  show "hub_inv jinv events accepts evs (flushAllDeltaLocked env h)"
    using flush_types_inv [OF assms, of 0 "he_order env (map fst (hub_deltaBuf h))"]
    by (simp add: flushAllDeltaLocked_def hub_inv_def batch_record_def)
qed

lemma hub_inv_fan_out: "hub_inv jinv events accepts evs (fanOutLocked ev h) = hub_inv jinv events accepts evs h"
  by (simp add: hub_inv_def fanOutLocked_def batch_record_def)

lemma hub_inv_push:
  assumes "hub_inv jinv events accepts evs h" and "hub_latest h < ev_Seq out" and "ev_Seq out < m" and "m < 2 ^ 64"
    and "accepts (batch_record h (ev_Type out) (pushed_delta out h))"
  shows "hub_inv jinv events accepts (evs @ [out]) (h\<lparr>hub_seq := m, hub_latest := ev_Seq out, hub_subs := subs,
    hub_deltaBuf := map_put (ev_Type out) (pushed_delta out h) (hub_deltaBuf h), hub_timer := t\<rparr>)"
proof -
  let ?buf = "hub_deltaBuf h" and ?b = "pushed_delta out h" and ?t = "ev_Type out"
  have d: "distinct (map fst ?buf)" using assms(1) by (simp add: hub_inv_def)
  have ok: "bucket_ok (hub_latest h) (snd x)" if "x \<in> set ?buf" for x using that assms(1) by (simp add: hub_inv_def)
  have b: "bucket_ok (ev_Seq out) ?b" using bucket_pushed [OF _ assms(2), of h] ok map_of_SomeD by fastforce
  have up: "bucket_ok (ev_Seq out) (snd x)" if "x \<in> set ?buf" for x
    using ok [OF that] assms(2) by (fastforce simp: bucket_ok_def)
  have v: "buffered (map_put ?t ?b ?buf) = buffered ?buf + {#view out#}"
    using buffered_put [OF d, of ?t ?b] by (simp add: pushed_views add_ac)
  show ?thesis
    using assms b up d v in_map_put [of _ ?t ?b ?buf] by (fastforce simp: hub_inv_def batch_record_def add_ac)
qed

lemma publish_inv:
  assumes "works env" and "hub_inv jinv events accepts evs h" and "Suc (hub_seq h) < 2 ^ 64"
    and "accepts (publish_record env ev h)" and "Publish env ev h = (err, h')"
  shows "hub_inv jinv events accepts (evs @ (if err = None then [ingress_event env ev h] else [])) h'"
proof (cases "hub_closed h")
  case True
  with assms(2,5) show ?thesis by (auto simp: Publish_def)
next
  case open_hub: False
  let ?out = "ingress_event env ev h" and ?h = "h\<lparr>hub_seq := Suc (hub_seq h)\<rparr>"
  have n: "next_seq (hub_seq h) = Suc (hub_seq h)" "ev_Seq ?out = hub_seq h" using assms(3) by (simp_all add: next_seq_def ingress_event_def)
  obtain j where j: "hub_journal h = Some j" and l: "hub_latest h < hub_seq h" using assms(2) by (auto simp: hub_inv_def)
  show ?thesis
  proof (cases "IsKeyEvent (ev_Type ?out)")
    case True
    obtain ok h1 where a: "append_event env 0 (event_record ?out) ?h = (ok, h1)" by fastforce
    have "hub_journal ?h = Some j" using j by simp
    from append_event_cases [OF a this] obtain j' where h1: "he_append env 0 (event_record ?out) j = (ok, j')"
      "h1 = ?h\<lparr>hub_journal := Some j', hub_integrity := (if ok then hub_integrity ?h else ReplayIntegrityIncomplete)\<rparr>"
      by blast
    have "accepts (event_record ?out)" using assms(4) True by (simp add: publish_record_def Let_def)
    note av = append_views [OF assms(1) _ this, of j 0 j']
    have e: "map view (expand ((event_record ?out)\<lparr>er_Kind := eventKind\<rparr>)) = [view ?out]"
      by (simp add: expand_def replay_record_def event_record_def view_def)
    have up: "bucket_ok n b" if "bucket_ok (hub_latest h) b" "hub_latest h \<le> n" for n b
      using that by (fastforce simp: bucket_ok_def)
    show ?thesis
    proof (cases ok)
      case ok: True
      then have P: "err = None" "h' = fanOutLocked ?out (h1\<lparr>hub_latest := hub_seq h\<rparr>)"
        using assms(5) open_hub True a n by (auto simp: Publish_def Let_def)
      have "hub_inv jinv events accepts (evs @ [?out]) (h1\<lparr>hub_latest := hub_seq h\<rparr>)"
        using assms(2,3) av h1(1) ok e j l n(2) up [of _ "hub_seq h"]
        by (fastforce simp: hub_inv_def h1(2) batch_record_def add_ac)
      then show ?thesis by (simp add: P hub_inv_fan_out)
    next
      case False
      then have "err = Some KeyEventFailed" "h' = h1" using assms(5) open_hub True a n by (auto simp: Publish_def Let_def)
      then show ?thesis using assms(2,3) False l by (simp add: hub_inv_def h1(2) batch_record_def)
    qed
  next
    case False
    let ?b = "pushed_delta ?out h" and ?t = "ev_Type ?out"
    let ?f = "fanOutLocked ?out (?h\<lparr>hub_latest := hub_seq h\<rparr>)"
    have P: "err = None" "h' = bufferDeltaLocked env ?out ?f"
      using assms(5) open_hub False n j by (auto simp: Publish_def Let_def fanOutLocked_def)
    have "accepts (batch_record h ?t ?b)" using assms(4) False by (simp add: publish_record_def Let_def)
    note push = hub_inv_push [OF assms(2) _ _ assms(3) this]
    have "pushed_delta ?out ?f = ?b" by (simp add: pushed_delta_def fanOutLocked_def)
    then have "hub_inv jinv events accepts (evs @ [?out]) (?f\<lparr>hub_deltaBuf := map_put ?t ?b (hub_deltaBuf ?f), hub_timer := t\<rparr>)" for t
      using push [where subs = "hub_subs ?f" and t = t] l n by (simp add: fanOutLocked_def)
    note flush_type_inv [OF assms(1) this, of 0 ?t] this
    moreover have "hub_inv jinv events accepts evs2 (h\<lparr>hub_timer := t\<rparr>) = hub_inv jinv events accepts evs2 h" for evs2 h t
      by (simp add: hub_inv_def batch_record_def)
    ultimately show ?thesis
      using \<open>pushed_delta ?out ?f = ?b\<close> by (simp add: P bufferDeltaLocked_def Let_def)
  qed
qed

lemma filter_views: "mset (map view (filter (\<lambda>e. c < ev_Seq e) es)) = filter_mset (\<lambda>v. c < fst v) (mset (map view es))"
  by (induction es) (simp_all add: view_def)

lemma subscribe_inv:
  assumes "works env" and "hub_inv jinv events accepts evs h" and "Subscribe_hub env c h = (r, h')"
  shows "hub_inv jinv events accepts evs h'" "isl r \<Longrightarrow> same_streams h h'"
    "r = Inr (i, replay) \<Longrightarrow> undamaged h' \<Longrightarrow>
       sorted (map ev_Seq replay) \<and> mset (map view replay) = mset (map view (filter (\<lambda>e. c < ev_Seq e) evs)) \<and> c \<le> hub_latest h"
proof -
  let ?h = "flushAllDeltaLocked env h"
  note fl = flush_all_inv [OF assms(1,2)]
  obtain j where j: "hub_journal ?h = Some j" "undamaged ?h \<longrightarrow> jinv j \<and> mset (map view (history (events j))) = mset (map view evs)"
    using fl(1,2) by (auto simp: hub_inv_def buffered_def)
  have jh: "hub_journal h \<noteq> None" using assms(2) by (auto simp: hub_inv_def)
  consider (keep) "isl r" "h' = h" | (fail) "isl r" "h' = ?h"
    | (ok) recs where "he_read env c j = Some recs" "c \<le> hub_latest h"
        "r = Inr (hub_nextSubID ?h, sort_key ev_Seq (concat (map fst (map (replay_record c) recs))))"
        "h' = ?h\<lparr>hub_integrity := (if list_ex snd (map (replay_record c) recs) then ReplayIntegrityIncomplete else hub_integrity ?h),
          hub_subs := hub_subs ?h @ [(hub_nextSubID ?h, \<lparr>sub_in = True, sub_live = [], sub_watermark = hub_latest ?h, sub_dead = False\<rparr>)],
          hub_nextSubID := Suc (hub_nextSubID ?h)\<rparr>"
  proof (cases "hub_closed h \<or> hub_latest h < c \<or> (c \<noteq> 0 \<and> next_seq c < hub_earliest h)")
    case True
    then show thesis using assms(3) that(1) by (auto simp: Subscribe_hub_def split: if_splits)
  next
    case False
    then have nf: "\<not> hub_closed h" "\<not> (hub_latest h < c \<or> c \<noteq> 0 \<and> next_seq c < hub_earliest h)" by auto
    have "Subscribe_hub env c h =
        (case (case hub_journal ?h of None \<Rightarrow> Some [] | Some j \<Rightarrow> he_read env c j) of
           None \<Rightarrow> (Inl ReadFailed, ?h)
         | Some recs \<Rightarrow>
             let rs = map (replay_record c) recs;
                 replay = sort_key ev_Seq (concat (map fst rs));
                 sub = \<lparr>sub_in = True, sub_live = [], sub_watermark = hub_latest ?h, sub_dead = False\<rparr> in
             (Inr (hub_nextSubID ?h, replay),
              ?h\<lparr>hub_integrity := (if list_ex snd rs then ReplayIntegrityIncomplete else hub_integrity ?h),
                hub_subs := hub_subs ?h @ [(hub_nextSubID ?h, sub)], hub_nextSubID := Suc (hub_nextSubID ?h)\<rparr>))"
      unfolding Subscribe_hub_def Let_def if_not_P [OF nf(1)] if_not_P [OF nf(2)] if_not_P [OF jh] ..
    note S = assms(3) [unfolded this]
    have c: "c \<le> hub_latest h" using False by simp
    show thesis
    proof (cases "he_read env c j")
      case None
      with j(1) S have "r = Inl ReadFailed" "h' = ?h" by simp_all
      then show thesis using that(2) by simp
    next
      case (Some recs)
      with j(1) S c show thesis by (intro that(3) [of recs]) (simp_all add: Let_def)
    qed
  qed
  note cs = this
  from cs show "hub_inv jinv events accepts evs h'"
    by cases (use fl(1) assms(2) in \<open>auto simp: hub_inv_def batch_record_def\<close>)
  from cs show "same_streams h h'" if "isl r" by cases (use that fl(3) in auto)
  assume r: "r = Inr (i, replay)" and u: "undamaged h'"
  from cs show "sorted (map ev_Seq replay) \<and> mset (map view replay) = mset (map view (filter (\<lambda>e. c < ev_Seq e) evs)) \<and> c \<le> hub_latest h"
  proof cases
    case (ok recs)
    have "undamaged ?h" using u ok(4) by (auto split: if_splits)
    then have jj: "jinv j" "mset (map view (history (events j))) = mset (map view evs)" using j(2) by simp_all
    have "mset (concat (map (fst \<circ> replay_record c) rs)) = \<Sum>\<^sub># (image_mset (mset \<circ> fst \<circ> replay_record c) (mset rs))" for rs
      by (induction rs) simp_all
    then have "mset (concat (map (fst \<circ> replay_record c) recs)) = mset (filter (\<lambda>e. c < ev_Seq e) (history (events j)))"
      using read [OF assms(1) jj(1) ok(1)] replay_history by metis
    moreover have rp: "replay = sort_key ev_Seq (concat (map (fst \<circ> replay_record c) recs))" using r ok(3) by simp
    ultimately have "mset replay = mset (filter (\<lambda>e. c < ev_Seq e) (history (events j)))" by simp
    then have "mset (map view replay) = mset (map view (filter (\<lambda>e. c < ev_Seq e) (history (events j))))" by simp
    then have "mset (map view replay) = mset (map view (filter (\<lambda>e. c < ev_Seq e) evs))"
      using jj(2) by (simp only: filter_views)
    moreover have "sorted (map ev_Seq replay)" unfolding rp by simp
    ultimately show ?thesis using ok(2) by simp
  qed (use r in auto)
qed

lemma new_hub_latest:
  assumes "works env" and "jinv j" and "NewEventHub env sid (Some j) = Inr h" and "e \<in> set (history (events j))"
  shows "ev_Seq e \<le> hub_latest h"
  using assms(3,4) range_none [OF assms(1,2)] range_some [OF assms(1,2)] expand_seq
  by (fastforce simp: NewEventHub_def history_def Let_def split: option.splits)

lemma new_hub_inv:
  assumes "works env" and "jinv j" and "NewEventHub env sid (Some j) = Inr h" and "Suc (hub_latest h) < 2 ^ 64"
  shows "hub_inv jinv events accepts (history (events j)) h" "hub_subs h = []"
proof -
  have "ev_Seq e \<le> hub_latest h" if "e \<in> set (history (events j))" for e
    using new_hub_latest [OF assms(1-3) that] .
  moreover have "hub_journal h = Some j" "hub_deltaBuf h = []" "hub_seq h = Suc (hub_latest h)" "hub_subs h = []"
    using assms(3,4) by (auto simp: NewEventHub_def next_seq_def Let_def split: option.splits)
  ultimately show "hub_inv jinv events accepts (history (events j)) h" "hub_subs h = []"
    using assms(2,4) by (simp_all add: hub_inv_def buffered_def)
qed

end

end
