(* ===== verification/Event_Delivery.thy ===== *)
theory Event_Delivery
  imports Event_Stream
begin

text \<open>
  What arrives at the readers of a session's events: the invariant of the system of hub and pumps, and the
  delivery theorem for the journal of the program.
\<close>

section \<open>One pump\<close>

definition in_hand :: "pump \<Rightarrow> SessionEvent list" where
  "in_hand p = (case pp_hold p of None \<Rightarrow> [] | Some ev \<Rightarrow> [ev])"

definition got :: "pump \<Rightarrow> SessionEvent list" where
  "got p = pp_recv p @ pp_ch p"

text \<open>The snapshot and what was broadcast since: the stream of a subscriber.\<close>

definition stream :: "SessionEvent list \<Rightarrow> pump \<Rightarrow> SessionEvent list" where
  "stream log p = pp_given p @ drop (pp_start p) log"

text \<open>
  While the pump runs, the parts that are sent, waiting and live make up the stream, up to what the hub has
  no longer offered to a subscriber that it dropped.
\<close>

definition pump_inv :: "SessionEvent list \<Rightarrow> hubSub \<Rightarrow> pump \<Rightarrow> bool" where
  "pump_inv log sub p \<longleftrightarrow> pp_start p \<le> length log \<and>
     (got p = [] \<longrightarrow> pp_last p = 0) \<and> (got p \<noteq> [] \<longrightarrow> pp_last p = ev_Seq (last (got p))) \<and>
     (pp_exit p \<longrightarrow> prefix (got p) (stream log p)) \<and>
     (\<not> pp_exit p \<longrightarrow> (\<exists>sent lv rest. pp_given p = sent @ pp_replay p \<and> got p = sent @ lv \<and>
        (pp_replay p \<noteq> [] \<longrightarrow> lv = [] \<and> pp_hold p = None) \<and>
        drop (pp_start p) log = lv @ in_hand p @ sub_live sub @ rest \<and> (sub_in sub \<longrightarrow> rest = [])))"

text \<open>The numbers of the stream: what was broadcast later is greater than the snapshot and the cursor.\<close>

definition pump_order :: "SessionEvent list \<Rightarrow> pump \<Rightarrow> bool" where
  "pump_order log p \<longleftrightarrow> (\<forall>x \<in> set (drop (pp_start p) log). pp_from p < ev_Seq x \<and> (\<forall>e \<in> set (pp_given p). ev_Seq e < ev_Seq x))"

definition rising :: "SessionEvent list \<Rightarrow> bool" where
  "rising log \<longleftrightarrow> sorted_wrt (\<lambda>a b. ev_Seq a < ev_Seq b) log \<and> (\<forall>e \<in> set log. 0 < ev_Seq e)"

lemma pump_inv_prefix: "pump_inv log sub p \<Longrightarrow> prefix (got p) (stream log p)"
  by (cases "pp_replay p = []") (auto simp: pump_inv_def stream_def)

text \<open>A running pump, with the parts of its stream named.\<close>

lemma pump_invE:
  assumes "pump_inv log sub p" and "\<not> pp_exit p"
  obtains sent lv rest where "pp_start p \<le> length log" "pp_given p = sent @ pp_replay p" "got p = sent @ lv"
    "pp_replay p \<noteq> [] \<longrightarrow> lv = [] \<and> pp_hold p = None" "drop (pp_start p) log = lv @ in_hand p @ sub_live sub @ rest"
    "sub_in sub \<longrightarrow> rest = []"
  using assms by (auto simp: pump_inv_def)

lemma pump_invI:
  assumes "pp_start p \<le> length log" and "\<not> pp_exit p" and "pp_given p = sent @ pp_replay p" and "got p = sent @ lv"
    and "pp_replay p \<noteq> [] \<longrightarrow> lv = [] \<and> pp_hold p = None" and "drop (pp_start p) log = lv @ in_hand p @ sub_live sub @ rest"
    and "sub_in sub \<longrightarrow> rest = []" and "got p = [] \<longrightarrow> pp_last p = 0" and "got p \<noteq> [] \<longrightarrow> pp_last p = ev_Seq (last (got p))"
  shows "pump_inv log sub p"
  using assms unfolding pump_inv_def by blast

lemma pump_inv_offer:
  assumes "pump_inv log sub p" and "sub_watermark sub < ev_Seq out"
  shows "pump_inv (log @ [out]) (offer out sub) p"
proof (cases "pp_exit p")
  case True
  have "prefix (got p) (stream log p @ [out])" using assms(1) pump_inv_prefix by simp
  with assms(1) True show ?thesis by (simp add: pump_inv_def stream_def)
next
  case False
  obtain sent lv rest where e: "pp_start p \<le> length log" "pp_given p = sent @ pp_replay p" "got p = sent @ lv"
    "pp_replay p \<noteq> [] \<longrightarrow> lv = [] \<and> pp_hold p = None" "drop (pp_start p) log = lv @ in_hand p @ sub_live sub @ rest"
    "sub_in sub \<longrightarrow> rest = []" using assms(1) False by (rule pump_invE)
  let ?rest = "if sub_in sub \<and> length (sub_live sub) < subscriberBuffer then [] else rest @ [out]"
  show ?thesis
    by (rule pump_invI [where sent = sent and lv = lv and rest = ?rest])
      (use assms False e in \<open>auto simp: offer_def pump_inv_def\<close>)
qed

lemma pump_inv_sub:
  "pump_inv log sub p \<Longrightarrow> sub_live sub' = sub_live sub \<Longrightarrow> (sub_in sub' \<longrightarrow> sub_in sub) \<Longrightarrow> pump_inv log sub' p"
  unfolding pump_inv_def by (elim conjE, intro conjI) auto

lemma no_duplicate:
  assumes "pump_inv log sub p" and "pump_order log p" and "rising log" and "\<not> pp_exit p" and "pp_replay p = []"
    and "pp_hold p = None" and "sub_live sub = ev # rest"
  shows "pp_last p < ev_Seq ev"
proof -
  obtain lv rs where l: "got p = pp_given p @ lv" "drop (pp_start p) log = lv @ ev # rest @ rs"
    using assms(1,4-7) by (auto simp: pump_inv_def in_hand_def)
  have ev: "ev \<in> set (drop (pp_start p) log)" using l(2) by simp
  show ?thesis
  proof (cases "got p = []")
    case True
    then have "pp_last p = 0" using assms(1) by (simp add: pump_inv_def)
    moreover have "0 < ev_Seq ev" using assms(3) in_set_dropD [OF ev] by (simp add: rising_def)
    ultimately show ?thesis by simp
  next
    case False
    have "sorted_wrt (\<lambda>a b. ev_Seq a < ev_Seq b) (drop (pp_start p) log)" using assms(3) by (simp add: rising_def sorted_wrt_drop)
    then have "\<forall>x \<in> set lv. ev_Seq x < ev_Seq ev" unfolding l(2) by (simp add: sorted_wrt_append)
    moreover have "\<forall>x \<in> set (pp_given p). ev_Seq x < ev_Seq ev" using assms(2) ev by (simp add: pump_order_def)
    moreover have "last (got p) \<in> set (pp_given p) \<union> set lv" using last_in_set [OF False] l(1) by auto
    ultimately show ?thesis using assms(1) False by (auto simp: pump_inv_def)
  qed
qed

lemma removeSub_subs:
  "map_of (hub_subs (removeSub i h)) n =
     map_option (\<lambda>sub. if n = i then sub\<lparr>sub_in := False\<rparr> else sub) (map_of (hub_subs h) n)"
  "map fst (hub_subs (removeSub i h)) = map fst (hub_subs h)"
proof -
  have "map_of (map (\<lambda>(n, sub). (n, if n = i then sub\<lparr>sub_in := False\<rparr> else sub)) m) n =
      map_option (\<lambda>sub. if n = i then sub\<lparr>sub_in := False\<rparr> else sub) (map_of m n) \<and>
    map fst (map (\<lambda>(n, sub). (n, if n = i then sub\<lparr>sub_in := False\<rparr> else sub)) m) = map fst m" for m :: "(nat \<times> hubSub) list"
    by (induction m) auto
  then show "map_of (hub_subs (removeSub i h)) n =
      map_option (\<lambda>sub. if n = i then sub\<lparr>sub_in := False\<rparr> else sub) (map_of (hub_subs h) n)"
    "map fst (hub_subs (removeSub i h)) = map fst (hub_subs h)"
    by (simp_all add: removeSub_def)
qed

text \<open>What a step of a pump does to the table of the subscribers.\<close>

lemma pump_step_subs:
  assumes "pump_step i h p h' p'" and "map_of (hub_subs h) i \<noteq> None" and "distinct (map fst (hub_subs h))"
  shows "map fst (hub_subs h') = map fst (hub_subs h)" "k \<noteq> i \<Longrightarrow> map_of (hub_subs h') k = map_of (hub_subs h) k"
    "map_of (hub_subs h) i = Some sub \<Longrightarrow> \<exists>sub'. map_of (hub_subs h') i = Some sub' \<and> sub_watermark sub' = sub_watermark sub"
    "hub_inv jinv events accepts evs h' = hub_inv jinv events accepts evs h"
    "hub_latest h' = hub_latest h" "hub_nextSubID h' = hub_nextSubID h"
proof -
  have i: "i \<in> fst ` set (hub_subs h)" using assms(2) by (simp add: map_of_eq_None_iff)
  note * = assms(1) i
  from * show "map fst (hub_subs h') = map fst (hub_subs h)"
    by cases (auto simp: sub_update_def keys_map_put removeSub_subs)
  from * show "map_of (hub_subs h') k = map_of (hub_subs h) k" if "k \<noteq> i"
    by cases (use that in \<open>auto simp: sub_update_def removeSub_subs option.map_ident\<close>)
  from * show "\<exists>sub'. map_of (hub_subs h') i = Some sub' \<and> sub_watermark sub' = sub_watermark sub" if "map_of (hub_subs h) i = Some sub"
    by cases (use that in \<open>auto simp: sub_update_def removeSub_subs\<close>)
  from * show "hub_inv jinv events accepts evs h' = hub_inv jinv events accepts evs h" "hub_latest h' = hub_latest h"
      "hub_nextSubID h' = hub_nextSubID h"
    by (cases; simp add: sub_update_def removeSub_def hub_inv_def batch_record_def)+
qed

lemma pump_step_inv:
  assumes "pump_step i h p h' p'" and "map_of (hub_subs h) i = Some sub" and "pump_inv log sub p"
    and "pump_order log p" and "rising log"
  shows "\<exists>sub'. map_of (hub_subs h') i = Some sub' \<and> pump_inv log sub' p'"
  using assms(1)
proof cases
  case (replay ev rest)
  obtain sent lv more_rest where e: "pp_start p \<le> length log" "pp_given p = sent @ pp_replay p" "got p = sent @ lv"
    "pp_replay p \<noteq> [] \<longrightarrow> lv = [] \<and> pp_hold p = None" "drop (pp_start p) log = lv @ in_hand p @ sub_live sub @ more_rest"
    "sub_in sub \<longrightarrow> more_rest = []" using assms(3) replay(3) by (rule pump_invE)
  have "pump_inv log sub p'"
    by (rule pump_invI [where sent = "sent @ [ev]" and lv = "[]" and rest = more_rest])
      (use replay e in \<open>simp_all add: pump_send_def got_def in_hand_def\<close>)
  then show ?thesis using replay assms(2) by auto
next
  case (take_live sub1 ev rest)
  then have s: "sub1 = sub" using assms(2) by simp
  have "pp_last p < ev_Seq ev" using no_duplicate [OF assms(3-5)] take_live s by simp
  then have "pump_inv log (sub\<lparr>sub_live := rest\<rparr>) p'"
    using take_live assms(3) s by (auto simp: pump_inv_def got_def stream_def in_hand_def)
  then show ?thesis using take_live s by (auto simp: sub_update_def)
next
  case (send_live ev)
  obtain sent lv more_rest where e: "pp_start p \<le> length log" "pp_given p = sent @ pp_replay p" "got p = sent @ lv"
    "pp_replay p \<noteq> [] \<longrightarrow> lv = [] \<and> pp_hold p = None" "drop (pp_start p) log = lv @ in_hand p @ sub_live sub @ more_rest"
    "sub_in sub \<longrightarrow> more_rest = []" using assms(3) send_live(3) by (rule pump_invE)
  have "pump_inv log sub p'"
    by (rule pump_invI [where sent = sent and lv = "lv @ [ev]" and rest = more_rest])
      (use send_live e in \<open>simp_all add: pump_send_def got_def in_hand_def\<close>)
  then show ?thesis using send_live assms(2) by auto
next
  case (leave sub1)
  have "prefix (got p) (stream log p)" using assms(3) by (rule pump_inv_prefix)
  then have "pump_inv log sub' p'" for sub' using leave assms(3) by (simp add: pump_inv_def got_def stream_def)
  moreover have "map_of (hub_subs h') i \<noteq> None"
    using leave assms(2) by (simp add: removeSub_subs)
  ultimately show ?thesis by auto
next
  case (receive ev rest)
  then have "got p' = got p" by (simp add: got_def)
  then have "pump_inv log sub p'" using assms(3) receive by (simp add: pump_inv_def stream_def in_hand_def)
  then show ?thesis using receive assms(2) by auto
next
  case cancel
  then have "pump_inv log sub p'" using assms(3) by (simp add: pump_inv_def got_def stream_def in_hand_def)
  then show ?thesis using cancel assms(2) by auto
qed

section \<open>The system\<close>

definition pump_ok :: "SessionEvent list \<Rightarrow> SessionEvent list \<Rightarrow> nat \<Rightarrow> hubSub \<Rightarrow> pump \<Rightarrow> bool" where
  "pump_ok past log latest sub p \<longleftrightarrow> pump_inv log sub p \<and> pump_order log p \<and> sorted (map ev_Seq (pp_given p)) \<and>
     mset (map view (pp_given p)) = mset (map view (filter (\<lambda>e. pp_from p < ev_Seq e) (past @ take (pp_start p) log))) \<and>
     (\<forall>e \<in> set (pp_given p). ev_Seq e \<le> latest) \<and> pp_from p \<le> latest"

definition sys_inv :: "('j \<Rightarrow> bool) \<Rightarrow> ('j \<Rightarrow> EventRecord list) \<Rightarrow> (EventRecord \<Rightarrow> bool) \<Rightarrow> SessionEvent list \<Rightarrow> 'j system \<Rightarrow> bool" where
  "sys_inv jinv events accepts past s \<longleftrightarrow>
     hub_inv jinv events accepts (past @ sy_log s) (sy_hub s) \<and> rising (sy_log s) \<and>
     distinct (map fst (hub_subs (sy_hub s))) \<and> distinct (map fst (sy_pumps s)) \<and>
     (\<forall>x \<in> set (hub_subs (sy_hub s)). fst x < hub_nextSubID (sy_hub s) \<and> sub_watermark (snd x) \<le> hub_latest (sy_hub s)) \<and>
     (\<forall>x \<in> set (sy_pumps s). \<exists>sub. map_of (hub_subs (sy_hub s)) (fst x) = Some sub \<and>
        (pp_whole (snd x) \<longrightarrow> pump_ok past (sy_log s) (hub_latest (sy_hub s)) sub (snd x)))"

lemma buffer_same: "same_streams h (bufferDeltaLocked env out h)"
proof -
  let ?h = "h\<lparr>hub_deltaBuf := map_put (ev_Type out) (pushed_delta out h) (hub_deltaBuf h),
     hub_timer := (hub_timer h \<or> map_of (hub_deltaBuf h) (ev_Type out) = None)\<rparr>"
  have "same_streams h ?h" by (simp add: same_streams_def)
  with same_streams_trans [OF this flush_type_same] show ?thesis
    by (auto simp: bufferDeltaLocked_def Let_def same_streams_def)
qed

lemma publish_streams:
  assumes "Publish env ev h = (err, h')"
  shows "hub_nextSubID h' = hub_nextSubID h"
    "err = None \<Longrightarrow> hub_latest h' = hub_seq h \<and>
       hub_subs h' = map (\<lambda>(i, sub). (i, offer (ingress_event env ev h) sub)) (hub_subs h)"
    "err \<noteq> None \<Longrightarrow> hub_latest h' = hub_latest h \<and> hub_subs h' = hub_subs h"
proof -
  let ?out = "ingress_event env ev h" and ?h = "h\<lparr>hub_seq := next_seq (hub_seq h)\<rparr>"
  obtain ok h1 where a: "append_event env 0 (event_record ?out) ?h = (ok, h1)" by fastforce
  have s: "ev_Seq ?out = hub_seq h" by (simp add: ingress_event_def)
  have sa: "same_streams ?h h1" using append_event_same [of ?h env 0 "event_record ?out"] a by simp
  note sb = buffer_same [of "fanOutLocked ?out (?h\<lparr>hub_latest := hub_seq h\<rparr>)" env ?out]
  consider "hub_closed h" "err = Some HubClosed" "h' = h"
    | "ok" "err = None" "h' = fanOutLocked ?out (h1\<lparr>hub_latest := hub_seq h\<rparr>)"
    | "\<not> ok" "err = Some KeyEventFailed" "h' = h1"
    | "err = None" "same_streams (fanOutLocked ?out (?h\<lparr>hub_latest := hub_seq h\<rparr>)) h'"
    using assms a s sb by (auto simp: Publish_def Let_def split: if_splits)
  note cs = this
  from cs show "hub_nextSubID h' = hub_nextSubID h" by cases (use sa in \<open>auto simp: same_streams_def fanOutLocked_def\<close>)
  from cs show "hub_latest h' = hub_seq h \<and> hub_subs h' = map (\<lambda>(i, sub). (i, offer ?out sub)) (hub_subs h)" if "err = None"
    by cases (use sa that in \<open>auto simp: same_streams_def fanOutLocked_def\<close>)
  from cs show "hub_latest h' = hub_latest h \<and> hub_subs h' = hub_subs h" if "err \<noteq> None"
    by cases (use sa that in \<open>auto simp: same_streams_def\<close>)
qed

text \<open>A change of the hub that keeps the events, the queues and the counters.\<close>

lemma sys_inv_hub:
  assumes "sys_inv jinv events accepts past s" and "hub_inv jinv events accepts (past @ sy_log s) h"
    and "hub_subs h = map (\<lambda>(i, sub). (i, f sub)) (hub_subs (sy_hub s))" and "hub_latest h = hub_latest (sy_hub s)"
    and "hub_nextSubID h = hub_nextSubID (sy_hub s)"
    and "\<And>sub. sub_live (f sub) = sub_live sub \<and> sub_watermark (f sub) = sub_watermark sub \<and> (sub_in (f sub) \<longrightarrow> sub_in sub)"
  shows "sys_inv jinv events accepts past (s\<lparr>sy_hub := h\<rparr>)"
proof -
  have "pump_inv log (f sub) p" if "pump_inv log sub p" for log sub p
    using pump_inv_sub [OF that] assms(6) by blast
  then have ok: "pump_ok past log latest (f sub) p" if "pump_ok past log latest sub p" for log latest sub p
    using that by (simp add: pump_ok_def)
  have m: "map_of (hub_subs h) i = map_option f (map_of (hub_subs (sy_hub s)) i)" for i by (simp add: assms(3) map_of_map)
  have k: "map fst (hub_subs h) = map fst (hub_subs (sy_hub s))" by (simp add: assms(3) comp_def split_beta)
  have pm: "\<exists>sub. map_of (hub_subs h) (fst x) = Some sub \<and>
      (pp_whole (snd x) \<longrightarrow> pump_ok past (sy_log s) (hub_latest (sy_hub s)) sub (snd x))" if "x \<in> set (sy_pumps s)" for x
    using that assms(1) ok unfolding sys_inv_def m by fastforce
  have sb: "fst x < hub_nextSubID (sy_hub s) \<and> sub_watermark (snd x) \<le> hub_latest (sy_hub s)" if "x \<in> set (hub_subs h)" for x
    using that assms(1) assms(6) unfolding sys_inv_def assms(3) by fastforce
  show ?thesis
    using assms(1,2) pm sb unfolding sys_inv_def by (simp add: k assms(4,5))
qed

lemma sys_inv_pump:
  assumes "sys_inv jinv events accepts past s" and "sy_pumps s = ps @ (i, p) # qs" and "pump_step i (sy_hub s) p h p'"
  shows "sys_inv jinv events accepts past (s\<lparr>sy_hub := h, sy_pumps := ps @ (i, p') # qs\<rparr>)"
proof -
  let ?h = "sy_hub s"
  have d: "distinct (map fst (hub_subs ?h))" "distinct (map fst (ps @ (i, p) # qs))"
    using assms(1,2) by (simp_all add: sys_inv_def)
  obtain sub where sub: "map_of (hub_subs ?h) i = Some sub"
      "pp_whole p \<longrightarrow> pump_ok past (sy_log s) (hub_latest ?h) sub p"
    using assms(1,2) by (auto simp: sys_inv_def)
  note st = pump_step_subs [OF assms(3) _ d(1)]
  have ne: "map_of (hub_subs ?h) i \<noteq> None" using sub(1) by simp
  have same: "pp_whole p' = pp_whole p" "pp_given p' = pp_given p" "pp_start p' = pp_start p" "pp_from p' = pp_from p"
    using assms(3) by (cases; simp add: pump_send_def)+
  obtain sub' where sub': "map_of (hub_subs h) i = Some sub'"
      "pp_whole p \<longrightarrow> pump_ok past (sy_log s) (hub_latest ?h) sub' p'"
  proof (cases "pp_whole p")
    case True
    with sub assms(1) pump_step_inv [OF assms(3) sub(1)] that same show thesis
      by (auto simp: pump_ok_def pump_order_def sys_inv_def)
  next
    case False
    with st(3) [OF ne sub(1)] that show thesis by auto
  qed
  have w: "sub_watermark (snd x) \<le> hub_latest ?h" if "x \<in> set (hub_subs h)" for x
  proof -
    have dh: "distinct (map fst (hub_subs h))" using d(1) st(1) [OF ne] by simp
    then have x: "map_of (hub_subs h) (fst x) = Some (snd x)" using that by simp
    obtain y where y: "map_of (hub_subs ?h) (fst x) = Some y" "sub_watermark (snd x) = sub_watermark y"
    proof (cases "fst x = i")
      case False
      then show thesis using that [of "snd x"] st(2) [OF ne False] x by simp
    qed (use st(3) [OF ne sub(1)] x sub(1) that in auto)
    then show ?thesis using assms(1) map_of_SomeD [OF y(1)] by (auto simp: sys_inv_def)
  qed
  have f: "fst ` set (hub_subs h) = fst ` set (hub_subs ?h)" using arg_cong [OF st(1) [OF ne], of set] by simp
  then have n: "fst x < hub_nextSubID ?h" if "x \<in> set (hub_subs h)" for x
    using that assms(1) unfolding sys_inv_def by (metis (no_types, lifting) imageE image_eqI)
  have o: "\<exists>sub. map_of (hub_subs h) (fst x) = Some sub \<and> (pp_whole (snd x) \<longrightarrow> pump_ok past (sy_log s) (hub_latest ?h) sub (snd x))"
    if "x \<in> set ps \<union> set qs" for x
  proof -
    have "fst x \<noteq> i" using that d(2) by auto
    then show ?thesis using st(2) [OF ne] that assms(1,2) by (auto simp: sys_inv_def)
  qed
  show ?thesis
    using assms(1) st(1) [OF ne] st(4-6) [OF ne] sub' same w n o d unfolding sys_inv_def by auto
qed

context event_journal
begin

lemma sys_inv_publish:
  assumes "sys_inv jinv events accepts past s" and "works env" and "Suc (hub_seq (sy_hub s)) < 2 ^ 64"
    and "accepts (publish_record env ev (sy_hub s))" and "Publish env ev (sy_hub s) = (err, h)"
  shows "sys_inv jinv events accepts past (s\<lparr>sy_hub := h,
    sy_log := sy_log s @ (if err = None then [ingress_event env ev (sy_hub s)] else [])\<rparr>)"
proof -
  let ?h = "sy_hub s" and ?out = "ingress_event env ev (sy_hub s)"
  have hi: "hub_inv jinv events accepts (past @ sy_log s) ?h" using assms(1) by (simp add: sys_inv_def)
  note pi = publish_inv [OF assms(2) hi assms(3-5)] and ps = publish_streams [OF assms(5)]
  show ?thesis
  proof (cases "err = None")
    case False
    then obtain e where "err = Some e" by auto
    then show ?thesis
      using sys_inv_hub [OF assms(1), where f = "\<lambda>sub. sub" and h = h] pi ps by simp
  next
    case True
    have sq: "hub_latest ?h < ev_Seq ?out" "ev_Seq ?out = hub_seq ?h" using hi by (simp_all add: hub_inv_def ingress_event_def)
    have old: "ev_Seq e \<le> hub_latest ?h" if "e \<in> set (sy_log s)" for e using that hi by (simp add: hub_inv_def)
    have m: "map_of (hub_subs h) i = map_option (offer ?out) (map_of (hub_subs ?h) i)" for i
      using ps(2) [OF True] by (simp add: map_of_map)
    have k: "map fst (hub_subs h) = map fst (hub_subs ?h)" using ps(2) [OF True] by (simp add: comp_def split_beta)
    have po: "pump_ok past (sy_log s @ [?out]) (hub_latest h) (offer ?out sub) p"
      if "pump_ok past (sy_log s) (hub_latest ?h) sub p" "sub_watermark sub \<le> hub_latest ?h" for sub p
    proof -
      have "pump_inv (sy_log s @ [?out]) (offer ?out sub) p"
        using that sq by (intro pump_inv_offer) (auto simp: pump_ok_def)
      moreover have "pp_start p \<le> length (sy_log s)" using that(1) by (simp add: pump_ok_def pump_inv_def)
      ultimately show ?thesis
        using that(1) sq ps(2) [OF True] by (fastforce simp: pump_ok_def pump_order_def)
    qed
    have pm: "\<exists>sub. map_of (hub_subs h) (fst x) = Some sub \<and> (pp_whole (snd x) \<longrightarrow>
        pump_ok past (sy_log s @ [?out]) (hub_latest h) sub (snd x))" if x: "x \<in> set (sy_pumps s)" for x
    proof -
      obtain sub where sub: "map_of (hub_subs ?h) (fst x) = Some sub"
          "pp_whole (snd x) \<longrightarrow> pump_ok past (sy_log s) (hub_latest ?h) sub (snd x)"
        using x assms(1) by (auto simp: sys_inv_def)
      moreover have "sub_watermark sub \<le> hub_latest ?h" using map_of_SomeD [OF sub(1)] assms(1) by (auto simp: sys_inv_def)
      ultimately show ?thesis using po by (simp add: m)
    qed
    have sb: "fst x < hub_nextSubID ?h \<and> sub_watermark (snd x) \<le> hub_latest h" if x: "x \<in> set (hub_subs h)" for x
    proof -
      obtain y where y: "y \<in> set (hub_subs ?h)" "fst x = fst y" "sub_watermark (snd x) = sub_watermark (snd y)"
        using x ps(2) [OF True] by (auto simp: offer_def)
      then show ?thesis using assms(1) sq ps(2) [OF True] by (fastforce simp: sys_inv_def)
    qed
    have "rising (sy_log s @ [?out])"
      using assms(1) old sq by (fastforce simp: sys_inv_def rising_def sorted_wrt_append)
    then show ?thesis using assms(1) pi ps(1) k pm sb True unfolding sys_inv_def by simp
  qed
qed

lemma sys_inv_subscribe:
  assumes "sys_inv jinv events accepts past s" and "works env" and "Subscribe_hub env c (sy_hub s) = (Inr (i, replay), h)"
  shows "sys_inv jinv events accepts past (s\<lparr>sy_hub := h, sy_pumps := sy_pumps s @ [(i, new_pump c replay (length (sy_log s)) (undamaged h))]\<rparr>)"
proof -
  let ?h = "sy_hub s" and ?p = "new_pump c replay (length (sy_log s)) (undamaged h)"
  have hi: "hub_inv jinv events accepts (past @ sy_log s) ?h" using assms(1) by (simp add: sys_inv_def)
  note si = subscribe_inv [OF assms(2) hi assms(3)]
  have fl: "same_streams ?h (flushAllDeltaLocked env ?h)" using flush_all_inv(3) [OF assms(2) hi] .
  have h: "i = hub_nextSubID ?h" "hub_latest h = hub_latest ?h" "hub_nextSubID h = Suc i"
    "hub_subs h = hub_subs ?h @ [(i, \<lparr>sub_in = True, sub_live = [], sub_watermark = hub_latest ?h, sub_dead = False\<rparr>)]"
    using assms(3) fl by (auto simp: Subscribe_hub_def Let_def same_streams_def split: if_splits option.splits)
  have new: "i \<notin> fst ` set (hub_subs ?h)" using assms(1) h(1) by (fastforce simp: sys_inv_def)
  have pk: "i \<notin> fst ` set (sy_pumps s)"
  proof
    assume "i \<in> fst ` set (sy_pumps s)"
    then obtain sub where "map_of (hub_subs ?h) i = Some sub" using assms(1) by (fastforce simp: sys_inv_def)
    then show False using new by (metis domI dom_map_of_conv_image_fst)
  qed
  have old: "ev_Seq e \<le> hub_latest ?h" if "e \<in> set (past @ sy_log s)" for e using that hi unfolding hub_inv_def by blast
  have "ev_Seq e \<le> hub_latest ?h" if u: "undamaged h" and e: "e \<in> set replay" for e
  proof -
    have "view e \<in># mset (map view (filter (\<lambda>e. c < ev_Seq e) (past @ sy_log s)))"
      using si(3) [OF refl u] e by (metis image_eqI list.set_map set_mset_mset)
    then show ?thesis using old by (auto simp: view_def)
  qed
  then have ok: "pump_ok past (sy_log s) (hub_latest ?h) \<lparr>sub_in = True, sub_live = [], sub_watermark = hub_latest ?h, sub_dead = False\<rparr> ?p"
    if "undamaged h"
    using si(3) [OF refl that] that
    by (simp add: pump_ok_def pump_inv_def pump_order_def new_pump_def got_def stream_def in_hand_def)
  have pm: "\<exists>sub. map_of (hub_subs h) (fst x) = Some sub \<and> (pp_whole (snd x) \<longrightarrow> pump_ok past (sy_log s) (hub_latest ?h) sub (snd x))"
    if "x \<in> set (sy_pumps s)" for x
    using that assms(1) by (fastforce simp: sys_inv_def h(4) map_add_Some_iff)
  have mi: "map_of (hub_subs h) i = Some \<lparr>sub_in = True, sub_live = [], sub_watermark = hub_latest ?h, sub_dead = False\<rparr>"
    using new by (simp add: h(4) map_add_def map_of_eq_None_iff split: option.split) (metis domI dom_map_of_conv_image_fst)
  have w: "pp_whole ?p = undamaged h" by (simp add: new_pump_def)
  have d: "distinct (map fst (hub_subs h))" using assms(1) new by (simp add: sys_inv_def h(4))
  have sb: "fst x < Suc i \<and> sub_watermark (snd x) \<le> hub_latest ?h" if "x \<in> set (hub_subs h)" for x
    using that assms(1) unfolding h(4) by (auto simp: sys_inv_def h(1))
  have pn: "\<exists>sub. map_of (hub_subs h) i = Some sub \<and> (pp_whole ?p \<longrightarrow> pump_ok past (sy_log s) (hub_latest ?h) sub ?p)"
    using mi ok w by blast
  show ?thesis
    using assms(1) si(1) d sb pm pn pk unfolding sys_inv_def by (simp add: h(2,3))
qed

lemma hub_inv_run [simp]:
  "hub_inv jinv events accepts evs (h\<lparr>hub_curRunID := r\<rparr>) = hub_inv jinv events accepts evs h"
  "hub_inv jinv events accepts evs (h\<lparr>hub_closed := b\<rparr>) = hub_inv jinv events accepts evs h"
  "hub_inv jinv events accepts evs (h\<lparr>hub_subs := subs\<rparr>) = hub_inv jinv events accepts evs h"
  by (simp_all add: hub_inv_def batch_record_def)

lemma sys_inv_flush:
  assumes "sys_inv jinv events accepts past s" and "works env" and "hub_subs h = hub_subs (flushAllDeltaLocked env (sy_hub s))"
    and "hub_latest h = hub_latest (flushAllDeltaLocked env (sy_hub s))"
    and "hub_nextSubID h = hub_nextSubID (flushAllDeltaLocked env (sy_hub s))"
    and "hub_inv jinv events accepts (past @ sy_log s) (flushAllDeltaLocked env (sy_hub s)) \<Longrightarrow> hub_inv jinv events accepts (past @ sy_log s) h"
  shows "sys_inv jinv events accepts past (s\<lparr>sy_hub := h\<rparr>)"
proof -
  have "hub_inv jinv events accepts (past @ sy_log s) (sy_hub s)" using assms(1) by (simp add: sys_inv_def)
  note fl = flush_all_inv [OF assms(2) this]
  from fl(3) show ?thesis
    using sys_inv_hub [OF assms(1) assms(6) [OF fl(1)], where f = "\<lambda>sub. sub"] assms(3-5)
    by (simp add: same_streams_def)
qed

lemma sys_inv_close:
  assumes "sys_inv jinv events accepts past s" and "works env"
  shows "sys_inv jinv events accepts past (s\<lparr>sy_hub := snd (Close_hub env (sy_hub s))\<rparr>)"
proof (cases "hub_closed (sy_hub s)")
  case False
  let ?h = "sy_hub s\<lparr>hub_closed := True\<rparr>"
  have "hub_inv jinv events accepts (past @ sy_log s) ?h" using assms(1) by (simp add: sys_inv_def)
  note fl = flush_all_inv [OF assms(2) this]
  let ?c = "(flushAllDeltaLocked env ?h)\<lparr>hub_subs := map (\<lambda>(i, sub). (i, disconnect sub)) (hub_subs (flushAllDeltaLocked env ?h))\<rparr>"
  have "snd (Close_hub env (sy_hub s)) = ?c" using False by (simp add: Close_hub_def Let_def split: option.splits)
  moreover have "sys_inv jinv events accepts past (s\<lparr>sy_hub := ?c\<rparr>)"
  proof (rule sys_inv_hub [OF assms(1), where f = disconnect])
    show "hub_inv jinv events accepts (past @ sy_log s) ?c" using fl(1) by simp
  qed (use fl(3) in \<open>simp_all add: same_streams_def disconnect_def\<close>)
  ultimately show ?thesis by simp
qed (use assms in \<open>simp add: Close_hub_def\<close>)

lemma reach_sys_inv:
  assumes "jinv j" and "sys_reach works accepts j s"
  shows "sys_inv jinv events accepts (history (events j)) s"
  using assms(2)
proof induction
  case (new env sid h)
  then show ?case using new_hub_inv [OF new(1) assms(1) new(2,3)] by (simp add: sys_inv_def rising_def)
next
  case (step s s')
  from step.hyps(2) step.IH show ?case
  proof cases
    case (publish env ev err h)
    with step.IH show ?thesis using sys_inv_publish by blast
  next
    case (begin_run env runID)
    then show ?thesis using sys_inv_flush [OF step.IH begin_run(2)] step.IH by (simp add: BeginRun_def)
  next
    case (end_run env)
    then show ?thesis using sys_inv_flush [OF step.IH end_run(2)] step.IH by (simp add: EndRun_def)
  next
    case (timer env)
    then show ?thesis using sys_inv_flush [OF step.IH timer(2)] step.IH by (simp add: flushDeltaOnTimer_def)
  next
    case (states env jn)
    have "hub_inv jinv events accepts (history (events j) @ sy_log s) (sy_hub s)" using step.IH by (simp add: sys_inv_def)
    from states_inv [OF states(2) this states(3)] states(1) show ?thesis
      using sys_inv_hub [OF step.IH, where f = "\<lambda>sub. sub"] by simp
  next
    case (closing env)
    then show ?thesis using sys_inv_close [OF step.IH] by simp
  next
    case (subscribe env c i replay h)
    then show ?thesis using sys_inv_subscribe [OF step.IH] by simp
  next
    case (refused env c e h)
    have "hub_inv jinv events accepts (history (events j) @ sy_log s) (sy_hub s)" using step.IH by (simp add: sys_inv_def)
    from subscribe_inv [OF refused(2) this refused(3)] refused(1) show ?thesis
      using sys_inv_hub [OF step.IH, where f = "\<lambda>sub. sub" and h = h] by (simp add: same_streams_def)
  next
    case (pump ps i p qs h p')
    then show ?thesis using sys_inv_pump [OF step.IH] by simp
  qed
qed

lemma delivery:
  assumes "jinv j" and "sys_reach works accepts j s" and "(i, p) \<in> set (sy_pumps s)" and "pp_whole p"
  shows "prefix (pp_recv p) (stream (sy_log s) p)"
    and "sorted (map ev_Seq (stream (sy_log s) p))"
    and "mset (map view (stream (sy_log s) p)) =
      mset (map view (filter (\<lambda>e. pp_from p < ev_Seq e) (history (events j) @ sy_log s)))"
    and "map_of (hub_subs (sy_hub s)) i = Some sub \<Longrightarrow> sub_in sub \<Longrightarrow> \<not> pp_exit p \<Longrightarrow>
      pp_recv p @ pp_ch p @ pp_replay p @ in_hand p @ sub_live sub = stream (sy_log s) p"
proof -
  let ?log = "sy_log s" and ?past = "history (events j)"
  have inv: "sys_inv jinv events accepts ?past s" using assms(1,2) by (rule reach_sys_inv)
  then obtain sub1 where s: "map_of (hub_subs (sy_hub s)) i = Some sub1" "pump_ok ?past ?log (hub_latest (sy_hub s)) sub1 p"
    using assms(3,4) by (fastforce simp: sys_inv_def)
  then have pi: "pump_inv ?log sub1 p" and po: "pump_order ?log p" by (simp_all add: pump_ok_def)
  show "prefix (pp_recv p) (stream ?log p)" using append_prefixD pump_inv_prefix [OF pi] unfolding got_def .
  have rise: "sorted_wrt (\<lambda>a b. ev_Seq a < ev_Seq b) (drop (pp_start p) ?log)"
    using inv by (simp add: sys_inv_def rising_def sorted_wrt_drop)
  then have "sorted (map ev_Seq (drop (pp_start p) ?log))"
    by (simp add: sorted_map) (auto elim: sorted_wrt_mono_rel [rotated])
  with s(2) po show "sorted (map ev_Seq (stream ?log p))"
    by (fastforce simp: stream_def sorted_append pump_ok_def pump_order_def)
  have "filter (\<lambda>e. pp_from p < ev_Seq e) (drop (pp_start p) ?log) = drop (pp_start p) ?log"
    using po by (simp add: filter_id_conv pump_order_def)
  moreover have "?log = take (pp_start p) ?log @ drop (pp_start p) ?log" by simp
  ultimately have "filter (\<lambda>e. pp_from p < ev_Seq e) ?log =
      filter (\<lambda>e. pp_from p < ev_Seq e) (take (pp_start p) ?log) @ drop (pp_start p) ?log"
    by (metis filter_append)
  then show "mset (map view (stream ?log p)) = mset (map view (filter (\<lambda>e. pp_from p < ev_Seq e) (?past @ ?log)))"
    using s(2) by (simp add: pump_ok_def stream_def del: mset_map)
  assume m: "map_of (hub_subs (sy_hub s)) i = Some sub" "sub_in sub" "\<not> pp_exit p"
  then have "sub1 = sub" using s(1) by simp
  from pump_invE [OF pi m(3)] obtain sent lv rest where e: "pp_given p = sent @ pp_replay p" "got p = sent @ lv"
    "pp_replay p \<noteq> [] \<longrightarrow> lv = [] \<and> pp_hold p = None" "drop (pp_start p) ?log = lv @ in_hand p @ sub_live sub1 @ rest"
    "sub_in sub1 \<longrightarrow> rest = []" by metis
  then show "pp_recv p @ pp_ch p @ pp_replay p @ in_hand p @ sub_live sub = stream ?log p"
    using m(2) \<open>sub1 = sub\<close> e(2) unfolding got_def stream_def
    by (cases "pp_replay p = []") (auto simp: in_hand_def simp flip: append_assoc)
qed

text \<open>Once the buckets are empty, the journal holds every event of the session.\<close>

lemma journal_complete:
  assumes "jinv j" and "sys_reach works accepts j s" and "undamaged (sy_hub s)" and "hub_deltaBuf (sy_hub s) = []"
  shows "\<exists>j'. hub_journal (sy_hub s) = Some j' \<and> jinv j' \<and>
    mset (map view (history (events j'))) = mset (map view (history (events j) @ sy_log s))"
  using reach_sys_inv [OF assms(1,2)] assms(3,4) by (auto simp: sys_inv_def hub_inv_def buffered_def)

end

end
