(* ===== verification/Run_Events.thy ===== *)
theory Run_Events
  imports Event_Delivery
begin

text \<open>
  The run journals as the journal of the event hub: the laws of \<open>event_journal\<close> for the files of
  \<^verbatim>\<open>RunJournalStore\<close>, the delivery theorem for the composed system, and the recovery of the journals after a
  crash.
\<close>

section \<open>The events of the files\<close>

definition file_events :: "time_codec \<Rightarrow> string \<times> string \<Rightarrow> EventRecord list" where
  "file_events tz x =
    (if is_journal (fst x) then (case loadEventRecords tz (snd x) of None \<Rightarrow> [] | Some rs \<Rightarrow> rs) else [])"

definition dir_events :: "time_codec \<Rightarrow> string \<Rightarrow> dir \<Rightarrow> EventRecord list" where
  "dir_events tz sid d = filter (\<lambda>r. er_SessionID r = sid) (concat (map (file_events tz) d))"

text \<open>
  What holds of the store of the journals: every handle is open on a file of complete readable lines.
  The other files may have been left behind by a crash.
\<close>

definition run_inv :: "time_codec \<Rightarrow> string \<Rightarrow> RunJournalStore \<Rightarrow> bool" where
  "run_inv tz sid s \<longleftrightarrow> rs_sessionID s = sid \<and> distinct (map fst (runs_of s)) \<and>
     (\<forall>x \<in> set (rs_handles s). jn_open (snd x) \<and> is_journal (jn_file (snd x)) \<and>
        (\<exists>f ms. map_of (runs_of s) (jn_file (snd x)) = Some f \<and> journal_file tz f ms))"

definition run_accepts :: "time_codec \<Rightarrow> string \<Rightarrow> EventRecord \<Rightarrow> bool" where
  "run_accepts tz sid r \<longleftrightarrow> er_SessionID r = sid \<and> event_ok tz (r\<lparr>er_Kind := eventKind\<rparr>) \<and>
     (case event_members tz (r\<lparr>er_Kind := eventKind\<rparr>) of None \<Rightarrow> False | Some m \<Rightarrow> length (json_text (JObj m)) < max_line)"

definition state_fits :: "time_codec \<Rightarrow> RunStateRecord \<Rightarrow> bool" where
  "state_fits tz r \<longleftrightarrow> sr_Kind r = stateKind \<and> state_ok tz r \<and>
     (case state_members tz r of None \<Rightarrow> False | Some m \<Rightarrow> length (json_text (JObj m)) < max_line)"

text \<open>
  The environment of the hub: the calls of the store, each append with its own system calls, and a state
  record that the runtime writes beside the hub. Appends of events may fail at any byte; a state record
  is written whole or not at all.
\<close>

definition run_env :: "(nat \<Rightarrow> journal_env) \<Rightarrow> journal_env \<Rightarrow> RunStateRecord \<Rightarrow> time \<Rightarrow> (string list \<Rightarrow> string list) \<Rightarrow> RunJournalStore hub_env" where
  "run_env je se r now ord =
    \<lparr>he_append = (\<lambda>k r s. case journal_AppendEvent (je k) r s of (err, s) \<Rightarrow> (err = None, s)),
     he_read = (\<lambda>c s. case ReadEvents (je 0) c s of Inl e \<Rightarrow> None | Inr rs \<Rightarrow> Some rs),
     he_range = (\<lambda>s. case SeqRange (je 0) s of Inl e \<Rightarrow> None | Inr r \<Rightarrow> Some r),
     he_close = (\<lambda>s. True), he_now = now, he_order = ord, he_states = (\<lambda>s. snd (AppendState se r s))\<rparr>"

definition run_works :: "time_codec \<Rightarrow> RunJournalStore hub_env \<Rightarrow> bool" where
  "run_works tz env \<longleftrightarrow> (\<exists>je se r now ord. env = run_env je se r now ord \<and> (\<forall>k. je_tz (je k) = tz) \<and>
     je_tz se = tz \<and> je_write se \<in> {WriteOK, WriteFail 0} \<and> state_fits tz r \<and> (\<forall>ks. mset (ord ks) = mset ks))"

section \<open>Appending\<close>

lemma mset_insort_kv: "mset (insort_kv x d) = add_mset x (mset d)"
  by (induction x d rule: insort_kv.induct) auto

lemma map_of_put_file: "map_of (put_file name f d) n = (if n = name then map_option (\<lambda>_. f) (map_of d n) else map_of d n)"
  by (induction d) (auto simp: put_file_def)

lemma put_file_same: "distinct (map fst d) \<Longrightarrow> map_of d name = Some f \<Longrightarrow> put_file name f d = d"
  unfolding put_file_def by (intro map_idI) (auto simp: map_of_eq_Some_iff dest: eq_key_imp_eq_value)

lemma fst_put_file [simp]: "map fst (put_file name f d) = map fst d"
  by (induction d) (auto simp: put_file_def)

lemma put_file_events:
  assumes "distinct (map fst d)" and "map_of d name = Some f"
  shows "mset (concat (map g (put_file name f' d))) + mset (g (name, f)) = mset (concat (map g d)) + mset (g (name, f'))"
  using assms
proof (induction d)
  case (Cons x d)
  show ?case
  proof (cases "fst x = name")
    case True
    then have "name \<notin> fst ` set d" using Cons.prems(1) by auto
    then have "put_file name f' d = d" unfolding put_file_def by (intro map_idI) force
    then show ?thesis using True Cons.prems(2) by (cases x) (simp add: put_file_def add_ac)
  next
    case False
    then have "put_file name f' (x # d) = x # put_file name f' d" by (cases x) (simp add: put_file_def)
    then show ?thesis using False Cons by (cases x) (simp add: add_ac)
  qed
qed simp

lemma is_journal_name [simp]: "is_journal (journal_name r)"
  by (simp add: is_journal_def journal_name_def HasPrefix_def)

lemma OpenRunJournal_new:
  assumes "OpenRunJournal env sid runID (rs_runs s) = (Inr j, runs)"
  shows "map_of (runs_of s) (journal_name runID) = None" "j = \<lparr>jn_open = True, jn_file = journal_name runID\<rparr>"
    "runs = Some (insort_kv (journal_name runID, []) (runs_of s))"
  using assms unfolding OpenRunJournal_def runs_of_def Let_def by (simp_all split: if_splits)

text \<open>The handle of a run is on a good file, and a new file adds no event.\<close>

lemma journal_handle_inv:
  assumes "run_inv tz sid s" and "journal_handle env runID s = (Inr j, s')"
  shows "run_inv tz sid s'" "jn_open j \<and> is_journal (jn_file j) \<and> (\<exists>f ms. map_of (runs_of s') (jn_file j) = Some f \<and> journal_file tz f ms)"
    "mset (dir_events tz sid (runs_of s')) = mset (dir_events tz sid (runs_of s))"
proof -
  let ?d = "runs_of s" and ?n = "journal_name runID"
  consider (old) "map_of (rs_handles s) runID = Some j" "s' = s"
    | (new) "map_of ?d ?n = None" "j = \<lparr>jn_open = True, jn_file = ?n\<rparr>"
        "s' = s\<lparr>rs_runs := Some (insort_kv (?n, []) ?d), rs_handles := map_put runID j (rs_handles s)\<rparr>"
  proof (cases "map_of (rs_handles s) runID")
    case None
    then obtain runs where o: "OpenRunJournal (env\<lparr>je_live := True\<rparr>) (rs_sessionID s) runID (rs_runs s) = (Inr j, runs)"
      "s' = s\<lparr>rs_runs := runs, rs_handles := map_put runID j (rs_handles s)\<rparr>"
      using assms(2) by (simp add: journal_handle_def split: prod.splits sum.splits)
    show thesis using OpenRunJournal_new [OF o(1)] o(2) new by blast
  next
    case (Some j1)
    with assms(2) have "j1 = j" "s' = s" by (simp_all add: journal_handle_def)
    then show thesis using Some old by blast
  qed
  note cs = this
  have new_dir: "distinct (map fst (insort_kv (?n, []) ?d))" "map_of (insort_kv (?n, []) ?d) = (map_of ?d)(?n \<mapsto> [])"
      "mset (dir_events tz sid (insort_kv (?n, []) ?d)) = mset (dir_events tz sid ?d)" if "map_of ?d ?n = None"
  proof -
    have m: "mset (insort_kv (?n, []) ?d) = mset ((?n, []) # ?d)" by (simp add: mset_insort_kv)
    have nd: "distinct (map fst ((?n, []) # ?d))" using that assms(1) by (simp add: run_inv_def map_of_eq_None_iff)
    have "mset (map fst (insort_kv (?n, []) ?d)) = mset (map fst ((?n, []) # ?d))" using m by simp
    then show d: "distinct (map fst (insort_kv (?n, []) ?d))" using nd mset_eq_imp_distinct_iff by blast
    show "map_of (insort_kv (?n, []) ?d) = (map_of ?d)(?n \<mapsto> [])"
      using map_of_inject_set [OF d nd] mset_eq_setD [OF m] by simp
    have "mset (concat (map (file_events tz) xs)) = \<Sum>\<^sub># (image_mset (mset \<circ> file_events tz) (mset xs))" for xs
      by (induction xs) simp_all
    then have "mset (concat (map (file_events tz) (insort_kv (?n, []) ?d))) = mset (concat (map (file_events tz) ((?n, []) # ?d)))"
      using m by metis
    moreover have "file_events tz (?n, []) = []" using load_journal(2) [OF journal_file_Nil, of tz] by (simp add: file_events_def line_events_def)
    ultimately show "mset (dir_events tz sid (insort_kv (?n, []) ?d)) = mset (dir_events tz sid ?d)"
      unfolding dir_events_def by simp
  qed
  from cs show "mset (dir_events tz sid (runs_of s')) = mset (dir_events tz sid ?d)"
    by cases (use new_dir in \<open>simp_all add: runs_of_def\<close>)
  from cs show "jn_open j \<and> is_journal (jn_file j) \<and> (\<exists>f ms. map_of (runs_of s') (jn_file j) = Some f \<and> journal_file tz f ms)"
  proof cases
    case old
    then show ?thesis using assms(1) map_of_SomeD [OF old(1)] by (fastforce simp: run_inv_def)
  next
    case new
    then show ?thesis using new_dir(2) by (auto simp: runs_of_def intro: journal_file_Nil)
  qed
  from cs show "run_inv tz sid s'"
  proof cases
    case new
    have "jn_open (snd x) \<and> is_journal (jn_file (snd x)) \<and>
        (\<exists>f ms. map_of (runs_of s') (jn_file (snd x)) = Some f \<and> journal_file tz f ms)" if "x \<in> set (rs_handles s')" for x
    proof (cases "x = (runID, j)")
      case True
      then show ?thesis using new new_dir(2) by (auto simp: runs_of_def intro: journal_file_Nil)
    next
      case False
      have "x \<in> set (map_put runID j (rs_handles s))" using that new(3) by simp
      then have "x \<in> set (rs_handles s)" using in_map_put [of x runID j] False by blast
      then obtain f ms where x: "jn_open (snd x)" "is_journal (jn_file (snd x))" "map_of ?d (jn_file (snd x)) = Some f" "journal_file tz f ms"
        using assms(1) unfolding run_inv_def by blast
      then have "map_of (runs_of s') (jn_file (snd x)) = Some f" using new(1,3) new_dir(2) [OF new(1)] by (auto simp: runs_of_def)
      then show ?thesis using x by blast
    qed
    then show ?thesis using assms(1) new new_dir(1) by (simp add: run_inv_def runs_of_def)
  qed (use assms(1) in simp)
qed

text \<open>A line that is written whole at the end of the file of a handle adds the event of the line, if it is one.\<close>

lemma journal_append_inv:
  assumes "run_inv tz sid s" and "jn_open j \<and> is_journal (jn_file j) \<and> (\<exists>f ms. map_of (runs_of s) (jn_file j) = Some f \<and> journal_file tz f ms)"
    and "wf_json (JObj m)" and "length (json_text (JObj m)) < max_line" and "readable tz m"
    and "je_write env = WriteOK" and "journal_append env (Some m) j s = (err, s')"
  shows "err = None \<and> run_inv tz sid s' \<and>
    mset (dir_events tz sid (runs_of s')) = mset (filter (\<lambda>r. er_SessionID r = sid) (line_events tz [m])) + mset (dir_events tz sid (runs_of s))"
proof -
  obtain f ms where f: "map_of (runs_of s) (jn_file j) = Some f" "journal_file tz f ms" "jn_open j" "is_journal (jn_file j)" using assms(2) by blast
  let ?f = "f @ json_text (JObj m) @ [nl]"
  have j': "journal_file tz ?f (ms @ [m])" using f(2) assms(3-5) by (rule journal_written)
  have w: "err = None" "s' = s\<lparr>rs_runs := Some (put_file (jn_file j) ?f (runs_of s))\<rparr>"
    using assms(6,7) f(1,3) by (auto simp: journal_append_def appendRecordLine_def simp del: json_text.simps)
  have d: "distinct (map fst (runs_of s))" using assms(1) by (simp add: run_inv_def)
  have e: "file_events tz (jn_file j, ?f) = file_events tz (jn_file j, f) @ line_events tz [m]"
    using load_journal(2) [OF j'] load_journal(2) [OF f(2)] f(4) by (simp add: file_events_def line_events_def del: json_text.simps)
  have "mset (concat (map (file_events tz) (runs_of s'))) = mset (line_events tz [m]) + mset (concat (map (file_events tz) (runs_of s)))"
    using put_file_events [OF d f(1), of "file_events tz" ?f] e by (simp add: w(2) runs_of_def del: json_text.simps)
  then have "mset (dir_events tz sid (runs_of s')) =
      mset (filter (\<lambda>r. er_SessionID r = sid) (line_events tz [m])) + mset (dir_events tz sid (runs_of s))"
    unfolding dir_events_def mset_filter by simp
  moreover have "run_inv tz sid s'"
    using assms(1) j' f(1) d unfolding run_inv_def w(2)
    by (fastforce simp: runs_of_def map_of_put_file simp del: json_text.simps)
  ultimately show ?thesis using w(1) by simp
qed

lemma run_appended:
  assumes "run_inv tz sid s" and "run_accepts tz sid r" and "je_tz env = tz" and "journal_AppendEvent env r s = (None, s')"
  shows "run_inv tz sid s' \<and> mset (dir_events tz sid (runs_of s')) = add_mset (r\<lparr>er_Kind := eventKind\<rparr>) (mset (dir_events tz sid (runs_of s)))"
proof -
  let ?r = "r\<lparr>er_Kind := eventKind\<rparr>"
  obtain j s1 where h: "journal_handle env (er_RunID r) s = (Inr j, s1)" "journal_append env (event_members tz ?r) j s1 = (None, s')"
    using assms(3,4) by (auto simp: journal_AppendEvent_def split: if_splits prod.splits sum.splits)
  note hi = journal_handle_inv [OF assms(1) h(1)]
  have "event_ok tz ?r" using assms(2) by (simp add: run_accepts_def)
  then obtain m st where m: "event_members tz ?r = Some m" "wf_json (JObj m)" "event_of_members tz m = Some ?r"
      "state_of_members tz m = Some st" by (rule event_line)
  have len: "length (json_text (JObj m)) < max_line" using assms(2) m(1) by (simp add: run_accepts_def del: json_text.simps)
  have rd: "readable tz m" using m by (simp add: readable_def)
  have "je_write env = WriteOK" using h(2) m(1) hi(2)
    by (cases "je_write env") (auto simp: journal_append_def appendRecordLine_def simp del: json_text.simps)
  from journal_append_inv [OF hi(1,2) m(2) len rd this h(2) [unfolded m(1)]] hi(3) m(3) assms(2) show ?thesis
    by (simp add: line_events_def run_accepts_def)
qed

lemma runs_of_handles [simp]: "runs_of (s\<lparr>rs_handles := hs\<rparr>) = runs_of s"
  by (simp add: runs_of_def)

lemma run_inv_fewer:
  assumes "run_inv tz sid s" and "runs_of s' = runs_of s" and "set (rs_handles s') \<subseteq> set (rs_handles s)" and "rs_sessionID s' = rs_sessionID s"
  shows "run_inv tz sid s'"
  using assms unfolding run_inv_def by (metis subsetD)

lemma run_inv_handles: "run_inv tz sid s \<Longrightarrow> run_inv tz sid (s\<lparr>rs_handles := filter P (rs_handles s)\<rparr>)"
  by (erule run_inv_fewer) simp_all

lemma journal_handle_error:
  assumes "journal_handle env runID s = (Inl e, s')"
  shows "runs_of s' = runs_of s \<and> rs_handles s' = rs_handles s \<and> rs_sessionID s' = rs_sessionID s"
  using assms unfolding journal_handle_def OpenRunJournal_def
  by (auto simp: Let_def runs_of_def split: option.splits prod.splits sum.splits if_splits)

text \<open>A state record adds no event and leaves good files behind.\<close>

lemma run_state_written:
  assumes "run_inv tz sid s" and "je_tz env = tz" and "je_write env \<in> {WriteOK, WriteFail 0}" and "state_fits tz r"
  shows "run_inv tz sid (snd (AppendState env r s)) \<and> mset (dir_events tz sid (runs_of (snd (AppendState env r s)))) = mset (dir_events tz sid (runs_of s))"
proof (cases "sr_RunID r = []")
  case False
  obtain x s1 where h: "journal_handle env (sr_RunID r) s = (x, s1)" by fastforce
  show ?thesis
  proof (cases x)
    case (Inl e)
    with journal_handle_error [of env "sr_RunID r" s e s1] h False run_inv_fewer [OF assms(1), of s1] show ?thesis
      by (simp add: AppendState_def)
  next
    case (Inr j)
    note hi = journal_handle_inv [OF assms(1) h [unfolded Inr]]
    have "state_ok tz r" using assms(4) by (simp add: state_fits_def)
    then obtain m e where m: "state_members tz r = Some m" "wf_json (JObj m)" "state_of_members tz m = Some r"
        "event_of_members tz m = Some e" "er_Kind e = sr_Kind r" by (rule state_line)
    have len: "length (json_text (JObj m)) < max_line" using assms(4) m(1) by (simp add: state_fits_def del: json_text.simps)
    have rd: "readable tz m" using m by (simp add: readable_def)
    have no: "line_events tz [m] = []" using m(4,5) assms(4) by (simp add: line_events_def state_fits_def stateKind_def eventKind_def)
    obtain err s2 where a: "journal_append env (Some m) j s1 = (err, s2)" by fastforce
    have "run_inv tz sid s2 \<and> mset (dir_events tz sid (runs_of s2)) = mset (dir_events tz sid (runs_of s1))"
    proof (cases "je_write env = WriteOK")
      case True
      from journal_append_inv [OF hi(1,2) m(2) len rd True a] no show ?thesis by simp
    next
      case False
      then have w: "je_write env = WriteFail 0" using assms(3) by simp
      obtain f where f: "map_of (runs_of s1) (jn_file j) = Some f" "jn_open j" using hi(2) by blast
      have "put_file (jn_file j) f (runs_of s1) = runs_of s1"
        using put_file_same f(1) hi(1) by (auto simp: run_inv_def)
      then have "runs_of s2 = runs_of s1" "rs_handles s2 = rs_handles s1" "rs_sessionID s2 = rs_sessionID s1"
        using a f w by (auto simp: journal_append_def appendRecordLine_def runs_of_def simp del: json_text.simps)
      then show ?thesis using run_inv_fewer [OF hi(1), of s2] by simp
    qed
    then show ?thesis using hi(3) h Inr False a m(1) assms(2) run_inv_handles
      by (auto simp: AppendState_def)
  qed
qed (use assms in \<open>simp add: AppendState_def\<close>)

section \<open>Reading\<close>

lemma walk_files_events:
  "walk_files env d = Inr rs \<Longrightarrow> rs = concat (map (file_events (je_tz env)) d)"
proof (induction d arbitrary: rs)
  case (Cons x d)
  then show ?case
    by (cases x) (auto simp: file_events_def map_sum_def split: if_splits option.splits sum.splits)
qed simp

lemma walk_events: "walkEventRecords env s = Inr rs \<Longrightarrow> rs = concat (map (file_events (je_tz env)) (runs_of s))"
  by (auto simp: walkEventRecords_def runs_of_def dest: walk_files_events split: option.splits if_splits)

lemma foldl_max_ge: "n \<le> foldl max n ns \<and> (\<forall>x \<in> set ns. x \<le> foldl max n (ns :: nat list))"
proof (induction ns arbitrary: n)
  case (Cons m ns)
  from Cons [of "max n m"] show ?case by auto
qed simp

interpretation run_events: event_journal "run_inv tz sid" "\<lambda>s. dir_events tz sid (runs_of s)" "run_accepts tz sid" "run_works tz"
proof
  fix env j r k j' c rs a b ks
  assume w: "run_works tz env"
  then obtain je se sr now ord where e: "env = run_env je se sr now ord" "\<forall>k. je_tz (je k) = tz" "\<forall>ks. mset (ord ks) = mset ks"
      and st: "je_tz se = tz" "je_write se \<in> {WriteOK, WriteFail 0}" "state_fits tz sr"
    unfolding run_works_def by blast
  show "mset (he_order env ks) = mset ks" by (simp add: e run_env_def)
  assume i: "run_inv tz sid j"
  then have sid: "rs_sessionID j = sid" by (simp add: run_inv_def)
  show "run_inv tz sid j' \<and> mset (dir_events tz sid (runs_of j')) = add_mset (r\<lparr>er_Kind := eventKind\<rparr>) (mset (dir_events tz sid (runs_of j)))"
    if "run_accepts tz sid r" "he_append env k r j = (True, j')"
    using run_appended [OF i that(1), of "je k"] that(2) e by (auto simp: run_env_def split: prod.splits)
  show "run_inv tz sid (he_states env j) \<and> mset (dir_events tz sid (runs_of (he_states env j))) = mset (dir_events tz sid (runs_of j))"
    using run_state_written [OF i st] by (simp add: e run_env_def)
  show "mset rs = mset (filter (\<lambda>r. c < er_Seq r) (dir_events tz sid (runs_of j)))" if rd: "he_read env c j = Some rs"
  proof -
    obtain es where "walkEventRecords (je 0) j = Inr es" "rs = filter (\<lambda>r. er_SessionID r = sid \<and> c < er_Seq r) es"
      using rd sid by (auto simp: e run_env_def ReadEvents_def map_sum_def split: sum.splits)
    with walk_events [of "je 0" j es] e(2) show ?thesis by (simp add: dir_events_def filter_filter_mset conj_commute)
  qed
  have rg: "seq_range (map er_Seq (dir_events tz sid (runs_of j))) = x" if "he_range env j = Some x" for x
    using that walk_events [of "je 0" j] sid e
    by (auto simp: run_env_def SeqRange_def map_sum_def dir_events_def split: sum.splits)
  show "dir_events tz sid (runs_of j) = []" if "he_range env j = Some None"
    using rg [OF that] by (auto simp: seq_range_def split: list.splits)
  show "er_Seq r \<le> b" if "he_range env j = Some (Some (a, b))" "r \<in> set (dir_events tz sid (runs_of j))"
    using rg [OF that(1)] foldl_max_ge that(2) by (auto simp: seq_range_def split: list.splits)
qed

section \<open>Loading\<close>

text \<open>Every journal of the directory can be read: a scan fails only on a line that does not fit the buffer.\<close>

definition loads_all :: "time_codec \<Rightarrow> dir \<Rightarrow> bool" where
  "loads_all tz d \<longleftrightarrow> (\<forall>x \<in> set d. is_journal (fst x) \<longrightarrow> loadEventRecords tz (snd x) \<noteq> None)"

lemma walk_loads: "walk_files env d = Inr rs \<Longrightarrow> loads_all (je_tz env) d"
proof (induction d arbitrary: rs)
  case (Cons x d)
  then show ?case by (cases x) (auto simp: loads_all_def map_sum_def split: if_splits option.splits sum.splits)
qed (simp add: loads_all_def)

lemma loads_walk:
  assumes "loads_all (je_tz env) d" and "\<forall>n. je_read env n"
  shows "\<exists>rs. walk_files env d = Inr rs"
  using assms(1)
proof (induction d)
  case (Cons x d)
  moreover obtain name f where "x = (name, f)" by (cases x)
  ultimately show ?case using assms(2) by (auto simp: loads_all_def split: option.splits)
qed simp

lemma loads_put: "loads_all tz d \<Longrightarrow> loadEventRecords tz f \<noteq> None \<Longrightarrow> loads_all tz (put_file name f d)"
  by (auto simp: loads_all_def put_file_def split: if_splits)

lemma handle_loads:
  assumes "loads_all tz (runs_of s)" and "journal_handle env runID s = (Inr j, s')"
  shows "loads_all tz (runs_of s')"
proof (cases "map_of (rs_handles s) runID")
  case None
  then obtain runs where o: "OpenRunJournal (env\<lparr>je_live := True\<rparr>) (rs_sessionID s) runID (rs_runs s) = (Inr j, runs)"
    "s' = s\<lparr>rs_runs := runs, rs_handles := map_put runID j (rs_handles s)\<rparr>"
    using assms(2) by (simp add: journal_handle_def split: prod.splits sum.splits)
  have "set (insort_kv x d) = insert x (set d)" for x and d :: dir
    using mset_insort_kv [of x d] by (metis set_mset_add_mset_insert set_mset_mset)
  then have "set (runs_of s') = insert (journal_name runID, []) (set (runs_of s))"
    using OpenRunJournal_new(3) [OF o(1)] o(2) by (simp add: runs_of_def)
  moreover have "loadEventRecords tz [] \<noteq> None" using load_journal(2) [OF journal_file_Nil, of tz] by simp
  ultimately show ?thesis using assms(1) by (simp add: loads_all_def)
qed (use assms in \<open>simp add: journal_handle_def\<close>)

lemma append_loads:
  assumes "loads_all tz (runs_of s)" and "\<exists>f ms. map_of (runs_of s) (jn_file j) = Some f \<and> journal_file tz f ms"
    and "wf_json (JObj m)" and "length (json_text (JObj m)) < max_line" and "readable tz m"
    and "je_write env \<in> {WriteOK, WriteFail 0}" and "journal_append env (Some m) j s = (err, s')"
  shows "loads_all tz (runs_of s')"
proof -
  obtain f ms where f: "map_of (runs_of s) (jn_file j) = Some f" "journal_file tz f ms" using assms(2) by blast
  have "loadEventRecords tz (f @ json_text (JObj m) @ [nl]) \<noteq> None" "loadEventRecords tz f \<noteq> None"
    using load_journal(2) [OF journal_written [OF f(2) assms(3-5)]] load_journal(2) [OF f(2)] by simp_all
  then show ?thesis
    using assms(1,6,7) f(1) loads_put [OF assms(1)]
    by (auto simp: journal_append_def appendRecordLine_def runs_of_def simp del: json_text.simps split: if_splits)
qed

lemma appended_loads:
  assumes "run_inv tz sid s" and "run_accepts tz sid r" and "je_tz env = tz" and "journal_AppendEvent env r s = (None, s')"
    and "loads_all tz (runs_of s)"
  shows "loads_all tz (runs_of s')"
proof -
  let ?r = "r\<lparr>er_Kind := eventKind\<rparr>"
  obtain j s1 where h: "journal_handle env (er_RunID r) s = (Inr j, s1)" "journal_append env (event_members tz ?r) j s1 = (None, s')"
    using assms(3,4) by (auto simp: journal_AppendEvent_def split: if_splits prod.splits sum.splits)
  note hi = journal_handle_inv [OF assms(1) h(1)]
  have "event_ok tz ?r" using assms(2) by (simp add: run_accepts_def)
  then obtain m st where m: "event_members tz ?r = Some m" "wf_json (JObj m)" "event_of_members tz m = Some ?r"
      "state_of_members tz m = Some st" by (rule event_line)
  have len: "length (json_text (JObj m)) < max_line" using assms(2) m(1) by (simp add: run_accepts_def del: json_text.simps)
  have "je_write env = WriteOK" using h(2) m(1) hi(2)
    by (cases "je_write env") (auto simp: journal_append_def appendRecordLine_def simp del: json_text.simps)
  with append_loads [OF handle_loads [OF assms(5) h(1)] _ m(2) len _ _ h(2) [unfolded m(1)]] hi(2) m(3,4) show ?thesis
    by (simp add: readable_def)
qed

lemma states_loads:
  assumes "run_inv tz sid s" and "je_tz env = tz" and "je_write env \<in> {WriteOK, WriteFail 0}" and "state_fits tz r"
    and "loads_all tz (runs_of s)"
  shows "loads_all tz (runs_of (snd (AppendState env r s)))"
proof (cases "sr_RunID r = []")
  case False
  obtain x s1 where h: "journal_handle env (sr_RunID r) s = (x, s1)" by fastforce
  show ?thesis
  proof (cases x)
    case (Inl e)
    with journal_handle_error [of env "sr_RunID r" s e s1] h False assms(5) show ?thesis by (simp add: AppendState_def)
  next
    case (Inr j)
    note hi = journal_handle_inv [OF assms(1) h [unfolded Inr]]
    have "state_ok tz r" using assms(4) by (simp add: state_fits_def)
    then obtain m e where m: "state_members tz r = Some m" "wf_json (JObj m)" "state_of_members tz m = Some r"
        "event_of_members tz m = Some e" "er_Kind e = sr_Kind r" by (rule state_line)
    have len: "length (json_text (JObj m)) < max_line" using assms(4) m(1) by (simp add: state_fits_def del: json_text.simps)
    obtain err s2 where a: "journal_append env (Some m) j s1 = (err, s2)" by fastforce
    have "loads_all tz (runs_of s2)"
      using append_loads [OF handle_loads [OF assms(5) h [unfolded Inr]] _ m(2) len _ assms(3) a] hi(2) m(3,4) by (simp add: readable_def)
    then show ?thesis using h Inr False a m(1) assms(2) by (auto simp: AppendState_def)
  qed
qed (use assms in \<open>simp add: AppendState_def\<close>)

text \<open>The same journal once more, with the promise that the files can be read.\<close>

interpretation loaded_events: event_journal "\<lambda>s. run_inv tz sid s \<and> loads_all tz (runs_of s)" "\<lambda>s. dir_events tz sid (runs_of s)"
  "run_accepts tz sid" "run_works tz"
proof
  fix env j r k j' c rs a b ks
  assume w: "run_works tz env"
  then obtain je se sr now ord where e: "env = run_env je se sr now ord" "\<forall>k. je_tz (je k) = tz"
      and st: "je_tz se = tz" "je_write se \<in> {WriteOK, WriteFail 0}" "state_fits tz sr"
    unfolding run_works_def by blast
  show "mset (he_order env ks) = mset ks" using w by (rule run_events.order)
  assume i: "run_inv tz sid j \<and> loads_all tz (runs_of j)"
  show "(run_inv tz sid j' \<and> loads_all tz (runs_of j')) \<and>
      mset (dir_events tz sid (runs_of j')) = add_mset (r\<lparr>er_Kind := eventKind\<rparr>) (mset (dir_events tz sid (runs_of j)))"
    if "run_accepts tz sid r" "he_append env k r j = (True, j')"
    using run_events.appended [OF w _ that] appended_loads [of tz sid j r "je k" j'] i that e
    by (auto simp: run_env_def split: prod.splits)
  show "(run_inv tz sid (he_states env j) \<and> loads_all tz (runs_of (he_states env j))) \<and>
      mset (dir_events tz sid (runs_of (he_states env j))) = mset (dir_events tz sid (runs_of j))"
    using run_events.others [OF w, of sid j] states_loads [OF _ st, of sid j] i by (simp add: e run_env_def)
  show "mset rs = mset (filter (\<lambda>r. c < er_Seq r) (dir_events tz sid (runs_of j)))" if "he_read env c j = Some rs"
    using run_events.read [OF w _ that] i by blast
  show "dir_events tz sid (runs_of j) = []" if "he_range env j = Some None"
    using run_events.range_none [OF w _ that] i by blast
  show "er_Seq r \<le> b" if "he_range env j = Some (Some (a, b))" "r \<in> set (dir_events tz sid (runs_of j))"
    using run_events.range_some [OF w _ that] i by blast
qed

text \<open>A hub that was built has read every journal; and with working reads a hub can be built.\<close>

lemma reach_loads: "sys_reach (run_works tz) acc j s \<Longrightarrow> loads_all tz (runs_of j)"
proof (induction rule: sys_reach.induct)
  case (new env sid h)
  obtain je se sr now ord where e: "env = run_env je se sr now ord" "je_tz (je 0) = tz"
    using new(1) unfolding run_works_def by blast
  then obtain rs where "walkEventRecords (je 0) j = Inr rs"
    using new(2) by (auto simp: NewEventHub_def run_env_def SeqRange_def Let_def map_sum_def split: option.splits sum.splits)
  then show ?case using walk_loads [of "je 0" "runs_of j" rs] e(2)
    by (cases "rs_runs j") (auto simp: walkEventRecords_def runs_of_def loads_all_def split: if_splits)
qed

lemma hub_built:
  assumes "loads_all (je_tz (je 0)) (runs_of j)" and "je_readdir (je 0)" and "\<forall>n. je_read (je 0) n"
  shows "\<exists>h. NewEventHub (run_env je se r now ord) sid (Some j) = Inr h"
proof -
  obtain rs where "walkEventRecords (je 0) j = Inr rs"
    using loads_walk [OF assms(1,3)] assms(2) by (auto simp: walkEventRecords_def runs_of_def split: option.splits)
  then show ?thesis
    by (auto simp: NewEventHub_def run_env_def SeqRange_def Let_def split: option.splits)
qed

section \<open>Recovery\<close>

text \<open>
  A file as a crash leaves it: complete lines and a part of one more line. A recovery whose system calls
  succeed, with markers that are readable again.
\<close>

definition recoverable :: "time_codec \<Rightarrow> string \<Rightarrow> (string \<times> json) list list \<Rightarrow> bool" where
  "recoverable tz f ms \<longleftrightarrow> (\<exists>g m n. journal_file tz g ms \<and> wf_json (JObj m) \<and> length (json_text (JObj m)) < max_line \<and>
     n < length (json_text (JObj m)) \<and> f = g @ take n (json_text (JObj m)))"

definition recovery_works :: "journal_env \<Rightarrow> string \<Rightarrow> bool" where
  "recovery_works env sid \<longleftrightarrow> je_live env \<and> je_close env \<and> je_readdir env \<and> validSessionID sid \<and> je_cached env sid \<and>
     (\<forall>n. je_read env n \<and> je_stat env n \<and> je_truncate env n \<and> je_sync env n \<and> je_reopen env n \<and> je_mark env n = WriteOK)"

definition marker_fits :: "journal_env \<Rightarrow> string \<Rightarrow> string \<Rightarrow> bool" where
  "marker_fits env sid runID \<longleftrightarrow> state_fits (je_tz env) (interrupted_record env sid runID)"

text \<open>A journal that gets no marker: it has no state record, or the last one is terminal.\<close>

definition at_rest :: "RunStateRecord list \<Rightarrow> bool" where
  "at_rest rs \<longleftrightarrow> (case last_state rs of None \<Rightarrow> True | Some r \<Rightarrow> isTerminalRunState (sr_State r))"

text \<open>The state records of a run after the scan.\<close>

definition marked_states :: "journal_env \<Rightarrow> string \<Rightarrow> string \<Rightarrow> RunStateRecord list \<Rightarrow> RunStateRecord list" where
  "marked_states env sid runID rs = (if at_rest rs then rs else rs @ [interrupted_record env sid runID])"

lemma marked_terminal:
  assumes "last_state rs \<noteq> None"
  shows "\<exists>r. last_state (marked_states env sid runID rs) = Some r \<and> isTerminalRunState (sr_State r)"
proof (cases "at_rest rs")
  case True
  then show ?thesis using assms by (auto simp: at_rest_def marked_states_def)
next
  case False
  then show ?thesis by (simp add: marked_states_def last_state_def interrupted_record_def isTerminalRunState_def)
qed

lemma mark_run_at_rest:
  assumes "recovery_works env sid" and "journal_file (je_tz env) f ms" and "at_rest (line_states (je_tz env) ms)"
  shows "mark_run env sid name runID f = (Inr False, f)"
  using assms load_journal(1) [OF assms(2)]
  by (auto simp: mark_run_def recovery_works_def at_rest_def Let_def split: option.splits)

lemma mark_run_recovers:
  assumes "recovery_works env sid" and "recoverable (je_tz env) f ms" and "marker_fits env sid runID"
  obtains f' ms' where "mark_run env sid name runID f = (Inr (\<not> at_rest (line_states (je_tz env) ms)), f')"
    "journal_file (je_tz env) f' ms'" "line_states (je_tz env) ms' = marked_states env sid runID (line_states (je_tz env) ms)"
    "line_events (je_tz env) ms' = line_events (je_tz env) ms"
proof -
  let ?tz = "je_tz env" and ?r = "interrupted_record env sid runID"
  obtain g m n where g: "journal_file ?tz g ms" "wf_json (JObj m)" "length (json_text (JObj m)) < max_line"
      "n < length (json_text (JObj m))" "f = g @ take n (json_text (JObj m))"
    using assms(2) by (auto simp: recoverable_def simp del: json_text.simps)
  have sc: "scanJSONL (unmarshal_object Some) f = Some (ms, length g)" unfolding g(5) using g(1-4) by (rule journal_torn)
  have rd: "\<forall>m \<in> set ms. readable ?tz m" using g(1) by (simp add: journal_file_def)
  note ld = load_scanned(1) [OF sc rd]
  have cut: "(if length g < length f then take (length g) f else f) = g" by (simp add: g(5))
  show thesis
  proof (cases "at_rest (line_states ?tz ms)")
    case True
    then have "mark_run env sid name runID f = (Inr False, g)"
      using assms(1) ld cut by (auto simp: mark_run_def recovery_works_def at_rest_def Let_def split: option.splits if_splits)
    then show thesis using that g(1) True by (simp add: marked_states_def)
  next
    case False
    then obtain r where r: "last_state (line_states ?tz ms) = Some r" "\<not> isTerminalRunState (sr_State r)"
      by (auto simp: at_rest_def split: option.splits)
    have "state_ok ?tz ?r" using assms(3) by (simp add: marker_fits_def state_fits_def)
    then obtain mm e where mm: "state_members ?tz ?r = Some mm" "wf_json (JObj mm)" "state_of_members ?tz mm = Some ?r"
      "event_of_members ?tz mm = Some e" "er_Kind e = sr_Kind ?r" by (rule state_line)
    let ?f = "g @ json_text (JObj mm) @ [nl]"
    have len: "length (json_text (JObj mm)) < max_line" using assms(3) mm(1) by (simp add: marker_fits_def state_fits_def del: json_text.simps)
    have "mark_run env sid name runID f = (Inr True, ?f)"
      using assms(1) ld cut r mm(1)
      by (simp add: mark_run_def recovery_works_def Let_def appendRunStateRecord_def appendRecordLine_def split: if_splits del: json_text.simps)
    moreover have "journal_file ?tz ?f (ms @ [mm])"
      using journal_written [OF g(1) mm(2) len] mm by (simp add: readable_def del: json_text.simps)
    moreover have "line_states ?tz (ms @ [mm]) = marked_states env sid runID (line_states ?tz ms)"
      using mm(3) False by (simp add: line_states_def marked_states_def)
    moreover have "line_events ?tz (ms @ [mm]) = line_events ?tz ms"
      using mm(4,5) by (simp add: line_events_def interrupted_record_def stateKind_def eventKind_def)
    ultimately show thesis using that False by simp
  qed
qed

text \<open>The directory: what holds of every journal before and after.\<close>

definition journals :: "dir \<Rightarrow> (string \<times> string) set" where
  "journals d = {x \<in> set d. is_journal (fst x) \<and> TrimSuffix (fst x) ''.jsonl'' \<noteq> []}"

lemma journals_simps [simp]:
  "journals [] = {}"
  "journals ((name, f) # d) =
     (if is_journal name \<and> TrimSuffix name ''.jsonl'' \<noteq> [] then insert (name, f) (journals d) else journals d)"
  by (auto simp: journals_def)

lemma mark_runs_at_rest:
  assumes "recovery_works env sid"
    and "\<forall>x \<in> journals d. \<exists>ms. journal_file (je_tz env) (snd x) ms \<and> at_rest (line_states (je_tz env) ms)"
  shows "mark_runs env sid marked d = (Inr marked, d)"
  using assms(2)
proof (induction d)
  case (Cons x d)
  obtain name f where x: "x = (name, f)" by (cases x)
  show ?case
  proof (cases "is_journal name \<and> TrimSuffix name ''.jsonl'' \<noteq> []")
    case True
    with Cons.prems x obtain ms where "journal_file (je_tz env) f ms" "at_rest (line_states (je_tz env) ms)" by auto
    note mark_run_at_rest [OF assms(1) this]
    with Cons x True show ?thesis by simp
  next
    case False
    then have "mark_runs env sid marked (x # d) = map_prod (\<lambda>r. r) ((#) (name, f)) (mark_runs env sid marked d)"
      by (auto simp: x Let_def)
    with Cons x False show ?thesis by (simp split: if_splits)
  qed
qed simp

text \<open>One file of the directory before and after the scan.\<close>

definition recovered :: "journal_env \<Rightarrow> string \<Rightarrow> string \<times> string \<Rightarrow> string \<times> string \<Rightarrow> bool" where
  "recovered env sid x y \<longleftrightarrow> fst y = fst x \<and> file_events (je_tz env) y = file_events (je_tz env) x \<and>
     (if is_journal (fst x) \<and> TrimSuffix (fst x) ''.jsonl'' \<noteq> [] then
        \<exists>ms ms' good. loadStateRecords (je_tz env) (snd x) = Some (line_states (je_tz env) ms, good) \<and>
          journal_file (je_tz env) (snd y) ms' \<and>
          line_states (je_tz env) ms' = marked_states env sid (TrimSuffix (fst x) ''.jsonl'') (line_states (je_tz env) ms)
      else y = x)"

lemma mark_run_recovered:
  assumes "recovery_works env sid" and "is_journal name" and "TrimSuffix name ''.jsonl'' \<noteq> []" and "recoverable (je_tz env) f ms"
    and "marker_fits env sid (TrimSuffix name ''.jsonl'')"
  obtains b f' where "mark_run env sid name (TrimSuffix name ''.jsonl'') f = (Inr b, f')" "recovered env sid (name, f) (name, f')"
proof -
  let ?tz = "je_tz env"
  obtain f' ms' where m: "mark_run env sid name (TrimSuffix name ''.jsonl'') f = (Inr (\<not> at_rest (line_states ?tz ms)), f')"
      "journal_file ?tz f' ms'" "line_states ?tz ms' = marked_states env sid (TrimSuffix name ''.jsonl'') (line_states ?tz ms)"
      "line_events ?tz ms' = line_events ?tz ms"
    using assms(1,4,5) by (rule mark_run_recovers)
  obtain g mm n where g: "journal_file ?tz g ms" "wf_json (JObj mm)" "length (json_text (JObj mm)) < max_line"
      "n < length (json_text (JObj mm))" "f = g @ take n (json_text (JObj mm))"
    using assms(4) by (auto simp: recoverable_def simp del: json_text.simps)
  have rd: "\<forall>m \<in> set ms. readable ?tz m" using g(1) by (simp add: journal_file_def)
  note ld = load_scanned [OF journal_torn [OF g(1-4)] rd, folded g(5)]
  have "recovered env sid (name, f) (name, f')"
    using assms(2,3) m(2-4) ld load_journal(2) [OF m(2)] by (auto simp: recovered_def file_events_def)
  with m(1) show thesis by (rule that)
qed

lemma mark_runs_recover:
  assumes "recovery_works env sid"
    and "\<forall>x \<in> journals d. (\<exists>ms. recoverable (je_tz env) (snd x) ms) \<and> marker_fits env sid (TrimSuffix (fst x) ''.jsonl'')"
  shows "\<exists>marked' d'. mark_runs env sid marked d = (Inr marked', d') \<and> list_all2 (recovered env sid) d d'"
  using assms(2)
proof (induction d arbitrary: marked)
  case (Cons x d)
  obtain name f where x: "x = (name, f)" by (cases x)
  let ?run = "TrimSuffix name ''.jsonl''"
  have rest: "\<forall>x \<in> journals d. (\<exists>ms. recoverable (je_tz env) (snd x) ms) \<and> marker_fits env sid (TrimSuffix (fst x) ''.jsonl'')"
    using Cons.prems by (simp add: x split: if_splits)
  show ?case
  proof (cases "is_journal name \<and> ?run \<noteq> []")
    case False
    obtain marked' d' where "mark_runs env sid marked d = (Inr marked', d')" "list_all2 (recovered env sid) d d'"
      using Cons.IH [OF rest] by blast
    moreover have "mark_runs env sid marked (x # d) = map_prod (\<lambda>r. r) ((#) x) (mark_runs env sid marked d)"
      using False by (auto simp: x Let_def)
    moreover have "recovered env sid x x" using False by (auto simp: recovered_def x)
    ultimately show ?thesis by simp
  next
    case True
    then obtain ms where ms: "recoverable (je_tz env) f ms" "marker_fits env sid ?run" using Cons.prems x by auto
    obtain b f' where m: "mark_run env sid name ?run f = (Inr b, f')" "recovered env sid (name, f) (name, f')"
      using mark_run_recovered [OF assms(1) _ _ ms] True by blast
    obtain marked' d' where "mark_runs env sid (if b then marked @ [?run] else marked) d = (Inr marked', d')" "list_all2 (recovered env sid) d d'"
      using Cons.IH [OF rest] by blast
    then show ?thesis using True m by (simp add: x Let_def)
  qed
qed simp

text \<open>
  C31 The recovery scan after a crash, when every journal has complete lines and at most a piece of one
  more: the piece is cut off; a run whose last state record is not terminal gets exactly one more record,
  interrupted, and the others keep the records they have, so that every run with a state record has a
  terminal last state; a journal without one, whose first record was torn, is left without; no event is
  lost or added, other files stay, and a second scan changes nothing and marks nothing. A last record
  that lacks only its line feed is not such a piece.
\<close>

theorem recovery_settles_runs:
  assumes "recovery_works env sid"
    and "\<forall>x \<in> journals d. (\<exists>ms. recoverable (je_tz env) (snd x) ms) \<and> marker_fits env sid (TrimSuffix (fst x) ''.jsonl'')"
  shows "\<exists>marked d'. MarkInterruptedRuns env sid (Some d) = (Inr marked, Some d') \<and> map fst d' = map fst d \<and>
    (\<forall>k < length d. if d ! k \<in> journals d then
       \<exists>recs good recs'. loadStateRecords (je_tz env) (snd (d ! k)) = Some (recs, good) \<and>
         loadStateRecords (je_tz env) (snd (d' ! k)) = Some (recs', length (snd (d' ! k))) \<and>
         recs' = marked_states env sid (TrimSuffix (fst (d ! k)) ''.jsonl'') recs \<and>
         (last_state recs \<noteq> None \<longrightarrow> (\<exists>r. last_state recs' = Some r \<and> isTerminalRunState (sr_State r)))
     else d' ! k = d ! k) \<and>
    dir_events (je_tz env) sid2 d' = dir_events (je_tz env) sid2 d \<and>
    MarkInterruptedRuns env sid (Some d') = (Inr [], Some d')"
proof -
  let ?tz = "je_tz env"
  have e: "MarkInterruptedRuns env sid (Some d) = map_prod (\<lambda>r. r) Some (mark_runs env sid [] d)" for d
    using assms(1) by (simp add: MarkInterruptedRuns_def recovery_works_def)
  obtain marked d' where m: "mark_runs env sid [] d = (Inr marked, d')" "list_all2 (recovered env sid) d d'"
    using mark_runs_recover [OF assms] by blast
  have len: "length d' = length d" and each: "\<And>k. k < length d \<Longrightarrow> recovered env sid (d ! k) (d' ! k)"
    using m(2) by (auto simp: list_all2_conv_all_nth)
  have names: "map fst d' = map fst d" and evs: "map (file_events ?tz) d' = map (file_events ?tz) d"
    using each len by (auto simp: recovered_def intro: nth_equalityI)
  have at: "\<exists>ms. journal_file ?tz (snd y) ms \<and> at_rest (line_states ?tz ms)" if y: "y \<in> journals d'" for y
  proof -
    obtain k where k: "k < length d" "y = d' ! k" using y len by (auto simp: journals_def in_set_conv_nth)
    then have "fst y = fst (d ! k)" using each [OF k(1)] by (simp add: recovered_def)
    with y each [OF k(1)] k(2) obtain ms ms' where "journal_file ?tz (snd y) ms'"
        "line_states ?tz ms' = marked_states env sid (TrimSuffix (fst (d ! k)) ''.jsonl'') (line_states ?tz ms)"
      by (auto simp: recovered_def journals_def)
    moreover have "at_rest (marked_states env sid run rs)" for run rs
      using marked_terminal [of rs env sid run] by (cases "last_state rs") (auto simp: at_rest_def marked_states_def)
    ultimately show ?thesis by auto
  qed
  have states: "if d ! k \<in> journals d then
       \<exists>recs good recs'. loadStateRecords ?tz (snd (d ! k)) = Some (recs, good) \<and>
         loadStateRecords ?tz (snd (d' ! k)) = Some (recs', length (snd (d' ! k))) \<and>
         recs' = marked_states env sid (TrimSuffix (fst (d ! k)) ''.jsonl'') recs \<and>
         (last_state recs \<noteq> None \<longrightarrow> (\<exists>r. last_state recs' = Some r \<and> isTerminalRunState (sr_State r)))
     else d' ! k = d ! k" if "k < length d" for k
    using each [OF that] nth_mem [OF that] load_journal(1) [of ?tz "snd (d' ! k)"] marked_terminal
    by (auto simp: recovered_def journals_def)
  have again: "mark_runs env sid [] d' = (Inr [], d')" by (rule mark_runs_at_rest [OF assms(1)]) (use at in blast)
  show ?thesis
  proof (intro exI conjI allI impI)
    show "MarkInterruptedRuns env sid (Some d) = (Inr marked, Some d')" "MarkInterruptedRuns env sid (Some d') = (Inr [], Some d')"
      by (simp_all add: e m(1) again)
    show "dir_events ?tz sid2 d' = dir_events ?tz sid2 d" by (simp add: dir_events_def evs)
  qed (use names states in blast)+
qed

section \<open>Delivery\<close>

text \<open>
  C29 The events of a session from its journals to a reader, in any interleaving of the runs that
  publish, the timer, the hub, the pumps and the readers: a subscriber to whom the hub reported no
  damage reads a prefix of the stream of all events behind its cursor, those of the journals and those
  published since the hub was created, in the order of their numbers, none missing and none twice; as
  long as it is connected the rest of the stream is on the way. Appends of events may fail at any byte;
  state records are written whole or not at all (\<open>run_works\<close>).
\<close>

theorem subscriber_stream:
  assumes "run_inv tz sid j" and "sys_reach (run_works tz) (run_accepts tz sid) j s" and "(i, p) \<in> set (sy_pumps s)" and "pp_whole p"
  shows "\<exists>S. sorted (map ev_Seq S) \<and>
    mset (map view S) = mset (map view (filter (\<lambda>e. pp_from p < ev_Seq e) (history (dir_events tz sid (runs_of j)) @ sy_log s))) \<and>
    prefix (pp_recv p) S \<and>
    (\<forall>sub. map_of (hub_subs (sy_hub s)) i = Some sub \<longrightarrow> sub_in sub \<longrightarrow> \<not> pp_exit p \<longrightarrow>
       pp_recv p @ pp_ch p @ pp_replay p @ in_hand p @ sub_live sub = S)"
  using run_events.delivery [OF assms] by (intro exI [of _ "stream (sy_log s) p"]) blast

lemma close_flushes:
  assumes "run_inv tz sid j" and "sys_reach (run_works tz) (run_accepts tz sid) j s" and "run_works tz env" and "\<not> hub_closed (sy_hub s)"
  shows "hub_deltaBuf (snd (Close_hub env (sy_hub s))) = []"
proof -
  let ?h = "sy_hub s\<lparr>hub_closed := True\<rparr>"
  have "hub_inv (run_inv tz sid) (\<lambda>s. dir_events tz sid (runs_of s)) (run_accepts tz sid)
      (history (dir_events tz sid (runs_of j)) @ sy_log s) ?h"
    using run_events.reach_sys_inv [OF assms(1,2)] by (simp add: sys_inv_def hub_inv_def batch_record_def)
  then have "hub_deltaBuf (flushAllDeltaLocked env ?h) = []" using run_events.flush_all_inv(2) [OF assms(3)] by blast
  then show ?thesis using assms(4) by (simp add: Close_hub_def Let_def split: option.splits)
qed

text \<open>
  C30 When the hub has been closed without damage, the journals hold exactly the events that they
  held before and those that were published, each once, and the next process can go on: with a directory
  that can be read it builds a hub on them, whose last number is not below that of any of these events.
\<close>

theorem events_survive_restart:
  assumes "run_inv tz sid j" and "sys_reach (run_works tz) (run_accepts tz sid) j s" and "run_works tz env"
    and "\<not> hub_closed (sy_hub s)" and "undamaged (snd (Close_hub env (sy_hub s)))"
    and "run_works tz (run_env je se r now ord)" and "je_tz (je 0) = tz" and "je_readdir (je 0)" and "\<forall>n. je_read (je 0) n"
  shows "\<exists>j' h. hub_journal (snd (Close_hub env (sy_hub s))) = Some j' \<and>
    run_inv tz sid (NewRunJournalStore sid (rs_runs j')) \<and>
    mset (map view (history (dir_events tz sid (runs_of (NewRunJournalStore sid (rs_runs j')))))) =
      mset (map view (history (dir_events tz sid (runs_of j)) @ sy_log s)) \<and>
    NewEventHub (run_env je se r now ord) sid (Some (NewRunJournalStore sid (rs_runs j'))) = Inr h \<and>
    (\<forall>e \<in> set (history (dir_events tz sid (runs_of j)) @ sy_log s). ev_Seq e \<le> hub_latest h)"
proof -
  let ?s = "s\<lparr>sy_hub := snd (Close_hub env (sy_hub s))\<rparr>" and ?evs = "history (dir_events tz sid (runs_of j)) @ sy_log s"
  have l: "run_inv tz sid j \<and> loads_all tz (runs_of j)" using assms(1) reach_loads [OF assms(2)] by blast
  have "sys_reach (run_works tz) (run_accepts tz sid) j ?s"
    using assms(2) sys_step.closing [where works = "run_works tz", OF assms(3)] by (rule sys_reach.step)
  from loaded_events.journal_complete [OF l this] close_flushes [OF assms(1-4)] assms(5)
  obtain j' where j': "hub_journal (sy_hub ?s) = Some j'" "run_inv tz sid j'" "loads_all tz (runs_of j')"
      "mset (map view (history (dir_events tz sid (runs_of j')))) = mset (map view ?evs)"
    by auto
  let ?j = "NewRunJournalStore sid (rs_runs j')"
  have r: "runs_of ?j = runs_of j'" by (simp add: NewRunJournalStore_def runs_of_def)
  have inv: "run_inv tz sid ?j" using j'(2) unfolding run_inv_def r by (simp add: NewRunJournalStore_def)
  obtain h where h: "NewEventHub (run_env je se r now ord) sid (Some ?j) = Inr h"
    using hub_built [of je ?j se "r" now ord sid] j'(3) assms(7-9) r by auto
  have "ev_Seq e \<le> hub_latest h" if "e \<in> set ?evs" for e
  proof -
    have "view e \<in> set (map view (history (dir_events tz sid (runs_of ?j))))"
      using that mset_eq_setD [OF j'(4)] unfolding r by (metis image_eqI list.set_map)
    then obtain e' where "e' \<in> set (history (dir_events tz sid (runs_of ?j)))" "ev_Seq e' = ev_Seq e"
      by (auto simp: view_def)
    with run_events.new_hub_latest [OF assms(6) inv h] show ?thesis by metis
  qed
  with j'(1,4) r inv h show ?thesis by (intro exI [of _ j'] exI [of _ h]) simp
qed

section \<open>Examples\<close>

definition journal_sample :: journal_env where
  "journal_sample =
    \<lparr>je_tz = decimal_times, je_now = 9, je_live = True, je_cached = (\<lambda>_. True), je_mkdir = True, je_create = True,
     je_write = WriteOK, je_close = True, je_readdir = True, je_read = (\<lambda>_. True), je_stat = (\<lambda>_. True),
     je_truncate = (\<lambda>_. True), je_sync = (\<lambda>_. True), je_reopen = (\<lambda>_. True), je_mark = (\<lambda>_. WriteOK)\<rparr>"

definition running_record :: RunStateRecord where
  "running_record = (interrupted_record journal_sample ''session_1'' ''run-1-1'')\<lparr>sr_State := ''running''\<rparr>"

definition hub_sample :: "RunJournalStore hub_env" where
  "hub_sample = run_env (\<lambda>_. journal_sample) journal_sample running_record 3 (\<lambda>ks. ks)"

lemma hub_sample_works: "run_works decimal_times hub_sample"
proof -
  have "state_fits decimal_times running_record" by code_simp
  then show ?thesis unfolding run_works_def hub_sample_def
    by (intro exI [of _ "\<lambda>_. journal_sample"] exI [of _ journal_sample] exI [of _ running_record] exI [of _ 3] exI [of _ "\<lambda>ks. ks"])
      (simp add: journal_sample_def)
qed

definition empty_store :: RunJournalStore where
  "empty_store = NewRunJournalStore ''session_1'' None"

definition ingress :: "string \<Rightarrow> string \<Rightarrow> IngressEvent" where
  "ingress t c = \<lparr>in_RunID = ''run-1-1'', in_Type = t, in_Payload = Some (JStr c)\<rparr>"

definition new_system :: "RunJournalStore system" where
  "new_system = \<lparr>sy_hub = projr (NewEventHub hub_sample ''session_1'' (Some empty_store)), sy_pumps = [], sy_log = []\<rparr>"

definition after_publish :: "IngressEvent \<Rightarrow> RunJournalStore system \<Rightarrow> RunJournalStore system" where
  "after_publish ev s = s\<lparr>sy_hub := snd (Publish hub_sample ev (sy_hub s)),
     sy_log := sy_log s @ [ingress_event hub_sample ev (sy_hub s)]\<rparr>"

definition published :: "RunJournalStore system" where
  "published = after_publish (ingress ''text.delta'' ''b'') (after_publish (ingress ''run.started'' ''a'') new_system)"

definition subscription :: "nat \<times> SessionEvent list" where
  "subscription = projr (fst (Subscribe_hub hub_sample 0 (sy_hub published)))"

definition subscribed :: "RunJournalStore system" where
  "subscribed = published\<lparr>sy_hub := snd (Subscribe_hub hub_sample 0 (sy_hub published)),
     sy_pumps := [(fst subscription, new_pump 0 (snd subscription) 2 True)]\<rparr>"

definition sample_pump :: pump where
  "sample_pump = (let p = new_pump 0 (snd subscription) 2 True in
     (pump_send (hd (pp_replay p)) p)\<lparr>pp_replay := tl (pp_replay p)\<rparr>)"

definition sent_system :: "RunJournalStore system" where
  "sent_system = subscribed\<lparr>sy_pumps := [(fst subscription, sample_pump)]\<rparr>"

definition received :: "RunJournalStore system" where
  "received = subscribed\<lparr>sy_pumps := [(fst subscription,
     sample_pump\<lparr>pp_ch := tl (pp_ch sample_pump), pp_recv := pp_recv sample_pump @ [hd (pp_ch sample_pump)]\<rparr>)]\<rparr>"

lemma after_publish_reach:
  assumes "sys_reach (run_works decimal_times) (run_accepts decimal_times ''session_1'') empty_store s"
    and "Suc (hub_seq (sy_hub s)) < 2 ^ 64" and "run_accepts decimal_times ''session_1'' (publish_record hub_sample ev (sy_hub s))"
    and "fst (Publish hub_sample ev (sy_hub s)) = None"
  shows "sys_reach (run_works decimal_times) (run_accepts decimal_times ''session_1'') empty_store (after_publish ev s)"
proof -
  have "Publish hub_sample ev (sy_hub s) = (None, snd (Publish hub_sample ev (sy_hub s)))"
    using assms(4) by (simp add: prod_eq_iff)
  from sys_step.publish [where works = "run_works decimal_times" and accepts = "run_accepts decimal_times ''session_1''",
      OF hub_sample_works assms(2,3) this] sys_reach.step [OF assms(1)] show ?thesis
    by (simp add: after_publish_def)
qed

lemma published_reach: "sys_reach (run_works decimal_times) (run_accepts decimal_times ''session_1'') empty_store published"
  unfolding published_def
proof (intro after_publish_reach)
  have "NewEventHub hub_sample ''session_1'' (Some empty_store) = Inr (sy_hub new_system)" "Suc (hub_latest (sy_hub new_system)) < 2 ^ 64"
    by code_simp+
  from sys_reach.new [where works = "run_works decimal_times", OF hub_sample_works this]
  show "sys_reach (run_works decimal_times) (run_accepts decimal_times ''session_1'') empty_store new_system"
    by (simp add: new_system_def)
qed code_simp+

abbreviation sample_reached :: "RunJournalStore system \<Rightarrow> bool" where
  "sample_reached \<equiv> sys_reach (run_works decimal_times) (run_accepts decimal_times ''session_1'') empty_store"

lemma subscribed_reach: "sample_reached subscribed"
proof -
  let ?sub = "Subscribe_hub hub_sample 0 (sy_hub published)"
  have c: "\<not> isl (fst ?sub)" "undamaged (snd ?sub)" "length (sy_log published) = 2" "sy_pumps published = []" by code_simp+
  have "?sub = (Inr (fst subscription, snd subscription), snd ?sub)"
    using c(1) unfolding subscription_def by (cases "fst ?sub") (simp_all add: prod_eq_iff)
  from sys_step.subscribe [where works = "run_works decimal_times", OF hub_sample_works this] sys_reach.step [OF published_reach] c
  show ?thesis unfolding subscribed_def by simp
qed

lemma received_reach: "sample_reached received"
proof -
  let ?p = "new_pump 0 (snd subscription) 2 True"
  have r: "snd subscription \<noteq> []" by code_simp
  have c: "pp_ch sample_pump \<noteq> []" by (simp add: sample_pump_def pump_send_def Let_def)
  have "pump_step (fst subscription) (sy_hub subscribed) ?p (sy_hub subscribed) sample_pump"
    using pump_step.replay [of ?p "hd (snd subscription)" "tl (snd subscription)" "fst subscription" "sy_hub subscribed"] r
    by (simp add: sample_pump_def new_pump_def subscriberBuffer_def)
  then have "sys_step works accepts subscribed sent_system" for works accepts
    using sys_step.pump [of subscribed "[]" "fst subscription" ?p "[]" "sy_hub subscribed" sample_pump works accepts]
    by (simp add: subscribed_def sent_system_def)
  then have "sample_reached sent_system" using subscribed_reach by (rule_tac sys_reach.step)
  moreover have "pump_step (fst subscription) (sy_hub sent_system) sample_pump (sy_hub sent_system)
      (sample_pump\<lparr>pp_ch := tl (pp_ch sample_pump), pp_recv := pp_recv sample_pump @ [hd (pp_ch sample_pump)]\<rparr>)"
    using c by (intro pump_step.receive) simp
  then have "sys_step works accepts sent_system received" for works accepts
    using sys_step.pump [of sent_system "[]" "fst subscription" sample_pump "[]" "sy_hub sent_system" _ works accepts]
    by (simp add: received_def sent_system_def)
  ultimately show ?thesis by (rule_tac sys_reach.step)
qed

lemma empty_store_inv: "run_inv decimal_times ''session_1'' empty_store"
  by (simp add: run_inv_def empty_store_def NewRunJournalStore_def runs_of_def)

theorem subscriber_stream_witness:
  "\<exists>p. (fst subscription, p) \<in> set (sy_pumps received) \<and> map view (pp_recv p) = [(1, ''run.started'', JStr ''a'')] \<and>
     (\<exists>S. mset (map view S) = mset (map view (sy_log received)) \<and> prefix (pp_recv p) S)"
proof -
  let ?p = "snd (hd (sy_pumps received))"
  have m: "(fst subscription, ?p) \<in> set (sy_pumps received)" by (simp add: received_def)
  have p: "pp_whole ?p" "pp_recv ?p = [hd (snd subscription)]" "pp_from ?p = 0" "sy_log received = sy_log published"
    by (simp_all add: received_def sample_pump_def new_pump_def pump_send_def subscribed_def Let_def)
  have "map view (snd subscription) = [(1, ''run.started'', JStr ''a''), (2, ''text.delta'', JStr ''b'')]" by code_simp
  then have w: "pp_whole ?p" "map view (pp_recv ?p) = [(1, ''run.started'', JStr ''a'')]" unfolding p(2) by (auto simp: p(1))
  have "map view (filter (\<lambda>e. 0 < ev_Seq e) (history (dir_events decimal_times ''session_1'' (runs_of empty_store)) @ sy_log published)) =
      map view (sy_log published)" by code_simp
  then have h: "map view (filter (\<lambda>e. pp_from ?p < ev_Seq e) (history (dir_events decimal_times ''session_1'' (runs_of empty_store)) @ sy_log received)) =
      map view (sy_log received)" unfolding p(3,4) .
  obtain S where "mset (map view S) = mset (map view (filter (\<lambda>e. pp_from ?p < ev_Seq e)
      (history (dir_events decimal_times ''session_1'' (runs_of empty_store)) @ sy_log received)))" "prefix (pp_recv ?p) S"
    using subscriber_stream [OF empty_store_inv received_reach m w(1)] by blast
  then have "mset (map view S) = mset (map view (sy_log received)) \<and> prefix (pp_recv ?p) S" unfolding h by (rule conjI)
  then have "\<exists>S. mset (map view S) = mset (map view (sy_log received)) \<and> prefix (pp_recv ?p) S" by (rule exI)
  then show ?thesis using m w(2) by (intro exI [of _ ?p] conjI)
qed

theorem events_survive_restart_witness:
  "\<exists>j' h. hub_journal (snd (Close_hub hub_sample (sy_hub published))) = Some j' \<and>
     mset (map view (history (dir_events decimal_times ''session_1'' (runs_of (NewRunJournalStore ''session_1'' (rs_runs j')))))) =
       {#(1, ''run.started'', JStr ''a''), (2, ''text.delta'', JStr ''b'')#} \<and>
     NewEventHub hub_sample ''session_1'' (Some (NewRunJournalStore ''session_1'' (rs_runs j'))) = Inr h"
proof -
  have c: "\<not> hub_closed (sy_hub published)" "undamaged (snd (Close_hub hub_sample (sy_hub published)))"
    "map view (history (dir_events decimal_times ''session_1'' (runs_of empty_store)) @ sy_log published) =
       [(1, ''run.started'', JStr ''a''), (2, ''text.delta'', JStr ''b'')]" by code_simp+
  have e: "run_works decimal_times (run_env (\<lambda>_. journal_sample) journal_sample running_record 3 (\<lambda>ks. ks))"
    "je_tz journal_sample = decimal_times" "je_readdir journal_sample" "\<forall>n. je_read journal_sample n"
    using hub_sample_works by (simp_all add: hub_sample_def journal_sample_def)
  from events_survive_restart [OF empty_store_inv published_reach hub_sample_works c(1,2) e] c(3)
  show ?thesis unfolding hub_sample_def [symmetric] by force
qed

definition crashed_members :: "(string \<times> json) list" where
  "crashed_members = the (state_members decimal_times running_record)"

definition crashed_file :: string where
  "crashed_file = json_text (JObj crashed_members) @ [nl]"

definition crashed_dir :: dir where
  "crashed_dir = [(''run-1-1.jsonl'', crashed_file @ take 9 (json_text (JObj crashed_members)))]"

lemma crashed_recoverable: "recoverable decimal_times (crashed_file @ take 9 (json_text (JObj crashed_members))) [crashed_members]"
proof -
  let ?r = running_record
  have "state_ok decimal_times ?r" by code_simp
  then obtain m e where m: "state_members decimal_times ?r = Some m" "wf_json (JObj m)" "state_of_members decimal_times m = Some ?r"
    "event_of_members decimal_times m = Some e" "er_Kind e = sr_Kind ?r" by (rule state_line)
  have c: "m = crashed_members" using m(1) by (simp add: crashed_members_def)
  have l: "length (json_text (JObj crashed_members)) < max_line" "9 < length (json_text (JObj crashed_members))" by code_simp+
  have "journal_file decimal_times ([] @ json_text (JObj m) @ [nl]) ([] @ [m])"
    using m l(1) unfolding c by (intro journal_written) (auto simp: readable_def journal_file_Nil simp del: json_text.simps)
  then show ?thesis using m(2) l unfolding recoverable_def c crashed_file_def
    by (intro exI [of _ "json_text (JObj crashed_members) @ [nl]"] exI [of _ crashed_members] exI [of _ 9])
      (simp del: json_text.simps)
qed

theorem recovery_settles_runs_witness:
  "\<exists>marked d'. MarkInterruptedRuns journal_sample ''session_1'' (Some crashed_dir) = (Inr marked, Some d') \<and>
     MarkInterruptedRuns journal_sample ''session_1'' (Some d') = (Inr [], Some d')"
proof -
  have w: "recovery_works journal_sample ''session_1''"
    unfolding recovery_works_def by (simp add: journal_sample_def) code_simp
  have t: "TrimSuffix ''run-1-1.jsonl'' ''.jsonl'' = ''run-1-1''" "is_journal ''run-1-1.jsonl''"
    "marker_fits journal_sample ''session_1'' ''run-1-1''" by code_simp+
  have tz: "je_tz journal_sample = decimal_times" by (simp add: journal_sample_def)
  have "\<forall>x \<in> journals crashed_dir. (\<exists>ms. recoverable (je_tz journal_sample) (snd x) ms) \<and>
      marker_fits journal_sample ''session_1'' (TrimSuffix (fst x) ''.jsonl'')"
    using crashed_recoverable t unfolding tz crashed_dir_def by (auto simp del: json_text.simps)
  from recovery_settles_runs [OF w this, of "''session_1''"] show ?thesis by blast
qed

text \<open>
  State records and events share the file, and only the hub keeps account of damage: when the write of a
  state record breaks off, the next key event is glued to the torn line. Its publication succeeds, the
  hub reports nothing, and no subscriber is ever given the event.
\<close>

lemma torn_state_swallows_event:
  "(let torn = snd (AppendState (journal_sample\<lparr>je_write := WriteFail 9\<rparr>) running_record empty_store);
        hub = projr (NewEventHub hub_sample ''session_1'' (Some torn));
        (err, hub) = Publish hub_sample (ingress ''run.started'' ''a'') hub;
        (sub, hub) = Subscribe_hub hub_sample 0 hub
    in err = None \<and> sub = Inr (0, []) \<and> hub_integrity hub = ReplayIntegrityComplete \<and> hub_latest hub = 1)"
  by code_simp

end
