(* ===== verification/Approvals.thy ===== *)
theory Approvals
  imports Hitl
begin

text \<open>
  The registry of the approvals that background runs wait for (\<^verbatim>\<open>src/ai-runtime/agent/approval.go\<close>). An entry is
  shared between the map of the manager and the call of \<^verbatim>\<open>Wait\<close> that made it, so the entries live in a heap and
  both hold their position; an entry that was swept out of the map is still that of its waiter. The
  channel of an entry has room for one decision. A call of \<^verbatim>\<open>Wait\<close> is a thread with a place in the code; the
  other operations hold the lock of the manager throughout and are one step.
\<close>

section \<open>State\<close>

record PendingApproval =
  pa_RequestID :: string
  pa_SessionID :: string
  pa_RunID :: string
  pa_Request :: InterruptRequest

record approvalEntry =
  ae_pa :: PendingApproval
  ae_resolved :: bool
  ae_decide :: "HDecision option"

record ApprovalManager =
  am_pending :: "(string \<times> nat) list"
  am_heap :: "approvalEntry list"

definition approvalResolvedRetention :: time where
  "approvalResolvedRetention = 30 * 1000000000"

datatype approval_error = ErrApprovalUnknown | ErrApprovalResolved

definition NewApprovalManager :: ApprovalManager where
  "NewApprovalManager = \<lparr>am_pending = [], am_heap = []\<rparr>"

definition expires_at :: "approvalEntry \<Rightarrow> time" where
  "expires_at e = ir_ExpiresAt (pa_Request (ae_pa e))"

definition sweepResolvedExpiredLocked :: "time \<Rightarrow> ApprovalManager \<Rightarrow> ApprovalManager" where
  "sweepResolvedExpiredLocked now m =
    m\<lparr>am_pending := filter (\<lambda>x. let e = am_heap m ! snd x in
        \<not> ae_resolved e \<or> IsZero (expires_at e) \<or> now < expires_at e + approvalResolvedRetention) (am_pending m)\<rparr>"

definition set_entry :: "nat \<Rightarrow> approvalEntry \<Rightarrow> ApprovalManager \<Rightarrow> ApprovalManager" where
  "set_entry e en m = m\<lparr>am_heap := (am_heap m)[e := en]\<rparr>"

definition Resolve :: "time \<Rightarrow> string \<Rightarrow> HDecision \<Rightarrow> ApprovalManager \<Rightarrow> (approval_error + nat) \<times> ApprovalManager" where
  "Resolve now requestID decision m0 =
    (let m = sweepResolvedExpiredLocked now m0 in
     case map_of (am_pending m) requestID of
       None \<Rightarrow> (Inl ErrApprovalUnknown, m)
     | Some e \<Rightarrow>
         let en = am_heap m ! e in
         if ae_resolved en then (Inl ErrApprovalResolved, m)
         else (Inr e, set_entry e (en\<lparr>ae_resolved := True, ae_decide := Some (decision\<lparr>hd_InterruptID := requestID\<rparr>)\<rparr>) m))"

definition Owner :: "string \<Rightarrow> ApprovalManager \<Rightarrow> string option" where
  "Owner requestID m = map_option (\<lambda>e. pa_SessionID (ae_pa (am_heap m ! e))) (map_of (am_pending m) requestID)"

definition Pending :: "time \<Rightarrow> string \<Rightarrow> ApprovalManager \<Rightarrow> PendingApproval list \<times> ApprovalManager" where
  "Pending now sessionID m =
    (let kept = filter (\<lambda>x. let e = am_heap m ! snd x in IsZero (expires_at e) \<or> now < expires_at e) (am_pending m);
         out = filter (\<lambda>x. let e = am_heap m ! snd x in \<not> ae_resolved e \<and> pa_SessionID (ae_pa e) = sessionID) kept
     in (map snd (sort_kv (map (\<lambda>x. (pa_RequestID (ae_pa (am_heap m ! snd x)), ae_pa (am_heap m ! snd x))) out)),
         m\<lparr>am_pending := kept\<rparr>))"

section \<open>A waiting call\<close>

datatype wait_pc = WtEnter | WtTimer | WtSelect time | WtMark | WtDone HDecision

text \<open>The case that the \<^verbatim>\<open>select\<close> of a waiting call takes.\<close>

datatype wait_case = CaseCancelled | CaseTimeout | CaseDecision

record wait =
  wt_session :: string
  wt_thread :: nat
  wt_runID :: string
  wt_req :: InterruptRequest
  wt_entry :: nat
  wt_pc :: wait_pc

definition new_entry :: "wait \<Rightarrow> approvalEntry" where
  "new_entry w = \<lparr>ae_pa = \<lparr>pa_RequestID = ir_ID (wt_req w), pa_SessionID = wt_session w, pa_RunID = wt_runID w, pa_Request = wt_req w\<rparr>,
     ae_resolved = False, ae_decide = None\<rparr>"

fun wait_step :: "time \<Rightarrow> wait_case \<Rightarrow> bool \<Rightarrow> wait \<Rightarrow> ApprovalManager \<Rightarrow> wait_pc \<Rightarrow> (wait \<times> ApprovalManager) option" where
  "wait_step now cs cancelled w m0 WtEnter =
     (let m = sweepResolvedExpiredLocked now m0 in
      if map_of (am_pending m) (ir_ID (wt_req w)) \<noteq> None then Some (w\<lparr>wt_pc := WtDone (reject_decision (wt_req w))\<rparr>, m)
      else Some (w\<lparr>wt_entry := length (am_heap m), wt_pc := WtTimer\<rparr>,
        m\<lparr>am_heap := am_heap m @ [new_entry w], am_pending := map_put (ir_ID (wt_req w)) (length (am_heap m)) (am_pending m)\<rparr>))"
| "wait_step now cs cancelled w m WtTimer =
     (let x = ir_ExpiresAt (wt_req w) in
      Some (w\<lparr>wt_pc := (if IsZero x then WtSelect (now + DefaultTimeout) else if x - now \<le> 0 then WtMark else WtSelect x)\<rparr>, m))"
| "wait_step now cs cancelled w m (WtSelect deadline) =
     (let en = am_heap m ! wt_entry w in
      case cs of
        CaseCancelled \<Rightarrow> if cancelled then Some (w\<lparr>wt_pc := WtMark\<rparr>, m) else None
      | CaseTimeout \<Rightarrow> if deadline \<le> now then Some (w\<lparr>wt_pc := WtMark\<rparr>, m) else None
      | CaseDecision \<Rightarrow>
          (case ae_decide en of
             None \<Rightarrow> None
           | Some d \<Rightarrow> Some (w\<lparr>wt_pc := WtDone d\<rparr>, set_entry (wt_entry w) (en\<lparr>ae_decide := None\<rparr>) m)))"
| "wait_step now cs cancelled w m WtMark =
     Some (w\<lparr>wt_pc := WtDone (reject_decision (wt_req w))\<rparr>,
       set_entry (wt_entry w) ((am_heap m ! wt_entry w)\<lparr>ae_resolved := True\<rparr>) m)"
| "wait_step now cs cancelled w m (WtDone d) = None"

section \<open>Invariant\<close>

text \<open>
  Every entry of the map is stored under the identifier of its request; a decision in a channel is for the
  request of its entry, and its entry is resolved.
\<close>

definition approvals_ok :: "ApprovalManager \<Rightarrow> bool" where
  "approvals_ok m \<longleftrightarrow>
     (\<forall>x \<in> set (am_pending m). snd x < length (am_heap m) \<and> pa_RequestID (ae_pa (am_heap m ! snd x)) = fst x) \<and>
     (\<forall>e < length (am_heap m). \<forall>d. ae_decide (am_heap m ! e) = Some d \<longrightarrow>
        ae_resolved (am_heap m ! e) \<and> hd_InterruptID d = pa_RequestID (ae_pa (am_heap m ! e)))"

lemma sweep_simps [simp]: "am_heap (sweepResolvedExpiredLocked now m) = am_heap m"
  by (simp add: sweepResolvedExpiredLocked_def)

lemma sweep_subset: "set (am_pending (sweepResolvedExpiredLocked now m)) \<subseteq> set (am_pending m)"
  by (auto simp: sweepResolvedExpiredLocked_def)

lemma sweep_ok [inv_intros]: "approvals_ok m \<Longrightarrow> approvals_ok (sweepResolvedExpiredLocked now m)"
  using sweep_subset [of now m] by (auto simp: approvals_ok_def subset_iff)

lemma found_ok: "approvals_ok m \<Longrightarrow> map_of (am_pending m) i = Some e \<Longrightarrow> e < length (am_heap m) \<and> pa_RequestID (ae_pa (am_heap m ! e)) = i"
  by (force simp: approvals_ok_def dest: map_of_SomeD)

lemma set_entry_ok:
  assumes "approvals_ok m" and "ae_pa en = ae_pa (am_heap m ! e)"
    and "\<And>d. ae_decide en = Some d \<Longrightarrow> ae_resolved en \<and> hd_InterruptID d = pa_RequestID (ae_pa en)"
  shows "approvals_ok (set_entry e en m)"
  using assms by (cases "e < length (am_heap m)") (auto simp: approvals_ok_def set_entry_def nth_list_update)

text \<open>What a successful decision does.\<close>

lemma Resolve_result:
  assumes "approvals_ok m" and "Resolve now i d m = (res, m')"
  shows "approvals_ok m'" and "length (am_heap m') = length (am_heap m)"
    and "isl res \<Longrightarrow> am_heap m' = am_heap m"
    and "res = Inr e \<Longrightarrow> e < length (am_heap m) \<and> pa_RequestID (ae_pa (am_heap m ! e)) = i \<and> \<not> ae_resolved (am_heap m ! e) \<and>
      am_heap m' = (am_heap m)[e := (am_heap m ! e)\<lparr>ae_resolved := True, ae_decide := Some (d\<lparr>hd_InterruptID := i\<rparr>)\<rparr>]"
proof -
  let ?m = "sweepResolvedExpiredLocked now m"
  have ok: "approvals_ok ?m" using assms(1) by (rule sweep_ok)
  consider "map_of (am_pending ?m) i = None" "res = Inl ErrApprovalUnknown" "m' = ?m"
    | f where "map_of (am_pending ?m) i = Some f" "ae_resolved (am_heap m ! f)" "res = Inl ErrApprovalResolved" "m' = ?m"
    | f where "map_of (am_pending ?m) i = Some f" "\<not> ae_resolved (am_heap m ! f)" "res = Inr f"
        "m' = set_entry f ((am_heap m ! f)\<lparr>ae_resolved := True, ae_decide := Some (d\<lparr>hd_InterruptID := i\<rparr>)\<rparr>) ?m"
    using assms(2) by (auto simp: Resolve_def Let_def split: option.splits if_splits)
  note C = this
  show "approvals_ok m'" using C
  proof cases
    case (3 f)
    then show ?thesis using found_ok [OF ok 3(1)] ok by (auto intro!: set_entry_ok)
  qed (use ok in auto)
  show "length (am_heap m') = length (am_heap m)" using C by cases (simp_all add: set_entry_def)
  show "isl res \<Longrightarrow> am_heap m' = am_heap m" using C by cases simp_all
  show "res = Inr e \<Longrightarrow> e < length (am_heap m) \<and> pa_RequestID (ae_pa (am_heap m ! e)) = i \<and> \<not> ae_resolved (am_heap m ! e) \<and>
      am_heap m' = (am_heap m)[e := (am_heap m ! e)\<lparr>ae_resolved := True, ae_decide := Some (d\<lparr>hd_InterruptID := i\<rparr>)\<rparr>]"
    using C
  proof cases
    case (3 f)
    moreover assume "res = Inr e"
    ultimately show ?thesis using found_ok [OF ok 3(1)] by (simp add: set_entry_def)
  qed simp_all
qed

text \<open>What the calls see of the entries: which session owns a request, and which requests wait in a session.\<close>

lemma Owner_known:
  assumes "approvals_ok m" and "Owner i m = Some sid"
  shows "\<exists>e < length (am_heap m). pa_RequestID (ae_pa (am_heap m ! e)) = i \<and> pa_SessionID (ae_pa (am_heap m ! e)) = sid"
  using assms found_ok [OF assms(1), of i] by (auto simp: Owner_def)

lemma Pending_lists:
  "p \<in> set (fst (Pending now sid m)) \<longleftrightarrow> (\<exists>x \<in> set (am_pending m). let e = am_heap m ! snd x in
     ae_pa e = p \<and> pa_SessionID p = sid \<and> \<not> ae_resolved e \<and> (IsZero (expires_at e) \<or> now < expires_at e))"
  unfolding Pending_def Let_def by (simp add: set_sort_kv image_image Bex_def image_iff) blast

lemma Pending_ok [inv_intros]: "approvals_ok m \<Longrightarrow> approvals_ok (snd (Pending now sid m))"
  by (auto simp: Pending_def Let_def approvals_ok_def)

end
