(* ===== verification/Run_Supervisor.thy ===== *)
theory Run_Supervisor
  imports Run_Journal "HOL-Library.Multiset"
begin

text \<open>
  The supervisor of the background runs (\<^verbatim>\<open>src/ai-runtime/agent/supervisor.go\<close>, \<^verbatim>\<open>runtime.go\<close>,
  \<^verbatim>\<open>manager.go\<close>, \<^verbatim>\<open>run.go\<close>): the calls of \<^verbatim>\<open>StartRun\<close> with the goroutines that they leave behind, the runtimes of
  the sessions and the manager with its two counting channels.

  Each call of \<^verbatim>\<open>StartRun\<close> is a thread: the synchronous part of the call and then the goroutine
  \<^verbatim>\<open>execute\<close>, whose place in the code is its \<open>pc\<close>. A step of a thread is what the code does between two
  points where it may wait or where others can see the difference. What comes from outside (whether the
  journal and the event hub could be written, which ready case a \<^verbatim>\<open>select\<close> takes, what the session does
  and returns) is the choice of the step; a step that would block is \<open>None\<close>. The calls that a run makes
  to its journal and its event hub are collected in a trace.
\<close>

section \<open>Runs\<close>

datatype RunState =
  RunQueued | RunRunning | RunCompleted | RunFailed | RunCancelled | RunWaiting | RunWaitingCapability

definition state_string :: "RunState \<Rightarrow> string" where
  "state_string st = (case st of RunQueued \<Rightarrow> ''queued'' | RunRunning \<Rightarrow> ''running'' | RunCompleted \<Rightarrow> ''completed''
     | RunFailed \<Rightarrow> ''failed'' | RunCancelled \<Rightarrow> ''cancelled'' | RunWaiting \<Rightarrow> ''waiting_input''
     | RunWaitingCapability \<Rightarrow> ''waiting_capability'')"

text \<open>An error: its text, and whether \<^verbatim>\<open>errors.Is\<close> finds a cancelled or expired context in it.\<close>

record run_error =
  re_text :: string
  re_ctx :: bool

record RunResult =
  res_State :: RunState
  res_Err :: "run_error option"
  res_Persisted :: bool

record AgentRun =
  run_ID :: string
  run_SessionID :: string
  run_state :: RunState
  run_startedAt :: "time option"
  run_done :: bool
  run_result :: RunResult
  run_cancel :: bool
  run_cancelled :: bool

definition terminal_state :: "RunState \<Rightarrow> bool" where
  "terminal_state st \<longleftrightarrow> st \<in> {RunCompleted, RunFailed, RunCancelled}"

definition newAgentRun :: "string \<Rightarrow> string \<Rightarrow> AgentRun" where
  "newAgentRun i sid = \<lparr>run_ID = i, run_SessionID = sid, run_state = RunQueued, run_startedAt = None, run_done = False,
     run_result = \<lparr>res_State = RunQueued, res_Err = None, res_Persisted = False\<rparr>, run_cancel = False, run_cancelled = False\<rparr>"

definition transition :: "time \<Rightarrow> RunState \<Rightarrow> AgentRun \<Rightarrow> AgentRun" where
  "transition now nxt run =
    (if run_state run = nxt then run
     else run\<lparr>run_state := nxt,
        run_startedAt := (if nxt = RunRunning \<and> run_startedAt run = None then Some now else run_startedAt run),
        run_done := (run_done run \<or> terminal_state nxt)\<rparr>)"

definition snapshot :: "AgentRun \<Rightarrow> RunResult" where
  "snapshot run = (run_result run)\<lparr>res_State := run_state run\<rparr>"

definition finish :: "time \<Rightarrow> RunResult \<Rightarrow> AgentRun \<Rightarrow> AgentRun" where
  "finish now res run = transition now (res_State res) (run\<lparr>run_result := res\<rparr>)"

text \<open>The two normalisations of a result: of \<^verbatim>\<open>execute\<close> when the context is cancelled, and of \<^verbatim>\<open>finalizeRun\<close>.\<close>

definition ctx_err :: run_error where
  "ctx_err = \<lparr>re_text = ''context canceled'', re_ctx = True\<rparr>"

definition cancelled_result :: "RunResult \<Rightarrow> RunResult" where
  "cancelled_result res =
    \<lparr>res_State = RunCancelled, res_Err = (case res_Err res of None \<Rightarrow> Some ctx_err | Some e \<Rightarrow> Some e),
     res_Persisted = res_Persisted res\<rparr>"

definition final_result :: "RunResult \<Rightarrow> RunResult" where
  "final_result res =
    (case res_Err res of
       Some e \<Rightarrow> res\<lparr>res_State := (if re_ctx e then RunCancelled else RunFailed)\<rparr>
     | None \<Rightarrow> if terminal_state (res_State res) then res else res\<lparr>res_State := RunCompleted\<rparr>)"

section \<open>Runtimes and the manager\<close>

text \<open>
  The gate of a runtime is a channel for one token; \<open>rt_client\<close> tells that a client of the runtime holds
  it. \<open>rt_hub\<close>: the event hub has been made; \<open>rt_events\<close>: the session has a journal for events.
\<close>

record SessionRuntime =
  rt_ID :: string
  rt_bound :: bool
  rt_events :: bool
  rt_hub :: bool
  rt_gate :: bool
  rt_client :: bool
  rt_active :: "nat option"
  rt_archived :: bool
  rt_retired :: bool

datatype reject =
    ManagerClosed | SessionNotFound | TooManyPending | SessionArchived | SessionRetired | RunActive | SessionNotBound
  | BindFailed | RunJournalWrite | ArchiveFailed | RunNotFound | RunNotCancellable | AlreadyRegistered

definition NewSessionRuntime :: "string \<Rightarrow> bool \<Rightarrow> bool \<Rightarrow> SessionRuntime" where
  "NewSessionRuntime i bound events = \<lparr>rt_ID = i, rt_bound = bound, rt_events = events, rt_hub = False, rt_gate = False,
     rt_client = False, rt_active = None, rt_archived = False, rt_retired = False\<rparr>"

definition reserveRun :: "nat \<Rightarrow> SessionRuntime \<Rightarrow> reject option \<times> SessionRuntime" where
  "reserveRun run r =
    (if rt_archived r then (Some SessionArchived, r)
     else if rt_retired r then (Some SessionRetired, r)
     else if rt_active r \<noteq> None then (Some RunActive, r)
     else if \<not> rt_bound r then (Some SessionNotBound, r)
     else (None, r\<lparr>rt_active := Some run\<rparr>))"

definition releaseRunReservation :: "nat \<Rightarrow> SessionRuntime \<Rightarrow> SessionRuntime" where
  "releaseRunReservation run r = (if rt_active r = Some run then r\<lparr>rt_active := None\<rparr> else r)"

definition Retire :: "SessionRuntime \<Rightarrow> reject option \<times> SessionRuntime" where
  "Retire r = (if rt_active r \<noteq> None then (Some RunActive, r) else (None, r\<lparr>rt_retired := True\<rparr>))"

text \<open>\<open>Archive\<close> with the outcome of its commit, during which no run can be reserved.\<close>

definition Archive :: "bool \<Rightarrow> SessionRuntime \<Rightarrow> reject option \<times> SessionRuntime" where
  "Archive commit r =
    (if rt_active r \<noteq> None then (Some RunActive, r)
     else if commit then (None, r\<lparr>rt_archived := True\<rparr>)
     else (Some ArchiveFailed, r\<lparr>rt_archived := False\<rparr>))"

definition bindEvents :: "bool \<Rightarrow> SessionRuntime \<Rightarrow> reject option \<times> SessionRuntime" where
  "bindEvents ok r =
    (if \<not> rt_events r \<or> rt_hub r then (None, r)
     else if \<not> ok then (Some BindFailed, r)
     else (None, r\<lparr>rt_hub := True\<rparr>))"

record SessionManager =
  mg_runtimes :: "(string \<times> nat) list"
  mg_closed :: bool
  mg_ctxDone :: bool
  mg_maxSlots :: nat
  mg_maxPending :: nat
  mg_slots :: nat
  mg_pending :: nat

definition defaultMaxConcurrentRuns :: int where "defaultMaxConcurrentRuns = 4"
definition defaultMaxPendingRuns :: int where "defaultMaxPendingRuns = 16"

definition NewSessionManager :: "(int \<times> int) option \<Rightarrow> SessionManager" where
  "NewSessionManager limits =
    (let (c, p) = (case limits of
           None \<Rightarrow> (defaultMaxConcurrentRuns, defaultMaxPendingRuns)
         | Some (c, p) \<Rightarrow> (if c \<le> 0 then defaultMaxConcurrentRuns else c, if p \<le> 0 then defaultMaxPendingRuns else p))
     in \<lparr>mg_runtimes = [], mg_closed = False, mg_ctxDone = False, mg_maxSlots = nat c, mg_maxPending = nat p,
         mg_slots = 0, mg_pending = 0\<rparr>)"

definition lookup_run :: "string \<Rightarrow> SessionManager \<Rightarrow> reject + nat" where
  "lookup_run sid m =
    (if mg_closed m then Inl ManagerClosed
     else (case map_of (mg_runtimes m) sid of None \<Rightarrow> Inl SessionNotFound | Some k \<Rightarrow> Inr k))"

definition Register :: "nat \<Rightarrow> SessionRuntime \<Rightarrow> SessionManager \<Rightarrow> reject option \<times> SessionManager" where
  "Register k r m =
    (if mg_closed m then (Some ManagerClosed, m)
     else if rt_retired r then (Some SessionRetired, m)
     else if map_of (mg_runtimes m) (rt_ID r) \<noteq> None then (Some AlreadyRegistered, m)
     else (None, m\<lparr>mg_runtimes := map_put (rt_ID r) k (mg_runtimes m)\<rparr>))"

definition Remove :: "string \<Rightarrow> SessionManager \<Rightarrow> SessionManager" where
  "Remove sid m = m\<lparr>mg_runtimes := map_del sid (mg_runtimes m)\<rparr>"

section \<open>The steps of a run\<close>

text \<open>
  The places of \<^verbatim>\<open>StartRun\<close>, of \<^verbatim>\<open>execute\<close> and of \<^verbatim>\<open>finalizeRun\<close>; the flag of the last three tells whether the
  run holds the gate and a slot there.
\<close>

datatype pc =
    PcPending | PcReserve | PcBind | PcQueue | PcBegin | PcCancel | PcRelease reject | PcReturn reject | PcRefused reject
  | PcGate | PcSlot | PcUngate | PcDrop | PcDropped | PcLeave | PcStart | PcRun | PcFinish
  | PcFinal bool | PcClear bool | PcDone bool | PcFreeSlot | PcFreeGate | PcExit | PcOver

text \<open>
  What a run tells its journal and its event hub: a state record with the outcome of the write, an event,
  the two brackets of the hub, and the notification at its end.
\<close>

datatype obs = ObsState RunStateRecord bool | ObsEvent string json | ObsBegin | ObsEnd | ObsDone

datatype session_act = ActEvent string json | ActWait RunState | ActResume | ActReturn RunResult

record choice =
  ch_now :: time
  ch_ok :: bool
  ch_cancel :: bool
  ch_act :: session_act

record run_thread =
  th_rt :: nat
  th_run :: AgentRun
  th_pc :: pc
  th_res :: RunResult

type_synonym moved = "(run_thread \<times> SessionRuntime \<times> SessionManager \<times> obs list) option"

definition goto :: "pc \<Rightarrow> run_thread \<Rightarrow> run_thread" where
  "goto p t = t\<lparr>th_pc := p\<rparr>"

definition state_record :: "time \<Rightarrow> AgentRun \<Rightarrow> RunResult \<Rightarrow> RunStateRecord" where
  "state_record now run res =
    \<lparr>sr_Kind = stateKind, sr_SessionID = run_SessionID run, sr_RunID = run_ID run, sr_State = state_string (res_State res),
     sr_Err = (case res_Err res of None \<Rightarrow> [] | Some e \<Rightarrow> re_text e), sr_Persisted = res_Persisted res, sr_At = now\<rparr>"

definition plain :: "RunState \<Rightarrow> RunResult" where
  "plain st = \<lparr>res_State = st, res_Err = None, res_Persisted = False\<rparr>"

definition emitRunEvent :: "SessionRuntime \<Rightarrow> string \<Rightarrow> (string \<times> json) list \<Rightarrow> obs list" where
  "emitRunEvent r typ payload = (if rt_hub r then [ObsEvent typ (JObj payload)] else [])"

definition ctx_done :: "SessionManager \<Rightarrow> AgentRun \<Rightarrow> bool" where
  "ctx_done m run \<longleftrightarrow> run_cancelled run \<or> mg_ctxDone m"

text \<open>The synchronous part.\<close>

fun start_step :: "choice \<Rightarrow> nat \<Rightarrow> run_thread \<Rightarrow> SessionRuntime \<Rightarrow> SessionManager \<Rightarrow> pc \<Rightarrow> moved" where
  "start_step c i t r m PcPending =
     (if mg_pending m < mg_maxPending m then Some (goto PcReserve t, r, m\<lparr>mg_pending := Suc (mg_pending m)\<rparr>, [])
      else Some (goto (PcRefused TooManyPending) t, r, m, []))"
| "start_step c i t r m PcReserve =
     (case reserveRun i r of
        (None, r) \<Rightarrow> Some (goto PcBind t, r, m, [])
      | (Some e, r) \<Rightarrow> Some (goto (PcReturn e) t, r, m, []))"
| "start_step c i t r m PcBind =
     (case bindEvents (ch_ok c) r of
        (None, r) \<Rightarrow> Some (goto PcQueue t, r, m, [])
      | (Some e, r) \<Rightarrow> Some (goto (PcRelease e) t, r, m, []))"
| "start_step c i t r m PcQueue =
     Some (goto (if ch_ok c then PcBegin else PcRelease RunJournalWrite) t, r, m,
       [ObsState (state_record (ch_now c) (th_run t) (plain RunQueued)) (ch_ok c)])"
| "start_step c i t r m PcBegin = Some (goto PcCancel t, r, m, if rt_hub r then [ObsBegin] else [])"
| "start_step c i t r m PcCancel = Some (goto PcGate (t\<lparr>th_run := (th_run t)\<lparr>run_cancel := True\<rparr>\<rparr>), r, m, [])"
| "start_step c i t r m (PcRelease e) = Some (goto (PcReturn e) t, releaseRunReservation i r, m, [])"
| "start_step c i t r m (PcReturn e) =
     (if mg_pending m = 0 then None else Some (goto (PcRefused e) t, r, m\<lparr>mg_pending := mg_pending m - 1\<rparr>, []))"
| "start_step c i t r m _ = None"

text \<open>
  The session of a running run: it publishes events, it waits for a decision (\<^verbatim>\<open>decideFunc\<close>) or for a client
  with a tool (the observer of \<^verbatim>\<open>execute\<close>), and it returns.
\<close>

definition session_step :: "choice \<Rightarrow> run_thread \<Rightarrow> SessionRuntime \<Rightarrow> SessionManager \<Rightarrow> moved" where
  "session_step c t r m =
    (let run = th_run t; move = (\<lambda>st. t\<lparr>th_run := transition (ch_now c) st run\<rparr>);
         changed = (\<lambda>st. emitRunEvent r ''run.state_changed''
           [(''from'', JStr (state_string (run_state run))), (''to'', JStr (state_string st))]) in
     case ch_act c of
       ActEvent typ v \<Rightarrow> Some (t, r, m, if rt_hub r then [ObsEvent typ v] else [])
     | ActWait st \<Rightarrow>
         if st \<notin> {RunWaiting, RunWaitingCapability} then None
         else Some (move st, r, m, (if st = RunWaiting then changed RunWaiting else []) @
           [ObsState (state_record (ch_now c) run (plain st)) (ch_ok c)])
     | ActResume \<Rightarrow>
         if ctx_done m run then Some (t, r, m, [])
         else Some (move RunRunning, r, m, if run_state run = RunWaiting then changed RunRunning else [])
     | ActReturn res \<Rightarrow>
         Some (goto PcFinish (t\<lparr>th_res := (if ctx_done m run then cancelled_result res else res)\<rparr>), r, m, []))"

fun execute_step :: "choice \<Rightarrow> run_thread \<Rightarrow> SessionRuntime \<Rightarrow> SessionManager \<Rightarrow> pc \<Rightarrow> moved" where
  "execute_step c t r m PcGate =
     (if ch_cancel c then
        if ctx_done m (th_run t) then Some (goto PcDrop (t\<lparr>th_res := cancelled_result (plain RunCancelled)\<rparr>), r, m, []) else None
      else if rt_gate r then None
      else Some (goto PcSlot t, r\<lparr>rt_gate := True\<rparr>, m, []))"
| "execute_step c t r m PcSlot =
     (if ch_cancel c then
        if ctx_done m (th_run t) then Some (goto PcUngate (t\<lparr>th_res := cancelled_result (plain RunCancelled)\<rparr>), r, m, []) else None
      else if mg_slots m < mg_maxSlots m then Some (goto PcLeave t, r, m\<lparr>mg_slots := Suc (mg_slots m)\<rparr>, [])
      else None)"
| "execute_step c t r m PcUngate = (if rt_gate r then Some (goto PcDrop t, r\<lparr>rt_gate := False\<rparr>, m, []) else None)"
| "execute_step c t r m PcDrop =
     (if mg_pending m = 0 then None else Some (goto PcDropped t, r, m\<lparr>mg_pending := mg_pending m - 1\<rparr>, []))"
| "execute_step c t r m PcDropped =
     Some (goto (PcFinal False) t, r, m, emitRunEvent r ''run.finished'' [(''state'', JStr (state_string RunCancelled))])"
| "execute_step c t r m PcLeave =
     (if mg_pending m = 0 then None else Some (goto PcStart t, r, m\<lparr>mg_pending := mg_pending m - 1\<rparr>, []))"
| "execute_step c t r m PcStart =
     Some (goto PcRun (t\<lparr>th_run := transition (ch_now c) RunRunning (th_run t)\<rparr>), r, m,
       emitRunEvent r ''run.started'' [(''state'', JStr (state_string RunRunning))] @
       [ObsState (state_record (ch_now c) (th_run t) (plain RunRunning)) (ch_ok c)])"
| "execute_step c t r m PcRun = session_step c t r m"
| "execute_step c t r m PcFinish =
     Some (goto (PcFinal True) t, r, m,
       (if res_State (th_res t) = RunFailed
        then emitRunEvent r ''run.error'' [(''err'', JStr (case res_Err (th_res t) of None \<Rightarrow> [] | Some e \<Rightarrow> re_text e))] else []) @
       emitRunEvent r ''run.finished''
         [(''persisted'', JBool (res_Persisted (th_res t))), (''state'', JStr (state_string (res_State (th_res t))))] @
       (if rt_hub r then [ObsEnd] else []))"
| "execute_step c t r m PcFreeSlot =
     (if mg_slots m = 0 then None else Some (goto PcFreeGate t, r, m\<lparr>mg_slots := mg_slots m - 1\<rparr>, []))"
| "execute_step c t r m PcFreeGate = (if rt_gate r then Some (goto PcExit t, r\<lparr>rt_gate := False\<rparr>, m, []) else None)"
| "execute_step c t r m PcExit =
     Some (goto PcOver (t\<lparr>th_run := (th_run t)\<lparr>run_cancelled := True\<rparr>\<rparr>), r, m, if rt_hub r then [ObsEnd] else [])"
| "execute_step c t r m _ = None"

fun finalize_step :: "choice \<Rightarrow> nat \<Rightarrow> run_thread \<Rightarrow> SessionRuntime \<Rightarrow> SessionManager \<Rightarrow> pc \<Rightarrow> moved" where
  "finalize_step c i t r m (PcFinal b) =
     (let res = final_result (th_res t) in
      Some (goto (PcClear b) (t\<lparr>th_res := res\<rparr>), r, m, [ObsState (state_record (ch_now c) (th_run t) res) (ch_ok c)]))"
| "finalize_step c i t r m (PcClear b) = Some (goto (PcDone b) t, releaseRunReservation i r, m, [])"
| "finalize_step c i t r m (PcDone b) =
     Some (goto (if b then PcFreeSlot else PcExit) (t\<lparr>th_run := finish (ch_now c) (th_res t) (th_run t)\<rparr>), r, m, [ObsDone])"
| "finalize_step c i t r m _ = None"

definition thread_step :: "choice \<Rightarrow> nat \<Rightarrow> run_thread \<Rightarrow> SessionRuntime \<Rightarrow> SessionManager \<Rightarrow> moved" where
  "thread_step c i t r m =
    (case start_step c i t r m (th_pc t) of
       Some x \<Rightarrow> Some x
     | None \<Rightarrow> (case execute_step c t r m (th_pc t) of Some x \<Rightarrow> Some x | None \<Rightarrow> finalize_step c i t r m (th_pc t)))"

section \<open>The system\<close>

text \<open>
  The runtimes and the threads live in lists and are named by their positions. \<open>sv_close\<close> is the place of
  the call of \<^verbatim>\<open>Close\<close>; \<open>sv_inflight\<close> records the runs that held a reservation when it began, and
  \<open>sv_snapshot\<close> the runtimes that were registered then, which are those it looks at.
\<close>

datatype close_pc =
    CloseIdle | CloseCancel "nat list" | CloseLook "nat list" | CloseWait nat "nat list" | CloseEvents | CloseReturned

record supervisor =
  sv_mgr :: SessionManager
  sv_rts :: "SessionRuntime list"
  sv_threads :: "run_thread list"
  sv_trace :: "(nat \<times> obs) list"
  sv_close :: close_pc
  sv_inflight :: "nat list"
  sv_snapshot :: "nat list"

definition new_supervisor :: "(int \<times> int) option \<Rightarrow> supervisor" where
  "new_supervisor limits = \<lparr>sv_mgr = NewSessionManager limits, sv_rts = [], sv_threads = [], sv_trace = [],
     sv_close = CloseIdle, sv_inflight = [], sv_snapshot = []\<rparr>"

definition advance :: "choice \<Rightarrow> nat \<Rightarrow> supervisor \<Rightarrow> supervisor option" where
  "advance c i s =
    (if length (sv_threads s) \<le> i then None
     else let t = sv_threads s ! i in
       case thread_step c i t (sv_rts s ! th_rt t) (sv_mgr s) of
         None \<Rightarrow> None
       | Some (t', r, m, os) \<Rightarrow>
           Some (s\<lparr>sv_threads := (sv_threads s)[i := t'], sv_rts := (sv_rts s)[th_rt t := r], sv_mgr := m,
                   sv_trace := sv_trace s @ map (Pair i) os\<rparr>))"

text \<open>A call of \<^verbatim>\<open>StartRun\<close> that has found the runtime.\<close>

definition StartRun :: "string \<Rightarrow> string \<Rightarrow> supervisor \<Rightarrow> reject option \<times> supervisor" where
  "StartRun sid runID s =
    (case lookup_run sid (sv_mgr s) of
       Inl e \<Rightarrow> (Some e, s)
     | Inr k \<Rightarrow> (None, s\<lparr>sv_threads := sv_threads s @
         [\<lparr>th_rt = k, th_run = newAgentRun runID sid, th_pc = PcPending, th_res = plain RunQueued\<rparr>]\<rparr>))"

definition cancel_thread :: "nat \<Rightarrow> supervisor \<Rightarrow> supervisor" where
  "cancel_thread i s =
    (let t = sv_threads s ! i in
     s\<lparr>sv_threads := (sv_threads s)[i := t\<lparr>th_run := (th_run t)\<lparr>run_cancelled := True\<rparr>\<rparr>]\<rparr>)"

definition CancelRun :: "string \<Rightarrow> string \<Rightarrow> supervisor \<Rightarrow> reject option \<times> supervisor" where
  "CancelRun sid runID s =
    (case map_of (mg_runtimes (sv_mgr s)) sid of
       None \<Rightarrow> (Some RunNotFound, s)
     | Some k \<Rightarrow>
         (case rt_active (sv_rts s ! k) of
            None \<Rightarrow> (Some RunNotFound, s)
          | Some i \<Rightarrow>
              let run = th_run (sv_threads s ! i) in
              if run_ID run \<noteq> runID then (Some RunNotFound, s)
              else if \<not> run_cancel run then (Some RunNotCancellable, s)
              else (None, cancel_thread i s)))"

text \<open>The places of a run that hold a token of the queue, a reservation, the gate, a slot.\<close>

definition holds_pending :: "pc \<Rightarrow> bool" where
  "holds_pending p =
    (case p of PcReserve \<Rightarrow> True | PcBind \<Rightarrow> True | PcQueue \<Rightarrow> True
     | PcBegin \<Rightarrow> True | PcCancel \<Rightarrow> True | PcRelease e \<Rightarrow> True
     | PcReturn e \<Rightarrow> True | PcGate \<Rightarrow> True | PcSlot \<Rightarrow> True
     | PcUngate \<Rightarrow> True | PcDrop \<Rightarrow> True | PcLeave \<Rightarrow> True | _ \<Rightarrow> False)"

definition holds_active :: "pc \<Rightarrow> bool" where
  "holds_active p =
    (case p of PcBind \<Rightarrow> True | PcQueue \<Rightarrow> True | PcBegin \<Rightarrow> True
     | PcCancel \<Rightarrow> True | PcRelease e \<Rightarrow> True | PcGate \<Rightarrow> True
     | PcSlot \<Rightarrow> True | PcUngate \<Rightarrow> True | PcDrop \<Rightarrow> True
     | PcDropped \<Rightarrow> True | PcLeave \<Rightarrow> True | PcStart \<Rightarrow> True
     | PcRun \<Rightarrow> True | PcFinish \<Rightarrow> True | PcFinal b \<Rightarrow> True
     | PcClear b \<Rightarrow> True | _ \<Rightarrow> False)"

definition holds_gate :: "pc \<Rightarrow> bool" where
  "holds_gate p =
    (case p of PcSlot \<Rightarrow> True | PcUngate \<Rightarrow> True | PcLeave \<Rightarrow> True
     | PcStart \<Rightarrow> True | PcRun \<Rightarrow> True | PcFinish \<Rightarrow> True
     | PcFinal b \<Rightarrow> b | PcClear b \<Rightarrow> b | PcDone b \<Rightarrow> b
     | PcFreeSlot \<Rightarrow> True | PcFreeGate \<Rightarrow> True | _ \<Rightarrow> False)"

definition holds_slot :: "pc \<Rightarrow> bool" where
  "holds_slot p =
    (case p of PcLeave \<Rightarrow> True | PcStart \<Rightarrow> True | PcRun \<Rightarrow> True
     | PcFinish \<Rightarrow> True
     | PcFinal b \<Rightarrow> b | PcClear b \<Rightarrow> b | PcDone b \<Rightarrow> b
     | PcFreeSlot \<Rightarrow> True | _ \<Rightarrow> False)"

definition set_rt :: "nat \<Rightarrow> SessionRuntime \<Rightarrow> supervisor \<Rightarrow> supervisor" where
  "set_rt k r s = s\<lparr>sv_rts := (sv_rts s)[k := r]\<rparr>"

text \<open>The call of \<^verbatim>\<open>Close\<close>, with the order in which it goes over the runtimes.\<close>

fun close_step :: "nat list \<Rightarrow> close_pc \<Rightarrow> supervisor \<Rightarrow> supervisor option" where
  "close_step order CloseIdle s =
     Some (s\<lparr>sv_mgr := (sv_mgr s)\<lparr>mg_closed := True\<rparr>, sv_close := CloseCancel order,
             sv_inflight := filter (\<lambda>i. holds_active (th_pc (sv_threads s ! i))) [0..<length (sv_threads s)],
             sv_snapshot := order\<rparr>)"
| "close_step order (CloseCancel ks) s = Some (s\<lparr>sv_mgr := (sv_mgr s)\<lparr>mg_ctxDone := True\<rparr>, sv_close := CloseLook ks\<rparr>)"
| "close_step order (CloseLook []) s = Some (s\<lparr>sv_close := CloseEvents\<rparr>)"
| "close_step order (CloseLook (k # ks)) s =
     Some (s\<lparr>sv_close := (case rt_active (sv_rts s ! k) of None \<Rightarrow> CloseLook ks | Some i \<Rightarrow> CloseWait i ks)\<rparr>)"
| "close_step order (CloseWait i ks) s =
     (if run_done (th_run (sv_threads s ! i)) then Some (s\<lparr>sv_close := CloseLook ks\<rparr>) else None)"
| "close_step order CloseEvents s = Some (s\<lparr>sv_mgr := (sv_mgr s)\<lparr>mg_runtimes := []\<rparr>, sv_close := CloseReturned\<rparr>)"
| "close_step order CloseReturned s = None"

inductive sup_step :: "supervisor \<Rightarrow> supervisor \<Rightarrow> bool" where
  run: "advance c i s = Some s' \<Longrightarrow> sup_step s s'"
| start: "StartRun sid runID s = (None, s') \<Longrightarrow> sup_step s s'"
| cancel: "CancelRun sid runID s = (None, s') \<Longrightarrow> sup_step s s'"
| cancel_direct: "i < length (sv_threads s) \<Longrightarrow> run_cancel (th_run (sv_threads s ! i)) \<Longrightarrow> sup_step s (cancel_thread i s)"
| register_new: "Register (length (sv_rts s)) (NewSessionRuntime sid bound events) (sv_mgr s) = (None, m) \<Longrightarrow>
    sup_step s (s\<lparr>sv_mgr := m, sv_rts := sv_rts s @ [NewSessionRuntime sid bound events]\<rparr>)"
| register_again: "k < length (sv_rts s) \<Longrightarrow> Register k (sv_rts s ! k) (sv_mgr s) = (None, m) \<Longrightarrow> sup_step s (s\<lparr>sv_mgr := m\<rparr>)"
| remove: "sup_step s (s\<lparr>sv_mgr := Remove sid (sv_mgr s)\<rparr>)"
| bind: "k < length (sv_rts s) \<Longrightarrow> sup_step s (set_rt k ((sv_rts s ! k)\<lparr>rt_bound := True\<rparr>) s)"
| hub: "k < length (sv_rts s) \<Longrightarrow> rt_bound (sv_rts s ! k) \<Longrightarrow> sup_step s (set_rt k (snd (bindEvents ok (sv_rts s ! k))) s)"
| retire: "k < length (sv_rts s) \<Longrightarrow> sup_step s (set_rt k (snd (Retire (sv_rts s ! k))) s)"
| archive: "k < length (sv_rts s) \<Longrightarrow> sup_step s (set_rt k (snd (Archive ok (sv_rts s ! k))) s)"
| client_enter: "k < length (sv_rts s) \<Longrightarrow> \<not> rt_gate (sv_rts s ! k) \<Longrightarrow>
    sup_step s (set_rt k ((sv_rts s ! k)\<lparr>rt_gate := True, rt_client := True\<rparr>) s)"
| client_leave: "k < length (sv_rts s) \<Longrightarrow> rt_client (sv_rts s ! k) \<Longrightarrow>
    sup_step s (set_rt k ((sv_rts s ! k)\<lparr>rt_gate := False, rt_client := False\<rparr>) s)"
| closing: "sv_close s = CloseIdle \<longrightarrow> mset order = mset (map snd (mg_runtimes (sv_mgr s))) \<Longrightarrow>
    close_step order (sv_close s) s = Some s' \<Longrightarrow> sup_step s s'"

inductive sup_reach :: "(int \<times> int) option \<Rightarrow> supervisor \<Rightarrow> bool" for limits where
  new: "sup_reach limits (new_supervisor limits)"
| step: "sup_reach limits s \<Longrightarrow> sup_step s s' \<Longrightarrow> sup_reach limits s'"

end
