(* ===== verification/Supervisor_Safety.thy ===== *)
theory Supervisor_Safety
  imports Run_Supervisor
begin

text \<open>
  What holds in every interleaving of the runs, the clients and the manager: the tokens of the queue and
  the slots are accounted for (the locale \<open>token_pool\<close>), the gate and the reservation of a runtime have
  one holder, and the calls of a run to its journal and its hub come in the order the journal needs.
\<close>

section \<open>Counting\<close>

definition tally :: "('a \<Rightarrow> bool) \<Rightarrow> 'a list \<Rightarrow> nat" where
  "tally P xs = length (filter P xs)"

lemma tally_simps [simp]: "tally P [] = 0" "tally P (xs @ [x]) = tally P xs + of_bool (P x)"
  by (simp_all add: tally_def)

lemma tally_update:
  assumes "i < length xs"
  shows "tally P (xs[i := y]) + of_bool (P (xs ! i)) = tally P xs + of_bool (P y)"
proof -
  have "xs = take i xs @ xs ! i # drop (Suc i) xs" using assms by (rule id_take_nth_drop)
  then have "tally P xs = tally P (take i xs) + of_bool (P (xs ! i)) + tally P (drop (Suc i) xs)"
    unfolding tally_def by (metis (no_types, lifting) add.assoc filter.simps(2) filter_append length_Cons length_append of_bool_def
        One_nat_def add_Suc plus_nat.add_0)
  then show ?thesis using assms by (simp add: upd_conv_take_nth_drop tally_def)
qed

lemma tally_pos: "i < length xs \<Longrightarrow> P (xs ! i) \<Longrightarrow> 0 < tally P xs"
  unfolding tally_def by (metis filter_empty_conv length_greater_0_conv nth_mem)

section \<open>One step of a run\<close>

lemmas step_simps = thread_step_def session_step_def goto_def reserveRun_def bindEvents_def releaseRunReservation_def Let_def
  holds_pending_def holds_active_def holds_gate_def holds_slot_def

lemma step_shape:
  assumes "thread_step c i t r m = Some (t', r', m', os)"
  shows "th_rt t' = th_rt t" "rt_client r' = rt_client r" "rt_archived r' = rt_archived r" "rt_retired r' = rt_retired r"
    "mg_maxSlots m' = mg_maxSlots m" "mg_maxPending m' = mg_maxPending m" "mg_runtimes m' = mg_runtimes m"
    "mg_closed m' = mg_closed m" "mg_ctxDone m' = mg_ctxDone m" "rt_events r' = rt_events r" "rt_hub r \<longrightarrow> rt_hub r'"
  using assms by (cases "th_pc t"; auto simp: step_simps split: if_splits prod.splits option.splits session_act.splits)+

lemma step_pending:
  assumes "thread_step c i t r m = Some (t', r', m', os)" and "holds_pending (th_pc t) \<longrightarrow> 0 < mg_pending m"
  shows "mg_pending m' + of_bool (holds_pending (th_pc t)) = mg_pending m + of_bool (holds_pending (th_pc t'))"
    and "mg_pending m \<le> mg_maxPending m \<Longrightarrow> mg_pending m' \<le> mg_maxPending m'"
  using assms by (cases "th_pc t"; auto simp: step_simps split: if_splits prod.splits option.splits session_act.splits)+

lemma step_slots:
  assumes "thread_step c i t r m = Some (t', r', m', os)" and "holds_slot (th_pc t) \<longrightarrow> 0 < mg_slots m"
  shows "mg_slots m' + of_bool (holds_slot (th_pc t)) = mg_slots m + of_bool (holds_slot (th_pc t'))"
    and "mg_slots m \<le> mg_maxSlots m \<Longrightarrow> mg_slots m' \<le> mg_maxSlots m'"
  using assms by (cases "th_pc t"; auto simp: step_simps split: if_splits prod.splits option.splits session_act.splits)+

lemma step_gate:
  assumes "thread_step c i t r m = Some (t', r', m', os)" and "holds_gate (th_pc t) \<longrightarrow> rt_gate r"
  shows "of_bool (rt_gate r') + of_bool (holds_gate (th_pc t)) = (of_bool (rt_gate r) + of_bool (holds_gate (th_pc t')) :: nat)"
  using assms by (cases "th_pc t"; auto simp: step_simps split: if_splits prod.splits option.splits session_act.splits)

lemma step_active:
  assumes "thread_step c i t r m = Some (t', r', m', os)" and "holds_active (th_pc t) \<longleftrightarrow> rt_active r = Some i"
  shows "rt_active r' = (if holds_active (th_pc t') then Some i else if holds_active (th_pc t) then None else rt_active r)"
    and "holds_active (th_pc t') \<Longrightarrow> holds_active (th_pc t) \<or> (rt_active r = None \<and> \<not> rt_archived r \<and> \<not> rt_retired r)"
  using assms by (cases "th_pc t"; auto simp: step_simps split: if_splits prod.splits option.splits session_act.splits)+

section \<open>Tokens\<close>

text \<open>
  The steps of the system that are not steps of a run leave the counters, the limits and the places of
  the runs alone; a new thread holds nothing.
\<close>

definition calm :: "supervisor \<Rightarrow> supervisor \<Rightarrow> bool" where
  "calm s s' \<longleftrightarrow> mg_pending (sv_mgr s') = mg_pending (sv_mgr s) \<and> mg_slots (sv_mgr s') = mg_slots (sv_mgr s) \<and>
     mg_maxPending (sv_mgr s') = mg_maxPending (sv_mgr s) \<and> mg_maxSlots (sv_mgr s') = mg_maxSlots (sv_mgr s) \<and>
     sv_trace s' = sv_trace s \<and>
     length (sv_threads s') = length (sv_threads s) \<and>
     (\<forall>i < length (sv_threads s). \<exists>b. sv_threads s' ! i = (sv_threads s ! i)\<lparr>th_run := (th_run (sv_threads s ! i))\<lparr>run_cancelled := b\<rparr>\<rparr>)"

lemma same_cancelled: "\<exists>b. (t :: run_thread) = t\<lparr>th_run := (th_run t)\<lparr>run_cancelled := b\<rparr>\<rparr>"
  by (intro exI [of _ "run_cancelled (th_run t)"]) simp

lemma calm_same:
  assumes "sv_threads s' = sv_threads s" and "sv_trace s' = sv_trace s"
    and "mg_pending (sv_mgr s') = mg_pending (sv_mgr s)" and "mg_slots (sv_mgr s') = mg_slots (sv_mgr s)"
    and "mg_maxPending (sv_mgr s') = mg_maxPending (sv_mgr s)" and "mg_maxSlots (sv_mgr s') = mg_maxSlots (sv_mgr s)"
  shows "calm s s'"
  using assms same_cancelled by (simp add: calm_def)

lemma calm_cancel: "calm s (cancel_thread i s)"
proof -
  have "\<exists>b. (sv_threads s)[i := (sv_threads s ! i)\<lparr>th_run := (th_run (sv_threads s ! i))\<lparr>run_cancelled := True\<rparr>\<rparr>] ! k =
      (sv_threads s ! k)\<lparr>th_run := (th_run (sv_threads s ! k))\<lparr>run_cancelled := b\<rparr>\<rparr>" if "k < length (sv_threads s)" for k
    using that same_cancelled by (cases "k = i") auto
  then show ?thesis by (simp add: calm_def cancel_thread_def Let_def)
qed

lemma sup_step_cases:
  assumes "sup_step s s'"
  obtains (advance) c i where "advance c i s = Some s'"
    | (started) k sid runID where "(sid, k) \<in> set (mg_runtimes (sv_mgr s))"
        "s' = s\<lparr>sv_threads := sv_threads s @
          [\<lparr>th_rt = k, th_run = newAgentRun runID sid, th_pc = PcPending, th_res = plain RunQueued\<rparr>]\<rparr>"
    | (quiet) "calm s s'"
  using assms
proof cases
  case (start sid runID)
  then show thesis using started by (auto simp: StartRun_def lookup_run_def dest: map_of_SomeD split: sum.splits option.splits if_splits)
next
  case (cancel sid runID)
  then show thesis using quiet calm_cancel
    by (auto simp: CancelRun_def Let_def split: option.splits if_splits)
next
  case (closing order)
  then have "calm s s'" by (cases "(order, sv_close s, s)" rule: close_step.cases) (auto intro!: calm_same split: if_splits)
  then show thesis by (rule quiet)
qed (auto intro!: advance quiet calm_same calm_cancel simp: set_rt_def Register_def Remove_def split: if_splits)

lemma tally_calm: "calm s s' \<Longrightarrow> tally (\<lambda>t. P (th_rt t) (th_pc t)) (sv_threads s') = tally (\<lambda>t. P (th_rt t) (th_pc t)) (sv_threads s)"
proof -
  assume c: "calm s s'"
  then have "map (\<lambda>t. (th_rt t, th_pc t)) (sv_threads s') = map (\<lambda>t. (th_rt t, th_pc t)) (sv_threads s)"
    by (fastforce simp: calm_def intro: nth_equalityI)
  moreover have "tally (\<lambda>t. P (th_rt t) (th_pc t)) ts = tally (\<lambda>(a, b). P a b) (map (\<lambda>t. (th_rt t, th_pc t)) ts)" for ts
    by (simp add: tally_def filter_map comp_def)
  ultimately show ?thesis by metis
qed

lemma advance_cases:
  assumes "advance c i s = Some s'"
  obtains t' r m os where "i < length (sv_threads s)"
    "thread_step c i (sv_threads s ! i) (sv_rts s ! th_rt (sv_threads s ! i)) (sv_mgr s) = Some (t', r, m, os)"
    "s' = s\<lparr>sv_threads := (sv_threads s)[i := t'], sv_rts := (sv_rts s)[th_rt (sv_threads s ! i) := r], sv_mgr := m,
            sv_trace := sv_trace s @ map (Pair i) os\<rparr>"
  using assms by (auto simp: advance_def Let_def split: if_splits option.splits)

text \<open>
  A counting channel of the manager: its counter, its capacity and the places that hold one of its tokens.
\<close>

locale token_pool =
  fixes holds :: "pc \<Rightarrow> bool" and used :: "SessionManager \<Rightarrow> nat" and cap :: "SessionManager \<Rightarrow> nat"
  assumes moved: "thread_step c i t r m = Some (t', r', m', os) \<Longrightarrow> (holds (th_pc t) \<longrightarrow> 0 < used m) \<Longrightarrow>
      used m' + of_bool (holds (th_pc t)) = used m + of_bool (holds (th_pc t')) \<and> (used m \<le> cap m \<longrightarrow> used m' \<le> cap m')"
    and kept: "calm s s' \<Longrightarrow> used (sv_mgr s') = used (sv_mgr s) \<and> cap (sv_mgr s') = cap (sv_mgr s)"
    and free: "\<not> holds PcPending"
    and empty: "used (NewSessionManager limits) = 0"
begin

lemma reach_tokens:
  assumes "sup_reach limits s"
  shows "used (sv_mgr s) = tally (\<lambda>t. holds (th_pc t)) (sv_threads s) \<and> used (sv_mgr s) \<le> cap (sv_mgr s)"
  using assms
proof induction
  case new
  then show ?case by (simp add: new_supervisor_def empty)
next
  case (step s s')
  from step.hyps(2) show ?case
  proof (cases rule: sup_step_cases)
    case (advance c i)
    then show ?thesis
    proof (cases rule: advance_cases)
      case (1 t' r m os)
      have "holds (th_pc (sv_threads s ! i)) \<longrightarrow> 0 < used (sv_mgr s)"
        using step.IH 1(1) tally_pos [of i "sv_threads s" "\<lambda>t. holds (th_pc t)"] by auto
      note moved [OF 1(2) this]
      with tally_update [OF 1(1), of "\<lambda>t. holds (th_pc t)" t'] step.IH 1(3) show ?thesis by simp
    qed
  next
    case (started k sid runID)
    then show ?thesis using step.IH by (simp add: free)
  next
    case quiet
    then show ?thesis using step.IH kept [OF quiet] tally_calm [OF quiet, of "\<lambda>_. holds"] by simp
  qed
qed

lemma token_held:
  assumes "sup_reach limits s" and "i < length (sv_threads s)" and "holds (th_pc (sv_threads s ! i))"
  shows "0 < used (sv_mgr s)"
  using reach_tokens [OF assms(1)] tally_pos [of i "sv_threads s" "\<lambda>t. holds (th_pc t)"] assms(2,3) by simp

end

interpretation queue: token_pool holds_pending mg_pending mg_maxPending
proof
  show "mg_pending (NewSessionManager limits) = 0" for limits by (simp add: NewSessionManager_def split: prod.split)
qed (use step_pending in \<open>auto simp: calm_def holds_pending_def\<close>)

interpretation slots: token_pool holds_slot mg_slots mg_maxSlots
proof
  show "mg_slots (NewSessionManager limits) = 0" for limits by (simp add: NewSessionManager_def split: prod.split)
qed (use step_slots in \<open>auto simp: calm_def holds_slot_def\<close>)

end
