(* ===== verification/Supervisor_Runs.thy ===== *)
theory Supervisor_Runs
  imports Supervisor_Safety
begin

text \<open>
  The invariant of the supervisor: every runtime with its threads, and the shape of what every run tells its
  journal and its event hub, from the queued record to the terminal one.
\<close>

section \<open>Runtimes\<close>

text \<open>
  A runtime and its threads: the gate is taken by one thread or one client, the reservation belongs to the
  one thread that is between reserving and clearing, and a retired or archived runtime has none.
\<close>

definition reserves :: "nat \<Rightarrow> run_thread list \<Rightarrow> nat \<Rightarrow> bool" where
  "reserves k ts i \<longleftrightarrow> i < length ts \<and> th_rt (ts ! i) = k \<and> holds_active (th_pc (ts ! i))"

definition runtime_ok :: "nat \<Rightarrow> SessionRuntime \<Rightarrow> run_thread list \<Rightarrow> bool" where
  "runtime_ok k r ts \<longleftrightarrow>
     of_bool (rt_gate r) = tally (\<lambda>t. th_rt t = k \<and> holds_gate (th_pc t)) ts + of_bool (rt_client r) \<and>
     (\<forall>i. rt_active r = Some i \<longleftrightarrow> reserves k ts i) \<and>
     (rt_archived r \<or> rt_retired r \<longrightarrow> rt_active r = None)"

definition sup_inv :: "supervisor \<Rightarrow> bool" where
  "sup_inv s \<longleftrightarrow> (\<forall>x \<in> set (mg_runtimes (sv_mgr s)). snd x < length (sv_rts s)) \<and>
     (\<forall>t \<in> set (sv_threads s). th_rt t < length (sv_rts s)) \<and>
     (\<forall>k < length (sv_rts s). runtime_ok k (sv_rts s ! k) (sv_threads s))"

lemma active_known: "runtime_ok k r ts \<Longrightarrow> i < length ts \<Longrightarrow> th_rt (ts ! i) = k \<Longrightarrow> holds_active (th_pc (ts ! i)) \<longleftrightarrow> rt_active r = Some i"
  by (simp add: runtime_ok_def reserves_def)

lemma gate_known: "runtime_ok k r ts \<Longrightarrow> i < length ts \<Longrightarrow> th_rt (ts ! i) = k \<Longrightarrow> holds_gate (th_pc (ts ! i)) \<Longrightarrow> rt_gate r"
  using tally_pos [of i ts "\<lambda>t. th_rt t = k \<and> holds_gate (th_pc t)"] by (cases "rt_gate r") (simp_all add: runtime_ok_def)

lemma runtime_keep:
  assumes "runtime_ok k r ts" and "rt_gate r' = rt_gate r" and "rt_client r' = rt_client r" and "rt_active r' = rt_active r"
    and "rt_archived r' \<or> rt_retired r' \<longrightarrow> rt_archived r \<or> rt_retired r \<or> rt_active r = None"
  shows "runtime_ok k r' ts"
  using assms by (auto simp: runtime_ok_def)

text \<open>A step of a run on its own runtime, and seen from another one.\<close>

lemma runtime_moved:
  assumes "runtime_ok k r ts" and "i < length ts" and "th_rt (ts ! i) = k" and "thread_step c i (ts ! i) r m = Some (t', r', m', os)"
  shows "runtime_ok k r' (ts[i := t'])"
proof -
  let ?P = "\<lambda>t. th_rt t = k \<and> holds_gate (th_pc t)"
  note sh = step_shape [OF assms(4)]
  have a: "holds_active (th_pc (ts ! i)) \<longleftrightarrow> rt_active r = Some i" using assms(1-3) by (rule active_known)
  note ac = step_active [OF assms(4) a]
  have g: "holds_gate (th_pc (ts ! i)) \<longrightarrow> rt_gate r" using gate_known [OF assms(1-3)] by blast
  have "of_bool (rt_gate r') = tally ?P (ts[i := t']) + of_bool (rt_client r')"
    using tally_update [OF assms(2), of ?P t'] step_gate [OF assms(4) g] assms(1,3) sh(1,2)
    by (simp add: runtime_ok_def)
  moreover have "rt_active r' = Some n \<longleftrightarrow> reserves k (ts[i := t']) n" for n
  proof (cases "n = i")
    case True
    then show ?thesis using ac(1) a assms(2,3) sh(1) by (simp add: reserves_def split: if_splits)
  next
    case False
    then have "reserves k (ts[i := t']) n = reserves k ts n" by (simp add: reserves_def)
    moreover have "rt_active r \<noteq> Some n" if "holds_active (th_pc t') \<or> holds_active (th_pc (ts ! i))"
      using that ac(2) iffD1 [OF a] False by force
    then have "rt_active r' = Some n \<longleftrightarrow> rt_active r = Some n" unfolding ac(1) using False by (simp split: if_splits)
    ultimately show ?thesis using assms(1) by (simp add: runtime_ok_def)
  qed
  moreover have "rt_archived r' \<or> rt_retired r' \<longrightarrow> rt_active r' = None"
    using assms(1) ac a sh(3,4) by (auto simp: runtime_ok_def)
  ultimately show ?thesis by (simp add: runtime_ok_def)
qed

lemma runtime_other:
  assumes "runtime_ok k r ts" and "i < length ts" and "th_rt (ts ! i) \<noteq> k" and "th_rt t' \<noteq> k"
  shows "runtime_ok k r (ts[i := t'])"
proof -
  have "reserves k (ts[i := t']) n = reserves k ts n" for n using assms(2-4) by (cases "n = i") (simp_all add: reserves_def)
  then show ?thesis using assms tally_update [OF assms(2), of "\<lambda>t. th_rt t = k \<and> holds_gate (th_pc t)" t']
    by (simp add: runtime_ok_def)
qed

lemma runtime_new:
  assumes "runtime_ok k r ts" and "th_pc t = PcPending"
  shows "runtime_ok k r (ts @ [t])"
proof -
  have "reserves k (ts @ [t]) n = reserves k ts n" for n using assms(2) by (auto simp: reserves_def nth_append holds_active_def)
  then show ?thesis using assms by (simp add: runtime_ok_def holds_gate_def)
qed

lemma runtime_calm:
  assumes "runtime_ok k r (sv_threads s)" and "calm s s'"
  shows "runtime_ok k r (sv_threads s')"
proof -
  have "th_rt (sv_threads s' ! i) = th_rt (sv_threads s ! i)" "th_pc (sv_threads s' ! i) = th_pc (sv_threads s ! i)"
    if "i < length (sv_threads s)" for i using assms(2) that unfolding calm_def by force+
  then have "reserves k (sv_threads s') n = reserves k (sv_threads s) n" for n
    using assms(2) by (auto simp: reserves_def calm_def)
  then show ?thesis using assms tally_calm [OF assms(2), of "\<lambda>a p. a = k \<and> holds_gate p"]
    by (simp add: runtime_ok_def)
qed

lemma runtime_fresh:
  assumes "\<forall>t \<in> set ts. th_rt t < k"
  shows "runtime_ok k (NewSessionRuntime sid bound events) ts"
proof -
  have "tally (\<lambda>t. th_rt t = k \<and> holds_gate (th_pc t)) ts = 0" using assms by (auto simp: tally_def filter_empty_conv)
  then show ?thesis using assms nth_mem by (fastforce simp: runtime_ok_def reserves_def NewSessionRuntime_def)
qed

lemma sup_inv_advance:
  assumes "sup_inv s" and "advance c i s = Some s'"
  shows "sup_inv s'"
  using assms(2)
proof (cases rule: advance_cases)
  case (1 t' r m os)
  let ?k = "th_rt (sv_threads s ! i)"
  have k: "?k < length (sv_rts s)" using assms(1) 1(1) by (simp add: sup_inv_def)
  note sh = step_shape [OF 1(2)]
  have "runtime_ok n ((sv_rts s)[?k := r] ! n) ((sv_threads s)[i := t'])" if "n < length (sv_rts s)" for n
    using runtime_moved [OF _ 1(1) refl 1(2)] runtime_other [OF _ 1(1), of n "sv_rts s ! n" t'] assms(1) that k sh(1)
    by (cases "n = ?k") (auto simp: sup_inv_def)
  moreover have "\<forall>t \<in> set ((sv_threads s)[i := t']). th_rt t < length (sv_rts s)"
    using assms(1) k sh(1) by (auto simp: sup_inv_def dest!: set_update_subset_insert [THEN subsetD])
  ultimately show ?thesis using assms(1) 1(3) sh(7) by (simp add: sup_inv_def)
qed

lemma sup_inv_runtime:
  assumes "sup_inv s" and "k < length (sv_rts s)" and "runtime_ok k (sv_rts s ! k) (sv_threads s) \<Longrightarrow> runtime_ok k r (sv_threads s)"
  shows "sup_inv (set_rt k r s)"
  using assms by (auto simp: sup_inv_def set_rt_def nth_list_update)

lemma sup_inv_calm:
  assumes "sup_inv s" and "calm s s'" and "sv_rts s' = sv_rts s" and "\<forall>x \<in> set (mg_runtimes (sv_mgr s')). snd x < length (sv_rts s)"
  shows "sup_inv s'"
proof -
  have "th_rt t < length (sv_rts s)" if t: "t \<in> set (sv_threads s')" for t
  proof -
    obtain n where n: "n < length (sv_threads s)" "t = sv_threads s' ! n"
      using t assms(2) by (auto simp: in_set_conv_nth calm_def)
    then have "th_rt t = th_rt (sv_threads s ! n)" using assms(2) by (fastforce simp: calm_def)
    then show ?thesis using assms(1) n(1) by (simp add: sup_inv_def)
  qed
  then show ?thesis using assms runtime_calm by (auto simp: sup_inv_def)
qed

lemma sup_inv_cancel: "sup_inv s \<Longrightarrow> sup_inv (cancel_thread i s)"
  by (rule sup_inv_calm [OF _ calm_cancel]) (simp_all add: cancel_thread_def Let_def sup_inv_def)

lemma reach_sup_inv: "sup_reach limits s \<Longrightarrow> sup_inv s"
proof (induction rule: sup_reach.induct)
  case new
  then show ?case by (simp add: sup_inv_def new_supervisor_def NewSessionManager_def split: prod.split)
next
  case (step s s')
  note I = step.IH
  from step.hyps(2) show ?case
  proof cases
    case (run c i)
    then show ?thesis using sup_inv_advance [OF I] by blast
  next
    case (start sid runID)
    then obtain k where "(sid, k) \<in> set (mg_runtimes (sv_mgr s))"
      "s' = s\<lparr>sv_threads := sv_threads s @ [\<lparr>th_rt = k, th_run = newAgentRun runID sid, th_pc = PcPending, th_res = plain RunQueued\<rparr>]\<rparr>"
      by (auto simp: StartRun_def lookup_run_def dest: map_of_SomeD split: sum.splits option.splits if_splits)
    then show ?thesis using I by (auto simp: sup_inv_def intro: runtime_new)
  next
    case (cancel sid runID)
    then obtain i where "s' = cancel_thread i s" by (auto simp: CancelRun_def Let_def split: option.splits if_splits)
    then show ?thesis using sup_inv_cancel [OF I] by simp
  next
    case (cancel_direct i)
    then show ?thesis using sup_inv_cancel [OF I] by simp
  next
    case (register_new sid bound events m)
    then have m: "mg_runtimes m = map_put sid (length (sv_rts s)) (mg_runtimes (sv_mgr s))"
      by (auto simp: Register_def NewSessionRuntime_def split: if_splits)
    have "runtime_ok k ((sv_rts s @ [NewSessionRuntime sid bound events]) ! k) (sv_threads s)" if "k < Suc (length (sv_rts s))" for k
      using that I runtime_fresh by (cases "k = length (sv_rts s)") (auto simp: sup_inv_def nth_append)
    moreover have "snd x < Suc (length (sv_rts s))" if "x \<in> set (mg_runtimes m)" for x
      using that I in_map_put [of x sid "length (sv_rts s)"] unfolding m by (fastforce simp: sup_inv_def)
    ultimately show ?thesis using I register_new by (auto simp: sup_inv_def less_Suc_eq)
  next
    case (register_again k m)
    then have m: "mg_runtimes m = map_put (rt_ID (sv_rts s ! k)) k (mg_runtimes (sv_mgr s))"
      by (auto simp: Register_def split: if_splits)
    have "snd x < length (sv_rts s)" if "x \<in> set (mg_runtimes m)" for x
      using that I register_again(2) in_map_put [of x "rt_ID (sv_rts s ! k)" k] unfolding m by (fastforce simp: sup_inv_def)
    then show ?thesis using I register_again by (auto simp: sup_inv_def)
  next
    case (remove sid)
    then show ?thesis using I by (auto simp: sup_inv_def Remove_def map_del_def)
  next
    case (bind k)
    show ?thesis unfolding bind(1) by (rule sup_inv_runtime [OF I bind(2)], erule runtime_keep) auto
  next
    case (hub k ok)
    show ?thesis unfolding hub(1) by (rule sup_inv_runtime [OF I hub(2)], erule runtime_keep) (auto simp: bindEvents_def)
  next
    case (retire k)
    show ?thesis unfolding retire(1) by (rule sup_inv_runtime [OF I retire(2)], erule runtime_keep) (auto simp: Retire_def)
  next
    case (archive k ok)
    show ?thesis unfolding archive(1) by (rule sup_inv_runtime [OF I archive(2)], erule runtime_keep) (auto simp: Archive_def)
  next
    case (client_enter k)
    show ?thesis unfolding client_enter(1) by (rule sup_inv_runtime [OF I client_enter(2)]) (use client_enter in \<open>auto simp: runtime_ok_def\<close>)
  next
    case (client_leave k)
    show ?thesis unfolding client_leave(1)
      by (rule sup_inv_runtime [OF I client_leave(2)]) (use client_leave in \<open>cases "rt_gate (sv_rts s ! k)"; auto simp: runtime_ok_def\<close>)
  next
    case (closing order)
    then have "sv_rts s' = sv_rts s \<and> set (mg_runtimes (sv_mgr s')) \<subseteq> set (mg_runtimes (sv_mgr s)) \<and> sv_threads s' = sv_threads s"
      by (cases "(order, sv_close s, s)" rule: close_step.cases) (auto split: if_splits)
    then show ?thesis using I by (auto simp: sup_inv_def)
  qed
qed

section \<open>The order of the records of a run\<close>

definition trace_of :: "nat \<Rightarrow> supervisor \<Rightarrow> obs list" where
  "trace_of i s = map snd (filter (\<lambda>x. fst x = i) (sv_trace s))"

definition closing_obs :: "obs \<Rightarrow> bool" where
  "closing_obs ob = (case ob of ObsState r ok \<Rightarrow> isTerminalRunState (sr_State r) | ObsDone \<Rightarrow> True | _ \<Rightarrow> False)"

text \<open>The trace of an accepted run that has not been finished: a queued record on disk, and nothing terminal.\<close>

definition open_trace :: "obs list \<Rightarrow> bool" where
  "open_trace tr \<longleftrightarrow> (\<exists>r rest. tr = ObsState r True # rest \<and> sr_State r = state_string RunQueued) \<and> list_all (\<lambda>ob. \<not> closing_obs ob) tr"

definition settled_trace :: "run_thread \<Rightarrow> obs list \<Rightarrow> obs list \<Rightarrow> bool" where
  "settled_trace t tr post \<longleftrightarrow> (\<exists>pre now ok. tr = pre @ ObsState (state_record now (th_run t) (th_res t)) ok # post \<and> open_trace pre) \<and>
     terminal_state (res_State (th_res t))"

definition unsettled :: "AgentRun \<Rightarrow> bool" where
  "unsettled run \<longleftrightarrow> \<not> run_done run \<and> \<not> terminal_state (run_state run)"

definition finished :: "run_thread \<Rightarrow> bool" where
  "finished t \<longleftrightarrow> run_done (th_run t) \<and> snapshot (th_run t) = th_res t"

definition thread_shape :: "run_thread \<Rightarrow> obs list \<Rightarrow> bool" where
  "thread_shape t tr =
    (case th_pc t of
       PcPending \<Rightarrow> tr = [] \<and> unsettled (th_run t)
     | PcReserve \<Rightarrow> tr = [] \<and> unsettled (th_run t)
     | PcBind \<Rightarrow> tr = [] \<and> unsettled (th_run t)
     | PcQueue \<Rightarrow> tr = [] \<and> unsettled (th_run t)
     | PcRelease e \<Rightarrow> (\<forall>ob \<in> set tr. \<exists>r. ob = ObsState r False) \<and> unsettled (th_run t)
     | PcReturn e \<Rightarrow> (\<forall>ob \<in> set tr. \<exists>r. ob = ObsState r False) \<and> unsettled (th_run t)
     | PcRefused e \<Rightarrow> (\<forall>ob \<in> set tr. \<exists>r. ob = ObsState r False) \<and> unsettled (th_run t)
     | PcClear b \<Rightarrow> settled_trace t tr [] \<and> unsettled (th_run t)
     | PcDone b \<Rightarrow> settled_trace t tr [] \<and> unsettled (th_run t)
     | PcFreeSlot \<Rightarrow> settled_trace t tr [ObsDone] \<and> finished t
     | PcFreeGate \<Rightarrow> settled_trace t tr [ObsDone] \<and> finished t
     | PcExit \<Rightarrow> settled_trace t tr [ObsDone] \<and> finished t
     | PcOver \<Rightarrow> (settled_trace t tr [ObsDone] \<or> settled_trace t tr [ObsDone, ObsEnd]) \<and> finished t
     | _ \<Rightarrow> open_trace tr \<and> unsettled (th_run t))"

lemma state_strings_terminal: "isTerminalRunState (state_string st) \<longleftrightarrow> terminal_state st"
  by (cases st) (simp_all add: isTerminalRunState_def state_string_def terminal_state_def StateInterrupted_def)

lemma open_more: "open_trace tr \<Longrightarrow> list_all (\<lambda>ob. \<not> closing_obs ob) os \<Longrightarrow> open_trace (tr @ os)"
  by (auto simp: open_trace_def)

lemma state_record_run [simp]:
  "state_record now (run\<lparr>run_cancelled := b\<rparr>) res = state_record now run res"
  "state_record now (finish n res' run) res = state_record now run res"
  "sr_State (state_record now run res) = state_string (res_State res)"
  by (simp_all add: state_record_def finish_def transition_def)

lemma final_terminal: "terminal_state (res_State (final_result res))"
  by (simp add: final_result_def terminal_state_def split: option.split)

lemma finish_finished:
  assumes "unsettled run" and "terminal_state (res_State res)"
  shows "run_done (finish now res run)" "snapshot (finish now res run) = res"
  using assms by (auto simp: finish_def transition_def unsettled_def snapshot_def)

lemma unsettled_simps [simp]:
  "unsettled (run\<lparr>run_cancelled := b\<rparr>) = unsettled run" "unsettled (run\<lparr>run_cancel := b\<rparr>) = unsettled run"
  "\<not> terminal_state st \<Longrightarrow> unsettled run \<Longrightarrow> unsettled (transition now st run)"
  by (auto simp: unsettled_def transition_def)

lemmas quiet_simps = closing_obs_def emitRunEvent_def state_strings_terminal plain_def terminal_state_def

text \<open>The step of a run keeps its shape; one lemma for each part of its life.\<close>

lemma shape_start:
  assumes "thread_shape t tr" and "start_step c i t r m (th_pc t) = Some (t', r', m', os)"
  shows "thread_shape t' (tr @ os)"
  using assms
  by (cases "th_pc t") (auto simp: thread_shape_def goto_def open_trace_def quiet_simps split: if_splits prod.splits option.splits)

lemma shape_session:
  assumes "open_trace tr" and "unsettled (th_run t)" and "session_step c t r m = Some (t', r', m', os)" and "th_pc t = PcRun"
  shows "thread_shape t' (tr @ os)"
proof -
  have "th_pc t' = PcRun \<or> th_pc t' = PcFinish" using assms(3,4)
    by (auto simp: session_step_def goto_def Let_def split: session_act.splits if_splits)
  moreover have "list_all (\<lambda>ob. \<not> closing_obs ob) os" using assms(3)
    by (auto simp: session_step_def goto_def Let_def quiet_simps split: session_act.splits if_splits)
  moreover have "unsettled (th_run t')" using assms(2,3)
    by (auto simp: session_step_def goto_def Let_def terminal_state_def split: session_act.splits if_splits)
  ultimately show ?thesis using assms(1) open_more by (auto simp: thread_shape_def)
qed

lemma shape_execute:
  assumes "thread_shape t tr" and "execute_step c t r m (th_pc t) = Some (t', r', m', os)"
  shows "thread_shape t' (tr @ os)"
proof (cases "th_pc t = PcRun")
  case True
  then show ?thesis using assms shape_session by (auto simp: thread_shape_def)
next
  case False
  show ?thesis
  proof (cases "th_pc t = PcExit")
    case True
    then show ?thesis using assms by (auto simp: thread_shape_def goto_def settled_trace_def finished_def snapshot_def)
  next
    case ne: False
    then show ?thesis using assms False
      by (cases "th_pc t")
        (auto simp: thread_shape_def goto_def settled_trace_def finished_def quiet_simps unsettled_def transition_def
          intro!: open_more split: if_splits)
  qed
qed

lemma shape_finalize:
  assumes "thread_shape t tr" and "finalize_step c i t r m (th_pc t) = Some (t', r', m', os)"
  shows "thread_shape t' (tr @ os)"
proof (cases "th_pc t")
  case (PcFinal b)
  then show ?thesis using assms final_terminal by (auto simp: thread_shape_def goto_def settled_trace_def Let_def)
next
  case (PcDone b)
  then have "settled_trace t tr []" "unsettled (th_run t)" using assms(1) by (simp_all add: thread_shape_def)
  moreover from this have "finished (t\<lparr>th_run := finish (ch_now c) (th_res t) (th_run t)\<rparr>)"
    using finish_finished by (simp add: finished_def settled_trace_def)
  ultimately show ?thesis using PcDone assms(2) by (auto simp: thread_shape_def goto_def settled_trace_def finished_def)
qed (use assms in \<open>auto simp: thread_shape_def goto_def settled_trace_def\<close>)

lemma shape_step:
  assumes "thread_shape t tr" and "thread_step c i t r m = Some (t', r', m', os)"
  shows "thread_shape t' (tr @ os)"
  using assms shape_start shape_execute shape_finalize by (auto simp: thread_step_def split: option.splits)

lemma shape_cancel: "thread_shape (t\<lparr>th_run := (th_run t)\<lparr>run_cancelled := b\<rparr>\<rparr>) tr = thread_shape t tr"
  by (simp add: thread_shape_def settled_trace_def finished_def snapshot_def split: pc.split)

lemma reach_shape:
  assumes "sup_reach limits s" and "i < length (sv_threads s)"
  shows "thread_shape (sv_threads s ! i) (trace_of i s)"
proof -
  have "(\<forall>i < length (sv_threads s). thread_shape (sv_threads s ! i) (trace_of i s)) \<and> (\<forall>x \<in> set (sv_trace s). fst x < length (sv_threads s))"
    using assms(1)
  proof induction
    case new
    then show ?case by (simp add: new_supervisor_def)
  next
    case (step s s')
    from step.hyps(2) show ?case
    proof (cases rule: sup_step_cases)
      case (advance c n)
      then show ?thesis
      proof (cases rule: advance_cases)
        case (1 t' r m os)
        have "trace_of k s' = trace_of k s @ (if k = n then os else [])" for k
          using 1(3) by (auto simp: trace_of_def filter_map comp_def)
        then show ?thesis using step.IH 1 shape_step by (auto simp: nth_list_update)
      qed
    next
      case (started k sid runID)
      have "trace_of (length (sv_threads s)) s = []" using step.IH by (auto simp: trace_of_def filter_empty_conv)
      moreover have "trace_of n s' = trace_of n s" for n using started by (simp add: trace_of_def)
      ultimately show ?thesis using step.IH started
        by (auto simp: nth_append less_Suc_eq thread_shape_def newAgentRun_def unsettled_def terminal_state_def)
    next
      case quiet
      then have "trace_of n s' = trace_of n s" for n by (simp add: trace_of_def calm_def)
      moreover have "thread_shape (sv_threads s' ! n) tr = thread_shape (sv_threads s ! n) tr" if "n < length (sv_threads s)" for n tr
        using quiet that shape_cancel by (auto simp: calm_def)
      ultimately show ?thesis using step.IH quiet by (simp add: calm_def)
    qed
  qed
  with assms(2) show ?thesis by blast
qed

section \<open>The states of a run in its journal\<close>

text \<open>The states of the records in a trace, in their order.\<close>

fun obs_state :: "obs \<Rightarrow> string list" where
  "obs_state (ObsState r ok) = [sr_State r]"
| "obs_state _ = []"

definition recorded :: "obs list \<Rightarrow> string list" where
  "recorded tr = concat (map obs_state tr)"

lemma recorded_simps [simp]:
  "recorded [] = []" "recorded (tr @ tr') = recorded tr @ recorded tr'" "recorded (ob # tr) = obs_state ob @ recorded tr"
  by (simp_all add: recorded_def)

text \<open>
  A run that never got its slot has a queued record and then, cancelled, its terminal one. A run that
  was started has a running record behind the queued one, then records of waiting, then the terminal one.
\<close>

definition queued_run :: "AgentRun \<Rightarrow> bool" where
  "queued_run run \<longleftrightarrow> run_startedAt run = None \<and> run_state run = RunQueued"

definition started_records :: "string list \<Rightarrow> bool" where
  "started_records xs \<longleftrightarrow> (\<exists>ws. xs = state_string RunQueued # state_string RunRunning # ws \<and>
     set ws \<subseteq> {state_string RunWaiting, state_string RunWaitingCapability})"

definition run_records :: "AgentRun \<Rightarrow> RunState \<Rightarrow> string list \<Rightarrow> bool" where
  "run_records run st xs \<longleftrightarrow> (\<exists>ys. xs = ys @ [state_string st] \<and>
     (if run_startedAt run = None then ys = [state_string RunQueued] \<and> st = RunCancelled else started_records ys)) \<and> terminal_state st"

definition record_shape :: "run_thread \<Rightarrow> string list \<Rightarrow> bool" where
  "record_shape t xs =
    (case th_pc t of
       PcPending \<Rightarrow> xs = [] \<and> queued_run (th_run t)
     | PcReserve \<Rightarrow> xs = [] \<and> queued_run (th_run t)
     | PcBind \<Rightarrow> xs = [] \<and> queued_run (th_run t)
     | PcQueue \<Rightarrow> xs = [] \<and> queued_run (th_run t)
     | PcRelease e \<Rightarrow> True | PcReturn e \<Rightarrow> True | PcRefused e \<Rightarrow> True
     | PcUngate \<Rightarrow> xs = [state_string RunQueued] \<and> queued_run (th_run t) \<and> th_res t = cancelled_result (plain RunCancelled)
     | PcDrop \<Rightarrow> xs = [state_string RunQueued] \<and> queued_run (th_run t) \<and> th_res t = cancelled_result (plain RunCancelled)
     | PcDropped \<Rightarrow> xs = [state_string RunQueued] \<and> queued_run (th_run t) \<and> th_res t = cancelled_result (plain RunCancelled)
     | PcFinal b \<Rightarrow>
         if b then run_startedAt (th_run t) \<noteq> None \<and> started_records xs
         else xs = [state_string RunQueued] \<and> queued_run (th_run t) \<and> th_res t = cancelled_result (plain RunCancelled)
     | PcRun \<Rightarrow> run_startedAt (th_run t) \<noteq> None \<and> started_records xs
     | PcFinish \<Rightarrow> run_startedAt (th_run t) \<noteq> None \<and> started_records xs
     | PcClear b \<Rightarrow> run_records (th_run t) (res_State (th_res t)) xs
     | PcDone b \<Rightarrow> run_records (th_run t) (res_State (th_res t)) xs
     | PcFreeSlot \<Rightarrow> run_records (th_run t) (res_State (th_res t)) xs
     | PcFreeGate \<Rightarrow> run_records (th_run t) (res_State (th_res t)) xs
     | PcExit \<Rightarrow> run_records (th_run t) (res_State (th_res t)) xs
     | PcOver \<Rightarrow> run_records (th_run t) (res_State (th_res t)) xs
     | _ \<Rightarrow> xs = [state_string RunQueued] \<and> queued_run (th_run t))"

lemma queued_run_simps [simp]:
  "queued_run (run\<lparr>run_cancelled := b\<rparr>) = queued_run run" "queued_run (run\<lparr>run_cancel := b\<rparr>) = queued_run run"
  "queued_run run \<Longrightarrow> run_startedAt (transition now RunRunning run) \<noteq> None"
  by (auto simp: queued_run_def transition_def)

lemma started_more: "started_records xs \<Longrightarrow> st \<in> {RunWaiting, RunWaitingCapability} \<Longrightarrow> started_records (xs @ [state_string st])"
  by (auto simp: started_records_def)

lemma started_kept: "run_startedAt run \<noteq> None \<Longrightarrow> run_startedAt (transition now st run) \<noteq> None"
  "st \<noteq> RunRunning \<Longrightarrow> run_startedAt (transition now st run) = run_startedAt run"
  by (auto simp: transition_def)

lemma finish_started: "terminal_state (res_State res) \<Longrightarrow> run_startedAt (finish now res run) = run_startedAt run"
  by (auto simp: finish_def transition_def terminal_state_def)

lemma run_records_run [simp]:
  "run_records (run\<lparr>run_cancelled := b\<rparr>) st xs = run_records run st xs"
  by (simp add: run_records_def)

lemma recorded_event [simp]: "recorded (emitRunEvent r typ v) = []"
  by (simp add: emitRunEvent_def)

lemma records_start:
  assumes "record_shape t xs" and "start_step c i t r m (th_pc t) = Some (t', r', m', os)"
  shows "record_shape t' (xs @ recorded os)"
  using assms by (cases "th_pc t") (auto simp: record_shape_def goto_def plain_def split: if_splits prod.splits option.splits)

lemma records_session:
  assumes "run_startedAt (th_run t) \<noteq> None" and "started_records xs" and "session_step c t r m = Some (t', r', m', os)" and "th_pc t = PcRun"
  shows "record_shape t' (xs @ recorded os)"
proof -
  have pc: "th_pc t' = PcRun \<or> th_pc t' = PcFinish" using assms(3,4)
    by (auto simp: session_step_def goto_def Let_def split: session_act.splits if_splits)
  have "run_startedAt (th_run t') \<noteq> None" using assms(1,3)
    by (auto simp: session_step_def goto_def Let_def transition_def split: session_act.splits if_splits)
  moreover have "started_records (xs @ recorded os)" using assms(2,3) started_more
    by (auto simp: session_step_def goto_def Let_def plain_def split: session_act.splits if_splits)
  ultimately show ?thesis using pc by (auto simp: record_shape_def)
qed

lemma records_execute:
  assumes "record_shape t xs" and "execute_step c t r m (th_pc t) = Some (t', r', m', os)"
  shows "record_shape t' (xs @ recorded os)"
proof (cases "th_pc t = PcRun")
  case True
  then have "run_startedAt (th_run t) \<noteq> None" "started_records xs" "session_step c t r m = Some (t', r', m', os)"
    using assms by (simp_all add: record_shape_def)
  then show ?thesis using True by (rule records_session)
next
  case False
  then show ?thesis using assms
    by (cases "th_pc t") (auto simp: record_shape_def goto_def started_records_def plain_def split: if_splits)
qed

lemma cancelled_final: "res_State (final_result (cancelled_result (plain RunCancelled))) = RunCancelled"
  by (simp add: final_result_def cancelled_result_def plain_def ctx_err_def)

lemma records_finalize:
  assumes "record_shape t xs" and "finalize_step c i t r m (th_pc t) = Some (t', r', m', os)"
  shows "record_shape t' (xs @ recorded os)"
proof (cases "th_pc t")
  case (PcFinal b)
  moreover have "terminal_state RunCancelled" by (simp add: terminal_state_def)
  ultimately show ?thesis using assms final_terminal cancelled_final
    by (auto simp: record_shape_def goto_def run_records_def queued_run_def Let_def split: if_splits)
next
  case (PcDone b)
  then show ?thesis using assms
    by (auto simp: record_shape_def goto_def run_records_def finish_started)
qed (use assms in \<open>auto simp: record_shape_def goto_def\<close>)

lemma records_step:
  assumes "record_shape t xs" and "thread_step c i t r m = Some (t', r', m', os)"
  shows "record_shape t' (xs @ recorded os)"
  using assms records_start records_execute records_finalize by (auto simp: thread_step_def split: option.splits)

lemma records_cancel: "record_shape (t\<lparr>th_run := (th_run t)\<lparr>run_cancelled := b\<rparr>\<rparr>) xs = record_shape t xs"
  by (simp add: record_shape_def split: pc.split)

lemma trace_index: "sup_reach limits s \<Longrightarrow> x \<in> set (sv_trace s) \<Longrightarrow> fst x < length (sv_threads s)"
proof (induction arbitrary: x rule: sup_reach.induct)
  case (step s s')
  from step.hyps(2) show ?case
  proof (cases rule: sup_step_cases)
    case (advance c n)
    then show ?thesis using step.IH [of x] step.prems by (cases rule: advance_cases) auto
  next
    case (started k sid runID)
    then show ?thesis using step.IH [of x] step.prems by simp
  next
    case quiet
    then show ?thesis using step.IH [of x] step.prems by (simp add: calm_def)
  qed
qed (simp add: new_supervisor_def)

lemma reach_records:
  assumes "sup_reach limits s" and "i < length (sv_threads s)"
  shows "record_shape (sv_threads s ! i) (recorded (trace_of i s))"
  using assms
proof (induction arbitrary: i rule: sup_reach.induct)
  case (step s s')
  from step.hyps(2) show ?case
  proof (cases rule: sup_step_cases)
    case (advance c n)
    then show ?thesis
    proof (cases rule: advance_cases)
      case (1 t' r m os)
      have "trace_of k s' = trace_of k s @ (if k = n then os else [])" for k
        using 1(3) by (auto simp: trace_of_def filter_map comp_def)
      then show ?thesis using step.IH [of i] step.prems 1 records_step [OF _ 1(2)] by (cases "i = n") simp_all
    qed
  next
    case (started k sid runID)
    have "trace_of (length (sv_threads s)) s = []"
      using trace_index [OF step.hyps(1)] by (force simp: trace_of_def filter_empty_conv)
    moreover have "trace_of n s' = trace_of n s" for n using started by (simp add: trace_of_def)
    ultimately show ?thesis using step.IH [of i] step.prems started
      by (auto simp: nth_append less_Suc_eq record_shape_def newAgentRun_def queued_run_def)
  next
    case quiet
    then have "trace_of i s' = trace_of i s" by (simp add: trace_of_def calm_def)
    moreover have "record_shape (sv_threads s' ! i) xs = record_shape (sv_threads s ! i) xs" for xs
      using quiet step.prems records_cancel by (auto simp: calm_def)
    ultimately show ?thesis using step.IH [of i] step.prems quiet by (simp add: calm_def)
  qed
qed (simp add: new_supervisor_def)

end
