(* ===== verification/Supervisor_Progress.thy ===== *)
theory Supervisor_Progress
  imports Supervisor_Runs
begin

text \<open>
  The theorems on the supervisor: its limits, the order of the records of a run, and progress. No run
  waits for something that cannot come: every step but the two waiting ones is always possible, a
  cancelled run reaches its end by its own steps, and with free gates all runs together can be brought
  to their end. Then the shutdown, with the run that it misses.
\<close>

section \<open>Ranks\<close>

definition final_pc :: "pc \<Rightarrow> bool" where
  "final_pc p = (case p of PcOver \<Rightarrow> True | PcRefused e \<Rightarrow> True | _ \<Rightarrow> False)"

definition rank :: "pc \<Rightarrow> nat" where
  "rank p =
    (case p of PcPending \<Rightarrow> 20 | PcReserve \<Rightarrow> 19 | PcBind \<Rightarrow> 18 | PcQueue \<Rightarrow> 17 | PcBegin \<Rightarrow> 16 | PcCancel \<Rightarrow> 15 | PcGate \<Rightarrow> 14
     | PcSlot \<Rightarrow> 13 | PcLeave \<Rightarrow> 12 | PcStart \<Rightarrow> 11 | PcRun \<Rightarrow> 10 | PcUngate \<Rightarrow> 10 | PcFinish \<Rightarrow> 9 | PcDrop \<Rightarrow> 9 | PcDropped \<Rightarrow> 8
     | PcFinal b \<Rightarrow> 7 | PcClear b \<Rightarrow> 6 | PcDone b \<Rightarrow> 5 | PcFreeSlot \<Rightarrow> 4 | PcFreeGate \<Rightarrow> 3 | PcExit \<Rightarrow> 2 | PcRelease e \<Rightarrow> 2
     | PcReturn e \<Rightarrow> 1 | PcRefused e \<Rightarrow> 0 | PcOver \<Rightarrow> 0)"

text \<open>The choice that moves a run on: every write succeeds and the session returns; with or without the cancel branch.\<close>

definition onward :: "bool \<Rightarrow> choice" where
  "onward b = \<lparr>ch_now = 0, ch_ok = True, ch_cancel = b, ch_act = ActReturn (plain RunCompleted)\<rparr>"

lemma rank_step:
  assumes "thread_step (onward b) i t r m = Some (t', r', m', os)"
  shows "rank (th_pc t') < rank (th_pc t)"
  using assms by (cases "th_pc t") (auto simp: step_simps onward_def rank_def split: if_splits prod.splits option.splits)

lemma step_keeps_cancel:
  assumes "thread_step c i t r m = Some (t', r', m', os)" and "ctx_done m (th_run t)"
  shows "ctx_done m' (th_run t')"
  using assms
  by (cases "th_pc t")
    (auto simp: step_simps ctx_done_def transition_def finish_def split: if_splits prod.splits option.splits session_act.splits)

lemma step_possible:
  assumes "\<not> final_pc (th_pc t)" and "holds_pending (th_pc t) \<longrightarrow> 0 < mg_pending m" and "holds_slot (th_pc t) \<longrightarrow> 0 < mg_slots m"
    and "holds_gate (th_pc t) \<longrightarrow> rt_gate r"
    and "th_pc t = PcGate \<longrightarrow> (if b then ctx_done m (th_run t) else \<not> rt_gate r)"
    and "th_pc t = PcSlot \<longrightarrow> (if b then ctx_done m (th_run t) else mg_slots m < mg_maxSlots m)"
  shows "thread_step (onward b) i t r m \<noteq> None"
  using assms
  by (cases "th_pc t") (auto simp: step_simps onward_def final_pc_def split: prod.splits option.splits)

section \<open>Progress\<close>

text \<open>The steps of one run, and the steps of all runs.\<close>

definition own_step :: "nat \<Rightarrow> supervisor \<Rightarrow> supervisor \<Rightarrow> bool" where
  "own_step i s s' \<longleftrightarrow> (\<exists>c. advance c i s = Some s')"

definition run_step :: "supervisor \<Rightarrow> supervisor \<Rightarrow> bool" where
  "run_step s s' \<longleftrightarrow> (\<exists>i. own_step i s s')"

lemma own_reach: "sup_reach limits s \<Longrightarrow> own_step i s s' \<Longrightarrow> sup_reach limits s'"
  unfolding own_step_def using sup_reach.step sup_step.run by blast

lemma advance_onward:
  assumes "sup_reach limits s" and "i < length (sv_threads s)" and "t = sv_threads s ! i" and "\<not> final_pc (th_pc t)"
    and "th_pc t = PcGate \<longrightarrow> (if b then ctx_done (sv_mgr s) (th_run t) else \<not> rt_gate (sv_rts s ! th_rt t))"
    and "th_pc t = PcSlot \<longrightarrow> (if b then ctx_done (sv_mgr s) (th_run t) else mg_slots (sv_mgr s) < mg_maxSlots (sv_mgr s))"
  shows "\<exists>s' t' r m os. advance (onward b) i s = Some s' \<and> thread_step (onward b) i t (sv_rts s ! th_rt t) (sv_mgr s) = Some (t', r, m, os) \<and>
    sv_threads s' = (sv_threads s)[i := t'] \<and> sv_rts s' = (sv_rts s)[th_rt t := r] \<and> sv_mgr s' = m"
proof -
  have "sup_inv s" using assms(1) by (rule reach_sup_inv)
  then have "runtime_ok (th_rt t) (sv_rts s ! th_rt t) (sv_threads s)" using assms(2,3) by (simp add: sup_inv_def)
  then have g: "holds_gate (th_pc t) \<longrightarrow> rt_gate (sv_rts s ! th_rt t)" using gate_known assms(2,3) by blast
  have "holds_pending (th_pc t) \<longrightarrow> 0 < mg_pending (sv_mgr s)" "holds_slot (th_pc t) \<longrightarrow> 0 < mg_slots (sv_mgr s)"
    using queue.token_held [OF assms(1,2)] slots.token_held [OF assms(1,2)] assms(3) by auto
  from step_possible [OF assms(4) this g assms(5,6)]
  obtain t' r m os where st: "thread_step (onward b) i t (sv_rts s ! th_rt t) (sv_mgr s) = Some (t', r, m, os)" by fastforce
  then show ?thesis using assms(2,3) by (auto simp: advance_def Let_def)
qed

text \<open>
  C34 A run whose context is cancelled, by \<^verbatim>\<open>CancelRun\<close> or by the shutdown, reaches its end by its own
  steps alone, wherever it is and whatever the other runs and the clients hold.
\<close>

theorem cancelled_run_settles:
  assumes "sup_reach limits s" and "i < length (sv_threads s)" and "ctx_done (sv_mgr s) (th_run (sv_threads s ! i))"
  shows "\<exists>s'. (own_step i)\<^sup>*\<^sup>* s s' \<and> final_pc (th_pc (sv_threads s' ! i))"
  using assms
proof (induction "rank (th_pc (sv_threads s ! i))" arbitrary: s rule: less_induct)
  case less
  let ?t = "sv_threads s ! i"
  show ?case
  proof (cases "final_pc (th_pc ?t)")
    case False
    obtain s' t' r m os where a: "advance (onward True) i s = Some s'" "thread_step (onward True) i ?t (sv_rts s ! th_rt ?t) (sv_mgr s) = Some (t', r, m, os)"
        "sv_threads s' = (sv_threads s)[i := t']" "sv_mgr s' = m"
      using advance_onward [OF less.prems(1,2) refl False, of True] less.prems(3) by fastforce
    then have t': "sv_threads s' ! i = t'" "i < length (sv_threads s')" using less.prems(2) by simp_all
    have "own_step i s s'" using a(1) by (auto simp: own_step_def)
    moreover have "rank (th_pc t') < rank (th_pc ?t)" using a(2) by (rule rank_step)
    moreover have "ctx_done m (th_run t')" using a(2) less.prems(3) by (rule step_keeps_cancel)
    ultimately show ?thesis
      using less.hyps [of s'] own_reach [OF less.prems(1)] t' a(4) by (metis converse_rtranclp_into_rtranclp)
  qed blast
qed

lemma reach_limits:
  assumes "sup_reach limits s"
  shows "mg_maxSlots (sv_mgr s) = mg_maxSlots (NewSessionManager limits)" "mg_maxPending (sv_mgr s) = mg_maxPending (NewSessionManager limits)"
proof -
  have "mg_maxSlots (sv_mgr s) = mg_maxSlots (NewSessionManager limits) \<and> mg_maxPending (sv_mgr s) = mg_maxPending (NewSessionManager limits)"
    using assms
  proof induction
    case (step s s')
    from step.hyps(2) show ?case
    proof (cases rule: sup_step_cases)
      case (advance c i)
      then show ?thesis using step.IH by (cases rule: advance_cases) (auto dest: step_shape(5,6))
    qed (use step.IH in \<open>auto simp: calm_def\<close>)
  qed (simp add: new_supervisor_def)
  then show "mg_maxSlots (sv_mgr s) = mg_maxSlots (NewSessionManager limits)" "mg_maxPending (sv_mgr s) = mg_maxPending (NewSessionManager limits)" by simp_all
qed

lemma slots_exist: "0 < mg_maxSlots (NewSessionManager limits)"
  by (auto simp: NewSessionManager_def defaultMaxConcurrentRuns_def split: option.split prod.split)

text \<open>As long as a run is not at its end and no client holds a gate, some run can move.\<close>

lemma not_stuck:
  assumes "sup_reach limits s" and "\<forall>r \<in> set (sv_rts s). \<not> rt_client r" and "\<exists>t \<in> set (sv_threads s). \<not> final_pc (th_pc t)"
  shows "\<exists>i t. i < length (sv_threads s) \<and> t = sv_threads s ! i \<and> \<not> final_pc (th_pc t) \<and>
    (th_pc t = PcGate \<longrightarrow> \<not> rt_gate (sv_rts s ! th_rt t)) \<and> (th_pc t = PcSlot \<longrightarrow> mg_slots (sv_mgr s) < mg_maxSlots (sv_mgr s))"
proof (cases "\<exists>t \<in> set (sv_threads s). \<not> final_pc (th_pc t) \<and> th_pc t \<noteq> PcGate \<and> th_pc t \<noteq> PcSlot")
  case True
  then show ?thesis by (metis in_set_conv_nth)
next
  case False
  then have waiting: "\<forall>t \<in> set (sv_threads s). final_pc (th_pc t) \<or> th_pc t = PcGate \<or> th_pc t = PcSlot" by blast
  have "\<not> holds_slot (th_pc t)" if "t \<in> set (sv_threads s)" for t
    using waiting that by (cases "th_pc t") (auto simp: holds_slot_def final_pc_def)
  then have "tally (\<lambda>t. holds_slot (th_pc t)) (sv_threads s) = 0" by (simp add: tally_def filter_empty_conv)
  then have free: "mg_slots (sv_mgr s) < mg_maxSlots (sv_mgr s)"
    using slots.reach_tokens [OF assms(1)] reach_limits(1) [OF assms(1)] slots_exist by simp
  show ?thesis
  proof (cases "\<exists>t \<in> set (sv_threads s). th_pc t = PcSlot")
    case True
    then show ?thesis using free by (force simp: in_set_conv_nth final_pc_def)
  next
    case no: False
    obtain i where i: "i < length (sv_threads s)" "th_pc (sv_threads s ! i) = PcGate"
      using assms(3) no waiting by (metis in_set_conv_nth)
    let ?k = "th_rt (sv_threads s ! i)"
    have "\<not> holds_gate (th_pc t)" if "t \<in> set (sv_threads s)" for t
      using waiting no that by (cases "th_pc t") (auto simp: holds_gate_def final_pc_def)
    then have "tally (\<lambda>t. th_rt t = ?k \<and> holds_gate (th_pc t)) (sv_threads s) = 0" by (auto simp: tally_def filter_empty_conv)
    moreover have "?k < length (sv_rts s)" "runtime_ok ?k (sv_rts s ! ?k) (sv_threads s)"
      using reach_sup_inv [OF assms(1)] i(1) by (simp_all add: sup_inv_def)
    ultimately have "\<not> rt_gate (sv_rts s ! ?k)" using assms(2) by (auto simp: runtime_ok_def)
    then show ?thesis using i by (auto simp: final_pc_def)
  qed
qed

definition work :: "supervisor \<Rightarrow> nat" where
  "work s = sum_list (map (\<lambda>t. rank (th_pc t)) (sv_threads s))"

lemma runs_finish_alone:
  assumes "sup_reach limits s" and "\<forall>r \<in> set (sv_rts s). \<not> rt_client r"
  shows "\<exists>s'. run_step\<^sup>*\<^sup>* s s' \<and> (\<forall>t \<in> set (sv_threads s'). final_pc (th_pc t))"
  using assms
proof (induction "work s" arbitrary: s rule: less_induct)
  case less
  show ?case
  proof (cases "\<forall>t \<in> set (sv_threads s). final_pc (th_pc t)")
    case False
    then obtain i where i: "i < length (sv_threads s)" "\<not> final_pc (th_pc (sv_threads s ! i))"
        "th_pc (sv_threads s ! i) = PcGate \<longrightarrow> \<not> rt_gate (sv_rts s ! th_rt (sv_threads s ! i))"
        "th_pc (sv_threads s ! i) = PcSlot \<longrightarrow> mg_slots (sv_mgr s) < mg_maxSlots (sv_mgr s)"
      using not_stuck [OF less.prems] by blast
    let ?t = "sv_threads s ! i"
    obtain s' t' r m os where a: "advance (onward False) i s = Some s'" "thread_step (onward False) i ?t (sv_rts s ! th_rt ?t) (sv_mgr s) = Some (t', r, m, os)"
        "sv_threads s' = (sv_threads s)[i := t']" "sv_rts s' = (sv_rts s)[th_rt ?t := r]"
      using advance_onward [OF less.prems(1) i(1) refl i(2), of False] i(3,4) by fastforce
    have k: "th_rt ?t < length (sv_rts s)" using reach_sup_inv [OF less.prems(1)] i(1) by (simp add: sup_inv_def)
    have "rank (th_pc t') < rank (th_pc ?t)" using a(2) by (rule rank_step)
    moreover have "rank (th_pc ?t) \<le> work s" using elem_le_sum_list [of i "map (\<lambda>t. rank (th_pc t)) (sv_threads s)"] i(1) by (simp add: work_def)
    ultimately have "work s' < work s" using i(1) unfolding work_def a(3) by (simp add: map_update sum_list_update)
    moreover have "\<forall>r \<in> set (sv_rts s'). \<not> rt_client r"
      using less.prems(2) step_shape(2) [OF a(2)] k unfolding a(4) by (auto dest!: set_update_subset_insert [THEN subsetD])
    moreover have "run_step s s'" "sup_reach limits s'" using a(1) own_reach [OF less.prems(1), of i s'] by (auto simp: run_step_def own_step_def)
    ultimately show ?thesis using less.hyps [of s'] by (metis converse_rtranclp_into_rtranclp)
  qed blast
qed

text \<open>A client gives the gate of a runtime back.\<close>

definition leave_step :: "supervisor \<Rightarrow> supervisor \<Rightarrow> bool" where
  "leave_step s s' \<longleftrightarrow> (\<exists>k < length (sv_rts s). rt_client (sv_rts s ! k) \<and>
     s' = set_rt k ((sv_rts s ! k)\<lparr>rt_gate := False, rt_client := False\<rparr>) s)"

lemma clients_leave:
  assumes "sup_reach limits s"
  shows "\<exists>s'. leave_step\<^sup>*\<^sup>* s s' \<and> sup_reach limits s' \<and> (\<forall>r \<in> set (sv_rts s'). \<not> rt_client r)"
  using assms
proof (induction "tally rt_client (sv_rts s)" arbitrary: s rule: less_induct)
  case less
  show ?case
  proof (cases "\<forall>r \<in> set (sv_rts s). \<not> rt_client r")
    case False
    then obtain k where k: "k < length (sv_rts s)" "rt_client (sv_rts s ! k)" by (auto simp: in_set_conv_nth)
    let ?s = "set_rt k ((sv_rts s ! k)\<lparr>rt_gate := False, rt_client := False\<rparr>) s"
    have "tally rt_client (sv_rts ?s) < tally rt_client (sv_rts s)"
      using tally_update [OF k(1), of rt_client "(sv_rts s ! k)\<lparr>rt_gate := False, rt_client := False\<rparr>"] k(2) by (simp add: set_rt_def)
    moreover have "sup_reach limits ?s" using sup_reach.step [OF less.prems sup_step.client_leave [OF k]] .
    moreover have "leave_step s ?s" using k by (auto simp: leave_step_def)
    ultimately show ?thesis using less.hyps [of ?s] by (meson converse_rtranclp_into_rtranclp)
  qed (use less.prems in blast)
qed

text \<open>
  C33 No deadlock: from every reachable state, steps of the runs and of clients that give their gates back
  lead to a state in which every run is at its end, refused or finished; when no client holds a gate, the
  steps of the runs alone do. The order gate before slot never makes a run wait for itself or in a
  circle, and the tokens never run out.
\<close>

theorem runs_can_finish:
  assumes "sup_reach limits s"
  shows "(\<exists>s'. (\<lambda>a b. run_step a b \<or> leave_step a b)\<^sup>*\<^sup>* s s' \<and> (\<forall>t \<in> set (sv_threads s'). final_pc (th_pc t))) \<and>
    ((\<forall>r \<in> set (sv_rts s). \<not> rt_client r) \<longrightarrow> (\<exists>s'. run_step\<^sup>*\<^sup>* s s' \<and> (\<forall>t \<in> set (sv_threads s'). final_pc (th_pc t))))"
proof -
  let ?step = "\<lambda>a b. run_step a b \<or> leave_step a b"
  obtain s1 where s1: "leave_step\<^sup>*\<^sup>* s s1" "sup_reach limits s1" "\<forall>r \<in> set (sv_rts s1). \<not> rt_client r"
    using clients_leave [OF assms] by blast
  obtain s2 where s2: "run_step\<^sup>*\<^sup>* s1 s2" "\<forall>t \<in> set (sv_threads s2). final_pc (th_pc t)"
    using runs_finish_alone [OF s1(2,3)] by blast
  have "?step\<^sup>*\<^sup>* s s1" "?step\<^sup>*\<^sup>* s1 s2"
    using mono_rtranclp [rule_format, of leave_step ?step] mono_rtranclp [rule_format, of run_step ?step] s1(1) s2(1) by blast+
  then have "?step\<^sup>*\<^sup>* s s2" by (rule rtranclp_trans)
  with s2(2) runs_finish_alone [OF assms] show ?thesis by blast
qed

section \<open>Limits and records\<close>

lemma tally_unique:
  assumes "tally P xs \<le> 1" and "i < length xs" and "j < length xs" and "P (xs ! i)" and "P (xs ! j)"
  shows "i = j"
proof (rule ccontr)
  assume "i \<noteq> j"
  then have "{i, j} \<subseteq> {k. k < length xs \<and> P (xs ! k)}" "card {i, j} = 2" using assms by auto
  moreover have "card {k. k < length xs \<and> P (xs ! k)} = tally P xs" by (simp add: tally_def length_filter_conv_card)
  ultimately have "2 \<le> tally P xs" using card_mono [of "{k. k < length xs \<and> P (xs ! k)}" "{i, j}"] by simp
  with assms(1) show False by simp
qed

lemma gate_exclusive:
  assumes "runtime_ok k r ts" and "i < length ts" and "th_rt (ts ! i) = k" and "holds_gate (th_pc (ts ! i))"
    and "j < length ts" and "th_rt (ts ! j) = k" and "holds_gate (th_pc (ts ! j))"
  shows "i = j \<and> \<not> rt_client r"
proof -
  let ?P = "\<lambda>t. th_rt t = k \<and> holds_gate (th_pc t)"
  have "of_bool (rt_gate r) = tally ?P ts + of_bool (rt_client r)" using assms(1) by (simp add: runtime_ok_def)
  moreover have "0 < tally ?P ts" using assms(2-4) tally_pos [of i ts ?P] by simp
  ultimately have "tally ?P ts \<le> 1 \<and> \<not> rt_client r" by (cases "rt_gate r"; cases "rt_client r") simp_all
  then show ?thesis using tally_unique [of ?P ts i j] assms(2-7) by simp
qed

text \<open>
  C32 The limits of the supervisor, in every interleaving: the two counting channels hold exactly one
  token for each run that has a slot and for each that is in the queue, no token is lost or left behind,
  and they stay within the configured limits; a runtime has at most one run between its reservation and
  its end, its gate is held by one run or one client, and a retired or archived runtime has no run.
\<close>

theorem supervisor_limits:
  assumes "sup_reach limits s"
  shows "mg_slots (sv_mgr s) = length (filter (\<lambda>t. holds_slot (th_pc t)) (sv_threads s)) \<and>
    mg_slots (sv_mgr s) \<le> mg_maxSlots (NewSessionManager limits) \<and>
    mg_pending (sv_mgr s) = length (filter (\<lambda>t. holds_pending (th_pc t)) (sv_threads s)) \<and>
    mg_pending (sv_mgr s) \<le> mg_maxPending (NewSessionManager limits) \<and>
    (\<forall>i < length (sv_threads s). \<forall>j < length (sv_threads s). th_rt (sv_threads s ! i) = th_rt (sv_threads s ! j) \<longrightarrow>
       (holds_active (th_pc (sv_threads s ! i)) \<and> holds_active (th_pc (sv_threads s ! j)) \<longrightarrow> i = j) \<and>
       (holds_gate (th_pc (sv_threads s ! i)) \<and> holds_gate (th_pc (sv_threads s ! j)) \<longrightarrow>
          i = j \<and> \<not> rt_client (sv_rts s ! th_rt (sv_threads s ! i)))) \<and>
    (\<forall>i < length (sv_threads s). holds_active (th_pc (sv_threads s ! i)) \<longrightarrow>
       \<not> rt_retired (sv_rts s ! th_rt (sv_threads s ! i)) \<and> \<not> rt_archived (sv_rts s ! th_rt (sv_threads s ! i)))"
proof -
  have ok: "runtime_ok (th_rt (sv_threads s ! i)) (sv_rts s ! th_rt (sv_threads s ! i)) (sv_threads s)" if "i < length (sv_threads s)" for i
    using reach_sup_inv [OF assms] that by (simp add: sup_inv_def)
  have act: "i = j" if "i < length (sv_threads s)" "j < length (sv_threads s)" "th_rt (sv_threads s ! i) = th_rt (sv_threads s ! j)"
      "holds_active (th_pc (sv_threads s ! i))" "holds_active (th_pc (sv_threads s ! j))" for i j
    using active_known [OF ok [OF that(1)] that(1) refl] active_known [OF ok [OF that(1)] that(2)] that by simp
  have gate: "i = j \<and> \<not> rt_client (sv_rts s ! th_rt (sv_threads s ! i))" if "i < length (sv_threads s)" "j < length (sv_threads s)"
      "th_rt (sv_threads s ! i) = th_rt (sv_threads s ! j)" "holds_gate (th_pc (sv_threads s ! i))" "holds_gate (th_pc (sv_threads s ! j))" for i j
    using gate_exclusive [OF ok [OF that(1)] that(1) refl that(4) that(2)] that(3,5) by simp
  have "\<not> rt_retired (sv_rts s ! th_rt (sv_threads s ! i)) \<and> \<not> rt_archived (sv_rts s ! th_rt (sv_threads s ! i))"
    if "i < length (sv_threads s)" "holds_active (th_pc (sv_threads s ! i))" for i
    using ok [OF that(1)] active_known [OF ok [OF that(1)] that(1) refl] that(2) by (auto simp: runtime_ok_def)
  with act gate show ?thesis
    using slots.reach_tokens [OF assms] queue.reach_tokens [OF assms] reach_limits [OF assms] by (simp add: tally_def)
qed

text \<open>
  C35 The order of the records of a run. When the waiters of a run are released, its queued record was
  written first, then nothing terminal was said, then came one terminal record with exactly the result
  that the waiters see, and after it only the end bracket of the event hub: no event of a run comes
  behind its terminal record, which closes the file of its journal. The states of its records are, for a
  run that got a slot, queued, running, any number of the two waiting states, and the terminal one; for a
  run that was cancelled before, queued and cancelled. (A record other than the first may have failed to
  reach the disk: \<open>ok\<close>.)
\<close>

theorem run_record_order:
  assumes "sup_reach limits s" and "i < length (sv_threads s)" and "run_done (th_run (sv_threads s ! i))"
  shows "\<exists>q now ok rest post. trace_of i s = ObsState q True # rest @
      ObsState (state_record now (th_run (sv_threads s ! i)) (snapshot (th_run (sv_threads s ! i)))) ok # ObsDone # post \<and>
    sr_State q = ''queued'' \<and> terminal_state (run_state (th_run (sv_threads s ! i))) \<and>
    (\<forall>ob \<in> set rest. \<not> closing_obs ob) \<and> set post \<subseteq> {ObsEnd} \<and>
    (if run_startedAt (th_run (sv_threads s ! i)) = None
     then recorded (trace_of i s) = [''queued'', ''cancelled''] \<and> run_state (th_run (sv_threads s ! i)) = RunCancelled
     else \<exists>ws. recorded (trace_of i s) = ''queued'' # ''running'' # ws @ [state_string (run_state (th_run (sv_threads s ! i)))] \<and>
       set ws \<subseteq> {''waiting_input'', ''waiting_capability''})"
proof -
  let ?t = "sv_threads s ! i"
  have sh: "thread_shape ?t (trace_of i s)" using assms(1,2) by (rule reach_shape)
  then obtain post where st: "settled_trace ?t (trace_of i s) (ObsDone # post)" "set post \<subseteq> {ObsEnd}" "finished ?t"
    using assms(3) by (cases "th_pc ?t") (auto simp: thread_shape_def unsettled_def)
  then obtain pre now ok where tr: "trace_of i s = pre @ ObsState (state_record now (th_run ?t) (th_res ?t)) ok # ObsDone # post"
      "open_trace pre" "terminal_state (res_State (th_res ?t))" by (auto simp: settled_trace_def)
  then obtain q rest where "pre = ObsState q True # rest" "sr_State q = ''queued''" "\<forall>ob \<in> set rest. \<not> closing_obs ob"
    by (auto simp: open_trace_def state_string_def list_all_iff)
  moreover have snap: "th_res ?t = snapshot (th_run ?t)" using st(3) by (simp add: finished_def)
  moreover have "terminal_state (run_state (th_run ?t))" using tr(3) unfolding snap by (simp add: snapshot_def)
  moreover have "run_records (th_run ?t) (run_state (th_run ?t)) (recorded (trace_of i s))"
  proof -
    have "run_records (th_run ?t) (res_State (th_res ?t)) (recorded (trace_of i s))"
      using reach_records [OF assms(1,2)] sh assms(3)
      by (cases "th_pc ?t") (auto simp: record_shape_def thread_shape_def unsettled_def)
    then show ?thesis unfolding snap by (simp add: snapshot_def)
  qed
  then have "if run_startedAt (th_run ?t) = None
     then recorded (trace_of i s) = [''queued'', ''cancelled''] \<and> run_state (th_run ?t) = RunCancelled
     else \<exists>ws. recorded (trace_of i s) = ''queued'' # ''running'' # ws @ [state_string (run_state (th_run ?t))] \<and>
       set ws \<subseteq> {''waiting_input'', ''waiting_capability''}"
    by (auto simp: run_records_def started_records_def state_string_def)
  ultimately show ?thesis using tr(1) st(2) by (intro exI [of _ q] exI [of _ now] exI [of _ ok] exI [of _ rest] exI [of _ post]) simp
qed

text \<open>A refused call leaves no record and holds nothing.\<close>

lemma refused_leaves_nothing:
  assumes "sup_reach limits s" and "i < length (sv_threads s)" and "th_pc (sv_threads s ! i) = PcRefused e"
  shows "\<forall>ob \<in> set (trace_of i s). \<exists>r. ob = ObsState r False" "rt_active (sv_rts s ! th_rt (sv_threads s ! i)) \<noteq> Some i"
proof -
  show "\<forall>ob \<in> set (trace_of i s). \<exists>r. ob = ObsState r False"
    using reach_shape [OF assms(1,2)] assms(3) by (simp add: thread_shape_def)
  have "runtime_ok (th_rt (sv_threads s ! i)) (sv_rts s ! th_rt (sv_threads s ! i)) (sv_threads s)"
    using reach_sup_inv [OF assms(1)] assms(2) by (simp add: sup_inv_def)
  from active_known [OF this assms(2) refl] assms(3) show "rt_active (sv_rts s ! th_rt (sv_threads s ! i)) \<noteq> Some i"
    by (simp add: holds_active_def)
qed

section \<open>Shutdown\<close>

text \<open>
  The runs that hold a reservation when \<^verbatim>\<open>Close\<close> begins: \<open>ks\<close> are the runtimes that it has still to look at.
\<close>

definition awaits :: "close_pc \<Rightarrow> nat \<Rightarrow> nat \<Rightarrow> bool" where
  "awaits p k i =
    (case p of CloseCancel ks \<Rightarrow> k \<in> set ks | CloseLook ks \<Rightarrow> k \<in> set ks | CloseWait n ks \<Rightarrow> k \<in> set ks \<or> i = n | _ \<Rightarrow> False)"

definition close_inv :: "supervisor \<Rightarrow> bool" where
  "close_inv s \<longleftrightarrow> (\<forall>i \<in> set (sv_inflight s). i < length (sv_threads s) \<and> th_pc (sv_threads s ! i) \<notin> {PcPending, PcReserve} \<and>
     (holds_active (th_pc (sv_threads s ! i)) \<longrightarrow> th_rt (sv_threads s ! i) \<in> set (sv_snapshot s) \<longrightarrow>
        awaits (sv_close s) (th_rt (sv_threads s ! i)) i))"

lemma step_past:
  assumes "thread_step c i t r m = Some (t', r', m', os)" and "th_pc t \<notin> {PcPending, PcReserve}"
  shows "th_pc t' \<notin> {PcPending, PcReserve}" "holds_active (th_pc t') \<Longrightarrow> holds_active (th_pc t)"
  using assms by (cases "th_pc t"; auto simp: step_simps split: if_splits prod.splits option.splits session_act.splits)+

lemma close_inv_kept:
  assumes "close_inv s" and "sv_close s' = sv_close s" and "sv_inflight s' = sv_inflight s" and "sv_snapshot s' = sv_snapshot s"
    and "length (sv_threads s) \<le> length (sv_threads s')"
    and "\<And>i. i < length (sv_threads s) \<Longrightarrow> th_pc (sv_threads s ! i) \<notin> {PcPending, PcReserve} \<Longrightarrow>
      th_pc (sv_threads s' ! i) \<notin> {PcPending, PcReserve} \<and> th_rt (sv_threads s' ! i) = th_rt (sv_threads s ! i) \<and>
      (holds_active (th_pc (sv_threads s' ! i)) \<longrightarrow> holds_active (th_pc (sv_threads s ! i)))"
  shows "close_inv s'"
  using assms by (fastforce simp: close_inv_def)

lemma advance_close_inv:
  assumes "close_inv s" and "advance c n s = Some s'"
  shows "close_inv s'"
  using assms(2)
proof (cases rule: advance_cases)
  case (1 t' r m os)
  show ?thesis
  proof (rule close_inv_kept [OF assms(1)])
    fix i assume "i < length (sv_threads s)" "th_pc (sv_threads s ! i) \<notin> {PcPending, PcReserve}"
    then show "th_pc (sv_threads s' ! i) \<notin> {PcPending, PcReserve} \<and> th_rt (sv_threads s' ! i) = th_rt (sv_threads s ! i) \<and>
        (holds_active (th_pc (sv_threads s' ! i)) \<longrightarrow> holds_active (th_pc (sv_threads s ! i)))"
      using step_past [OF 1(2)] step_shape(1) [OF 1(2)] 1(1,3) by (cases "i = n") simp_all
  qed (use 1(3) in simp_all)
qed

lemma calm_close_inv:
  assumes "close_inv s" and "calm s s'" and "sv_close s' = sv_close s" and "sv_inflight s' = sv_inflight s"
    and "sv_snapshot s' = sv_snapshot s"
  shows "close_inv s'"
proof (rule close_inv_kept [OF assms(1,3,4,5)])
  fix i assume "i < length (sv_threads s)" "th_pc (sv_threads s ! i) \<notin> {PcPending, PcReserve}"
  moreover have "th_rt (sv_threads s' ! i) = th_rt (sv_threads s ! i) \<and> th_pc (sv_threads s' ! i) = th_pc (sv_threads s ! i)"
    using assms(2) calculation(1) by (force simp: calm_def)
  ultimately show "th_pc (sv_threads s' ! i) \<notin> {PcPending, PcReserve} \<and> th_rt (sv_threads s' ! i) = th_rt (sv_threads s ! i) \<and>
      (holds_active (th_pc (sv_threads s' ! i)) \<longrightarrow> holds_active (th_pc (sv_threads s ! i)))" by simp
qed (use assms(2) in \<open>simp add: calm_def\<close>)

lemma done_inactive:
  assumes "sup_reach limits s" and "i < length (sv_threads s)" and "run_done (th_run (sv_threads s ! i))"
  shows "\<not> holds_active (th_pc (sv_threads s ! i))"
  using reach_shape [OF assms(1,2)] assms(3)
  by (cases "th_pc (sv_threads s ! i)") (auto simp: thread_shape_def holds_active_def unsettled_def)

lemma close_step_inv:
  assumes "sup_reach limits s" and "close_inv s" and "close_step order (sv_close s) s = Some s'"
  shows "close_inv s'"
proof (cases "(order, sv_close s, s)" rule: close_step.cases)
  case (1 order' s1)
  then show ?thesis using assms(3) by (auto simp: close_inv_def holds_active_def awaits_def)
next
  case (4 order' k ks s1)
  have "rt_active (sv_rts s ! th_rt (sv_threads s ! i)) = Some i" if "i \<in> set (sv_inflight s)" "holds_active (th_pc (sv_threads s ! i))" for i
  proof -
    have i: "i < length (sv_threads s)" using that(1) assms(2) by (simp add: close_inv_def)
    then have "runtime_ok (th_rt (sv_threads s ! i)) (sv_rts s ! th_rt (sv_threads s ! i)) (sv_threads s)"
      using reach_sup_inv [OF assms(1)] by (simp add: sup_inv_def)
    from active_known [OF this i refl] that(2) show ?thesis by simp
  qed
  then show ?thesis using 4 assms(2,3) by (fastforce simp: close_inv_def awaits_def split: option.splits)
next
  case (5 order' n ks s1)
  then have d: "run_done (th_run (sv_threads s ! n))" "s' = s\<lparr>sv_close := CloseLook ks\<rparr>" using assms(3) by (auto split: if_splits)
  have "\<not> holds_active (th_pc (sv_threads s ! n))" if "n \<in> set (sv_inflight s)"
    using done_inactive [OF assms(1) _ d(1)] that assms(2) by (simp add: close_inv_def)
  then show ?thesis using 5 d(2) assms(2) by (fastforce simp: close_inv_def awaits_def)
qed (use assms(2,3) in \<open>auto simp: close_inv_def awaits_def\<close>)

lemma reach_close_inv: "sup_reach limits s \<Longrightarrow> close_inv s"
proof (induction rule: sup_reach.induct)
  case new
  then show ?case by (simp add: close_inv_def new_supervisor_def)
next
  case (step s s')
  note I = step.IH
  from step.hyps(2) show ?case
  proof cases
    case (run c i)
    then show ?thesis using advance_close_inv [OF I] by blast
  next
    case (start sid runID)
    then obtain t where "s' = s\<lparr>sv_threads := sv_threads s @ [t]\<rparr>" by (auto simp: StartRun_def split: sum.splits)
    then show ?thesis using I by (auto simp: close_inv_def nth_append)
  next
    case (cancel sid runID)
    then obtain i where "s' = cancel_thread i s" by (auto simp: CancelRun_def Let_def split: option.splits if_splits)
    then show ?thesis using calm_close_inv [OF I calm_cancel] by (simp add: cancel_thread_def Let_def)
  next
    case (cancel_direct i)
    then show ?thesis using calm_close_inv [OF I calm_cancel] by (simp add: cancel_thread_def Let_def)
  next
    case (closing order)
    then show ?thesis using close_step_inv [OF step.hyps(1) I] by blast
  qed (use I in \<open>simp_all add: close_inv_def set_rt_def\<close>)
qed

text \<open>
  C36 When \<^verbatim>\<open>Close\<close> has returned, every run that held a reservation when it began, on a runtime that was
  registered then, has given it up and says nothing more: its terminal record is written, and only the
  wake-up of the waiters and the end bracket may follow it; or the call was refused, and no record of it
  reached the disk. A run of a runtime that was removed from the registry before is not waited for.
\<close>

theorem close_waits:
  assumes "sup_reach limits s" and "sv_close s = CloseReturned" and "i \<in> set (sv_inflight s)"
    and "th_rt (sv_threads s ! i) \<in> set (sv_snapshot s)"
  shows "\<not> holds_active (th_pc (sv_threads s ! i)) \<and>
    ((\<exists>pre r ok post. trace_of i s = pre @ ObsState r ok # post \<and> isTerminalRunState (sr_State r) \<and> set post \<subseteq> {ObsDone, ObsEnd}) \<or>
     (\<exists>e. th_pc (sv_threads s ! i) \<in> {PcReturn e, PcRefused e}) \<and> (\<forall>ob \<in> set (trace_of i s). \<exists>r. ob = ObsState r False))"
proof -
  let ?t = "sv_threads s ! i"
  have c: "i < length (sv_threads s)" "th_pc ?t \<notin> {PcPending, PcReserve}" "\<not> holds_active (th_pc ?t)"
    using reach_close_inv [OF assms(1)] assms(2-4) by (auto simp: close_inv_def awaits_def)
  have st: "\<exists>pre r ok post. tr = pre @ ObsState r ok # post \<and> isTerminalRunState (sr_State r) \<and> set post \<subseteq> {ObsDone, ObsEnd}"
    if "settled_trace ?t tr p" "set p \<subseteq> {ObsDone, ObsEnd}" for tr p
    using that state_strings_terminal by (fastforce simp: settled_trace_def)
  show ?thesis
    using reach_shape [OF assms(1) c(1)] c(2,3) st
    by (cases "th_pc ?t") (auto simp: thread_shape_def holds_active_def)
qed

section \<open>Schedules\<close>

datatype action = DoRegister string | DoRemove string | DoStart string string | DoRun choice nat | DoCancel string string | DoClose "nat list"

definition perform :: "action \<Rightarrow> supervisor \<Rightarrow> supervisor option" where
  "perform a s =
    (case a of
       DoRegister sid \<Rightarrow>
         (case Register (length (sv_rts s)) (NewSessionRuntime sid True True) (sv_mgr s) of
            (None, m) \<Rightarrow> Some (s\<lparr>sv_mgr := m, sv_rts := sv_rts s @ [NewSessionRuntime sid True True]\<rparr>)
          | _ \<Rightarrow> None)
     | DoRemove sid \<Rightarrow> Some (s\<lparr>sv_mgr := Remove sid (sv_mgr s)\<rparr>)
     | DoStart sid runID \<Rightarrow> (case StartRun sid runID s of (None, s') \<Rightarrow> Some s' | _ \<Rightarrow> None)
     | DoRun c i \<Rightarrow> advance c i s
     | DoCancel sid runID \<Rightarrow> (case CancelRun sid runID s of (None, s') \<Rightarrow> Some s' | _ \<Rightarrow> None)
     | DoClose order \<Rightarrow>
         if sv_close s = CloseIdle \<longrightarrow> mset order = mset (map snd (mg_runtimes (sv_mgr s))) then close_step order (sv_close s) s else None)"

fun perform_all :: "action list \<Rightarrow> supervisor \<Rightarrow> supervisor option" where
  "perform_all [] s = Some s"
| "perform_all (a # as) s = (case perform a s of None \<Rightarrow> None | Some s' \<Rightarrow> perform_all as s')"

lemma perform_step: "perform a s = Some s' \<Longrightarrow> sup_step s s'"
  by (cases a) (auto simp: perform_def intro: sup_step.intros split: prod.splits option.splits if_splits)

lemma perform_all_reach: "sup_reach limits s \<Longrightarrow> perform_all as s = Some s' \<Longrightarrow> sup_reach limits s'"
proof (induction as arbitrary: s)
  case (Cons a as)
  then obtain s1 where "perform a s = Some s1" "perform_all as s1 = Some s'" by (auto split: option.splits)
  with Cons.IH sup_reach.step [OF Cons.prems(1) perform_step] show ?case by blast
qed simp

definition scheduled :: "action list \<Rightarrow> supervisor" where
  "scheduled as = the (perform_all as (new_supervisor (Some (1, 2))))"

lemma scheduled_reach:
  assumes "perform_all as (new_supervisor (Some (1, 2))) \<noteq> None"
  shows "sup_reach (Some (1, 2)) (scheduled as)"
  using assms perform_all_reach [OF sup_reach.new] by (auto simp: scheduled_def)

abbreviation go :: "nat \<Rightarrow> action" where
  "go \<equiv> DoRun (onward False)"

definition two_runs :: "action list" where
  "two_runs = [DoRegister ''a'', DoRegister ''b'', DoStart ''a'' ''run-1-1'', DoStart ''b'' ''run-1-2''] @ replicate 10 (go 0) @ replicate 7 (go 1)"

lemma two_runs_reach: "sup_reach (Some (1, 2)) (scheduled two_runs)"
  by (rule scheduled_reach) code_simp

lemma two_runs_places: "map th_pc (sv_threads (scheduled two_runs)) = [PcRun, PcSlot]" "\<forall>r \<in> set (sv_rts (scheduled two_runs)). \<not> rt_client r"
  by code_simp+

theorem supervisor_limits_witness:
  "mg_slots (sv_mgr (scheduled two_runs)) = 1 \<and> mg_pending (sv_mgr (scheduled two_runs)) \<le> 2 \<and>
   mg_maxSlots (NewSessionManager (Some (1, 2))) = 1"
proof -
  have m: "mg_maxSlots (NewSessionManager (Some (1, 2))) = 1" "mg_maxPending (NewSessionManager (Some (1, 2))) = 2" by code_simp+
  have "length (filter (\<lambda>t. holds_slot (th_pc t)) (sv_threads (scheduled two_runs))) = 1" by code_simp
  with supervisor_limits [OF two_runs_reach] m show ?thesis by simp
qed

theorem runs_can_finish_witness:
  "\<exists>s'. run_step\<^sup>*\<^sup>* (scheduled two_runs) s' \<and> (\<forall>t \<in> set (sv_threads s'). final_pc (th_pc t))"
  using runs_can_finish [OF two_runs_reach] two_runs_places(2) by blast

definition cancelled_run :: "action list" where
  "cancelled_run = two_runs @ [DoCancel ''b'' ''run-1-2'']"

lemma cancelled_run_reach: "sup_reach (Some (1, 2)) (scheduled cancelled_run)"
  by (rule scheduled_reach) code_simp

theorem cancelled_run_settles_witness:
  "\<exists>s'. (own_step 1)\<^sup>*\<^sup>* (scheduled cancelled_run) s' \<and> final_pc (th_pc (sv_threads s' ! 1))"
proof -
  have "1 < length (sv_threads (scheduled cancelled_run))" "ctx_done (sv_mgr (scheduled cancelled_run)) (th_run (sv_threads (scheduled cancelled_run) ! 1))"
    by code_simp+
  then show ?thesis by (rule cancelled_run_settles [OF cancelled_run_reach])
qed

definition one_run :: "action list" where
  "one_run = [DoRegister ''a'', DoStart ''a'' ''run-1-1''] @ replicate 15 (go 0)"

theorem run_record_order_witness:
  "\<exists>q now ok rest post. trace_of 0 (scheduled one_run) = ObsState q True # rest @
      ObsState (state_record now (th_run (sv_threads (scheduled one_run) ! 0)) (snapshot (th_run (sv_threads (scheduled one_run) ! 0)))) ok # ObsDone # post \<and>
    sr_State q = ''queued'' \<and> recorded (trace_of 0 (scheduled one_run)) = [''queued'', ''running'', ''completed'']"
proof -
  have r: "sup_reach (Some (1, 2)) (scheduled one_run)" by (rule scheduled_reach) code_simp
  have "0 < length (sv_threads (scheduled one_run))" "run_done (th_run (sv_threads (scheduled one_run) ! 0))" by code_simp+
  moreover have "recorded (trace_of 0 (scheduled one_run)) = [''queued'', ''running'', ''completed'']" by code_simp
  ultimately show ?thesis using run_record_order [OF r, of 0] by blast
qed

definition closed_run :: "action list" where
  "closed_run = [DoRegister ''a'', DoStart ''a'' ''run-1-1''] @ replicate 10 (go 0) @ replicate 3 (DoClose [0]) @ replicate 5 (go 0) @
     replicate 3 (DoClose [0])"

theorem close_waits_witness:
  "sv_close (scheduled closed_run) = CloseReturned \<and> sv_inflight (scheduled closed_run) = [0] \<and>
   \<not> holds_active (th_pc (sv_threads (scheduled closed_run) ! 0))"
proof -
  have r: "sup_reach (Some (1, 2)) (scheduled closed_run)" by (rule scheduled_reach) code_simp
  have c: "sv_close (scheduled closed_run) = CloseReturned" "sv_inflight (scheduled closed_run) = [0]"
    "th_rt (sv_threads (scheduled closed_run) ! 0) \<in> set (sv_snapshot (scheduled closed_run))" by code_simp+
  with close_waits [OF r c(1), of 0] show ?thesis by simp
qed

text \<open>
  \<^verbatim>\<open>Remove\<close> takes a runtime from the registry whether it has a run or not, and \<^verbatim>\<open>Close\<close> does not see it then: it
  returns while the run is on its way, cancelled but with its terminal record still to be written.
\<close>

lemma removed_run_survives_close:
  "(let s = scheduled ([DoRegister ''a'', DoStart ''a'' ''run-1-1''] @ replicate 10 (go 0) @ [DoRemove ''a''] @ replicate 4 (DoClose []));
        s' = the (perform_all (replicate 3 (go 0)) s)
    in sv_close s = CloseReturned \<and> sv_inflight s = [0] \<and> th_pc (sv_threads s ! 0) = PcRun \<and>
       last (recorded (trace_of 0 s')) = ''cancelled'')"
  by code_simp

text \<open>
  A call of \<^verbatim>\<open>StartRun\<close> that has passed the check of \<open>mg_closed\<close> before \<^verbatim>\<open>Close\<close> sets it, but reserves after
  \<^verbatim>\<open>Close\<close> has looked at its runtime, is not waited for: \<^verbatim>\<open>Close\<close> has returned and the run is accepted, takes the
  gate and a slot, and writes its records.
\<close>

lemma late_run_survives_close:
  "(let s = scheduled ([DoRegister ''a'', DoStart ''a'' ''run-1-1''] @ replicate 5 (DoClose [0]) @ replicate 10 (go 0))
    in sv_close s = CloseReturned \<and> th_pc (sv_threads s ! 0) = PcRun \<and> run_state (th_run (sv_threads s ! 0)) = RunRunning \<and>
       length (filter (\<lambda>ob. case ob of ObsState r ok \<Rightarrow> ok | _ \<Rightarrow> False) (trace_of 0 s)) = 2)"
  by code_simp

text \<open>
  A cancelled run whose session fails with another error, for example in the commit of the conversation:
  the last event says that the run was cancelled, the terminal record and the result say that it failed.
\<close>

definition failing :: choice where
  "failing = (onward False)\<lparr>ch_act := ActReturn \<lparr>res_State = RunFailed, res_Err = Some \<lparr>re_text = ''commit'', re_ctx = False\<rparr>,
     res_Persisted = False\<rparr>\<rparr>"

lemma cancelled_run_recorded_failed:
  "(let s = scheduled ([DoRegister ''a'', DoStart ''a'' ''run-1-1''] @ replicate 10 (go 0) @ [DoCancel ''a'' ''run-1-1'', DoRun failing 0] @
              replicate 4 (go 0));
        states = concat (map (\<lambda>ob. case ob of ObsState r ok \<Rightarrow> [sr_State r] | _ \<Rightarrow> []) (trace_of 0 s));
        events = concat (map (\<lambda>ob. case ob of ObsEvent typ v \<Rightarrow> [(typ, v)] | _ \<Rightarrow> []) (trace_of 0 s))
    in run_state (th_run (sv_threads s ! 0)) = RunFailed \<and> last states = ''failed'' \<and>
       last events = (''run.finished'', JObj [(''persisted'', JBool False), (''state'', JStr ''cancelled'')]))"
  by code_simp

end
