(* ===== verification/Control_Plane.thy ===== *)
theory Control_Plane
  imports Approvals Supervisor_Progress
begin

text \<open>
  The control plane of the daemon (\<^verbatim>\<open>src/daemon/internal/agentcontrol\<close>): the control lease of each session
  (\<^verbatim>\<open>lease.go\<close>), the idempotent submission of runs (\<^verbatim>\<open>idempotency.go\<close>), the bindings of the connections
  (\<^verbatim>\<open>bindings.go\<close>) and the control operations that put them together with the supervisor and the approvals
  (\<^verbatim>\<open>runs.go\<close>, \<^verbatim>\<open>approval.go\<close>), with the routing of the agent plugin
  (\<^verbatim>\<open>RouteSession\<close> of \<^verbatim>\<open>src/daemon/internal/plugins/agent/runcontrol.go\<close>).

  An operation is a thread with a place in the code; it interleaves with the other operations, with the runs
  of the supervisor and with the calls that wait for a decision. The lock of a lease is held over several
  steps and is part of the state: it names the operation that holds it. The other locks are held within one
  step. SHA-256 is a parameter: nothing is assumed of it.
\<close>

section \<open>Leases\<close>

record SessionLease =
  ls_mu :: "nat option"
  ls_holder :: string

record LeaseRegistry =
  lr_leases :: "(string \<times> nat) list"
  lr_heap :: "SessionLease list"

definition NewLeaseRegistry :: LeaseRegistry where
  "NewLeaseRegistry = \<lparr>lr_leases = [], lr_heap = []\<rparr>"

definition holds :: "string \<Rightarrow> SessionLease \<Rightarrow> bool" where
  "holds clientID l \<longleftrightarrow> clientID \<noteq> [] \<and> ls_holder l = clientID"

definition lease :: "string \<Rightarrow> LeaseRegistry \<Rightarrow> nat \<times> LeaseRegistry" where
  "lease sessionID r =
    (case map_of (lr_leases r) sessionID of
       Some l \<Rightarrow> (l, r)
     | None \<Rightarrow> (length (lr_heap r), \<lparr>lr_leases = map_put sessionID (length (lr_heap r)) (lr_leases r),
         lr_heap = lr_heap r @ [\<lparr>ls_mu = None, ls_holder = []\<rparr>]\<rparr>))"

text \<open>The critical sections of \<^verbatim>\<open>Acquire\<close> and \<^verbatim>\<open>Release\<close>.\<close>

definition Acquire :: "string \<Rightarrow> SessionLease \<Rightarrow> bool \<times> SessionLease" where
  "Acquire clientID l = (if ls_holder l = clientID then (False, l) else (ls_holder l \<noteq> [], l\<lparr>ls_holder := clientID\<rparr>))"

definition Release :: "string \<Rightarrow> SessionLease \<Rightarrow> SessionLease" where
  "Release clientID l = (if ls_holder l = clientID then l\<lparr>ls_holder := []\<rparr> else l)"

section \<open>Idempotent submission\<close>

datatype control_error =
    SessionUnknown | ControlLeaseLost | RequestConflict | FlightAborted | Rejected reject | ApprovalFailed approval_error
  | ApprovalOwnership

record RequestKey =
  rk_SessionID :: string
  rk_RequestID :: string

text \<open>The handle of a run is the position of its thread. A flight knows its key for the statements only.\<close>

record trackedRun =
  tr_handle :: nat
  tr_inputHash :: string

record flight =
  fl_key :: RequestKey
  fl_inputHash :: string
  fl_done :: bool
  fl_result :: "control_error + nat"

text \<open>\<open>rq_hist\<close> is the history of what was recorded, for the statements.\<close>

record RequestRegistry =
  rq_table :: "(RequestKey \<times> trackedRun) list"
  rq_order :: "RequestKey list"
  rq_flights :: "(RequestKey \<times> nat) list"
  rq_heap :: "flight list"
  rq_hist :: "(RequestKey \<times> trackedRun) list"

definition maxTrackedRequestIDs :: nat where "maxTrackedRequestIDs = 4096"

definition NewRequestRegistry :: RequestRegistry where
  "NewRequestRegistry = \<lparr>rq_table = [], rq_order = [], rq_flights = [], rq_heap = [], rq_hist = []\<rparr>"

fun evict :: "RequestKey list \<Rightarrow> (RequestKey \<times> trackedRun) list \<Rightarrow> RequestKey list \<times> (RequestKey \<times> trackedRun) list" where
  "evict [] tab = ([], tab)"
| "evict (oldest # ks) tab =
     (if maxTrackedRequestIDs < length (oldest # ks) then evict ks (map_del oldest tab) else (oldest # ks, tab))"

definition recordLocked :: "RequestKey \<Rightarrow> nat \<Rightarrow> string \<Rightarrow> RequestRegistry \<Rightarrow> RequestRegistry" where
  "recordLocked key h fp r =
    (let tr = \<lparr>tr_handle = h, tr_inputHash = fp\<rparr>;
         (ord, tab) = (if map_of (rq_table r) key = None then evict (rq_order r @ [key]) (rq_table r) else (rq_order r, rq_table r))
     in r\<lparr>rq_table := map_put key tr tab, rq_order := ord, rq_hist := rq_hist r @ [(key, tr)]\<rparr>)"

definition Tracked :: "string \<Rightarrow> string \<Rightarrow> RequestRegistry \<Rightarrow> nat option" where
  "Tracked sessionID requestID r =
    (if requestID = [] then None
     else map_option tr_handle (map_of (rq_table r) \<lparr>rk_SessionID = sessionID, rk_RequestID = requestID\<rparr>))"

section \<open>Bindings\<close>

type_synonym BindingRegistry = "(string \<times> string) list"

definition bound_to :: "string \<Rightarrow> BindingRegistry \<Rightarrow> string" where
  "bound_to clientID r = (case map_of r clientID of None \<Rightarrow> [] | Some sid \<Rightarrow> sid)"

definition Bind :: "string \<Rightarrow> string \<Rightarrow> BindingRegistry \<Rightarrow> string \<times> BindingRegistry" where
  "Bind clientID sessionID r =
    (if clientID = [] then ([], r)
     else let prev = bound_to clientID r in
       if sessionID = [] then (prev, map_del clientID r)
       else if prev = sessionID then (prev, r)
       else (prev, map_put clientID sessionID r))"

definition Unbind :: "string \<Rightarrow> BindingRegistry \<Rightarrow> string \<times> BindingRegistry" where
  "Unbind clientID r = (if clientID = [] then ([], r) else (bound_to clientID r, map_del clientID r))"

definition Bindings :: "string \<Rightarrow> BindingRegistry \<Rightarrow> string list" where
  "Bindings sessionID r = map fst (sort_kv (filter (\<lambda>x. snd x = sessionID) r))"

section \<open>Operations\<close>

datatype request =
    ReqAcquire string string | ReqRelease string string | ReqReleaseConnection string
  | ReqStart string string string string string | ReqCancel string string string | ReqResolve string string string HDecision
  | ReqStartSync string string | ReqCancelSync string string

text \<open>
  The session that a request addresses, the client that makes it, and whether it is a control operation that
  needs the lease. \<open>ReqStart\<close> has session, client, input, request identifier and the identifier that the run
  will get.
\<close>

definition req_session :: "request \<Rightarrow> string" where
  "req_session q = (case q of ReqAcquire s c \<Rightarrow> s | ReqRelease s c \<Rightarrow> s | ReqReleaseConnection c \<Rightarrow> [] | ReqStart s c i r u \<Rightarrow> s
     | ReqCancel s c u \<Rightarrow> s | ReqResolve s c r d \<Rightarrow> s | ReqStartSync s u \<Rightarrow> s | ReqCancelSync s u \<Rightarrow> s)"

definition req_client :: "request \<Rightarrow> string" where
  "req_client q = (case q of ReqAcquire s c \<Rightarrow> c | ReqRelease s c \<Rightarrow> c | ReqReleaseConnection c \<Rightarrow> c | ReqStart s c i r u \<Rightarrow> c
     | ReqCancel s c u \<Rightarrow> c | ReqResolve s c r d \<Rightarrow> c | ReqStartSync s u \<Rightarrow> [] | ReqCancelSync s u \<Rightarrow> [])"

definition fenced :: "request \<Rightarrow> bool" where
  "fenced q = (case q of ReqStart s c i r u \<Rightarrow> True | ReqCancel s c u \<Rightarrow> True | ReqResolve s c r d \<Rightarrow> True | _ \<Rightarrow> False)"

datatype answer = AnsErr control_error | AnsTaken bool | AnsOK | AnsRun nat RunState

datatype place =
    OpRoute | OpLease | OpLock | OpSubmit | OpEnsure | OpRetired | OpRemove | OpRegister | OpStart | OpAwait nat
  | OpSettle "control_error + nat" | OpWake "control_error + nat" | OpJoin | OpCancel | OpOwner | OpResolve
  | OpUnlock answer | OpDrop "nat list" | OpDone answer

record op =
  op_req :: request
  op_rt :: nat
  op_key :: RequestKey
  op_lease :: nat
  op_flight :: "nat option"
  op_pc :: place

text \<open>A decision that was accepted: its entry, its operation, and who held the lease of the operation then.\<close>

record verdict =
  vd_entry :: nat
  vd_op :: nat
  vd_decision :: HDecision
  vd_holder :: string

record control =
  ct_leases :: LeaseRegistry
  ct_reqs :: RequestRegistry
  ct_appr :: ApprovalManager
  ct_sv :: supervisor
  ct_cur :: "(nat \<times> string) option"
  ct_verdicts :: "verdict list"

record op_choice =
  co_now :: time
  co_order :: "nat list"

definition RouteSession :: "string \<Rightarrow> control \<Rightarrow> nat option" where
  "RouteSession sessionID ct =
    (let reg = map_of (mg_runtimes (sv_mgr (ct_sv ct))) sessionID in
     case ct_cur ct of
       None \<Rightarrow> reg
     | Some (k, cur) \<Rightarrow> if sessionID = rt_ID (sv_rts (ct_sv ct) ! k) \<or> sessionID = [] \<and> cur = [] then Some k else reg)"

definition set_lease :: "nat \<Rightarrow> SessionLease \<Rightarrow> control \<Rightarrow> control" where
  "set_lease l v ct = ct\<lparr>ct_leases := (ct_leases ct)\<lparr>lr_heap := (lr_heap (ct_leases ct))[l := v]\<rparr>\<rparr>"

definition set_mgr :: "SessionManager \<Rightarrow> control \<Rightarrow> control" where
  "set_mgr m ct = ct\<lparr>ct_sv := (ct_sv ct)\<lparr>sv_mgr := m\<rparr>\<rparr>"

definition op_goto :: "place \<Rightarrow> op \<Rightarrow> op" where
  "op_goto p o1 = o1\<lparr>op_pc := p\<rparr>"

definition leave :: "answer \<Rightarrow> op \<Rightarrow> op" where
  "leave a o1 = op_goto (if fenced (op_req o1) then OpUnlock a else OpDone a) o1"

definition registered :: "op \<Rightarrow> op" where
  "registered o1 = op_goto (case op_req o1 of ReqCancel s c u \<Rightarrow> OpCancel | ReqCancelSync s u \<Rightarrow> OpCancel | _ \<Rightarrow> OpStart) o1"

definition req_runID :: "request \<Rightarrow> string" where
  "req_runID q = (case q of ReqStart s c i r u \<Rightarrow> u | ReqStartSync s u \<Rightarrow> u | ReqCancel s c u \<Rightarrow> u | ReqCancelSync s u \<Rightarrow> u | _ \<Rightarrow> [])"

text \<open>The synchronous part of \<^verbatim>\<open>StartRun\<close> has returned: refused, or accepted and left to its goroutine.\<close>

definition start_result :: "pc \<Rightarrow> (reject option) option" where
  "start_result p =
    (case p of PcPending \<Rightarrow> None | PcReserve \<Rightarrow> None | PcBind \<Rightarrow> None | PcQueue \<Rightarrow> None | PcBegin \<Rightarrow> None | PcCancel \<Rightarrow> None
     | PcRelease e \<Rightarrow> None | PcReturn e \<Rightarrow> None | PcRefused e \<Rightarrow> Some (Some e) | _ \<Rightarrow> Some None)"

definition run_state_of :: "control \<Rightarrow> nat \<Rightarrow> RunState" where
  "run_state_of ct i = run_state (th_run (sv_threads (ct_sv ct) ! i))"

text \<open>The answer of a fresh submission has the state at its acceptance, a repeated one the present state.\<close>

definition fresh_answer :: "control_error + nat \<Rightarrow> answer" where
  "fresh_answer res = (case res of Inl e \<Rightarrow> AnsErr e | Inr i \<Rightarrow> AnsRun i RunQueued)"

definition known_answer :: "control \<Rightarrow> control_error + nat \<Rightarrow> answer" where
  "known_answer ct res = (case res of Inl e \<Rightarrow> AnsErr e | Inr i \<Rightarrow> AnsRun i (run_state_of ct i))"

definition started :: "control_error + nat \<Rightarrow> op \<Rightarrow> op" where
  "started res o1 = (if op_flight o1 = None then leave (fresh_answer res) o1 else op_goto (OpSettle res) o1)"

text \<open>The request registry at the beginning of \<^verbatim>\<open>Submit\<close>.\<close>

definition Submit :: "(string \<Rightarrow> string) \<Rightarrow> string \<Rightarrow> op \<Rightarrow> control \<Rightarrow> op \<times> control" where
  "Submit sha256 input o1 ct =
    (let key = op_key o1; fp = sha256 input; r = ct_reqs ct in
     if rk_RequestID key = [] then (op_goto OpEnsure o1, ct)
     else (case map_of (rq_table r) key of
       Some tr \<Rightarrow> (leave (if tr_inputHash tr \<noteq> fp then AnsErr RequestConflict else known_answer ct (Inr (tr_handle tr))) o1, ct)
     | None \<Rightarrow>
         (case map_of (rq_flights r) key of
            Some f \<Rightarrow>
              if fl_inputHash (rq_heap r ! f) \<noteq> fp then (leave (AnsErr RequestConflict) o1, ct)
              else (op_goto OpJoin (o1\<lparr>op_flight := Some f\<rparr>), ct)
          | None \<Rightarrow>
              (op_goto OpEnsure (o1\<lparr>op_flight := Some (length (rq_heap r))\<rparr>),
               ct\<lparr>ct_reqs := r\<lparr>rq_flights := map_put key (length (rq_heap r)) (rq_flights r),
                 rq_heap := rq_heap r @ [\<lparr>fl_key = key, fl_inputHash = fp, fl_done = False, fl_result = Inl FlightAborted\<rparr>]\<rparr>\<rparr>))))"

definition settle :: "control_error + nat \<Rightarrow> op \<Rightarrow> RequestRegistry \<Rightarrow> RequestRegistry" where
  "settle res o1 r =
    (let r1 = r\<lparr>rq_flights := map_del (op_key o1) (rq_flights r)\<rparr> in
     case res of
       Inl e \<Rightarrow> r1
     | Inr i \<Rightarrow> recordLocked (op_key o1) i (fl_inputHash (rq_heap r ! the (op_flight o1))) r1)"

definition wake :: "control_error + nat \<Rightarrow> nat \<Rightarrow> RequestRegistry \<Rightarrow> RequestRegistry" where
  "wake res f r = r\<lparr>rq_heap := (rq_heap r)[f := (rq_heap r ! f)\<lparr>fl_result := res, fl_done := True\<rparr>]\<rparr>"

text \<open>The step from the lease into the operation, when the lock is free.\<close>

definition enter :: "nat \<Rightarrow> op \<Rightarrow> control \<Rightarrow> op \<times> control" where
  "enter n o1 ct =
    (let l = op_lease o1; v = lr_heap (ct_leases ct) ! l in
     case op_req o1 of
       ReqAcquire s c \<Rightarrow> (op_goto (OpDone (AnsTaken (fst (Acquire c v)))) o1, set_lease l (snd (Acquire c v)) ct)
     | ReqRelease s c \<Rightarrow> (op_goto (OpDone AnsOK) o1, set_lease l (Release c v) ct)
     | q \<Rightarrow>
         if \<not> holds (req_client q) v then (op_goto (OpDone (AnsErr ControlLeaseLost)) o1, ct)
         else (op_goto (case q of ReqStart s c i r u \<Rightarrow> OpSubmit | ReqResolve s c r d \<Rightarrow> OpOwner | _ \<Rightarrow> OpEnsure) o1,
               set_lease l (v\<lparr>ls_mu := Some n\<rparr>) ct))"

definition route_step :: "op_choice \<Rightarrow> op \<Rightarrow> control \<Rightarrow> (op \<times> control) option" where
  "route_step c o1 ct =
    (case op_req o1 of
       ReqAcquire s cl \<Rightarrow> Some (op_goto (if cl = [] then OpDone (AnsTaken False) else OpLease) o1, ct)
     | ReqRelease s cl \<Rightarrow> Some (op_goto (if cl = [] then OpDone AnsOK else OpLease) o1, ct)
     | ReqReleaseConnection cl \<Rightarrow>
         if cl = [] then Some (op_goto (OpDone AnsOK) o1, ct)
         else if mset (co_order c) = mset (map snd (lr_leases (ct_leases ct))) then Some (op_goto (OpDrop (co_order c)) o1, ct)
         else None
     | q \<Rightarrow>
         (case RouteSession (req_session q) ct of
            None \<Rightarrow> Some (op_goto (OpDone (AnsErr SessionUnknown)) o1, ct)
          | Some k \<Rightarrow>
              Some (op_goto (if fenced q then OpLease else OpEnsure)
                (o1\<lparr>op_rt := k, op_key := (case q of ReqStart s cl i r u \<Rightarrow>
                   \<lparr>rk_SessionID = (if r = [] then [] else rt_ID (sv_rts (ct_sv ct) ! k)), rk_RequestID = r\<rparr> | _ \<Rightarrow> op_key o1)\<rparr>), ct)))"

definition owner_check :: "op \<Rightarrow> control \<Rightarrow> op" where
  "owner_check o1 ct =
    (case op_req o1 of
       ReqResolve s c r d \<Rightarrow>
         (case Owner r (ct_appr ct) of
            None \<Rightarrow> leave (AnsErr (ApprovalFailed ErrApprovalUnknown)) o1
          | Some sid \<Rightarrow> if sid \<noteq> rt_ID (sv_rts (ct_sv ct) ! op_rt o1) then leave (AnsErr ApprovalOwnership) o1 else op_goto OpResolve o1)
     | _ \<Rightarrow> leave (AnsErr ApprovalOwnership) o1)"

definition resolve_step :: "op_choice \<Rightarrow> nat \<Rightarrow> op \<Rightarrow> control \<Rightarrow> op \<times> control" where
  "resolve_step c n o1 ct =
    (case op_req o1 of
       ReqResolve s cl r d \<Rightarrow>
         (case Resolve (co_now c) r d (ct_appr ct) of
            (Inl e, m) \<Rightarrow> (leave (AnsErr (ApprovalFailed e)) o1, ct\<lparr>ct_appr := m\<rparr>)
          | (Inr e, m) \<Rightarrow> (leave AnsOK o1, ct\<lparr>ct_appr := m, ct_verdicts := ct_verdicts ct @
              [\<lparr>vd_entry = e, vd_op = n, vd_decision = d\<lparr>hd_InterruptID := r\<rparr>, vd_holder = ls_holder (lr_heap (ct_leases ct) ! op_lease o1)\<rparr>]\<rparr>))
     | _ \<Rightarrow> (leave (AnsErr ApprovalOwnership) o1, ct))"

fun op_step :: "(string \<Rightarrow> string) \<Rightarrow> op_choice \<Rightarrow> nat \<Rightarrow> op \<Rightarrow> control \<Rightarrow> place \<Rightarrow> (op \<times> control) option" where
  "op_step sha256 c n o1 ct OpRoute = route_step c o1 ct"
| "op_step sha256 c n o1 ct OpLease =
     (let (l, r) = lease (req_session (op_req o1)) (ct_leases ct) in Some (op_goto OpLock (o1\<lparr>op_lease := l\<rparr>), ct\<lparr>ct_leases := r\<rparr>))"
| "op_step sha256 c n o1 ct OpLock =
     (if ls_mu (lr_heap (ct_leases ct) ! op_lease o1) \<noteq> None then None else Some (enter n o1 ct))"
| "op_step sha256 c n o1 ct OpSubmit =
     (case op_req o1 of ReqStart s cl i r u \<Rightarrow> Some (Submit sha256 i o1 ct) | _ \<Rightarrow> None)"
| "op_step sha256 c n o1 ct OpEnsure =
     Some (if map_of (mg_runtimes (sv_mgr (ct_sv ct))) (rt_ID (sv_rts (ct_sv ct) ! op_rt o1)) = Some (op_rt o1) then registered o1
           else op_goto OpRetired o1, ct)"
| "op_step sha256 c n o1 ct OpRetired =
     Some (if rt_retired (sv_rts (ct_sv ct) ! op_rt o1) then registered o1 else op_goto OpRemove o1, ct)"
| "op_step sha256 c n o1 ct OpRemove =
     Some (op_goto OpRegister o1, set_mgr (Remove (rt_ID (sv_rts (ct_sv ct) ! op_rt o1)) (sv_mgr (ct_sv ct))) ct)"
| "op_step sha256 c n o1 ct OpRegister =
     Some (registered o1, set_mgr (snd (Register (op_rt o1) (sv_rts (ct_sv ct) ! op_rt o1) (sv_mgr (ct_sv ct)))) ct)"
| "op_step sha256 c n o1 ct OpStart =
     (case StartRun (rt_ID (sv_rts (ct_sv ct) ! op_rt o1)) (req_runID (op_req o1)) (ct_sv ct) of
        (Some e, sv) \<Rightarrow> Some (started (Inl (Rejected e)) o1, ct)
      | (None, sv) \<Rightarrow> Some (op_goto (OpAwait (length (sv_threads (ct_sv ct)))) o1, ct\<lparr>ct_sv := sv\<rparr>))"
| "op_step sha256 c n o1 ct (OpAwait i) =
     (case start_result (th_pc (sv_threads (ct_sv ct) ! i)) of
        None \<Rightarrow> None
      | Some (Some e) \<Rightarrow> Some (started (Inl (Rejected e)) o1, ct)
      | Some None \<Rightarrow> Some (started (Inr i) o1, ct))"
| "op_step sha256 c n o1 ct (OpSettle res) = Some (op_goto (OpWake res) o1, ct\<lparr>ct_reqs := settle res o1 (ct_reqs ct)\<rparr>)"
| "op_step sha256 c n o1 ct (OpWake res) =
     Some (leave (fresh_answer res) o1, ct\<lparr>ct_reqs := wake res (the (op_flight o1)) (ct_reqs ct)\<rparr>)"
| "op_step sha256 c n o1 ct OpJoin =
     (let fl = rq_heap (ct_reqs ct) ! the (op_flight o1) in
      if fl_done fl then Some (leave (known_answer ct (fl_result fl)) o1, ct) else None)"
| "op_step sha256 c n o1 ct OpCancel =
     (case CancelRun (rt_ID (sv_rts (ct_sv ct) ! op_rt o1)) (req_runID (op_req o1)) (ct_sv ct) of
        (Some e, sv) \<Rightarrow> Some (leave (AnsErr (Rejected e)) o1, ct)
      | (None, sv) \<Rightarrow> Some (leave AnsOK o1, ct\<lparr>ct_sv := sv\<rparr>))"
| "op_step sha256 c n o1 ct OpOwner = Some (owner_check o1 ct, ct)"
| "op_step sha256 c n o1 ct OpResolve = Some (resolve_step c n o1 ct)"
| "op_step sha256 c n o1 ct (OpUnlock a) =
     Some (op_goto (OpDone a) o1, set_lease (op_lease o1) ((lr_heap (ct_leases ct) ! op_lease o1)\<lparr>ls_mu := None\<rparr>) ct)"
| "op_step sha256 c n o1 ct (OpDrop []) = Some (op_goto (OpDone AnsOK) o1, ct)"
| "op_step sha256 c n o1 ct (OpDrop (l # ls)) =
     (if ls_mu (lr_heap (ct_leases ct) ! l) \<noteq> None then None
      else Some (op_goto (OpDrop ls) o1, set_lease l (Release (req_client (op_req o1)) (lr_heap (ct_leases ct) ! l)) ct))"
| "op_step sha256 c n o1 ct (OpDone a) = None"

section \<open>The system\<close>

record system =
  sys_ct :: control
  sys_ops :: "op list"
  sys_waits :: "wait list"

definition new_system :: "(int \<times> int) option \<Rightarrow> system" where
  "new_system limits = \<lparr>sys_ct = \<lparr>ct_leases = NewLeaseRegistry, ct_reqs = NewRequestRegistry, ct_appr = NewApprovalManager,
     ct_sv = new_supervisor limits, ct_cur = None, ct_verdicts = []\<rparr>, sys_ops = [], sys_waits = []\<rparr>"

definition new_op :: "request \<Rightarrow> op" where
  "new_op q = \<lparr>op_req = q, op_rt = 0, op_key = \<lparr>rk_SessionID = [], rk_RequestID = []\<rparr>, op_lease = 0, op_flight = None, op_pc = OpRoute\<rparr>"

definition perform_op :: "(string \<Rightarrow> string) \<Rightarrow> op_choice \<Rightarrow> nat \<Rightarrow> system \<Rightarrow> system option" where
  "perform_op sha256 c n s =
    (if length (sys_ops s) \<le> n then None
     else (case op_step sha256 c n (sys_ops s ! n) (sys_ct s) (op_pc (sys_ops s ! n)) of
       None \<Rightarrow> None
     | Some (o1, ct) \<Rightarrow> Some (s\<lparr>sys_ct := ct, sys_ops := (sys_ops s)[n := o1]\<rparr>)))"

text \<open>A wait belongs to a run whose session is executing; it gets the session and the context of the run.\<close>

definition new_wait :: "nat \<Rightarrow> run_thread \<Rightarrow> InterruptRequest \<Rightarrow> wait" where
  "new_wait i t req = \<lparr>wt_session = run_SessionID (th_run t), wt_thread = i, wt_runID = run_ID (th_run t), wt_req = req,
     wt_entry = 0, wt_pc = WtEnter\<rparr>"

definition perform_wait :: "time \<Rightarrow> wait_case \<Rightarrow> nat \<Rightarrow> system \<Rightarrow> system option" where
  "perform_wait now cs k s =
    (if length (sys_waits s) \<le> k then None
     else let w = sys_waits s ! k; sv = ct_sv (sys_ct s) in
       (case wait_step now cs (ctx_done (sv_mgr sv) (th_run (sv_threads sv ! wt_thread w))) w (ct_appr (sys_ct s)) (wt_pc w) of
          None \<Rightarrow> None
        | Some (w', m) \<Rightarrow> Some (s\<lparr>sys_ct := (sys_ct s)\<lparr>ct_appr := m\<rparr>, sys_waits := (sys_waits s)[k := w']\<rparr>)))"

inductive ctl_step :: "(string \<Rightarrow> string) \<Rightarrow> system \<Rightarrow> system \<Rightarrow> bool" for sha256 where
  call: "ctl_step sha256 s (s\<lparr>sys_ops := sys_ops s @ [new_op q]\<rparr>)"
| op: "perform_op sha256 c n s = Some s' \<Longrightarrow> ctl_step sha256 s s'"
| ask: "i < length (sv_threads (ct_sv (sys_ct s))) \<Longrightarrow> th_pc (sv_threads (ct_sv (sys_ct s)) ! i) = PcRun \<Longrightarrow>
    ctl_step sha256 s (s\<lparr>sys_waits := sys_waits s @ [new_wait i (sv_threads (ct_sv (sys_ct s)) ! i) req]\<rparr>)"
| wait: "perform_wait now cs k s = Some s' \<Longrightarrow> ctl_step sha256 s s'"
| list: "ctl_step sha256 s (s\<lparr>sys_ct := (sys_ct s)\<lparr>ct_appr := snd (Pending now sid (ct_appr (sys_ct s)))\<rparr>\<rparr>)"
| sup: "sup_step (ct_sv (sys_ct s)) sv \<Longrightarrow> ctl_step sha256 s (s\<lparr>sys_ct := (sys_ct s)\<lparr>ct_sv := sv\<rparr>\<rparr>)"
| switch: "(\<forall>k cur. c = Some (k, cur) \<longrightarrow> k < length (sv_rts (ct_sv (sys_ct s)))) \<Longrightarrow>
    ctl_step sha256 s (s\<lparr>sys_ct := (sys_ct s)\<lparr>ct_cur := c\<rparr>\<rparr>)"

inductive ctl_reach :: "(string \<Rightarrow> string) \<Rightarrow> (int \<times> int) option \<Rightarrow> system \<Rightarrow> bool" for sha256 limits where
  new: "ctl_reach sha256 limits (new_system limits)"
| step: "ctl_reach sha256 limits s \<Longrightarrow> ctl_step sha256 s s' \<Longrightarrow> ctl_reach sha256 limits s'"

end
