(* ===== verification/Control_Safety.thy ===== *)
theory Control_Safety
  imports Control_Plane
begin

text \<open>
  The invariants of the control plane: who may hold the lock of a lease, how the request registry, the
  flights and the operations hang together, and where the decisions of the approvals come from.
\<close>

section \<open>The supervisor below\<close>

text \<open>Nothing of the supervisor is renamed or removed by a step.\<close>

definition grows :: "supervisor \<Rightarrow> supervisor \<Rightarrow> bool" where
  "grows s s' \<longleftrightarrow> length (sv_rts s) \<le> length (sv_rts s') \<and> length (sv_threads s) \<le> length (sv_threads s') \<and>
     (\<forall>k < length (sv_rts s). rt_ID (sv_rts s' ! k) = rt_ID (sv_rts s ! k)) \<and>
     (\<forall>i < length (sv_threads s). run_SessionID (th_run (sv_threads s' ! i)) = run_SessionID (th_run (sv_threads s ! i)))"

lemma grows_refl [simp]: "grows s s"
  by (simp add: grows_def)

lemma step_names:
  assumes "thread_step c i t r m = Some (t', r', m', os)"
  shows "rt_ID r' = rt_ID r" "run_SessionID (th_run t') = run_SessionID (th_run t)"
  using assms by (cases "th_pc t"; auto simp: step_simps transition_def finish_def split: if_splits prod.splits option.splits session_act.splits)+

lemma grows_set_rt: "rt_ID r = rt_ID (sv_rts s ! k) \<Longrightarrow> grows s (set_rt k r s)"
  by (auto simp: grows_def set_rt_def nth_update_if)

lemma grows_calm: "calm s s' \<Longrightarrow> sv_rts s' = sv_rts s \<Longrightarrow> grows s s'"
  by (fastforce simp: grows_def calm_def)

lemma grows_cancel: "grows s (cancel_thread i s)"
  using grows_calm [OF calm_cancel] by (simp add: cancel_thread_def Let_def)

lemma grows_mgr [simp]: "grows s (s\<lparr>sv_mgr := m\<rparr>)" "grows s (s\<lparr>sv_mgr := m, sv_rts := sv_rts s @ rs\<rparr>)"
  by (simp_all add: grows_def nth_append)

lemma sup_grows:
  assumes "sup_step s s'"
  shows "grows s s'"
  using assms
proof cases
  case (run c i)
  then show ?thesis
  proof (cases rule: advance_cases)
    case (1 t' r m os)
    then show ?thesis using step_names [OF 1(2)] by (auto simp: grows_def nth_update_if)
  qed
next
  case (start sid runID)
  then show ?thesis by (auto simp: StartRun_def grows_def nth_append split: sum.splits)
next
  case (cancel sid runID)
  then show ?thesis using grows_cancel by (auto simp: CancelRun_def Let_def split: option.splits if_splits)
next
  case (closing order)
  then show ?thesis by (cases "(order, sv_close s, s)" rule: close_step.cases) (auto simp: grows_def split: if_splits)
qed (auto intro!: grows_set_rt grows_cancel simp: bindEvents_def Retire_def Archive_def)

lemma route_same: "route_step c o1 ct = Some (o2, ct') \<Longrightarrow> ct' = ct"
  by (cases "op_req o1") (auto simp: route_step_def split: if_splits option.splits)

lemma set_lease_frame [simp]:
  "ct_sv (set_lease l v ct) = ct_sv ct" "ct_reqs (set_lease l v ct) = ct_reqs ct" "ct_appr (set_lease l v ct) = ct_appr ct"
  "ct_verdicts (set_lease l v ct) = ct_verdicts ct"
  by (simp_all add: set_lease_def)

lemma enter_frame:
  assumes "enter n o1 ct = (o2, ct')"
  shows "ct_sv ct' = ct_sv ct" "ct_reqs ct' = ct_reqs ct" "ct_appr ct' = ct_appr ct" "ct_verdicts ct' = ct_verdicts ct"
  using assms by (cases "op_req o1"; auto simp: enter_def Let_def split: if_splits)+

lemma Submit_frame:
  assumes "Submit sha256 i o1 ct = (o2, ct')"
  shows "ct_sv ct' = ct_sv ct" "ct_leases ct' = ct_leases ct" "ct_appr ct' = ct_appr ct" "ct_verdicts ct' = ct_verdicts ct"
  using assms by (auto simp: Submit_def Let_def split: if_splits option.splits)

lemma resolve_frame:
  assumes "resolve_step c n o1 ct = (o2, ct')"
  shows "ct_sv ct' = ct_sv ct" "ct_leases ct' = ct_leases ct" "ct_reqs ct' = ct_reqs ct"
  using assms by (cases "op_req o1"; auto simp: resolve_step_def split: prod.splits sum.splits)+

lemma set_mgr_frame [simp]:
  "ct_leases (set_mgr m ct) = ct_leases ct" "ct_reqs (set_mgr m ct) = ct_reqs ct" "ct_appr (set_mgr m ct) = ct_appr ct"
  "ct_verdicts (set_mgr m ct) = ct_verdicts ct"
  by (simp_all add: set_mgr_def)

text \<open>Which places touch which part of the state.\<close>

lemma op_frame:
  assumes "op_step sha256 c n o1 ct p = Some (o2, ct')"
  shows "p \<notin> {OpRemove, OpRegister, OpStart, OpCancel} \<Longrightarrow> ct_sv ct' = ct_sv ct"
    and "p \<notin> {OpLease, OpLock} \<Longrightarrow> \<forall>a ls. p \<noteq> OpUnlock a \<and> p \<noteq> OpDrop ls \<Longrightarrow> ct_leases ct' = ct_leases ct"
    and "p \<noteq> OpSubmit \<Longrightarrow> \<forall>r. p \<noteq> OpSettle r \<and> p \<noteq> OpWake r \<Longrightarrow> ct_reqs ct' = ct_reqs ct"
    and "p \<noteq> OpResolve \<Longrightarrow> ct_appr ct' = ct_appr ct \<and> ct_verdicts ct' = ct_verdicts ct"
proof -
  show "p \<notin> {OpRemove, OpRegister, OpStart, OpCancel} \<Longrightarrow> ct_sv ct' = ct_sv ct"
    using assms by (cases "(sha256, c, n, o1, ct, p)" rule: op_step.cases)
      (auto dest: route_same enter_frame Submit_frame resolve_frame simp: Let_def split: if_splits prod.splits option.splits request.splits)
  show "p \<notin> {OpLease, OpLock} \<Longrightarrow> \<forall>a ls. p \<noteq> OpUnlock a \<and> p \<noteq> OpDrop ls \<Longrightarrow> ct_leases ct' = ct_leases ct"
    using assms by (cases "(sha256, c, n, o1, ct, p)" rule: op_step.cases)
      (auto dest: route_same enter_frame Submit_frame resolve_frame simp: Let_def split: if_splits prod.splits option.splits request.splits)
  show "p \<noteq> OpSubmit \<Longrightarrow> \<forall>r. p \<noteq> OpSettle r \<and> p \<noteq> OpWake r \<Longrightarrow> ct_reqs ct' = ct_reqs ct"
    using assms by (cases "(sha256, c, n, o1, ct, p)" rule: op_step.cases)
      (auto dest: route_same enter_frame Submit_frame resolve_frame simp: Let_def split: if_splits prod.splits option.splits request.splits)
  show "p \<noteq> OpResolve \<Longrightarrow> ct_appr ct' = ct_appr ct \<and> ct_verdicts ct' = ct_verdicts ct"
    using assms by (cases "(sha256, c, n, o1, ct, p)" rule: op_step.cases)
      (auto dest: route_same enter_frame Submit_frame resolve_frame simp: Let_def split: if_splits prod.splits option.splits request.splits)
qed

lemma op_sup:
  assumes "op_step sha256 c n o1 ct p = Some (o2, ct')" and "p = OpRegister \<Longrightarrow> op_rt o1 < length (sv_rts (ct_sv ct))"
  shows "ct_sv ct' = ct_sv ct \<or> sup_step (ct_sv ct) (ct_sv ct')"
proof (cases "p \<in> {OpRemove, OpRegister, OpStart, OpCancel}")
  case True
  then consider "p = OpRemove" | "p = OpRegister" | "p = OpStart" | "p = OpCancel" by blast
  then show ?thesis
  proof cases
    case 1
    then show ?thesis using assms(1) sup_step.remove by (auto simp: set_mgr_def)
  next
    case 2
    obtain e m where r: "Register (op_rt o1) (sv_rts (ct_sv ct) ! op_rt o1) (sv_mgr (ct_sv ct)) = (e, m)" by fastforce
    then have "e \<noteq> None \<Longrightarrow> m = sv_mgr (ct_sv ct)" by (auto simp: Register_def split: if_splits)
    then show ?thesis
      using assms r 2 sup_step.register_again [of "op_rt o1" "ct_sv ct" m] by (cases e) (auto simp: set_mgr_def)
  next
    case 3
    then show ?thesis using assms(1) sup_step.start by (auto split: prod.splits option.splits)
  next
    case 4
    then show ?thesis using assms(1) sup_step.cancel by (auto split: prod.splits option.splits)
  qed
qed (use op_frame(1) [OF assms(1)] in blast)

section \<open>Places\<close>

definition place_ok :: "op \<Rightarrow> bool" where
  "place_ok o1 \<longleftrightarrow>
    (case op_pc o1 of
       OpLease \<Rightarrow> (case op_req o1 of ReqReleaseConnection c \<Rightarrow> False | ReqStartSync s u \<Rightarrow> False | ReqCancelSync s u \<Rightarrow> False | _ \<Rightarrow> True)
     | OpLock \<Rightarrow> (case op_req o1 of ReqReleaseConnection c \<Rightarrow> False | ReqStartSync s u \<Rightarrow> False | ReqCancelSync s u \<Rightarrow> False | _ \<Rightarrow> True)
     | OpSubmit \<Rightarrow> (case op_req o1 of ReqStart s c i r u \<Rightarrow> True | _ \<Rightarrow> False)
     | OpSettle res \<Rightarrow> op_flight o1 \<noteq> None
     | OpWake res \<Rightarrow> op_flight o1 \<noteq> None
     | OpJoin \<Rightarrow> op_flight o1 \<noteq> None
     | OpOwner \<Rightarrow> (case op_req o1 of ReqResolve s c r d \<Rightarrow> True | _ \<Rightarrow> False)
     | OpResolve \<Rightarrow> (case op_req o1 of ReqResolve s c r d \<Rightarrow> True | _ \<Rightarrow> False)
     | OpUnlock a \<Rightarrow> fenced (op_req o1)
     | OpDrop ls \<Rightarrow> \<not> fenced (op_req o1)
     | _ \<Rightarrow> True) \<and>
    (op_flight o1 \<noteq> None \<longrightarrow> (case op_req o1 of ReqStart s c i r u \<Rightarrow> True | _ \<Rightarrow> False) \<and> op_pc o1 \<notin> {OpRoute, OpLease, OpLock, OpSubmit})"

lemma place_step:
  assumes "op_step sha256 c n o1 ct (op_pc o1) = Some (o2, ct')" and "place_ok o1"
  shows "op_req o2 = op_req o1 \<and> place_ok o2"
proof (cases "op_pc o1")
  case OpRoute
  then show ?thesis using assms
    by (cases "op_req o1") (auto simp: route_step_def op_goto_def place_ok_def fenced_def split: if_splits option.splits)
next
  case OpLock
  then show ?thesis using assms by (cases "op_req o1") (auto simp: enter_def Let_def op_goto_def place_ok_def split: if_splits)
next
  case OpSubmit
  then show ?thesis using assms
    by (cases "op_req o1") (auto simp: Submit_def Let_def op_goto_def leave_def place_ok_def fenced_def split: if_splits option.splits)
next
  case OpOwner
  then show ?thesis using assms
    by (cases "op_req o1") (auto simp: owner_check_def op_goto_def leave_def place_ok_def fenced_def split: if_splits option.splits)
next
  case OpResolve
  then show ?thesis using assms
    by (cases "op_req o1") (auto simp: resolve_step_def op_goto_def leave_def place_ok_def fenced_def split: prod.splits sum.splits)
next
  case (OpDrop ls)
  then show ?thesis using assms by (cases ls) (auto simp: op_goto_def place_ok_def split: if_splits)
next
  case OpStart
  then show ?thesis using assms
    by (cases "op_req o1") (auto simp: started_def leave_def op_goto_def place_ok_def fenced_def split: prod.splits option.splits if_splits)
next
  case (OpAwait i)
  then show ?thesis using assms
    by (cases "op_req o1") (auto simp: started_def leave_def op_goto_def place_ok_def fenced_def split: option.splits if_splits)
qed (use assms in \<open>cases "op_req o1"; auto simp: registered_def leave_def op_goto_def place_ok_def fenced_def Let_def
      split: prod.splits option.splits if_splits\<close>)+

section \<open>Leases\<close>

text \<open>The places behind the check of the lease: there an operation that is fenced holds the lock.\<close>

definition in_body :: "op \<Rightarrow> bool" where
  "in_body o1 \<longleftrightarrow> fenced (op_req o1) \<and>
     (case op_pc o1 of OpRoute \<Rightarrow> False | OpLease \<Rightarrow> False | OpLock \<Rightarrow> False | OpDrop ls \<Rightarrow> False | OpDone a \<Rightarrow> False | _ \<Rightarrow> True)"

definition lease_ok :: "nat \<Rightarrow> op \<Rightarrow> LeaseRegistry \<Rightarrow> bool" where
  "lease_ok n o1 r \<longleftrightarrow>
     (op_pc o1 = OpLock \<or> in_body o1 \<longrightarrow> map_of (lr_leases r) (req_session (op_req o1)) = Some (op_lease o1)) \<and>
     (in_body o1 \<longrightarrow> ls_mu (lr_heap r ! op_lease o1) = Some n \<and> holds (req_client (op_req o1)) (lr_heap r ! op_lease o1)) \<and>
     (\<forall>ls. op_pc o1 = OpDrop ls \<longrightarrow> (\<forall>l \<in> set ls. l < length (lr_heap r)))"

definition leases_ok :: "LeaseRegistry \<Rightarrow> bool" where
  "leases_ok r \<longleftrightarrow> (\<forall>x \<in> set (lr_leases r). snd x < length (lr_heap r))"

lemma leases_okD: "leases_ok r \<Longrightarrow> map_of (lr_leases r) sid = Some l \<Longrightarrow> l < length (lr_heap r)"
  by (force simp: leases_ok_def dest: map_of_SomeD)

text \<open>What the step of an operation leaves of the leases: a lock that another operation holds is not touched.\<close>

definition leases_kept :: "nat \<Rightarrow> LeaseRegistry \<Rightarrow> LeaseRegistry \<Rightarrow> bool" where
  "leases_kept n r r' \<longleftrightarrow> length (lr_heap r) \<le> length (lr_heap r') \<and> map_of (lr_leases r) \<subseteq>\<^sub>m map_of (lr_leases r') \<and>
     (\<forall>l < length (lr_heap r). \<forall>m. m \<noteq> n \<and> ls_mu (lr_heap r ! l) = Some m \<longrightarrow> lr_heap r' ! l = lr_heap r ! l) \<and>
     (\<forall>l < length (lr_heap r'). \<forall>m. m \<noteq> n \<and> ls_mu (lr_heap r' ! l) = Some m \<longrightarrow> l < length (lr_heap r) \<and> ls_mu (lr_heap r ! l) = Some m)"

lemma leases_kept_refl [simp]: "leases_kept n r r"
  by (simp add: leases_kept_def)

lemma leases_kept_update:
  assumes "l < length (lr_heap r) \<Longrightarrow> ls_mu (lr_heap r ! l) \<in> {None, Some n} \<and> ls_mu v \<in> {None, Some n}"
  shows "leases_kept n r (r\<lparr>lr_heap := (lr_heap r)[l := v]\<rparr>)"
  using assms by (auto simp: leases_kept_def nth_update_if)

lemma lease_kept:
  assumes "lease sid r = (l, r')"
  shows "leases_kept n r r'" "leases_ok r \<Longrightarrow> leases_ok r'" "map_of (lr_leases r') sid = Some l"
proof -
  have "leases_kept n r r' \<and> (leases_ok r \<longrightarrow> leases_ok r') \<and> map_of (lr_leases r') sid = Some l"
  proof (cases "map_of (lr_leases r) sid")
    case None
    then have r': "r' = \<lparr>lr_leases = map_put sid (length (lr_heap r)) (lr_leases r), lr_heap = lr_heap r @ [\<lparr>ls_mu = None, ls_holder = []\<rparr>]\<rparr>"
        "l = length (lr_heap r)" using assms by (auto simp: lease_def)
    have "leases_kept n r r'" using None unfolding r' by (auto simp: leases_kept_def map_le_def nth_append less_Suc_eq)
    moreover have "leases_ok r \<longrightarrow> leases_ok r'" unfolding r' leases_ok_def by (force dest: in_map_put)
    ultimately show ?thesis by (simp add: r')
  qed (use assms in \<open>simp_all add: lease_def\<close>)
  then show "leases_kept n r r'" "leases_ok r \<Longrightarrow> leases_ok r'" "map_of (lr_leases r') sid = Some l" by simp_all
qed

text \<open>The ways in which the step of an operation deals with the leases.\<close>

abbreviation put_lease :: "nat \<Rightarrow> SessionLease \<Rightarrow> LeaseRegistry \<Rightarrow> LeaseRegistry" where
  "put_lease l v r \<equiv> r\<lparr>lr_heap := (lr_heap r)[l := v]\<rparr>"

lemma moves [simp]:
  "in_body (leave a o1) = fenced (op_req o1)" "in_body (registered o1) = fenced (op_req o1)" "in_body (started res o1) = fenced (op_req o1)"
  "op_lease (leave a o1) = op_lease o1" "op_lease (registered o1) = op_lease o1" "op_lease (started res o1) = op_lease o1"
  "op_lease (op_goto p o1) = op_lease o1" "op_pc (op_goto p o1) = p"
  "op_pc (leave a o1) \<noteq> OpLock" "op_pc (registered o1) \<noteq> OpLock" "op_pc (started res o1) \<noteq> OpLock"
  "op_pc (leave a o1) \<noteq> OpDrop ls" "op_pc (registered o1) \<noteq> OpDrop ls" "op_pc (started res o1) \<noteq> OpDrop ls"
  by (simp_all add: leave_def registered_def started_def op_goto_def in_body_def split: request.split)

lemma op_inside:
  assumes "op_step sha256 c n o1 ct (op_pc o1) = Some (o2, ct')"
    and "op_pc o1 \<notin> {OpRoute, OpLease, OpLock, OpSubmit, OpOwner, OpResolve}" and "\<forall>a ls. op_pc o1 \<noteq> OpUnlock a \<and> op_pc o1 \<noteq> OpDrop ls"
  shows "in_body o2 = in_body o1 \<and> op_lease o2 = op_lease o1 \<and> op_pc o2 \<noteq> OpLock \<and> (\<forall>ls. op_pc o2 \<noteq> OpDrop ls)"
proof -
  have b: "in_body o1 = fenced (op_req o1)" using assms by (cases "op_pc o1") (simp_all add: in_body_def)
  have g: "in_body (op_goto p o1) = fenced (op_req o1)" if "p \<in> {OpRetired, OpRemove, OpRegister} \<union> range OpAwait \<union> range OpWake" for p
    using that by (auto simp: in_body_def op_goto_def)
  show ?thesis
    using assms by (cases "op_pc o1") (auto simp: b g Let_def split: prod.splits option.splits if_splits)
qed

lemma lock_untouched: "ls_mu (snd (Acquire cl l)) = ls_mu l" "ls_mu (Release cl l) = ls_mu l"
  by (simp_all add: Acquire_def Release_def)

lemma op_lease_cases:
  assumes "op_step sha256 c n o1 ct (op_pc o1) = Some (o2, ct')" and "place_ok o1" and "r = ct_leases ct"
  obtains (same) "ct_leases ct' = r" "in_body o2 = in_body o1" "op_lease o2 = op_lease o1" "op_pc o2 \<noteq> OpLock"
      "\<forall>ls. op_pc o2 = OpDrop ls \<longrightarrow> mset ls = mset (map snd (lr_leases r))"
    | (found) "op_pc o2 = OpLock" "lease (req_session (op_req o1)) r = (op_lease o2, ct_leases ct')" "\<not> in_body o1" "\<not> in_body o2"
    | (taken) l v where "ls_mu (lr_heap r ! l) = None" "ls_mu v = None" "ct_leases ct' = put_lease l v r" "\<not> in_body o1" "\<not> in_body o2"
        "op_pc o2 \<noteq> OpLock" "\<forall>ls. op_pc o2 = OpDrop ls \<longrightarrow> op_pc o1 = OpDrop (l # ls)"
    | (locked) "op_pc o1 = OpLock" "in_body o2" "op_lease o2 = op_lease o1" "ls_mu (lr_heap r ! op_lease o1) = None"
        "holds (req_client (op_req o1)) (lr_heap r ! op_lease o1)" "ct_leases ct' = put_lease (op_lease o1) ((lr_heap r ! op_lease o1)\<lparr>ls_mu := Some n\<rparr>) r"
        "\<not> in_body o1" "op_pc o2 \<noteq> OpLock"
    | (unlocked) a where "in_body o1" "\<not> in_body o2" "op_pc o2 = OpDone a" "ct_leases ct' = put_lease (op_lease o1) ((lr_heap r ! op_lease o1)\<lparr>ls_mu := None\<rparr>) r"
proof (cases "op_pc o1")
  case OpRoute
  then show thesis using assms same
    by (cases "op_req o1") (auto simp: route_step_def op_goto_def in_body_def fenced_def split: if_splits option.splits)
next
  case OpLease
  then show thesis using assms found by (auto simp: op_goto_def in_body_def split: prod.splits)
next
  case OpLock
  show thesis
  proof (cases "fenced (op_req o1) \<and> holds (req_client (op_req o1)) (lr_heap r ! op_lease o1)")
    case True
    then have "in_body o2 \<and> op_lease o2 = op_lease o1 \<and> ls_mu (lr_heap r ! op_lease o1) = None \<and> op_pc o2 \<noteq> OpLock \<and>
        ct_leases ct' = put_lease (op_lease o1) ((lr_heap r ! op_lease o1)\<lparr>ls_mu := Some n\<rparr>) r"
      using assms OpLock by (cases "op_req o1") (auto simp: enter_def Let_def op_goto_def in_body_def fenced_def set_lease_def split: if_splits)
    then show thesis using True OpLock by (intro locked) (simp_all add: in_body_def)
  next
    case False
    show thesis
    proof (cases "fenced (op_req o1)")
      case True
      then have "ct' = ct \<and> op_pc o2 = OpDone (AnsErr ControlLeaseLost) \<and> op_lease o2 = op_lease o1"
        using False assms OpLock by (cases "op_req o1") (auto simp: enter_def Let_def op_goto_def fenced_def split: if_splits)
      then show thesis using OpLock assms(3) by (intro same) (simp_all add: in_body_def)
    next
      case False
      then consider sid cl where "op_req o1 = ReqAcquire sid cl" | sid cl where "op_req o1 = ReqRelease sid cl"
        using assms(2) OpLock by (cases "op_req o1") (auto simp: place_ok_def fenced_def)
      then obtain v a where v: "ls_mu (lr_heap r ! op_lease o1) = None \<and> ls_mu v = None \<and> ct_leases ct' = put_lease (op_lease o1) v r \<and> op_pc o2 = OpDone a"
      proof cases
        case 1
        then show thesis using assms(1,3) OpLock that [of "snd (Acquire cl (lr_heap r ! op_lease o1))"]
          by (auto simp: enter_def Let_def op_goto_def set_lease_def lock_untouched split: if_splits)
      next
        case 2
        then show thesis using assms(1,3) OpLock that [of "Release cl (lr_heap r ! op_lease o1)"]
          by (auto simp: enter_def Let_def op_goto_def set_lease_def lock_untouched split: if_splits)
      qed
      then show thesis using OpLock by (intro taken [of "op_lease o1" v]) (simp_all add: in_body_def)
    qed
  qed
next
  case OpSubmit
  then show thesis using assms same
    by (cases "op_req o1") (auto simp: Submit_def Let_def op_goto_def leave_def in_body_def fenced_def split: if_splits option.splits)
next
  case OpOwner
  then show thesis using assms same
    by (cases "op_req o1") (auto simp: owner_check_def op_goto_def leave_def in_body_def fenced_def split: if_splits option.splits)
next
  case OpResolve
  then show thesis using assms same
    by (cases "op_req o1") (auto simp: resolve_step_def op_goto_def leave_def in_body_def fenced_def split: prod.splits sum.splits)
next
  case (OpUnlock a)
  then show thesis using assms unlocked by (auto simp: op_goto_def in_body_def place_ok_def set_lease_def)
next
  case (OpDrop ls)
  show thesis
  proof (cases ls)
    case Nil
    then show thesis using assms same OpDrop by (auto simp: op_goto_def in_body_def)
  next
    case (Cons l ks)
    then show thesis using assms OpDrop
      by (intro taken [of l "Release (req_client (op_req o1)) (lr_heap r ! l)"])
        (auto simp: op_goto_def in_body_def set_lease_def Release_def split: if_splits)
  qed
qed (use same op_frame(2) [OF assms(1)] op_inside [OF assms(1)] assms(3) in simp_all)

lemma leases_ok_put [simp]: "leases_ok (put_lease l v r) = leases_ok r"
  by (simp add: leases_ok_def)

lemma lease_step:
  assumes "op_step sha256 c n o1 ct (op_pc o1) = Some (o2, ct')" and "place_ok o1" and "lease_ok n o1 (ct_leases ct)"
    and "leases_ok (ct_leases ct)"
  shows "leases_kept n (ct_leases ct) (ct_leases ct')" and "leases_ok (ct_leases ct')" and "lease_ok n o2 (ct_leases ct')"
proof -
  let ?r = "ct_leases ct"
  have q: "op_req o2 = op_req o1" using place_step [OF assms(1,2)] by simp
  have "leases_kept n ?r (ct_leases ct') \<and> leases_ok (ct_leases ct') \<and> lease_ok n o2 (ct_leases ct')"
    using assms(1,2) refl
  proof (cases rule: op_lease_cases)
    case same
    have "\<forall>ls. op_pc o2 = OpDrop ls \<longrightarrow> (\<forall>l \<in> set ls. l < length (lr_heap ?r))"
      using same(5) assms(4) by (metis (no_types, lifting) leases_ok_def imageE list.set_map mset_eq_setD)
    then show ?thesis using assms(3,4) same q by (simp add: lease_ok_def)
  next
    case found
    then show ?thesis using lease_kept [OF found(2)] assms(4) q by (simp add: lease_ok_def)
  next
    case (taken l v)
    then show ?thesis using assms(3,4) leases_kept_update [of l ?r n v] by (auto simp: lease_ok_def)
  next
    case locked
    then have "op_lease o1 < length (lr_heap ?r)" using assms(3,4) leases_okD by (auto simp: lease_ok_def)
    then show ?thesis using assms(3,4) locked q leases_kept_update [of "op_lease o1" ?r n] by (auto simp: lease_ok_def holds_def in_body_def)
  next
    case (unlocked a)
    then show ?thesis using assms(3,4) leases_kept_update [of "op_lease o1" ?r n] by (auto simp: lease_ok_def)
  qed
  then show "leases_kept n ?r (ct_leases ct')" "leases_ok (ct_leases ct')" "lease_ok n o2 (ct_leases ct')" by simp_all
qed

text \<open>The lock of a lease is held by an operation that is behind its check, and by no other.\<close>

definition locks_ok :: "system \<Rightarrow> bool" where
  "locks_ok s \<longleftrightarrow> (let r = ct_leases (sys_ct s) in leases_ok r \<and>
     (\<forall>n < length (sys_ops s). place_ok (sys_ops s ! n) \<and> lease_ok n (sys_ops s ! n) r) \<and>
     (\<forall>l < length (lr_heap r). \<forall>n. ls_mu (lr_heap r ! l) = Some n \<longrightarrow>
        n < length (sys_ops s) \<and> in_body (sys_ops s ! n) \<and> op_lease (sys_ops s ! n) = l))"

lemma lease_mu:
  assumes "lease sid r = (k, r')" and "l < length (lr_heap r')" and "ls_mu (lr_heap r' ! l) = Some n"
  shows "l < length (lr_heap r) \<and> ls_mu (lr_heap r ! l) = Some n"
proof (cases "map_of (lr_leases r) sid")
  case None
  then have "lr_heap r' = lr_heap r @ [\<lparr>ls_mu = None, ls_holder = []\<rparr>]" using assms(1) by (auto simp: lease_def)
  then show ?thesis using assms(2,3) by (auto simp: nth_append less_Suc_eq)
qed (use assms in \<open>simp add: lease_def\<close>)

lemma lease_lock:
  assumes "op_step sha256 c n o1 ct (op_pc o1) = Some (o2, ct')" and "place_ok o1"
    and "\<forall>l < length (lr_heap (ct_leases ct)). ls_mu (lr_heap (ct_leases ct) ! l) = Some n \<longrightarrow> in_body o1 \<and> op_lease o1 = l"
    and "l < length (lr_heap (ct_leases ct'))" and "ls_mu (lr_heap (ct_leases ct') ! l) = Some n"
  shows "in_body o2 \<and> op_lease o2 = l"
  using assms(1,2) refl
proof (cases rule: op_lease_cases)
  case same
  then show ?thesis using assms(3-5) by simp
next
  case found
  then show ?thesis using assms(3) lease_mu [OF found(2) assms(4,5)] by blast
next
  case (taken k v)
  then show ?thesis using assms(3-5) by (auto simp: nth_update_if split: if_splits)
next
  case locked
  then show ?thesis using assms(3-5) by (auto simp: nth_update_if split: if_splits)
next
  case (unlocked a)
  then show ?thesis using assms(3-5) by (auto simp: nth_update_if split: if_splits)
qed

lemma lease_ok_other:
  assumes "lease_ok m o1 r" and "leases_ok r" and "leases_kept n r r'" and "m \<noteq> n"
  shows "lease_ok m o1 r'"
proof -
  have t: "map_of (lr_leases r') sid = Some l" if "map_of (lr_leases r) sid = Some l" for sid l
    using assms(3) that by (auto simp: leases_kept_def map_le_def dom_def)
  have "lr_heap r' ! op_lease o1 = lr_heap r ! op_lease o1" if "in_body o1"
    using that assms leases_okD [OF assms(2)] by (auto simp: lease_ok_def leases_kept_def)
  moreover have "length (lr_heap r) \<le> length (lr_heap r')" using assms(3) by (simp add: leases_kept_def)
  ultimately show ?thesis using assms(1) t unfolding lease_ok_def by (metis order_less_le_trans)
qed

lemma perform_op_cases:
  assumes "perform_op sha256 c n s = Some s'"
  obtains o2 ct' where "n < length (sys_ops s)" "op_step sha256 c n (sys_ops s ! n) (sys_ct s) (op_pc (sys_ops s ! n)) = Some (o2, ct')"
    "s' = s\<lparr>sys_ct := ct', sys_ops := (sys_ops s)[n := o2]\<rparr>"
  using assms by (auto simp: perform_op_def split: if_splits option.splits)

lemma perform_wait_cases:
  assumes "perform_wait now cs k s = Some s'"
  obtains w m b where "k < length (sys_waits s)" "wait_step now cs b (sys_waits s ! k) (ct_appr (sys_ct s)) (wt_pc (sys_waits s ! k)) = Some (w, m)"
    "s' = s\<lparr>sys_ct := (sys_ct s)\<lparr>ct_appr := m\<rparr>, sys_waits := (sys_waits s)[k := w]\<rparr>"
  using assms by (auto simp: perform_wait_def Let_def split: if_splits option.splits)

lemma new_op_ok [simp]: "place_ok (new_op q)" "lease_ok n (new_op q) r" "\<not> in_body (new_op q)"
  by (simp_all add: new_op_def place_ok_def lease_ok_def in_body_def)

lemma reach_locks: "ctl_reach sha256 limits s \<Longrightarrow> locks_ok s"
proof (induction rule: ctl_reach.induct)
  case new
  then show ?case by (simp add: new_system_def locks_ok_def NewLeaseRegistry_def leases_ok_def)
next
  case (step s s')
  note I = step.IH [unfolded locks_ok_def Let_def]
  from step.hyps(2) show ?case
  proof cases
    case (call q)
    then show ?thesis using I by (auto simp: locks_ok_def Let_def nth_append less_Suc_eq)
  next
    case (op c n)
    then show ?thesis
    proof (cases rule: perform_op_cases)
      case (1 o2 ct')
      let ?o = "sys_ops s ! n" and ?r = "ct_leases (sys_ct s)"
      have o1: "place_ok ?o" "lease_ok n ?o ?r" "leases_ok ?r" using I 1(1) by simp_all
      note L = lease_step [OF 1(2) o1]
      have "lease_ok m ((sys_ops s)[n := o2] ! m) (ct_leases ct') \<and> place_ok ((sys_ops s)[n := o2] ! m)" if "m < length (sys_ops s)" for m
        using that I L place_step [OF 1(2) o1(1)] lease_ok_other [OF _ o1(3) L(1), of m] by (auto simp: nth_update_if)
      moreover have "m < length (sys_ops s) \<and> in_body ((sys_ops s)[n := o2] ! m) \<and> op_lease ((sys_ops s)[n := o2] ! m) = l"
        if l: "l < length (lr_heap (ct_leases ct'))" "ls_mu (lr_heap (ct_leases ct') ! l) = Some m" for l m
      proof (cases "m = n")
        case True
        then show ?thesis using lease_lock [OF 1(2) o1(1), of l] I l 1(1) by auto
      next
        case False
        have "\<forall>l < length (lr_heap (ct_leases ct')). \<forall>m. m \<noteq> n \<and> ls_mu (lr_heap (ct_leases ct') ! l) = Some m \<longrightarrow>
            l < length (lr_heap ?r) \<and> ls_mu (lr_heap ?r ! l) = Some m" using L(1) unfolding leases_kept_def by blast
        then have "l < length (lr_heap ?r)" "ls_mu (lr_heap ?r ! l) = Some m" using l False by blast+
        then show ?thesis using I False by auto
      qed
      ultimately show ?thesis using L(2) 1(3) by (simp add: locks_ok_def Let_def)
    qed
  next
    case (wait now cs k)
    then show ?thesis by (cases rule: perform_wait_cases) (use step.IH in \<open>simp add: locks_ok_def\<close>)
  qed (use step.IH in \<open>simp_all add: locks_ok_def\<close>)
qed

section \<open>Routes\<close>

text \<open>The places at which the runtime of an operation is known.\<close>

definition routed :: "op \<Rightarrow> bool" where
  "routed o1 \<longleftrightarrow>
    (case op_pc o1 of OpRoute \<Rightarrow> False | OpDrop ls \<Rightarrow> False | OpLease \<Rightarrow> fenced (op_req o1) | OpLock \<Rightarrow> fenced (op_req o1)
     | OpDone a \<Rightarrow> fenced (op_req o1) \<and> a \<noteq> AnsErr SessionUnknown | _ \<Rightarrow> True)"

definition cur_ok :: "control \<Rightarrow> bool" where
  "cur_ok ct \<longleftrightarrow> (\<forall>k cur. ct_cur ct = Some (k, cur) \<longrightarrow> k < length (sv_rts (ct_sv ct)))"

lemma route_range:
  assumes "sup_inv (ct_sv ct)" and "cur_ok ct" and "RouteSession sid ct = Some k"
  shows "k < length (sv_rts (ct_sv ct))"
  using assms by (force simp: RouteSession_def Let_def sup_inv_def cur_ok_def dest: map_of_SomeD split: option.splits prod.splits if_splits)

lemma moves_keep [simp]:
  "op_rt (leave a o1) = op_rt o1" "op_rt (registered o1) = op_rt o1" "op_rt (started res o1) = op_rt o1" "op_rt (op_goto p o1) = op_rt o1"
  "op_key (leave a o1) = op_key o1" "op_key (registered o1) = op_key o1" "op_key (started res o1) = op_key o1" "op_key (op_goto p o1) = op_key o1"
  "op_req (leave a o1) = op_req o1" "op_req (registered o1) = op_req o1" "op_req (started res o1) = op_req o1" "op_req (op_goto p o1) = op_req o1"
  "op_flight (leave a o1) = op_flight o1" "op_flight (registered o1) = op_flight o1" "op_flight (started res o1) = op_flight o1"
  "op_flight (op_goto p o1) = op_flight o1"
  by (simp_all add: leave_def registered_def started_def op_goto_def split: request.split)

lemma Submit_keeps:
  assumes "Submit sha256 i o1 ct = (o2, ct')"
  shows "op_rt o2 = op_rt o1 \<and> op_key o2 = op_key o1"
proof -
  have "op_rt (op_goto p (o1\<lparr>op_flight := f\<rparr>)) = op_rt o1 \<and> op_key (op_goto p (o1\<lparr>op_flight := f\<rparr>)) = op_key o1" for p f by simp
  then show ?thesis using assms by (auto simp: Submit_def Let_def split: if_splits option.splits)
qed

lemma op_cur:
  assumes "op_step sha256 c n o1 ct p = Some (o2, ct')"
  shows "ct_cur ct' = ct_cur ct"
proof (cases "p = OpLock \<or> p = OpSubmit \<or> p = OpResolve")
  case True
  then show ?thesis using assms
    by (cases "op_req o1") (auto simp: enter_def set_lease_def Submit_def resolve_step_def Let_def split: if_splits option.splits prod.splits sum.splits)
next
  case False
  then show ?thesis using assms by (cases "(sha256, c, n, o1, ct, p)" rule: op_step.cases)
      (auto dest: route_same simp: Let_def set_lease_def set_mgr_def split: if_splits prod.splits option.splits)
qed

lemma op_keeps:
  assumes "op_step sha256 c n o1 ct p = Some (o2, ct')" and "p \<noteq> OpRoute"
  shows "op_rt o2 = op_rt o1 \<and> op_key o2 = op_key o1"
proof (cases "p = OpLock \<or> p = OpOwner \<or> p = OpResolve")
  case True
  then show ?thesis using assms
    by (cases "op_req o1") (auto simp: enter_def owner_check_def resolve_step_def Let_def split: if_splits option.splits prod.splits sum.splits)
next
  case False
  then show ?thesis using assms Submit_keeps by (cases "(sha256, c, n, o1, ct, p)" rule: op_step.cases)
      (auto simp: Let_def split: if_splits prod.splits option.splits request.splits)
qed

lemma routed_step:
  assumes "op_step sha256 c n o1 ct (op_pc o1) = Some (o2, ct')" and "op_pc o1 \<noteq> OpRoute" and "place_ok o1" and "routed o2"
  shows "routed o1"
proof (cases "op_pc o1")
  case OpLease
  then show ?thesis using assms by (auto simp: routed_def op_goto_def split: prod.splits)
next
  case OpLock
  then show ?thesis using assms
    by (cases "op_req o1") (auto simp: routed_def enter_def Let_def fenced_def place_ok_def op_goto_def split: if_splits)
next
  case (OpDrop ls)
  then show ?thesis using assms by (cases ls) (auto simp: routed_def place_ok_def op_goto_def split: if_splits)
qed (use assms in \<open>simp_all add: routed_def\<close>)

lemma route_known:
  assumes "route_step c o1 ct = Some (o2, ct')" and "routed o2"
  shows "\<exists>sid. RouteSession sid ct = Some (op_rt o2)"
  using assms by (cases "op_req o1") (auto simp: route_step_def routed_def fenced_def op_goto_def split: if_splits option.splits)

lemma reach_routes:
  assumes "ctl_reach sha256 limits s"
  shows "sup_reach limits (ct_sv (sys_ct s)) \<and> cur_ok (sys_ct s) \<and>
    (\<forall>n < length (sys_ops s). routed (sys_ops s ! n) \<longrightarrow> op_rt (sys_ops s ! n) < length (sv_rts (ct_sv (sys_ct s))))"
  using assms
proof induction
  case new
  then show ?case by (simp add: new_system_def cur_ok_def sup_reach.new)
next
  case (step s s')
  let ?sv = "ct_sv (sys_ct s)"
  have up: "cur_ok (ct\<lparr>ct_sv := sv\<rparr>)" if "cur_ok ct" "length (sv_rts (ct_sv ct)) \<le> length (sv_rts sv)" for ct sv
    using that by (auto simp: cur_ok_def)
  from step.hyps(2) show ?case
  proof cases
    case (call q)
    then show ?thesis using step.IH by (auto simp: nth_append less_Suc_eq routed_def new_op_def)
  next
    case (op c n)
    then show ?thesis
    proof (cases rule: perform_op_cases)
      case (1 o2 ct')
      let ?o = "sys_ops s ! n"
      have p: "place_ok ?o" using reach_locks [OF step.hyps(1)] 1(1) by (simp add: locks_ok_def Let_def)
      have "op_pc ?o = OpRegister \<Longrightarrow> op_rt ?o < length (sv_rts ?sv)" using step.IH 1(1) by (auto simp: routed_def)
      then have sv: "ct_sv ct' = ?sv \<or> sup_step ?sv (ct_sv ct')" using op_sup [OF 1(2)] by blast
      then have len: "length (sv_rts ?sv) \<le> length (sv_rts (ct_sv ct'))" using sup_grows by (auto simp: grows_def)
      have "op_rt o2 < length (sv_rts ?sv)" if rd: "routed o2"
      proof (cases "op_pc ?o = OpRoute")
        case True
        then obtain sid where "RouteSession sid (sys_ct s) = Some (op_rt o2)" using route_known [of c ?o "sys_ct s" o2 ct'] 1(2) rd by auto
        then show ?thesis using route_range step.IH reach_sup_inv by blast
      next
        case False
        then show ?thesis using op_keeps [OF 1(2)] routed_step [OF 1(2) _ p rd] step.IH 1(1) by auto
      qed
      moreover have "cur_ok ct'" using step.IH len op_cur [OF 1(2)] by (auto simp: cur_ok_def)
      ultimately show ?thesis using step.IH sv len 1(3) sup_reach.step by (auto simp: nth_update_if)
    qed
  next
    case (wait now cs k)
    then show ?thesis by (cases rule: perform_wait_cases) (use step.IH in \<open>simp add: cur_ok_def\<close>)
  next
    case (sup sv)
    then have "length (sv_rts ?sv) \<le> length (sv_rts sv)" using sup_grows by (auto simp: grows_def)
    then show ?thesis using step.IH sup up sup_reach.step by fastforce
  qed (use step.IH in \<open>auto simp: cur_ok_def\<close>)
qed

end
