(* ===== verification/Control_Requests.thy ===== *)
theory Control_Requests
  imports Control_Safety
begin

text \<open>
  The idempotent submission of runs: how the request registry, the flights and the operations hang together in
  every interleaving, and what follows for the answers that two submissions under one key get.
\<close>

section \<open>The table\<close>

definition table_ok :: "RequestRegistry \<Rightarrow> bool" where
  "table_ok r \<longleftrightarrow> rq_table r = drop (length (rq_hist r) - maxTrackedRequestIDs) (rq_hist r) \<and> rq_order r = map fst (rq_table r) \<and>
     distinct (rq_order r)"

lemma map_del_first: "distinct (map fst (x # m)) \<Longrightarrow> map_del (fst x) (x # m) = m"
  by (auto simp: map_del_def filter_id_conv image_iff)

lemma evict_short: "length ks \<le> maxTrackedRequestIDs \<Longrightarrow> evict ks tab = (ks, tab)"
  by (cases ks) simp_all

lemma evict_record:
  assumes "distinct (map fst tab)" and "length tab \<le> maxTrackedRequestIDs"
  shows "evict (map fst tab @ [key]) tab =
    (map fst (drop (Suc (length tab) - maxTrackedRequestIDs) tab) @ [key], drop (Suc (length tab) - maxTrackedRequestIDs) tab)"
proof (cases "length tab < maxTrackedRequestIDs")
  case True
  then show ?thesis by (simp add: evict_short)
next
  case False
  then have l: "length tab = maxTrackedRequestIDs" using assms(2) by simp
  then obtain x tl where t: "tab = x # tl" by (cases tab) (auto simp: maxTrackedRequestIDs_def)
  then have "length tl < maxTrackedRequestIDs" using l by simp
  then show ?thesis using l assms(1) map_del_first [of x tl] by (simp add: t evict_short)
qed

lemma record_table:
  assumes "table_ok r" and "map_of (rq_table r) key = None"
  shows "table_ok (recordLocked key h fp r)"
    and "map_of (rq_table (recordLocked key h fp r)) k \<noteq> None \<Longrightarrow> k = key \<or> map_of (rq_table r) k \<noteq> None"
proof -
  let ?tab = "rq_table r" and ?tr = "\<lparr>tr_handle = h, tr_inputHash = fp\<rparr>" and ?d = "Suc (length (rq_table r)) - maxTrackedRequestIDs"
  have len: "length ?tab \<le> maxTrackedRequestIDs" using assms(1) by (simp add: table_ok_def)
  have new: "key \<notin> fst ` set (drop ?d ?tab)" using assms(2) set_drop_subset [of ?d ?tab] by (auto simp: map_of_eq_None_iff)
  have "rq_order r = map fst ?tab" "distinct (map fst ?tab)" using assms(1) unfolding table_ok_def by metis+
  then have ev: "evict (rq_order r @ [key]) ?tab = (map fst (drop ?d ?tab) @ [key], drop ?d ?tab)" using evict_record [OF _ len] by simp
  have rec: "recordLocked key h fp r = r\<lparr>rq_table := drop ?d ?tab @ [(key, ?tr)], rq_order := map fst (drop ?d ?tab) @ [key],
      rq_hist := rq_hist r @ [(key, ?tr)]\<rparr>"
    using assms(2) ev new by (simp add: recordLocked_def map_put_new Let_def)
  have "drop ?d ?tab = drop (Suc (length (rq_hist r)) - maxTrackedRequestIDs) (rq_hist r)"
    using assms(1) by (auto simp: table_ok_def drop_drop intro!: arg_cong2 [where f = drop])
  moreover have "distinct (map fst (drop ?d ?tab))" using \<open>distinct (map fst ?tab)\<close> by (metis distinct_drop drop_map)
  moreover have "Suc (length (rq_hist r)) - maxTrackedRequestIDs \<le> length (rq_hist r)" by (simp add: maxTrackedRequestIDs_def)
  ultimately show "table_ok (recordLocked key h fp r)" using new unfolding rec by (auto simp: table_ok_def)
  assume "map_of (rq_table (recordLocked key h fp r)) k \<noteq> None"
  then show "k = key \<or> map_of (rq_table r) k \<noteq> None"
    unfolding rec using set_drop_subset [of ?d ?tab] by (auto simp: map_of_eq_None_iff)
qed

lemma record_frame:
  "rq_flights (recordLocked key h fp r) = rq_flights r" "rq_heap (recordLocked key h fp r) = rq_heap r"
  "rq_hist (recordLocked key h fp r) = rq_hist r @ [(key, \<lparr>tr_handle = h, tr_inputHash = fp\<rparr>)]"
  by (simp_all add: recordLocked_def Let_def split: prod.split)

text \<open>A key that is recorded a second time was evicted in between, by as many others as the table holds.\<close>

definition spaced :: "(RequestKey \<times> trackedRun) list \<Rightarrow> bool" where
  "spaced h \<longleftrightarrow> (\<forall>q < length h. \<forall>p < q. fst (h ! p) = fst (h ! q) \<longrightarrow> p + maxTrackedRequestIDs < q)"

lemma spaced_record:
  assumes "table_ok r" and "map_of (rq_table r) key = None" and "spaced (rq_hist r)"
  shows "spaced (rq_hist r @ [(key, tr)])"
proof -
  have "p + maxTrackedRequestIDs < length (rq_hist r)" if p: "p < length (rq_hist r)" "fst (rq_hist r ! p) = key" for p
  proof (rule ccontr)
    assume "\<not> p + maxTrackedRequestIDs < length (rq_hist r)"
    then have "length (rq_hist r) - maxTrackedRequestIDs \<le> p" by simp
    then have "drop (length (rq_hist r) - maxTrackedRequestIDs) (rq_hist r) ! (p - (length (rq_hist r) - maxTrackedRequestIDs)) = rq_hist r ! p"
        "p - (length (rq_hist r) - maxTrackedRequestIDs) < length (drop (length (rq_hist r) - maxTrackedRequestIDs) (rq_hist r))" using p(1) by simp_all
    then have "rq_hist r ! p \<in> set (rq_table r)" using assms(1) nth_mem unfolding table_ok_def by metis
    then show False using p(2) assms(2) by (auto simp: map_of_eq_None_iff)
  qed
  then show ?thesis using assms(3) by (auto simp: spaced_def nth_append less_Suc_eq)
qed

section \<open>Flights\<close>

text \<open>
  The operation that leads a flight, from its registration until the result is in the table; it owns the flight
  until the result is handed to those who wait.
\<close>

definition leading :: "op \<Rightarrow> bool" where
  "leading o1 \<longleftrightarrow> op_flight o1 \<noteq> None \<and>
    (case op_pc o1 of OpEnsure \<Rightarrow> True | OpRetired \<Rightarrow> True | OpRemove \<Rightarrow> True | OpRegister \<Rightarrow> True | OpStart \<Rightarrow> True | OpAwait i \<Rightarrow> True
     | OpSettle res \<Rightarrow> True | _ \<Rightarrow> False)"

definition owning :: "op \<Rightarrow> bool" where
  "owning o1 \<longleftrightarrow> leading o1 \<or> (op_flight o1 \<noteq> None \<and> (\<exists>res. op_pc o1 = OpWake res))"

definition tracked :: "nat \<Rightarrow> string \<Rightarrow> trackedRun" where
  "tracked i fp = \<lparr>tr_handle = i, tr_inputHash = fp\<rparr>"

definition flights_ok :: "RequestRegistry \<Rightarrow> bool" where
  "flights_ok r \<longleftrightarrow> distinct (map fst (rq_flights r)) \<and>
     (\<forall>k f. map_of (rq_flights r) k = Some f \<longrightarrow> f < length (rq_heap r) \<and> fl_key (rq_heap r ! f) = k \<and> \<not> fl_done (rq_heap r ! f) \<and>
        map_of (rq_table r) k = None) \<and>
     (\<forall>f < length (rq_heap r). \<forall>i. fl_done (rq_heap r ! f) \<and> fl_result (rq_heap r ! f) = Inr i \<longrightarrow>
        (fl_key (rq_heap r ! f), tracked i (fl_inputHash (rq_heap r ! f))) \<in> set (rq_hist r))"

text \<open>What an operation knows of its flight.\<close>

definition flight_ok :: "(string \<Rightarrow> string) \<Rightarrow> op \<Rightarrow> RequestRegistry \<Rightarrow> bool" where
  "flight_ok sha256 o1 r \<longleftrightarrow>
     (\<forall>f. op_flight o1 = Some f \<longrightarrow> f < length (rq_heap r) \<and> fl_key (rq_heap r ! f) = op_key o1 \<and>
        (\<forall>s c i q u. op_req o1 = ReqStart s c i q u \<longrightarrow> fl_inputHash (rq_heap r ! f) = sha256 i)) \<and>
     (leading o1 \<longrightarrow> map_of (rq_flights r) (op_key o1) = op_flight o1) \<and>
     (\<forall>res. op_pc o1 = OpWake res \<longrightarrow> \<not> fl_done (rq_heap r ! the (op_flight o1)) \<and> map_of (rq_flights r) (op_key o1) \<noteq> op_flight o1 \<and>
        (\<forall>i. res = Inr i \<longrightarrow> (op_key o1, tracked i (fl_inputHash (rq_heap r ! the (op_flight o1)))) \<in> set (rq_hist r)))"

text \<open>The answer of a submission with a request identifier is in the history.\<close>

definition answer_ok :: "(string \<Rightarrow> string) \<Rightarrow> op \<Rightarrow> RequestRegistry \<Rightarrow> bool" where
  "answer_ok sha256 o1 r \<longleftrightarrow> (\<forall>s c inp q u. op_req o1 = ReqStart s c inp q u \<longrightarrow>
     (op_pc o1 \<noteq> OpRoute \<and> (\<forall>e. op_pc o1 \<noteq> OpDone (AnsErr e)) \<longrightarrow> rk_RequestID (op_key o1) = q) \<and>
     (op_pc o1 \<in> {OpEnsure, OpRetired, OpRemove, OpRegister, OpStart} \<union> range OpAwait \<and> op_flight o1 = None \<longrightarrow> q = []) \<and>
     (q \<noteq> [] \<longrightarrow> (\<forall>i st. op_pc o1 \<in> {OpUnlock (AnsRun i st), OpDone (AnsRun i st)} \<longrightarrow>
        (op_key o1, tracked i (sha256 inp)) \<in> set (rq_hist r))))"

text \<open>The ways in which the step of an operation deals with the registry.\<close>

lemma op_reg_cases:
  assumes "op_step sha256 c n o1 ct (op_pc o1) = Some (o2, ct')" and "place_ok o1" and "r = ct_reqs ct"
  obtains (same) "ct_reqs ct' = r" "op_flight o2 = op_flight o1" "leading o2 = leading o1" "\<forall>res. op_pc o1 \<noteq> OpWake res \<and> op_pc o2 \<noteq> OpWake res"
    | (join) f s cl i q u where "ct_reqs ct' = r" "op_pc o2 = OpJoin" "op_flight o2 = Some f" "map_of (rq_flights r) (op_key o1) = Some f"
        "op_req o1 = ReqStart s cl i q u" "fl_inputHash (rq_heap r ! f) = sha256 i" "op_flight o1 = None" "op_pc o1 = OpSubmit"
    | (lead) s cl i q u where "op_req o1 = ReqStart s cl i q u" "op_pc o2 = OpEnsure" "op_flight o2 = Some (length (rq_heap r))" "op_flight o1 = None" "op_pc o1 = OpSubmit"
        "map_of (rq_table r) (op_key o1) = None" "map_of (rq_flights r) (op_key o1) = None"
        "ct_reqs ct' = r\<lparr>rq_flights := map_put (op_key o1) (length (rq_heap r)) (rq_flights r),
          rq_heap := rq_heap r @ [\<lparr>fl_key = op_key o1, fl_inputHash = sha256 i, fl_done = False, fl_result = Inl FlightAborted\<rparr>]\<rparr>"
    | (settle) res f where "op_pc o1 = OpSettle res" "op_pc o2 = OpWake res" "op_flight o1 = Some f" "op_flight o2 = Some f" "ct_reqs ct' = settle res o1 r"
    | (wake) res f where "op_pc o1 = OpWake res" "op_flight o1 = Some f" "op_flight o2 = Some f" "\<not> owning o2" "ct_reqs ct' = wake res f r"
proof -
  have quiet: "\<not> leading (leave a o1)" "leading (registered o1) \<longleftrightarrow> op_flight o1 \<noteq> None \<and> (\<forall>s c u. op_req o1 \<noteq> ReqCancel s c u \<and> op_req o1 \<noteq> ReqCancelSync s u)"
      "op_pc (leave a o1) \<noteq> OpWake res" "op_pc (registered o1) \<noteq> OpWake res" "op_pc (started res' o1) \<noteq> OpWake res" "leading (started res' o1) \<longleftrightarrow> op_flight o1 \<noteq> None"
    for a res res' by (auto simp: leading_def leave_def registered_def started_def op_goto_def split: request.split)
  have start: "op_flight o1 \<noteq> None \<Longrightarrow> op_req o1 \<noteq> ReqCancel s cl u \<and> op_req o1 \<noteq> ReqCancelSync s u" for s cl u
    using assms(2) by (auto simp: place_ok_def)
  have rest: "op_flight o2 = op_flight o1 \<and> leading o2 = leading o1 \<and> (\<forall>res. op_pc o2 \<noteq> OpWake res)"
    if "op_pc o1 \<in> {OpLease, OpEnsure, OpRetired, OpRemove, OpRegister, OpStart, OpJoin, OpCancel} \<union> range OpAwait \<union> range OpUnlock"
  proof -
    have g: "leading (op_goto p o1) = leading o1" if "p \<in> {OpRetired, OpRemove, OpRegister} \<union> range OpAwait" "op_pc o1 \<in> {OpEnsure, OpRetired, OpRemove, OpStart}" for p
      using that by (auto simp: leading_def op_goto_def)
    show ?thesis using assms(1) that start
      by (auto simp: g quiet leading_def [of o1] leading_def [of "op_goto OpLock _"] leading_def [of "op_goto (OpDone _) _"] Let_def
        split: if_splits prod.splits option.splits)
  qed
  show thesis
  proof (cases "op_pc o1")
    case OpSubmit
    then obtain s cl i q u where q: "op_req o1 = ReqStart s cl i q u" using assms(2) by (auto simp: place_ok_def split: request.splits)
    have nf: "op_flight o1 = None" using assms(2) OpSubmit by (auto simp: place_ok_def)
    have S: "Submit sha256 i o1 ct = (o2, ct')" using assms(1) OpSubmit q by simp
    show thesis
    proof (cases "rk_RequestID (op_key o1) = [] \<or> map_of (rq_table r) (op_key o1) \<noteq> None")
      case True
      then have "ct' = ct \<and> op_flight o2 = None \<and> (\<forall>res. op_pc o2 \<noteq> OpWake res)" using S nf assms(3) quiet by (auto simp: Submit_def Let_def split: if_splits)
      then show thesis using OpSubmit nf assms(3) by (intro same) (auto simp: leading_def)
    next
      case F: False
      show thesis
      proof (cases "map_of (rq_flights r) (op_key o1)")
        case None
        then show thesis using S F assms(3) q nf OpSubmit by (intro lead) (auto simp: Submit_def Let_def)
      next
        case (Some f)
        show thesis
        proof (cases "fl_inputHash (rq_heap r ! f) = sha256 i")
          case True
          then show thesis using S F Some assms(3) q nf OpSubmit by (intro join) (auto simp: Submit_def Let_def)
        next
          case False
          then have "ct' = ct \<and> o2 = leave (AnsErr RequestConflict) o1" using S F Some assms(3) by (auto simp: Submit_def Let_def)
          then show thesis using OpSubmit nf assms(3) quiet by (intro same) (auto simp: leading_def)
        qed
      qed
    qed
  next
    case (OpSettle res)
    then obtain f where "op_flight o1 = Some f" using assms(2) by (auto simp: place_ok_def)
    then show thesis using assms OpSettle by (intro settle [of res f]) auto
  next
    case (OpWake res)
    then obtain f where "op_flight o1 = Some f" using assms(2) by (auto simp: place_ok_def)
    then show thesis using assms OpWake by (intro wake) (auto simp: owning_def quiet)
  next
    case OpRoute
    have "ct' = ct \<and> op_flight o2 = None \<and> op_flight o1 = None \<and> (\<forall>res. op_pc o2 \<noteq> OpWake res)" using assms OpRoute
      by (cases "op_req o1") (auto simp: route_step_def place_ok_def op_goto_def split: if_splits option.splits)
    then show thesis using OpRoute assms(3) by (intro same) (auto simp: leading_def)
  next
    case OpLock
    have "op_flight o2 = None \<and> op_flight o1 = None \<and> (\<forall>res. op_pc o2 \<noteq> OpWake res)" using assms OpLock
      by (cases "op_req o1") (auto simp: enter_def Let_def place_ok_def op_goto_def split: if_splits)
    then show thesis using OpLock assms(3) op_frame(3) [OF assms(1)] by (intro same) (auto simp: leading_def)
  next
    case OpOwner
    then have "ct' = ct \<and> op_flight o2 = op_flight o1 \<and> \<not> leading o2 \<and> (\<forall>res. op_pc o2 \<noteq> OpWake res)" using assms
      by (cases "op_req o1") (auto simp: owner_check_def quiet leading_def [of "op_goto _ _"] split: if_splits option.splits)
    then show thesis using OpOwner assms(3) by (intro same) (auto simp: leading_def)
  next
    case OpResolve
    then have "op_flight o2 = op_flight o1 \<and> \<not> leading o2 \<and> (\<forall>res. op_pc o2 \<noteq> OpWake res)" using assms
      by (cases "op_req o1") (auto simp: resolve_step_def quiet split: prod.splits sum.splits)
    then show thesis using OpResolve assms(3) op_frame(3) [OF assms(1)] by (intro same) (auto simp: leading_def)
  next
    case (OpDrop ls)
    then have "op_flight o2 = op_flight o1 \<and> \<not> leading o2 \<and> (\<forall>res. op_pc o2 \<noteq> OpWake res)" using assms
      by (cases ls) (auto simp: leading_def split: if_splits)
    then show thesis using OpDrop assms(3) op_frame(3) [OF assms(1)] by (intro same) (auto simp: leading_def)
  next
    case (OpDone a)
    then show thesis using assms(1) by simp
  qed (use same op_frame(3) [OF assms(1)] rest assms(3) in auto)
qed

text \<open>What a step leaves for the other operations: it takes keys only from the table of flights and wakes only its own flight.\<close>

definition reqs_kept :: "RequestKey set \<Rightarrow> nat set \<Rightarrow> RequestRegistry \<Rightarrow> RequestRegistry \<Rightarrow> bool" where
  "reqs_kept K F r r' \<longleftrightarrow> length (rq_heap r) \<le> length (rq_heap r') \<and> set (rq_hist r) \<subseteq> set (rq_hist r') \<and>
     (\<forall>k. k \<notin> K \<longrightarrow> map_of (rq_flights r') k = map_of (rq_flights r) k) \<and>
     (\<forall>k f. map_of (rq_flights r') k = Some f \<longrightarrow> map_of (rq_flights r) k = Some f \<or> length (rq_heap r) \<le> f) \<and>
     (\<forall>f < length (rq_heap r). fl_key (rq_heap r' ! f) = fl_key (rq_heap r ! f) \<and> fl_inputHash (rq_heap r' ! f) = fl_inputHash (rq_heap r ! f) \<and>
        (f \<notin> F \<longrightarrow> rq_heap r' ! f = rq_heap r ! f))"

lemma reqs_kept_refl [simp]: "reqs_kept K F r r"
  by (simp add: reqs_kept_def)

lemma settle_frame:
  "rq_heap (settle res o1 r) = rq_heap r" "rq_flights (settle res o1 r) = map_del (op_key o1) (rq_flights r)"
  "set (rq_hist r) \<subseteq> set (rq_hist (settle res o1 r))"
  "res = Inr i \<Longrightarrow> (op_key o1, tracked i (fl_inputHash (rq_heap r ! the (op_flight o1)))) \<in> set (rq_hist (settle res o1 r))"
  by (auto simp: settle_def record_frame tracked_def Let_def split: sum.split)

lemma settle_kept: "reqs_kept {op_key o1} {} r (settle res o1 r)"
  by (simp add: reqs_kept_def settle_frame)

lemma lead_kept:
  "reqs_kept {key} {} r (r\<lparr>rq_flights := map_put key (length (rq_heap r)) (rq_flights r), rq_heap := rq_heap r @ [fl]\<rparr>)"
  by (simp add: reqs_kept_def nth_append)

lemma wake_kept: "reqs_kept {} {f} r (wake res f r)"
  by (simp add: reqs_kept_def wake_def nth_update_if)

lemma flight_ok_other:
  assumes "flight_ok sha256 o1 r" and "reqs_kept K F r r'" and "place_ok o1"
    and "leading o1 \<Longrightarrow> op_key o1 \<notin> K" and "owning o1 \<Longrightarrow> the (op_flight o1) \<notin> F"
  shows "flight_ok sha256 o1 r'"
proof -
  have k: "rq_heap r' ! f = rq_heap r ! f" if "op_flight o1 = Some f" "f \<notin> F" for f
    using that assms(1,2) by (simp add: flight_ok_def reqs_kept_def)
  have w: "\<exists>f. op_flight o1 = Some f \<and> f \<notin> F \<and> f < length (rq_heap r)" if "op_pc o1 = OpWake res" for res
    using that assms(1,3,5) by (auto simp: place_ok_def owning_def flight_ok_def)
  show ?thesis unfolding flight_ok_def
  proof (intro conjI allI impI)
    fix f assume f: "op_flight o1 = Some f"
    then show "f < length (rq_heap r')" "fl_key (rq_heap r' ! f) = op_key o1"
      "\<And>s c i q u. op_req o1 = ReqStart s c i q u \<Longrightarrow> fl_inputHash (rq_heap r' ! f) = sha256 i"
      using assms(1,2) by (auto simp: flight_ok_def reqs_kept_def)
  next
    assume "leading o1"
    then show "map_of (rq_flights r') (op_key o1) = op_flight o1" using assms by (simp add: flight_ok_def reqs_kept_def owning_def)
  next
    fix res assume p: "op_pc o1 = OpWake res"
    then obtain f where f: "op_flight o1 = Some f" "f \<notin> F" "f < length (rq_heap r)" using w by blast
    have old: "\<not> fl_done (rq_heap r ! f)" "map_of (rq_flights r) (op_key o1) \<noteq> Some f" using assms(1) p f(1) by (simp_all add: flight_ok_def)
    show "\<not> fl_done (rq_heap r' ! the (op_flight o1))" using old(1) f k by simp
    have "map_of (rq_flights r') (op_key o1) = Some f \<longrightarrow> map_of (rq_flights r) (op_key o1) = Some f \<or> length (rq_heap r) \<le> f"
      using assms(2) unfolding reqs_kept_def by blast
    then show "map_of (rq_flights r') (op_key o1) \<noteq> op_flight o1" using old(2) f by auto
    fix i assume "res = Inr i"
    then show "(op_key o1, tracked i (fl_inputHash (rq_heap r' ! the (op_flight o1)))) \<in> set (rq_hist r')"
      using assms(1,2) p f k by (auto simp: flight_ok_def reqs_kept_def)
  qed
qed

lemma answer_ok_other: "answer_ok sha256 o1 r \<Longrightarrow> set (rq_hist r) \<subseteq> set (rq_hist r') \<Longrightarrow> answer_ok sha256 o1 r'"
  unfolding answer_ok_def by blast

definition reqs_ok :: "(string \<Rightarrow> string) \<Rightarrow> system \<Rightarrow> bool" where
  "reqs_ok sha256 s \<longleftrightarrow> (let r = ct_reqs (sys_ct s) in table_ok r \<and> spaced (rq_hist r) \<and> flights_ok r \<and>
     (\<forall>n < length (sys_ops s). flight_ok sha256 (sys_ops s ! n) r \<and> answer_ok sha256 (sys_ops s ! n) r) \<and>
     (\<forall>m < length (sys_ops s). \<forall>n < length (sys_ops s). owning (sys_ops s ! m) \<and> owning (sys_ops s ! n) \<and>
        op_flight (sys_ops s ! m) = op_flight (sys_ops s ! n) \<longrightarrow> m = n) \<and>
     (\<forall>f < length (rq_heap r). fl_done (rq_heap r ! f) \<or> (\<exists>n < length (sys_ops s). owning (sys_ops s ! n) \<and> op_flight (sys_ops s ! n) = Some f)))"

lemma table_ok_cong: "rq_table r' = rq_table r \<Longrightarrow> rq_order r' = rq_order r \<Longrightarrow> rq_hist r' = rq_hist r \<Longrightarrow> table_ok r' = table_ok r"
  by (simp add: table_ok_def)

lemma settle_ok:
  assumes "table_ok r" and "spaced (rq_hist r)" and "flights_ok r" and "map_of (rq_flights r) (op_key o1) \<noteq> None"
  shows "table_ok (settle res o1 r) \<and> spaced (rq_hist (settle res o1 r)) \<and> flights_ok (settle res o1 r)"
proof -
  let ?r = "r\<lparr>rq_flights := map_del (op_key o1) (rq_flights r)\<rparr>" and ?k = "op_key o1"
  have T: "table_ok ?r" using assms(1) table_ok_cong [of ?r r] by simp
  have n: "map_of (rq_table ?r) ?k = None" using assms(3,4) by (auto simp: flights_ok_def)
  have F: "flights_ok ?r" using assms(3) by (auto simp: flights_ok_def split: if_splits)
  show ?thesis
  proof (cases res)
    case (Inl e)
    then show ?thesis using T F assms(2) by (simp add: settle_def Let_def)
  next
    case (Inr i)
    let ?s = "recordLocked ?k i (fl_inputHash (rq_heap r ! the (op_flight o1))) ?r"
    have "map_of (rq_table ?s) k = None" if "map_of (rq_flights ?r) k = Some f" for k f
      using that F record_table(2) [OF T n, of i _ k] by (auto simp: flights_ok_def split: if_splits)
    then have "flights_ok ?s" using F unfolding flights_ok_def record_frame by auto
    moreover have "settle res o1 r = ?s" using Inr by (simp add: settle_def Let_def)
    ultimately show ?thesis using record_table(1) [OF T n] spaced_record [OF T n] assms(2) by (simp add: record_frame)
  qed
qed

lemma wake_ok:
  assumes "flights_ok r" and "f < length (rq_heap r)" and "map_of (rq_flights r) (fl_key (rq_heap r ! f)) \<noteq> Some f"
    and "\<And>i. res = Inr i \<Longrightarrow> (fl_key (rq_heap r ! f), tracked i (fl_inputHash (rq_heap r ! f))) \<in> set (rq_hist r)"
  shows "flights_ok (wake res f r)"
proof -
  have "g \<noteq> f" if "map_of (rq_flights r) k = Some g" for k g using that assms(1,3) by (auto simp: flights_ok_def)
  then show ?thesis using assms by (auto simp: flights_ok_def wake_def nth_update_if)
qed

lemma lead_ok:
  assumes "flights_ok r" and "map_of (rq_table r) key = None" and "fl_key fl = key" and "\<not> fl_done fl"
  shows "flights_ok (r\<lparr>rq_flights := map_put key (length (rq_heap r)) (rq_flights r), rq_heap := rq_heap r @ [fl]\<rparr>)"
  using assms by (auto simp: flights_ok_def nth_append less_Suc_eq split: if_splits)

text \<open>One step of an operation, for the registry and for its own flight.\<close>

lemma reqs_step:
  assumes "op_step sha256 c n o1 ct (op_pc o1) = Some (o2, ct')" and "place_ok o1" and "r = ct_reqs ct" and "r' = ct_reqs ct'"
    and "table_ok r" and "spaced (rq_hist r)" and "flights_ok r" and "flight_ok sha256 o1 r"
  obtains K F where "table_ok r'" "spaced (rq_hist r')" "flights_ok r'" "flight_ok sha256 o2 r'" "reqs_kept K F r r'"
    "K \<noteq> {} \<longrightarrow> K = {op_key o1} \<and> (leading o1 \<or> map_of (rq_flights r) (op_key o1) = None)"
    "F \<noteq> {} \<longrightarrow> F = {the (op_flight o1)} \<and> owning o1"
    "owning o2 \<longrightarrow> owning o1 \<and> op_flight o2 = op_flight o1 \<or> op_flight o2 = Some (length (rq_heap r))"
    "length (rq_heap r) < length (rq_heap r') \<longrightarrow> length (rq_heap r') = Suc (length (rq_heap r)) \<and> owning o2 \<and> op_flight o2 = Some (length (rq_heap r))"
    "owning o1 \<longrightarrow> owning o2 \<and> op_flight o2 = op_flight o1 \<or> fl_done (rq_heap r' ! the (op_flight o1))"
proof -
  have q: "op_req o2 = op_req o1" using place_step [OF assms(1,2)] by simp
  have keep: "op_key o2 = op_key o1" if "op_pc o1 \<noteq> OpRoute" using op_keeps [OF assms(1) that] by simp
  show thesis using assms(1,2,3)
  proof (cases rule: op_reg_cases)
    case same
    have "op_flight o1 = None \<or> op_key o2 = op_key o1" using assms(2) keep by (auto simp: place_ok_def)
    then have "flight_ok sha256 o2 r" using assms(8) same q by (auto simp: flight_ok_def leading_def)
    then show thesis using same assms by (intro that [of "{}" "{}"]) (auto simp: owning_def)
  next
    case (join f s cl i p u)
    then have "flight_ok sha256 o2 r" using assms(7) keep q by (auto simp: flight_ok_def leading_def flights_ok_def)
    then show thesis using join assms by (intro that [of "{}" "{}"]) (auto simp: owning_def leading_def)
  next
    case (lead s cl i p u)
    let ?fl = "\<lparr>fl_key = op_key o1, fl_inputHash = sha256 i, fl_done = False, fl_result = Inl FlightAborted\<rparr>"
    have "flight_ok sha256 o2 r'" using lead keep q assms(4) by (auto simp: flight_ok_def)
    moreover have "flights_ok r'" "reqs_kept {op_key o1} {} r r'" "table_ok r'" "spaced (rq_hist r')"
      using lead(8) assms(4-7) lead_ok [OF assms(7) lead(6), of ?fl] lead_kept [of "op_key o1" r ?fl] table_ok_cong [of r' r] by simp_all
    ultimately show thesis using lead assms(4) by (intro that [of "{op_key o1}" "{}"]) (auto simp: owning_def leading_def)
  next
    case (settle res f)
    then have l: "leading o1" by (simp add: leading_def)
    then have m: "map_of (rq_flights r) (op_key o1) = Some f" using assms(8) settle(3) by (simp add: flight_ok_def)
    then have nd: "\<not> fl_done (rq_heap r ! f)" using assms(7) by (auto simp: flights_ok_def)
    have "flight_ok sha256 o2 r'"
      using assms(4,8) settle keep q nd settle_frame [where res = res and ?o1.0 = o1 and r = r] by (auto simp: flight_ok_def leading_def)
    then show thesis using settle_ok [OF assms(5-7), where ?o1.0 = o1 and res = res] settle_kept [where ?o1.0 = o1 and r = r and res = res] m settle assms(4) l
      by (intro that [of "{op_key o1}" "{}"]) (auto simp: owning_def settle_frame)
  next
    case (wake res f)
    have fo: "f < length (rq_heap r)" "fl_key (rq_heap r ! f) = op_key o1" "map_of (rq_flights r) (op_key o1) \<noteq> Some f"
        "\<And>i. res = Inr i \<Longrightarrow> (op_key o1, tracked i (fl_inputHash (rq_heap r ! f))) \<in> set (rq_hist r)"
      using assms(8) wake by (auto simp: flight_ok_def)
    have "flights_ok r'" using wake_ok [OF assms(7) fo(1), where res = res] fo wake(5) assms(4) by simp
    moreover have "flight_ok sha256 o2 r'"
      using assms(4,8) wake keep q fo by (auto simp: flight_ok_def wake_def owning_def)
    moreover have "table_ok r'" "spaced (rq_hist r')" using assms(4-6) wake(5) table_ok_cong [of r' r] by (simp_all add: wake_def)
    ultimately show thesis using wake_kept [where f = f and r = r and res = res] wake assms(4) fo(1)
      by (intro that [of "{}" "{f}"]) (auto simp: owning_def wake_def)
  qed
qed

section \<open>Answers\<close>

text \<open>Where the answer of a submission comes from.\<close>

lemma answer_source:
  assumes "op_step sha256 c n o1 ct (op_pc o1) = Some (o2, ct')" and "op_req o1 = ReqStart s cl inp q u"
    and "op_pc o2 = OpUnlock (AnsRun i st) \<or> op_pc o2 = OpDone (AnsRun i st)"
  shows "op_pc o1 = OpUnlock (AnsRun i st) \<or> op_pc o1 = OpWake (Inr i) \<or> (op_pc o1 = OpAwait i \<and> op_flight o1 = None) \<or>
    (op_pc o1 = OpJoin \<and> fl_done (rq_heap (ct_reqs ct) ! the (op_flight o1)) \<and> fl_result (rq_heap (ct_reqs ct) ! the (op_flight o1)) = Inr i) \<or>
    (op_pc o1 = OpSubmit \<and> map_of (rq_table (ct_reqs ct)) (op_key o1) = Some (tracked i (sha256 inp)))"
proof -
  have leave: "op_pc (leave a o1) = OpUnlock a" for a using assms(2) by (simp add: leave_def op_goto_def fenced_def)
  have ans: "known_answer x res = AnsRun i st \<Longrightarrow> res = Inr i" "fresh_answer res = AnsRun i st \<Longrightarrow> res = Inr i" for x res
    by (auto simp: known_answer_def fresh_answer_def split: sum.splits)
  have start: "op_pc (registered o1) = OpStart" using assms(2) by (simp add: registered_def op_goto_def)
  show ?thesis
  proof (cases "op_pc o1")
    case OpRoute
    then show ?thesis using assms by (auto simp: route_step_def split: option.splits if_splits)
  next
    case OpLock
    then show ?thesis using assms by (auto simp: enter_def Let_def split: if_splits)
  next
    case OpSubmit
    then have S: "Submit sha256 inp o1 ct = (o2, ct')" using assms(1,2) by simp
    then obtain tr where "map_of (rq_table (ct_reqs ct)) (op_key o1) = Some tr" "tr_inputHash tr = sha256 inp" "tr_handle tr = i"
      using assms(3) by (auto simp: Submit_def Let_def leave known_answer_def split: if_splits option.splits)
    moreover from this have "tr = tracked i (sha256 inp)" by (simp add: tracked_def)
    ultimately show ?thesis using OpSubmit by simp
  next
    case OpStart
    then show ?thesis using assms by (auto simp: started_def leave fresh_answer_def split: prod.splits option.splits if_splits)
  next
    case (OpAwait j)
    then show ?thesis using assms by (auto simp: started_def leave fresh_answer_def split: option.splits if_splits)
  next
    case (OpDrop ls)
    then show ?thesis using assms by (cases ls) (auto split: if_splits)
  qed (use assms in \<open>auto simp: leave start Let_def owner_check_def resolve_step_def dest!: ans split: prod.splits option.splits if_splits\<close>)
qed

lemma flight_stays:
  assumes "op_step sha256 c n o1 ct (op_pc o1) = Some (o2, ct')" and "place_ok o1" and "op_flight o1 \<noteq> None"
  shows "op_flight o2 \<noteq> None"
  using assms(1,2) refl by (cases rule: op_reg_cases) (use assms(3) in auto)

lemma before_submit:
  assumes "op_step sha256 c n o1 ct (op_pc o1) = Some (o2, ct')" and "op_req o1 = ReqStart s cl inp q u"
    and "op_pc o1 \<notin> {OpEnsure, OpRetired, OpRemove, OpRegister, OpStart} \<union> range OpAwait"
    and "op_pc o2 \<in> {OpEnsure, OpRetired, OpRemove, OpRegister, OpStart} \<union> range OpAwait" and "op_flight o2 = None"
  shows "op_pc o1 = OpSubmit \<and> rk_RequestID (op_key o1) = []"
proof -
  have leave: "op_pc (leave a o1) = OpUnlock a" for a using assms(2) by (simp add: leave_def op_goto_def fenced_def)
  show ?thesis
  proof (cases "op_pc o1")
    case OpRoute
    then show ?thesis using assms by (auto simp: route_step_def fenced_def split: option.splits if_splits)
  next
    case OpLock
    then show ?thesis using assms by (auto simp: enter_def Let_def split: if_splits)
  next
    case OpSubmit
    then have "Submit sha256 inp o1 ct = (o2, ct')" using assms(1,2) by simp
    then show ?thesis using assms(4,5) OpSubmit by (auto simp: Submit_def Let_def leave split: if_splits option.splits)
  next
    case (OpDrop ls)
    then show ?thesis using assms by (cases ls) (auto split: if_splits)
  qed (use assms in \<open>auto simp: leave Let_def owner_check_def resolve_step_def split: prod.splits option.splits if_splits\<close>)
qed

lemma answer_step:
  assumes "op_step sha256 c n o1 ct (op_pc o1) = Some (o2, ct')" and "place_ok o1"
    and "table_ok (ct_reqs ct)" and "flights_ok (ct_reqs ct)" and "flight_ok sha256 o1 (ct_reqs ct)" and "answer_ok sha256 o1 (ct_reqs ct)"
    and "set (rq_hist (ct_reqs ct)) \<subseteq> set (rq_hist (ct_reqs ct'))"
  shows "answer_ok sha256 o2 (ct_reqs ct')"
proof -
  let ?r = "ct_reqs ct"
  have "op_req o2 = op_req o1" using place_step [OF assms(1,2)] by simp
  moreover have "rk_RequestID (op_key o2) = q" if "op_req o1 = ReqStart s cl inp q u" "\<forall>e. op_pc o2 \<noteq> OpDone (AnsErr e)" for s cl inp q u
  proof (cases "op_pc o1 = OpRoute")
    case True
    then show ?thesis using assms(1) that by (auto simp: route_step_def op_goto_def split: option.splits)
  next
    case False
    then show ?thesis using assms(1,6) that op_keeps [OF assms(1) False] by (cases "op_pc o1") (auto simp: answer_ok_def)
  qed
  moreover have "q = []" if "op_req o1 = ReqStart s cl inp q u" "op_flight o2 = None"
      "op_pc o2 \<in> {OpEnsure, OpRetired, OpRemove, OpRegister, OpStart} \<union> range OpAwait" for s cl inp q u
  proof (cases "op_pc o1 \<in> {OpEnsure, OpRetired, OpRemove, OpRegister, OpStart} \<union> range OpAwait")
    case True
    then have "op_flight o1 = None" using flight_stays [OF assms(1,2)] that(2) by blast
    then show ?thesis using True assms(6) that(1) unfolding answer_ok_def by blast
  next
    case False
    then have "op_pc o1 = OpSubmit \<and> rk_RequestID (op_key o1) = []" using before_submit [OF assms(1) that(1)] that(2,3) by blast
    then show ?thesis using assms(6) that(1) by (auto simp: answer_ok_def)
  qed
  moreover have "(op_key o2, tracked i (sha256 inp)) \<in> set (rq_hist (ct_reqs ct'))"
    if "op_req o1 = ReqStart s cl inp q u" "q \<noteq> []" "op_pc o2 = OpUnlock (AnsRun i st) \<or> op_pc o2 = OpDone (AnsRun i st)" for s cl inp q u i st
  proof -
    have "op_pc o1 \<noteq> OpRoute" using answer_source [OF assms(1) that(1,3)] by auto
    then have k: "op_key o2 = op_key o1" using op_keeps [OF assms(1)] by simp
    have f: "fl_key (rq_heap ?r ! f) = op_key o1 \<and> fl_inputHash (rq_heap ?r ! f) = sha256 inp \<and> f < length (rq_heap ?r)" if "op_flight o1 = Some f" for f
      using that assms(5) \<open>op_req o1 = ReqStart s cl inp q u\<close> by (auto simp: flight_ok_def)
    have fl: "op_pc o1 = OpJoin \<or> op_pc o1 = OpWake (Inr i) \<Longrightarrow> \<exists>f. op_flight o1 = Some f" using assms(2) by (auto simp: place_ok_def)
    have "(op_key o1, tracked i (sha256 inp)) \<in> set (rq_hist ?r)"
      using answer_source [OF assms(1) that(1,3)]
    proof (elim disjE conjE)
      assume "op_pc o1 = OpUnlock (AnsRun i st)"
      then show ?thesis using assms(6) that(1,2) by (auto simp: answer_ok_def)
    next
      assume p: "op_pc o1 = OpWake (Inr i)"
      then obtain g where "op_flight o1 = Some g" using fl by blast
      then show ?thesis using p assms(5) f by (auto simp: flight_ok_def)
    next
      assume "op_pc o1 = OpAwait i" "op_flight o1 = None"
      then show ?thesis using assms(6) that(1,2) by (auto simp: answer_ok_def)
    next
      assume p: "op_pc o1 = OpJoin" "fl_done (rq_heap ?r ! the (op_flight o1))" "fl_result (rq_heap ?r ! the (op_flight o1)) = Inr i"
      then obtain g where g: "op_flight o1 = Some g" using fl by blast
      then have "(fl_key (rq_heap ?r ! g), tracked i (fl_inputHash (rq_heap ?r ! g))) \<in> set (rq_hist ?r)"
        using p assms(4) f by (auto simp: flights_ok_def)
      then show ?thesis using f [OF g] by simp
    next
      assume "map_of (rq_table ?r) (op_key o1) = Some (tracked i (sha256 inp))"
      then have "(op_key o1, tracked i (sha256 inp)) \<in> set (rq_table ?r)" by (rule map_of_SomeD)
      then show ?thesis using assms(3) unfolding table_ok_def by (metis in_set_dropD)
    qed
    then show ?thesis using assms(7) k by auto
  qed
  ultimately show ?thesis by (auto simp: answer_ok_def)
qed

section \<open>Every interleaving\<close>

lemma reqs_ok_op:
  assumes "reqs_ok sha256 s" and "locks_ok s" and "n < length (sys_ops s)"
    and "op_step sha256 c n (sys_ops s ! n) (sys_ct s) (op_pc (sys_ops s ! n)) = Some (o2, ct')"
  shows "reqs_ok sha256 (s\<lparr>sys_ct := ct', sys_ops := (sys_ops s)[n := o2]\<rparr>)"
proof -
  let ?os = "sys_ops s" and ?o = "sys_ops s ! n" and ?r = "ct_reqs (sys_ct s)" and ?r' = "ct_reqs ct'"
  note I = assms(1) [unfolded reqs_ok_def Let_def]
  have pl: "place_ok (?os ! m)" if "m < length ?os" for m using assms(2) that by (simp add: locks_ok_def Let_def)
  have fo: "flight_ok sha256 (?os ! m) ?r" "answer_ok sha256 (?os ! m) ?r" if "m < length ?os" for m using I that by simp_all
  have un: "m = n" if "m < length ?os" "owning (?os ! m)" "owning ?o" "op_flight (?os ! m) = op_flight ?o" for m
    using I that assms(3) by blast
  have all: "\<forall>m < length ?os. \<forall>n < length ?os. owning (?os ! m) \<and> owning (?os ! n) \<and> op_flight (?os ! m) = op_flight (?os ! n) \<longrightarrow> m = n"
    using I by blast
  have r: "table_ok ?r" "spaced (rq_hist ?r)" "flights_ok ?r" using I by simp_all
  obtain K F where S: "table_ok ?r'" "spaced (rq_hist ?r')" "flights_ok ?r'" "flight_ok sha256 o2 ?r'" "reqs_kept K F ?r ?r'"
      "K \<noteq> {} \<longrightarrow> K = {op_key ?o} \<and> (leading ?o \<or> map_of (rq_flights ?r) (op_key ?o) = None)"
      "F \<noteq> {} \<longrightarrow> F = {the (op_flight ?o)} \<and> owning ?o"
      "owning o2 \<longrightarrow> owning ?o \<and> op_flight o2 = op_flight ?o \<or> op_flight o2 = Some (length (rq_heap ?r))"
      "length (rq_heap ?r) < length (rq_heap ?r') \<longrightarrow> length (rq_heap ?r') = Suc (length (rq_heap ?r)) \<and> owning o2 \<and> op_flight o2 = Some (length (rq_heap ?r))"
      "owning ?o \<longrightarrow> owning o2 \<and> op_flight o2 = op_flight ?o \<or> fl_done (rq_heap ?r' ! the (op_flight ?o))"
    by (rule reqs_step [OF assms(4) pl [OF assms(3)] refl refl r fo(1) [OF assms(3)]]) (rule that; assumption)
  have hist: "set (rq_hist ?r) \<subseteq> set (rq_hist ?r')" using S(5) by (simp add: reqs_kept_def)
  have own: "op_flight (?os ! m) \<noteq> None" if "owning (?os ! m)" for m using that by (auto simp: owning_def leading_def)
  have other: "flight_ok sha256 (?os ! m) ?r' \<and> answer_ok sha256 (?os ! m) ?r'" if m: "m < length ?os" "m \<noteq> n" for m
  proof -
    have "op_key (?os ! m) \<notin> K" if l: "leading (?os ! m)"
    proof
      assume K: "op_key (?os ! m) \<in> K"
      have fm: "map_of (rq_flights ?r) (op_key (?os ! m)) = op_flight (?os ! m)" "op_flight (?os ! m) \<noteq> None"
        using fo(1) [OF m(1)] l by (auto simp: flight_ok_def leading_def)
      then have "leading ?o" "op_key (?os ! m) = op_key ?o" using K S(6) by auto
      then have e: "op_flight (?os ! m) = op_flight ?o" using fo(1) [OF assms(3)] fm(1) unfolding flight_ok_def by metis
      have "owning (?os ! m)" "owning ?o" using l \<open>leading ?o\<close> by (simp_all add: owning_def)
      from un [OF m(1) this e] m(2) show False by simp
    qed
    moreover have "the (op_flight (?os ! m)) \<notin> F" if "owning (?os ! m)"
      using un [OF m(1) that] own [OF that] own [of n] S(7) m(2) by (metis empty_iff option.expand singletonD)
    ultimately show ?thesis using flight_ok_other [OF fo(1) [OF m(1)] S(5) pl [OF m(1)]] answer_ok_other [OF fo(2) [OF m(1)] hist] by blast
  qed
  have self: "flight_ok sha256 o2 ?r' \<and> answer_ok sha256 o2 ?r'"
    using S(4) answer_step [OF assms(4) pl [OF assms(3)] r(1,3) fo [OF assms(3)] hist] by simp
  have fresh: "op_flight (?os ! m) \<noteq> Some (length (rq_heap ?r))" if "m < length ?os" for m
    using fo(1) [OF that] by (auto simp: flight_ok_def)
  have "i = j" if "i < length ?os" "j < length ?os" "owning (?os[n := o2] ! i)" "owning (?os[n := o2] ! j)"
      "op_flight (?os[n := o2] ! i) = op_flight (?os[n := o2] ! j)" for i j
  proof (rule ccontr)
    assume d: "i \<noteq> j"
    have no: "\<not> (owning o2 \<and> op_flight o2 = op_flight (?os ! m))" if "m < length ?os" "m \<noteq> n" "owning (?os ! m)" for m
      using S(8) fresh [OF that(1)] un [OF that(1,3)] that(2) by metis
    consider "i = n" "j \<noteq> n" | "i \<noteq> n" "j = n" | "i \<noteq> n" "j \<noteq> n" using d by blast
    then show False
    proof cases
      case 1
      then show False using no [of j] that by simp
    next
      case 2
      then show False using no [of i] that by simp
    next
      case 3
      then have "owning (?os ! i)" "owning (?os ! j)" "op_flight (?os ! i) = op_flight (?os ! j)" using that by simp_all
      then show False using all that(1,2) d by blast
    qed
  qed
  moreover have "fl_done (rq_heap ?r' ! f) \<or> (\<exists>m < length ?os. owning (?os[n := o2] ! m) \<and> op_flight (?os[n := o2] ! m) = Some f)"
    if f: "f < length (rq_heap ?r')" for f
  proof (cases "f < length (rq_heap ?r)")
    case True
    show ?thesis
    proof (cases "fl_done (rq_heap ?r ! f)")
      case D: True
      have "f \<notin> F"
      proof
        assume "f \<in> F"
        then have "owning ?o" "f = the (op_flight ?o)" using S(7) by auto
        then show False using D fo(1) [OF assms(3)] r(3) own [of n] by (auto simp: owning_def flight_ok_def flights_ok_def)
      qed
      then show ?thesis using D True S(5) by (simp add: reqs_kept_def)
    next
      case False
      then obtain m where m: "m < length ?os" "owning (?os ! m)" "op_flight (?os ! m) = Some f" using I True by blast
      then show ?thesis using S(10) by (cases "m = n") (auto simp: nth_update_if)
    qed
  next
    case False
    then have "f = length (rq_heap ?r)" "owning o2" "op_flight o2 = Some f" using S(9) f by auto
    then show ?thesis using assms(3) by auto
  qed
  moreover have "flight_ok sha256 (?os[n := o2] ! m) ?r' \<and> answer_ok sha256 (?os[n := o2] ! m) ?r'" if "m < length ?os" for m
    using that self other by (cases "m = n") simp_all
  ultimately show ?thesis using S(1-3) unfolding reqs_ok_def Let_def by simp
qed

lemma reach_reqs: "ctl_reach sha256 limits s \<Longrightarrow> reqs_ok sha256 s"
proof (induction rule: ctl_reach.induct)
  case new
  then show ?case by (simp add: new_system_def reqs_ok_def NewRequestRegistry_def table_ok_def spaced_def flights_ok_def)
next
  case (step s s')
  note I = step.IH [unfolded reqs_ok_def Let_def]
  from step.hyps(2) show ?case
  proof cases
    case (call q)
    have "\<not> owning (new_op q)" "flight_ok sha256 (new_op q) r" "answer_ok sha256 (new_op q) r" for r
      by (auto simp: new_op_def owning_def leading_def flight_ok_def answer_ok_def)
    then show ?thesis using I call by (fastforce simp: reqs_ok_def Let_def nth_append less_Suc_eq)
  next
    case (op c n)
    then show ?thesis using reqs_ok_op [OF step.IH reach_locks [OF step.hyps(1)]] by (auto elim: perform_op_cases)
  next
    case (wait now cs k)
    then show ?thesis by (cases rule: perform_wait_cases) (use step.IH in \<open>simp add: reqs_ok_def\<close>)
  qed (use step.IH in \<open>simp_all add: reqs_ok_def\<close>)
qed

text \<open>At any moment at most one operation submits a run under a key.\<close>

lemma one_submission_per_key:
  assumes "ctl_reach sha256 limits s" and "m < length (sys_ops s)" and "n < length (sys_ops s)"
    and "leading (sys_ops s ! m)" and "leading (sys_ops s ! n)" and "op_key (sys_ops s ! m) = op_key (sys_ops s ! n)"
  shows "m = n"
proof -
  note I = reach_reqs [OF assms(1), unfolded reqs_ok_def Let_def]
  have "op_flight (sys_ops s ! m) = op_flight (sys_ops s ! n)" using I assms(2-6) unfolding flight_ok_def by metis
  then show ?thesis using I assms(2-5) unfolding owning_def by blast
qed

text \<open>
  C39 Submissions under one key, in every interleaving and however they overlap: two that are
  answered with a run are answered with the same run and had inputs with the same fingerprint, unless the key
  was evicted between them, which takes more than 4096 other submissions.
\<close>

theorem submissions_idempotent:
  assumes "ctl_reach sha256 limits s" and "m < length (sys_ops s)" and "n < length (sys_ops s)"
    and "op_req (sys_ops s ! m) = ReqStart sid1 client1 input1 requestID1 runID1" and "requestID1 \<noteq> []"
    and "op_req (sys_ops s ! n) = ReqStart sid2 client2 input2 requestID2 runID2"
    and "op_key (sys_ops s ! m) = op_key (sys_ops s ! n)"
    and "op_pc (sys_ops s ! m) = OpDone (AnsRun i st1)" and "op_pc (sys_ops s ! n) = OpDone (AnsRun j st2)"
  shows "(i = j \<and> sha256 input1 = sha256 input2) \<or>
    (\<exists>p q. p < length (rq_hist (ct_reqs (sys_ct s))) \<and> q < length (rq_hist (ct_reqs (sys_ct s))) \<and>
       fst (rq_hist (ct_reqs (sys_ct s)) ! p) = op_key (sys_ops s ! m) \<and> tr_handle (snd (rq_hist (ct_reqs (sys_ct s)) ! p)) = i \<and>
       fst (rq_hist (ct_reqs (sys_ct s)) ! q) = op_key (sys_ops s ! m) \<and> tr_handle (snd (rq_hist (ct_reqs (sys_ct s)) ! q)) = j \<and>
       (p + 4096 < q \<or> q + 4096 < p))"
proof -
  let ?h = "rq_hist (ct_reqs (sys_ct s))" and ?k = "op_key (sys_ops s ! m)"
  note I = reach_reqs [OF assms(1), unfolded reqs_ok_def Let_def]
  have a: "answer_ok sha256 (sys_ops s ! m) (ct_reqs (sys_ct s))" "answer_ok sha256 (sys_ops s ! n) (ct_reqs (sys_ct s))" using I assms(2,3) by blast+
  have "rk_RequestID ?k = requestID1" "rk_RequestID (op_key (sys_ops s ! n)) = requestID2"
    using a assms(4,6,8,9) by (auto simp: answer_ok_def)
  then have "requestID2 \<noteq> []" using assms(5,7) by simp
  then have "(?k, tracked i (sha256 input1)) \<in> set ?h" "(?k, tracked j (sha256 input2)) \<in> set ?h"
    using a assms(4-9) by (auto simp: answer_ok_def)
  then obtain p q where pq: "p < length ?h" "?h ! p = (?k, tracked i (sha256 input1))" "q < length ?h" "?h ! q = (?k, tracked j (sha256 input2))"
    by (meson in_set_conv_nth)
  have sp: "spaced ?h" using I by blast
  show ?thesis
  proof (cases "p = q")
    case True
    then show ?thesis using pq by (simp add: tracked_def)
  next
    case False
    then have "p + maxTrackedRequestIDs < q \<or> q + maxTrackedRequestIDs < p" using sp pq unfolding spaced_def by (metis fst_conv nat_neq_iff)
    then show ?thesis using pq by (intro disjI2 exI [of _ p] exI [of _ q]) (auto simp: tracked_def maxTrackedRequestIDs_def)
  qed
qed

end
