(* ===== verification/Control_Approvals.thy ===== *)
theory Control_Approvals
  imports Control_Safety
begin

text \<open>
  The approvals under the control plane: every decision that a waiting run gets, unless it is the rejection
  that stands for a timeout or a cancellation, was given by one operation of a client that held the lease
  of a session that is routed to the runtime of the run.
\<close>

section \<open>Entries\<close>

definition entries_kept :: "approvalEntry list \<Rightarrow> approvalEntry list \<Rightarrow> bool" where
  "entries_kept h h' \<longleftrightarrow> length h \<le> length h' \<and> (\<forall>e < length h. ae_pa (h' ! e) = ae_pa (h ! e) \<and> (ae_resolved (h ! e) \<longrightarrow> ae_resolved (h' ! e)))"

lemma entries_kept_refl [simp]: "entries_kept h h"
  by (simp add: entries_kept_def)

text \<open>There is an entry for the request, and it belongs to the session.\<close>

definition owned :: "string \<Rightarrow> string \<Rightarrow> approvalEntry list \<Rightarrow> bool" where
  "owned r sid h \<longleftrightarrow> (\<exists>e < length h. pa_RequestID (ae_pa (h ! e)) = r \<and> pa_SessionID (ae_pa (h ! e)) = sid)"

lemma owned_kept: "owned r sid h \<Longrightarrow> entries_kept h h' \<Longrightarrow> owned r sid h'"
  by (auto simp: owned_def entries_kept_def) (metis order_less_le_trans)

definition own_entry :: "wait \<Rightarrow> approvalEntry list \<Rightarrow> bool" where
  "own_entry w h \<longleftrightarrow> wt_entry w < length h \<and> pa_RequestID (ae_pa (h ! wt_entry w)) = ir_ID (wt_req w) \<and>
     pa_SessionID (ae_pa (h ! wt_entry w)) = wt_session w"

definition wait_ok :: "wait \<Rightarrow> approvalEntry list \<Rightarrow> verdict list \<Rightarrow> bool" where
  "wait_ok w h vs \<longleftrightarrow>
    (case wt_pc w of
       WtEnter \<Rightarrow> True
     | WtDone d \<Rightarrow> d = reject_decision (wt_req w) \<or> own_entry w h \<and> (\<exists>v \<in> set vs. vd_entry v = wt_entry w \<and> vd_decision v = d)
     | _ \<Rightarrow> own_entry w h)"

lemma wait_ok_kept: "wait_ok w h vs \<Longrightarrow> entries_kept h h' \<Longrightarrow> set vs \<subseteq> set vs' \<Longrightarrow> wait_ok w h' vs'"
  by (auto simp: wait_ok_def own_entry_def entries_kept_def split: wait_pc.splits)

text \<open>A decision in a channel was accepted.\<close>

definition channels_ok :: "approvalEntry list \<Rightarrow> verdict list \<Rightarrow> bool" where
  "channels_ok h vs \<longleftrightarrow> (\<forall>e < length h. \<forall>d. ae_decide (h ! e) = Some d \<longrightarrow> (\<exists>v \<in> set vs. vd_entry v = e \<and> vd_decision v = d))"

lemma wait_step_ok:
  assumes "wait_step now cs b w m (wt_pc w) = Some (w', m')" and "approvals_ok m" and "wait_ok w (am_heap m) vs" and "channels_ok (am_heap m) vs"
  shows "approvals_ok m' \<and> wait_ok w' (am_heap m') vs \<and> channels_ok (am_heap m') vs \<and> entries_kept (am_heap m) (am_heap m') \<and>
    wt_session w' = wt_session w \<and> wt_thread w' = wt_thread w"
proof (cases "wt_pc w")
  case WtEnter
  let ?m = "sweepResolvedExpiredLocked now m"
  have s: "approvals_ok ?m" using assms(2) by (rule sweep_ok)
  show ?thesis
  proof (cases "map_of (am_pending ?m) (ir_ID (wt_req w))")
    case None
    then have m': "m' = ?m\<lparr>am_heap := am_heap m @ [new_entry w], am_pending := map_put (ir_ID (wt_req w)) (length (am_heap m)) (am_pending ?m)\<rparr>"
        "w' = w\<lparr>wt_entry := length (am_heap m), wt_pc := WtTimer\<rparr>" using assms(1) WtEnter by (auto simp: Let_def)
    have "approvals_ok m'" using s unfolding m'
      by (auto simp: approvals_ok_def nth_append less_Suc_eq new_entry_def dest!: in_map_put)
    then show ?thesis using assms(4) unfolding m'
      by (auto simp: wait_ok_def own_entry_def channels_ok_def entries_kept_def nth_append less_Suc_eq new_entry_def)
  next
    case (Some e)
    then have "m' = ?m" "w' = w\<lparr>wt_pc := WtDone (reject_decision (wt_req w))\<rparr>" using assms(1) WtEnter by (auto simp: Let_def)
    then show ?thesis using s assms(4) by (simp add: wait_ok_def)
  qed
next
  case WtTimer
  then show ?thesis using assms by (auto simp: Let_def wait_ok_def own_entry_def)
next
  case (WtSelect deadline)
  then have own: "own_entry w (am_heap m)" using assms(3) by (simp add: wait_ok_def)
  show ?thesis
  proof (cases cs)
    case CaseDecision
    let ?en = "am_heap m ! wt_entry w"
    obtain d where d: "ae_decide ?en = Some d" "w' = w\<lparr>wt_pc := WtDone d\<rparr>" "m' = set_entry (wt_entry w) (?en\<lparr>ae_decide := None\<rparr>) m"
      using assms(1) WtSelect CaseDecision by (auto simp: Let_def split: option.splits)
    have "\<exists>v \<in> set vs. vd_entry v = wt_entry w \<and> vd_decision v = d" using assms(4) d(1) own by (auto simp: channels_ok_def own_entry_def)
    moreover have "approvals_ok m'" unfolding d(3) using assms(2) by (intro set_entry_ok) simp_all
    ultimately show ?thesis using own assms(4) unfolding d(2,3)
      by (auto simp: wait_ok_def own_entry_def set_entry_def channels_ok_def entries_kept_def nth_update_if split: if_splits)
  qed (use assms WtSelect own in \<open>auto simp: Let_def wait_ok_def own_entry_def split: if_splits\<close>)
next
  case WtMark
  let ?en = "am_heap m ! wt_entry w"
  have own: "own_entry w (am_heap m)" using assms(3) WtMark by (simp add: wait_ok_def)
  have m': "w' = w\<lparr>wt_pc := WtDone (reject_decision (wt_req w))\<rparr>" "m' = set_entry (wt_entry w) (?en\<lparr>ae_resolved := True\<rparr>) m"
    using assms(1) WtMark by auto
  have "approvals_ok m'" unfolding m'(2) using assms(2) own by (intro set_entry_ok) (auto simp: approvals_ok_def own_entry_def)
  then show ?thesis using own assms(4) unfolding m'
    by (auto simp: wait_ok_def own_entry_def set_entry_def channels_ok_def entries_kept_def nth_update_if split: if_splits)
qed (use assms(1) in simp)

section \<open>Verdicts\<close>

definition verdict_ok :: "verdict \<Rightarrow> op list \<Rightarrow> supervisor \<Rightarrow> approvalEntry list \<Rightarrow> bool" where
  "verdict_ok v os sv h \<longleftrightarrow> vd_entry v < length h \<and> ae_resolved (h ! vd_entry v) \<and> vd_op v < length os \<and>
     op_pc (os ! vd_op v) \<in> {OpUnlock AnsOK, OpDone AnsOK} \<and> op_rt (os ! vd_op v) < length (sv_rts sv) \<and>
     (\<exists>s c r d. op_req (os ! vd_op v) = ReqResolve s c r d \<and> vd_decision v = d\<lparr>hd_InterruptID := r\<rparr> \<and> c \<noteq> [] \<and> vd_holder v = c \<and>
        pa_RequestID (ae_pa (h ! vd_entry v)) = r \<and> owned r (rt_ID (sv_rts sv ! op_rt (os ! vd_op v))) h)"

definition checked :: "op \<Rightarrow> supervisor \<Rightarrow> approvalEntry list \<Rightarrow> bool" where
  "checked o1 sv h \<longleftrightarrow> (\<forall>s c r d. op_pc o1 = OpResolve \<and> op_req o1 = ReqResolve s c r d \<longrightarrow> owned r (rt_ID (sv_rts sv ! op_rt o1)) h)"

definition appr_ok :: "system \<Rightarrow> bool" where
  "appr_ok s \<longleftrightarrow> (let ct = sys_ct s; h = am_heap (ct_appr ct); vs = ct_verdicts ct in approvals_ok (ct_appr ct) \<and> channels_ok h vs \<and>
     distinct (map vd_entry vs) \<and> (\<forall>v \<in> set vs. verdict_ok v (sys_ops s) (ct_sv ct) h) \<and>
     (\<forall>w \<in> set (sys_waits s). wait_ok w h vs \<and> wt_thread w < length (sv_threads (ct_sv ct)) \<and>
        wt_session w = run_SessionID (th_run (sv_threads (ct_sv ct) ! wt_thread w))) \<and>
     (\<forall>n < length (sys_ops s). checked (sys_ops s ! n) (ct_sv ct) h))"

lemma verdict_ok_kept:
  assumes "verdict_ok v os sv h" and "entries_kept h h'" and "grows sv sv'"
  shows "verdict_ok v os sv' h'"
proof -
  have rt: "rt_ID (sv_rts sv' ! op_rt (os ! vd_op v)) = rt_ID (sv_rts sv ! op_rt (os ! vd_op v))" "op_rt (os ! vd_op v) < length (sv_rts sv')"
    using assms(1,3) by (auto simp: verdict_ok_def grows_def)
  have "vd_entry v < length h'" "ae_resolved (h' ! vd_entry v)" "ae_pa (h' ! vd_entry v) = ae_pa (h ! vd_entry v)"
    using assms(1,2) by (auto simp: verdict_ok_def entries_kept_def)
  then show ?thesis using assms(1) rt owned_kept [OF _ assms(2)] unfolding verdict_ok_def by auto
qed

lemma verdict_ok_op:
  assumes "verdict_ok v os sv h" and "n < length os" and "op_step sha256 c n (os ! n) ct (op_pc (os ! n)) = Some (o2, ct')" and "place_ok (os ! n)"
  shows "verdict_ok v (os[n := o2]) sv h"
proof (cases "vd_op v = n")
  case True
  then have "op_pc (os ! n) = OpUnlock AnsOK" using assms(1,3) by (auto simp: verdict_ok_def)
  then have "op_pc o2 = OpDone AnsOK" "op_rt o2 = op_rt (os ! n)" "op_req o2 = op_req (os ! n)"
    using assms(3) place_step [OF assms(3,4)] op_keeps [OF assms(3)] by auto
  then show ?thesis using assms(1,2) True by (auto simp: verdict_ok_def)
qed (use assms(1) in \<open>simp add: verdict_ok_def\<close>)

lemma checked_kept:
  assumes "checked o1 sv h" and "entries_kept h h'" and "grows sv sv'" and "routed o1 \<longrightarrow> op_rt o1 < length (sv_rts sv)"
  shows "checked o1 sv' h'"
  using assms owned_kept [OF _ assms(2)] by (auto simp: checked_def grows_def routed_def)

text \<open>The two steps of an operation that concern the approvals: the check of the owner, and the decision.\<close>

lemma owner_checked:
  assumes "approvals_ok (ct_appr ct)"
  shows "checked (owner_check o1 ct) (ct_sv ct) (am_heap (ct_appr ct))"
proof -
  have "owned r (rt_ID (sv_rts (ct_sv ct) ! op_rt o1)) (am_heap (ct_appr ct))"
    if "Owner r (ct_appr ct) = Some (rt_ID (sv_rts (ct_sv ct) ! op_rt o1))" for r
    using Owner_known [OF assms that] by (simp add: owned_def)
  then show ?thesis
    by (cases "op_req o1") (auto simp: checked_def owner_check_def leave_def op_goto_def split: option.splits)
qed

lemma checked_step:
  assumes "op_step sha256 c n o1 ct (op_pc o1) = Some (o2, ct')" and "approvals_ok (ct_appr ct)"
  shows "checked o2 (ct_sv ct) (am_heap (ct_appr ct))"
proof (cases "op_pc o2 = OpResolve")
  case True
  have n: "op_pc (leave a o1) \<noteq> OpResolve" "op_pc (registered o1) \<noteq> OpResolve" "op_pc (started r o1) \<noteq> OpResolve" for a r
    by (auto simp: leave_def registered_def started_def op_goto_def split: request.split)
  have "op_pc o1 = OpOwner"
  proof (cases "op_pc o1")
    case OpSubmit
    then show ?thesis using assms(1) True n by (auto simp: Submit_def Let_def split: request.splits if_splits option.splits)
  next
    case (OpDrop ls)
    then show ?thesis using assms(1) True by (cases ls) (auto split: if_splits)
  next
    case OpRoute
    then show ?thesis using assms(1) True by (cases "op_req o1") (auto simp: route_step_def split: if_splits option.splits)
  next
    case OpLock
    then show ?thesis using assms(1) True by (cases "op_req o1") (auto simp: enter_def Let_def split: if_splits)
  next
    case OpResolve
    then show ?thesis using assms(1) True n by (cases "op_req o1") (auto simp: resolve_step_def split: prod.splits sum.splits)
  qed (use assms(1) True n in \<open>auto simp: Let_def split: if_splits prod.splits option.splits\<close>)
  then show ?thesis using assms(1) owner_checked [OF assms(2)] by auto
qed (simp add: checked_def)

lemma resolve_ok:
  fixes os :: "op list"
  assumes "op_step sha256 c n o1 ct (op_pc o1) = Some (o2, ct')" and "op_pc o1 = OpResolve" and "place_ok o1" and "o1 = os ! n" and "n < length os"
    and "h = am_heap (ct_appr ct)" and "h' = am_heap (ct_appr ct')" and "vs = ct_verdicts ct" and "vs' = ct_verdicts ct'" and "sv = ct_sv ct"
    and "approvals_ok (ct_appr ct)" and "channels_ok h vs" and "distinct (map vd_entry vs)" and "\<forall>v \<in> set vs. verdict_ok v os sv h"
    and "checked o1 sv h" and "op_rt o1 < length (sv_rts sv)" and "holds (req_client (op_req o1)) (lr_heap (ct_leases ct) ! op_lease o1)"
  shows "approvals_ok (ct_appr ct') \<and> channels_ok h' vs' \<and> distinct (map vd_entry vs') \<and> entries_kept h h' \<and> set vs \<subseteq> set vs' \<and>
    (\<forall>v \<in> set vs'. verdict_ok v (os[n := o2]) sv h')"
proof -
  obtain s cl r d where q: "op_req o1 = ReqResolve s cl r d" using assms(2,3) by (auto simp: place_ok_def split: request.splits)
  obtain res m where R: "Resolve (co_now c) r d (ct_appr ct) = (res, m)" by fastforce
  note RR = Resolve_result [OF assms(11) R]
  have old: "verdict_ok v (os[n := o2]) sv h'" if "v \<in> set vs" "entries_kept h h'" for v
    using verdict_ok_kept [OF _ that(2) grows_refl] verdict_ok_op [of v os sv h n sha256 c ct o2 ct'] that(1) assms(1,3-5,14) by blast
  show ?thesis
  proof (cases res)
    case (Inl e)
    then have "vs' = vs" "ct_appr ct' = m" "h' = h" using assms(1,2,6-9) q R RR(3) by (auto simp: resolve_step_def)
    then show ?thesis using RR(1) assms(12,13) old by simp
  next
    case (Inr e)
    let ?d = "d\<lparr>hd_InterruptID := r\<rparr>" and ?en = "(h ! e)\<lparr>ae_resolved := True, ae_decide := Some (d\<lparr>hd_InterruptID := r\<rparr>)\<rparr>"
    let ?v = "\<lparr>vd_entry = e, vd_op = n, vd_decision = ?d, vd_holder = ls_holder (lr_heap (ct_leases ct) ! op_lease o1)\<rparr>"
    have vs': "vs' = vs @ [?v]" "ct_appr ct' = m" "o2 = leave AnsOK o1" using assms(1,2,8,9) q R Inr by (auto simp: resolve_step_def)
    have e: "e < length h" "pa_RequestID (ae_pa (h ! e)) = r" "\<not> ae_resolved (h ! e)" "h' = h[e := ?en]"
      using RR(4) [OF Inr] assms(6,7) vs'(2) by auto
    have kept: "entries_kept h h'" unfolding e(4) by (auto simp: entries_kept_def nth_update_if)
    have "e \<notin> vd_entry ` set vs" using assms(14) e(3) by (auto simp: verdict_ok_def)
    then have "distinct (map vd_entry vs')" using assms(13) by (simp add: vs')
    moreover have "channels_ok h' vs'" using assms(12) unfolding e(4) vs'(1) by (auto simp: channels_ok_def nth_update_if split: if_splits)
    moreover have "verdict_ok ?v (os[n := o2]) sv h'"
    proof -
      have "owned r (rt_ID (sv_rts sv ! op_rt o1)) h'" using assms(2,15) q owned_kept [OF _ kept] by (auto simp: checked_def)
      moreover have "op_pc o2 = OpUnlock AnsOK" "op_rt o2 = op_rt o1" "op_req o2 = op_req o1"
        unfolding vs'(3) by (simp_all add: leave_def op_goto_def fenced_def q)
      moreover have "cl \<noteq> []" "ls_holder (lr_heap (ct_leases ct) ! op_lease o1) = cl" using assms(17) q by (simp_all add: holds_def req_client_def)
      ultimately show ?thesis using assms(5,16) e q by (auto simp: verdict_ok_def)
    qed
    ultimately show ?thesis using RR(1) kept old vs'(1,2) by auto
  qed
qed

lemma appr_ok_op:
  assumes "appr_ok s" and "ctl_reach sha256 limits s" and "n < length (sys_ops s)"
    and "op_step sha256 c n (sys_ops s ! n) (sys_ct s) (op_pc (sys_ops s ! n)) = Some (o2, ct')"
  shows "appr_ok (s\<lparr>sys_ct := ct', sys_ops := (sys_ops s)[n := o2]\<rparr>)"
proof -
  let ?os = "sys_ops s" and ?o = "sys_ops s ! n" and ?ct = "sys_ct s" and ?sv = "ct_sv (sys_ct s)" and ?h = "am_heap (ct_appr (sys_ct s))"
  let ?vs = "ct_verdicts (sys_ct s)" and ?h' = "am_heap (ct_appr ct')" and ?vs' = "ct_verdicts ct'"
  note I = assms(1) [unfolded appr_ok_def Let_def]
  note L = reach_locks [OF assms(2), unfolded locks_ok_def Let_def] and R = reach_routes [OF assms(2)]
  have pl: "place_ok ?o" and lo: "lease_ok n ?o (ct_leases ?ct)" using L assms(3) by blast+
  have rt: "routed (?os ! m) \<longrightarrow> op_rt (?os ! m) < length (sv_rts ?sv)" if "m < length ?os" for m using R that by blast
  have "op_pc ?o = OpRegister \<Longrightarrow> op_rt ?o < length (sv_rts ?sv)" using rt [OF assms(3)] by (auto simp: routed_def)
  then have g: "grows ?sv (ct_sv ct')" using op_sup [OF assms(4)] sup_grows by fastforce
  have "approvals_ok (ct_appr ct') \<and> channels_ok ?h' ?vs' \<and> distinct (map vd_entry ?vs') \<and> entries_kept ?h ?h' \<and> set ?vs \<subseteq> set ?vs' \<and>
      (\<forall>v \<in> set ?vs'. verdict_ok v (?os[n := o2]) ?sv ?h')"
  proof (cases "op_pc ?o = OpResolve")
    case True
    then have "in_body ?o" using pl by (auto simp: in_body_def place_ok_def fenced_def split: request.splits)
    then have "holds (req_client (op_req ?o)) (lr_heap (ct_leases ?ct) ! op_lease ?o)" using lo by (simp add: lease_ok_def)
    moreover have "op_rt ?o < length (sv_rts ?sv)" using rt [OF assms(3)] True by (auto simp: routed_def)
    ultimately show ?thesis using resolve_ok [OF assms(4) True pl refl assms(3) refl refl refl refl refl] I assms(3) by blast
  next
    case False
    then have "ct_appr ct' = ct_appr ?ct" "?vs' = ?vs" using op_frame(4) [OF assms(4)] by auto
    then show ?thesis using I verdict_ok_op [OF _ assms(3,4) pl] by simp
  qed
  note S = this
  have k: "entries_kept ?h ?h'" "set ?vs \<subseteq> set ?vs'" using S by blast+
  have "checked (?os[n := o2] ! m) (ct_sv ct') ?h'" if m: "m < length ?os" for m
  proof (cases "m = n")
    case True
    have "routed o2 \<longrightarrow> op_rt o2 < length (sv_rts ?sv)" if "op_pc o2 = OpResolve"
    proof -
      have "op_pc ?o \<noteq> OpRoute" using assms(4) that by (cases "op_req ?o") (auto simp: route_step_def split: if_splits option.splits)
      then show ?thesis using op_keeps [OF assms(4)] routed_step [OF assms(4) _ pl] rt [OF assms(3)] by auto
    qed
    then show ?thesis using checked_kept [OF checked_step [OF assms(4)] k(1) g] I True m by (cases "op_pc o2 = OpResolve") (auto simp: checked_def)
  next
    case False
    then show ?thesis using checked_kept [OF _ k(1) g rt [OF m]] I m by simp
  qed
  moreover have "\<forall>v \<in> set ?vs'. verdict_ok v (?os[n := o2]) (ct_sv ct') ?h'" using S verdict_ok_kept [OF _ entries_kept_refl g] by blast
  moreover have "\<forall>w \<in> set (sys_waits s). wait_ok w ?h' ?vs' \<and> wt_thread w < length (sv_threads (ct_sv ct')) \<and>
      wt_session w = run_SessionID (th_run (sv_threads (ct_sv ct') ! wt_thread w))"
    using I wait_ok_kept [OF _ k] g by (auto simp: grows_def)
  ultimately show ?thesis using S unfolding appr_ok_def Let_def by simp
qed

lemma appr_ok_sup:
  assumes "appr_ok s" and "ctl_reach sha256 limits s" and "sup_step (ct_sv (sys_ct s)) sv"
  shows "appr_ok (s\<lparr>sys_ct := (sys_ct s)\<lparr>ct_sv := sv\<rparr>\<rparr>)"
proof -
  note I = assms(1) [unfolded appr_ok_def Let_def] and R = reach_routes [OF assms(2)] and g = sup_grows [OF assms(3)]
  have "checked (sys_ops s ! n) sv (am_heap (ct_appr (sys_ct s)))" if "n < length (sys_ops s)" for n
    using checked_kept [OF _ entries_kept_refl g] I R that by blast
  moreover have "\<forall>v \<in> set (ct_verdicts (sys_ct s)). verdict_ok v (sys_ops s) sv (am_heap (ct_appr (sys_ct s)))"
    using I verdict_ok_kept [OF _ entries_kept_refl g] by blast
  ultimately show ?thesis using I g unfolding appr_ok_def Let_def by (auto simp: grows_def)
qed

lemma appr_ok_wait:
  assumes "appr_ok s" and "ctl_reach sha256 limits s" and "k < length (sys_waits s)"
    and "wait_step now cs b (sys_waits s ! k) (ct_appr (sys_ct s)) (wt_pc (sys_waits s ! k)) = Some (w, m)"
  shows "appr_ok (s\<lparr>sys_ct := (sys_ct s)\<lparr>ct_appr := m\<rparr>, sys_waits := (sys_waits s)[k := w]\<rparr>)"
proof -
  let ?h = "am_heap (ct_appr (sys_ct s))"
  note I = assms(1) [unfolded appr_ok_def Let_def] and R = reach_routes [OF assms(2)]
  have "sys_waits s ! k \<in> set (sys_waits s)" using assms(3) by simp
  then have W: "approvals_ok m \<and> wait_ok w (am_heap m) (ct_verdicts (sys_ct s)) \<and> channels_ok (am_heap m) (ct_verdicts (sys_ct s)) \<and>
      entries_kept ?h (am_heap m) \<and> wt_session w = wt_session (sys_waits s ! k) \<and> wt_thread w = wt_thread (sys_waits s ! k)"
    using wait_step_ok [OF assms(4)] I by blast
  then have h: "entries_kept ?h (am_heap m)" by blast
  have "checked (sys_ops s ! n) (ct_sv (sys_ct s)) (am_heap m)" if "n < length (sys_ops s)" for n
    using checked_kept [OF _ h grows_refl] I R that by blast
  moreover have "\<forall>v \<in> set (ct_verdicts (sys_ct s)). verdict_ok v (sys_ops s) (ct_sv (sys_ct s)) (am_heap m)"
    using I verdict_ok_kept [OF _ h grows_refl] by blast
  moreover have "\<forall>v \<in> set ((sys_waits s)[k := w]). wait_ok v (am_heap m) (ct_verdicts (sys_ct s)) \<and> wt_thread v < length (sv_threads (ct_sv (sys_ct s))) \<and>
      wt_session v = run_SessionID (th_run (sv_threads (ct_sv (sys_ct s)) ! wt_thread v))"
  proof
    fix v assume "v \<in> set ((sys_waits s)[k := w])"
    then have "v = w \<or> v \<in> set (sys_waits s)" using set_update_subset_insert [of "sys_waits s" k w] by blast
    then show "wait_ok v (am_heap m) (ct_verdicts (sys_ct s)) \<and> wt_thread v < length (sv_threads (ct_sv (sys_ct s))) \<and>
      wt_session v = run_SessionID (th_run (sv_threads (ct_sv (sys_ct s)) ! wt_thread v))"
      using W I wait_ok_kept [OF _ h order_refl] \<open>sys_waits s ! k \<in> set (sys_waits s)\<close> by auto
  qed
  ultimately show ?thesis using I W unfolding appr_ok_def Let_def by simp
qed

lemma reach_appr: "ctl_reach sha256 limits s \<Longrightarrow> appr_ok s"
proof (induction rule: ctl_reach.induct)
  case new
  then show ?case by (simp add: new_system_def appr_ok_def NewApprovalManager_def approvals_ok_def channels_ok_def)
next
  case (step s s')
  note I = step.IH [unfolded appr_ok_def Let_def]
  from step.hyps(2) show ?case
  proof cases
    case (call q)
    have "verdict_ok v (sys_ops s @ [new_op q]) sv h" if "verdict_ok v (sys_ops s) sv h" for v sv h
      using that by (auto simp: verdict_ok_def nth_append)
    moreover have "checked (new_op q) sv h" for sv h by (simp add: checked_def new_op_def)
    ultimately show ?thesis using I call by (auto simp: appr_ok_def Let_def nth_append less_Suc_eq)
  next
    case (op c n)
    then show ?thesis using appr_ok_op [OF step.IH step.hyps(1)] by (auto elim: perform_op_cases)
  next
    case (ask i req)
    have "wait_ok (new_wait i t req) h vs" "wt_thread (new_wait i t req) = i" "wt_session (new_wait i t req) = run_SessionID (th_run t)" for t h vs
      by (simp_all add: new_wait_def wait_ok_def)
    then show ?thesis using I ask by (auto simp: appr_ok_def Let_def)
  next
    case (wait now cs k)
    then show ?thesis using appr_ok_wait [OF step.IH step.hyps(1)] by (auto elim: perform_wait_cases)
  next
    case (list now sid)
    have "am_heap (snd (Pending now sid m)) = am_heap m" for m by (simp add: Pending_def Let_def)
    then show ?thesis using I list Pending_ok by (simp add: appr_ok_def Let_def)
  next
    case (sup sv)
    then show ?thesis using appr_ok_sup [OF step.IH step.hyps(1)] by simp
  next
    case (switch c)
    then show ?thesis using step.IH by (simp add: appr_ok_def Let_def)
  qed
qed

text \<open>
  C37 No implicit approval: when a run that waits for a decision gets anything but a rejection, the
  decision was given by exactly one operation, for this request and no other, of a client that held the
  control lease of the session that it addressed at that moment, and that session is routed to the runtime of
  the run. The identifiers of the requests are assumed to be distinct, as the counter of the gate makes them.
\<close>

theorem decisions_are_controlled:
  assumes "ctl_reach sha256 limits s" and "w \<in> set (sys_waits s)" and "wt_pc w = WtDone d" and "hd_Type d \<noteq> HReject"
    and "distinct (map (\<lambda>e. pa_RequestID (ae_pa e)) (am_heap (ct_appr (sys_ct s))))"
  shows "\<exists>v \<in> set (ct_verdicts (sys_ct s)). vd_decision v = d \<and>
    (\<exists>sid client d0. op_req (sys_ops s ! vd_op v) = ReqResolve sid client (ir_ID (wt_req w)) d0 \<and> d = d0\<lparr>hd_InterruptID := ir_ID (wt_req w)\<rparr> \<and>
       client \<noteq> [] \<and> vd_holder v = client) \<and>
    rt_ID (sv_rts (ct_sv (sys_ct s)) ! op_rt (sys_ops s ! vd_op v)) = run_SessionID (th_run (sv_threads (ct_sv (sys_ct s)) ! wt_thread w)) \<and>
    (\<forall>v' \<in> set (ct_verdicts (sys_ct s)). hd_InterruptID (vd_decision v') = ir_ID (wt_req w) \<longrightarrow> v' = v)"
proof -
  let ?h = "am_heap (ct_appr (sys_ct s))" and ?vs = "ct_verdicts (sys_ct s)" and ?sv = "ct_sv (sys_ct s)"
  note I = reach_appr [OF assms(1), unfolded appr_ok_def Let_def]
  have same: "e = e'" if "e < length ?h" "e' < length ?h" "pa_RequestID (ae_pa (?h ! e)) = pa_RequestID (ae_pa (?h ! e'))" for e e'
    using assms(5) that by (metis length_map nth_eq_iff_index_eq nth_map)
  have ok: "verdict_ok v (sys_ops s) ?sv ?h" if "v \<in> set ?vs" for v using I that by blast
  have vid: "hd_InterruptID (vd_decision v) = pa_RequestID (ae_pa (?h ! vd_entry v)) \<and> vd_entry v < length ?h" if "v \<in> set ?vs" for v
    using ok [OF that] by (auto simp: verdict_ok_def)
  have W: "wait_ok w ?h ?vs" "wt_session w = run_SessionID (th_run (sv_threads ?sv ! wt_thread w))" using I assms(2) by blast+
  have "d \<noteq> reject_decision (wt_req w)" using assms(4) by (auto simp: reject_decision_def)
  then obtain v where v: "v \<in> set ?vs" "vd_entry v = wt_entry w" "vd_decision v = d" and own: "own_entry w ?h"
    using W(1) assms(3) by (auto simp: wait_ok_def)
  have rid: "pa_RequestID (ae_pa (?h ! vd_entry v)) = ir_ID (wt_req w)" "pa_SessionID (ae_pa (?h ! vd_entry v)) = wt_session w"
    using own v(2) by (simp_all add: own_entry_def)
  obtain sid cl r d0 where q: "op_req (sys_ops s ! vd_op v) = ReqResolve sid cl r d0" "vd_decision v = d0\<lparr>hd_InterruptID := r\<rparr>" "cl \<noteq> []" "vd_holder v = cl"
      "pa_RequestID (ae_pa (?h ! vd_entry v)) = r" "owned r (rt_ID (sv_rts ?sv ! op_rt (sys_ops s ! vd_op v))) ?h"
    using ok [OF v(1)] unfolding verdict_ok_def by blast
  obtain e where e: "e < length ?h" "pa_RequestID (ae_pa (?h ! e)) = r" "pa_SessionID (ae_pa (?h ! e)) = rt_ID (sv_rts ?sv ! op_rt (sys_ops s ! vd_op v))"
    using q(6) by (auto simp: owned_def)
  then have "e = vd_entry v" using same [of e "vd_entry v"] vid [OF v(1)] q(5) by simp
  then have rt: "rt_ID (sv_rts ?sv ! op_rt (sys_ops s ! vd_op v)) = wt_session w" using e(3) rid(2) by simp
  have "v' = v" if v': "v' \<in> set ?vs" "hd_InterruptID (vd_decision v') = ir_ID (wt_req w)" for v'
  proof -
    have "vd_entry v' = vd_entry v" using same vid [OF v'(1)] vid [OF v(1)] v'(2) rid(1) by metis
    then show ?thesis using I v'(1) v(1) unfolding distinct_map by (meson inj_onD)
  qed
  then show ?thesis using v q rid(1) rt W(2) by (intro bexI [of _ v]) auto
qed

end
