(* ===== verification/Control_Progress.thy ===== *)
theory Control_Progress
  imports Control_Requests Control_Approvals
begin

text \<open>
  The theorems on the control operations: the fence of the lease around every effect, and progress. No set of
  operations blocks itself: an operation waits for the lock of a lease, for the synchronous part of a start or
  for the flight of another one, and whoever it waits for can go on. Then the schedules that show
  the theorems at work.
\<close>

section \<open>The fence\<close>

text \<open>
  C38 A fenced operation changes the supervisor or the approvals only while its client holds the control
  lease of the session that it addressed, before and after the step, and no step of another operation can
  take the lease away at that point.
\<close>

theorem control_fenced:
  assumes "ctl_reach sha256 limits s" and "perform_op sha256 c n s = Some s'" and "fenced (op_req (sys_ops s ! n))"
    and "ct_sv (sys_ct s') \<noteq> ct_sv (sys_ct s) \<or> ct_appr (sys_ct s') \<noteq> ct_appr (sys_ct s)"
  shows "\<exists>l. map_of (lr_leases (ct_leases (sys_ct s))) (req_session (op_req (sys_ops s ! n))) = Some l \<and> req_client (op_req (sys_ops s ! n)) \<noteq> [] \<and>
    ls_holder (lr_heap (ct_leases (sys_ct s)) ! l) = req_client (op_req (sys_ops s ! n)) \<and>
    ls_holder (lr_heap (ct_leases (sys_ct s')) ! l) = req_client (op_req (sys_ops s ! n)) \<and>
    (\<forall>c2 m s2. m \<noteq> n \<and> perform_op sha256 c2 m s = Some s2 \<longrightarrow>
       ls_holder (lr_heap (ct_leases (sys_ct s2)) ! l) = req_client (op_req (sys_ops s ! n)))"
  using assms(2)
proof (cases rule: perform_op_cases)
  case (1 o2 ct')
  let ?o = "sys_ops s ! n" and ?r = "ct_leases (sys_ct s)"
  note L = reach_locks [OF assms(1), unfolded locks_ok_def Let_def]
  have p: "op_pc ?o \<in> {OpRemove, OpRegister, OpStart, OpCancel, OpResolve}"
    using op_frame(1,4) [OF 1(2)] assms(4) 1(3) by auto
  then have b: "in_body ?o" using assms(3) by (auto simp: in_body_def)
  then have lo: "map_of (lr_leases ?r) (req_session (op_req ?o)) = Some (op_lease ?o)" "ls_mu (lr_heap ?r ! op_lease ?o) = Some n"
      "holds (req_client (op_req ?o)) (lr_heap ?r ! op_lease ?o)" using L 1(1) by (auto simp: lease_ok_def)
  have l: "op_lease ?o < length (lr_heap ?r)" using leases_okD [OF _ lo(1)] L by blast
  have "ct_leases ct' = ?r" using op_frame(2) [OF 1(2)] p by auto
  moreover have "lr_heap (ct_leases (sys_ct s2)) ! op_lease ?o = lr_heap ?r ! op_lease ?o" if m: "m \<noteq> n" "perform_op sha256 c2 m s = Some s2" for m c2 s2
    using m(2)
  proof (cases rule: perform_op_cases)
    case (1 o3 ct2)
    have "place_ok (sys_ops s ! m)" "lease_ok m (sys_ops s ! m) ?r" "leases_ok ?r" using L 1(1) by blast+
    from lease_step(1) [OF 1(2) this]
    have "\<forall>l < length (lr_heap ?r). \<forall>k. k \<noteq> m \<and> ls_mu (lr_heap ?r ! l) = Some k \<longrightarrow> lr_heap (ct_leases ct2) ! l = lr_heap ?r ! l"
      unfolding leases_kept_def by blast
    then have "lr_heap (ct_leases ct2) ! op_lease ?o = lr_heap ?r ! op_lease ?o" using l lo(2) m(1) by metis
    then show ?thesis using 1(3) by simp
  qed
  ultimately show ?thesis using lo 1(3) by (intro exI [of _ "op_lease ?o"]) (auto simp: holds_def)
qed

section \<open>Progress\<close>

definition answered :: "op \<Rightarrow> bool" where
  "answered o1 \<longleftrightarrow> (case op_pc o1 of OpDone a \<Rightarrow> True | _ \<Rightarrow> False)"

text \<open>A step of an operation, or of a run.\<close>

definition inner_step :: "(string \<Rightarrow> string) \<Rightarrow> system \<Rightarrow> system \<Rightarrow> bool" where
  "inner_step sha256 s s' \<longleftrightarrow> (\<exists>c n. perform_op sha256 c n s = Some s') \<or>
     (\<exists>sv. run_step (ct_sv (sys_ct s)) sv \<and> s' = s\<lparr>sys_ct := (sys_ct s)\<lparr>ct_sv := sv\<rparr>\<rparr>)"

lemma inner_reach: "ctl_reach sha256 limits s \<Longrightarrow> inner_step sha256 s s' \<Longrightarrow> ctl_reach sha256 limits s'"
  unfolding inner_step_def run_step_def own_step_def using ctl_reach.step ctl_step.op ctl_step.sup sup_step.run by blast

text \<open>The start that an operation waits for is a thread of the supervisor.\<close>

definition awaits_thread :: "op \<Rightarrow> supervisor \<Rightarrow> bool" where
  "awaits_thread o1 sv \<longleftrightarrow> (\<forall>i. op_pc o1 = OpAwait i \<longrightarrow> i < length (sv_threads sv))"

lemma awaits_step:
  assumes "op_step sha256 c n o1 ct (op_pc o1) = Some (o2, ct')" and "place_ok o1"
  shows "awaits_thread o2 (ct_sv ct')"
proof (cases "op_pc o1 = OpStart")
  case True
  then show ?thesis using assms(1)
    by (auto simp: awaits_thread_def StartRun_def started_def leave_def op_goto_def split: prod.splits option.splits sum.splits if_splits)
next
  case False
  have n: "op_pc (leave a o1) \<noteq> OpAwait i" "op_pc (registered o1) \<noteq> OpAwait i" "op_pc (started r o1) \<noteq> OpAwait i" for a r i
    by (auto simp: leave_def registered_def started_def op_goto_def split: request.split)
  have "op_pc o2 \<noteq> OpAwait i" for i
  proof (cases "op_pc o1")
    case OpSubmit
    then show ?thesis using assms n by (auto simp: Submit_def Let_def split: request.splits if_splits option.splits)
  next
    case (OpDrop ls)
    then show ?thesis using assms by (cases ls) (auto split: if_splits)
  next
    case OpRoute
    then show ?thesis using assms by (cases "op_req o1") (auto simp: route_step_def split: if_splits option.splits)
  next
    case OpLock
    then show ?thesis using assms by (cases "op_req o1") (auto simp: enter_def Let_def split: if_splits)
  next
    case OpResolve
    then show ?thesis using assms n by (cases "op_req o1") (auto simp: resolve_step_def split: prod.splits sum.splits)
  next
    case OpOwner
    then show ?thesis using assms n by (cases "op_req o1") (auto simp: owner_check_def split: if_splits option.splits)
  qed (use assms n False in \<open>auto simp: Let_def split: if_splits prod.splits option.splits\<close>)
  then show ?thesis by (simp add: awaits_thread_def)
qed

lemma reach_awaits:
  assumes "ctl_reach sha256 limits s" and "n < length (sys_ops s)"
  shows "awaits_thread (sys_ops s ! n) (ct_sv (sys_ct s))"
  using assms
proof (induction arbitrary: n)
  case new
  then show ?case by (simp add: new_system_def)
next
  case (step s s')
  have up: "awaits_thread o1 sv'" if "awaits_thread o1 sv" "grows sv sv'" for o1 sv sv' using that by (auto simp: awaits_thread_def grows_def)
  note L = reach_locks [OF step.hyps(1), unfolded locks_ok_def Let_def] and R = reach_routes [OF step.hyps(1)]
  from step.hyps(2) show ?case
  proof cases
    case (call q)
    then show ?thesis using step.IH step.prems by (auto simp: nth_append less_Suc_eq awaits_thread_def new_op_def)
  next
    case (op c m)
    then show ?thesis
    proof (cases rule: perform_op_cases)
      case (1 o2 ct')
      have "op_pc (sys_ops s ! m) = OpRegister \<Longrightarrow> op_rt (sys_ops s ! m) < length (sv_rts (ct_sv (sys_ct s)))"
        using R 1(1) by (auto simp: routed_def)
      then have g: "grows (ct_sv (sys_ct s)) (ct_sv ct')" using op_sup [OF 1(2)] sup_grows by fastforce
      have "awaits_thread o2 (ct_sv ct')" using awaits_step [OF 1(2)] L 1(1) by blast
      then show ?thesis using up [OF _ g] step.IH step.prems 1(3) by (cases "n = m") simp_all
    qed
  next
    case (wait now cs k)
    then show ?thesis by (cases rule: perform_wait_cases) (use step.IH step.prems in simp)
  next
    case (sup sv)
    then have "awaits_thread (sys_ops s ! n) sv" using up [OF step.IH sup_grows] step.prems by simp
    then show ?thesis using sup by simp
  qed (use step.IH step.prems in simp_all)
qed

section \<open>Ranks\<close>

definition place_rank :: "place \<Rightarrow> nat" where
  "place_rank p =
    (case p of OpRoute \<Rightarrow> 18 | OpLease \<Rightarrow> 17 | OpLock \<Rightarrow> 16 | OpSubmit \<Rightarrow> 15 | OpEnsure \<Rightarrow> 14 | OpRetired \<Rightarrow> 13 | OpRemove \<Rightarrow> 12 | OpRegister \<Rightarrow> 11
     | OpStart \<Rightarrow> 10 | OpAwait i \<Rightarrow> 9 | OpSettle res \<Rightarrow> 8 | OpWake res \<Rightarrow> 7 | OpJoin \<Rightarrow> 6 | OpCancel \<Rightarrow> 10 | OpOwner \<Rightarrow> 14 | OpResolve \<Rightarrow> 13
     | OpUnlock a \<Rightarrow> 1 | OpDrop ls \<Rightarrow> Suc (length ls) | OpDone a \<Rightarrow> 0)"

lemma rank_moves:
  "place_rank (op_pc (leave a o1)) \<le> 1" "place_rank (op_pc (registered o1)) = 10" "place_rank (op_pc (started r o1)) \<le> 8"
  by (auto simp: place_rank_def leave_def registered_def started_def op_goto_def split: request.split)

lemma place_rank_step:
  assumes "op_step sha256 c n o1 ct (op_pc o1) = Some (o2, ct')" and "op_pc o1 \<noteq> OpRoute"
  shows "place_rank (op_pc o2) < place_rank (op_pc o1) \<and> op_pc o2 \<noteq> OpRoute"
proof -
  have lt: "1 < k \<Longrightarrow> place_rank (op_pc (leave a o1)) < k" "8 < k \<Longrightarrow> place_rank (op_pc (started x o1)) < k" for a x k
    using rank_moves(1) [of a o1] rank_moves(3) [of x o1] by simp_all
  have l: "op_pc (leave a o1) \<noteq> OpRoute" "op_pc (registered o1) \<noteq> OpRoute" "op_pc (started x o1) \<noteq> OpRoute" for a x
    by (auto simp: leave_def registered_def started_def op_goto_def split: request.split)
  show ?thesis
  proof (cases "op_pc o1")
    case OpSubmit
    then show ?thesis using assms(1)
      by (auto simp: Submit_def Let_def lt l place_rank_def [of OpSubmit] place_rank_def [of OpEnsure] place_rank_def [of OpJoin] split: request.splits if_splits option.splits)
  next
    case (OpDrop ls)
    then show ?thesis using assms by (cases ls) (auto simp: place_rank_def split: if_splits)
  next
    case OpLock
    then show ?thesis using assms by (cases "op_req o1") (auto simp: enter_def Let_def place_rank_def split: if_splits)
  next
    case OpResolve
    then show ?thesis using assms
      by (cases "op_req o1") (auto simp: resolve_step_def lt l place_rank_def [of OpResolve] split: prod.splits sum.splits)
  next
    case OpOwner
    then show ?thesis using assms
      by (cases "op_req o1") (auto simp: owner_check_def lt l place_rank_def [of OpResolve] place_rank_def [of OpOwner] split: if_splits option.splits)
  next
    case OpRoute
    then show ?thesis using assms(2) by simp
  next
    case (OpDone a)
    then show ?thesis using assms by simp
  next
    case OpLease
    then show ?thesis using assms by (auto simp: place_rank_def split: prod.splits)
  next
    case (OpAwait i)
    then show ?thesis using assms by (auto simp: lt l place_rank_def [of "OpAwait _"] split: option.splits)
  next
    case OpStart
    then show ?thesis using assms by (auto simp: lt l place_rank_def [of "OpAwait _"] place_rank_def [of OpStart] split: prod.splits option.splits)
  next
    case OpCancel
    then show ?thesis using assms by (auto simp: lt l place_rank_def [of OpCancel] split: prod.splits option.splits)
  next
    case OpJoin
    then show ?thesis using assms by (auto simp: Let_def lt l place_rank_def [of OpJoin] split: if_splits)
  next
    case (OpWake res)
    then show ?thesis using assms by (auto simp: lt l place_rank_def [of "OpWake _"])
  next
    case (OpSettle res)
    then show ?thesis using assms by (auto simp: place_rank_def)
  next
    case (OpUnlock a)
    then show ?thesis using assms by (auto simp: place_rank_def)
  next
    case OpEnsure
    then show ?thesis using assms by (auto simp: rank_moves(2) l place_rank_def [of OpEnsure] place_rank_def [of OpRetired] split: if_splits)
  next
    case OpRetired
    then show ?thesis using assms by (auto simp: rank_moves(2) l place_rank_def [of OpRemove] place_rank_def [of OpRetired] split: if_splits)
  next
    case OpRemove
    then show ?thesis using assms by (auto simp: place_rank_def)
  next
    case OpRegister
    then show ?thesis using assms by (auto simp: rank_moves(2) l place_rank_def [of OpRegister])
  qed
qed

lemma op_work:
  assumes "op_step sha256 c n o1 ct (op_pc o1) = Some (o2, ct')"
  shows "work (ct_sv ct') \<le> work (ct_sv ct) + 20"
proof (cases "op_pc o1 \<in> {OpRemove, OpRegister, OpStart, OpCancel}")
  case True
  have "work (cancel_thread i sv) = work sv" for i sv
  proof (cases "i < length (sv_threads sv)")
    case True
    then show ?thesis by (simp add: work_def cancel_thread_def Let_def map_update sum_list_update)
  qed (simp add: work_def cancel_thread_def Let_def list_update_beyond)
  then show ?thesis using assms True
    by (auto simp: set_mgr_def StartRun_def CancelRun_def work_def Let_def rank_def [of PcPending] split: prod.splits option.splits sum.splits if_splits)
next
  case False
  then show ?thesis using op_frame(1) [OF assms] by simp
qed

text \<open>
  What is left to do: the operations that have not looked at the routes yet, and then the places of the
  operations and the runs. Every inner step that is chosen below makes it less.
\<close>

definition todo :: "system \<Rightarrow> (nat \<times> nat)" where
  "todo s = (tally (\<lambda>o1. op_pc o1 = OpRoute) (sys_ops s), 21 * sum_list (map (\<lambda>o1. place_rank (op_pc o1)) (sys_ops s)) + work (ct_sv (sys_ct s)))"

definition less_todo :: "system \<Rightarrow> system \<Rightarrow> bool" where
  "less_todo s' s \<longleftrightarrow> (todo s', todo s) \<in> less_than <*lex*> less_than"

lemma op_less_todo:
  assumes "perform_op sha256 c n s = Some s'"
  shows "less_todo s' s"
  using assms
proof (cases rule: perform_op_cases)
  case (1 o2 ct')
  let ?o = "sys_ops s ! n" and ?P = "\<lambda>o1. op_pc o1 = OpRoute"
  have so: "sys_ops s' = (sys_ops s)[n := o2]" using 1(3) by simp
  have t: "tally ?P (sys_ops s') + of_bool (?P ?o) = tally ?P (sys_ops s) + of_bool (?P o2)" unfolding so by (rule tally_update [OF 1(1)])
  show ?thesis
  proof (cases "?P ?o")
    case True
    then have "\<not> ?P o2" using 1(2) by (cases "op_req ?o") (auto simp: route_step_def split: if_splits option.splits)
    then show ?thesis using t True by (simp add: less_todo_def todo_def)
  next
    case False
    note p = place_rank_step [OF 1(2) False]
    have "place_rank (op_pc ?o) \<le> sum_list (map (\<lambda>o1. place_rank (op_pc o1)) (sys_ops s))"
      using elem_le_sum_list [of n "map (\<lambda>o1. place_rank (op_pc o1)) (sys_ops s)"] 1(1) by simp
    then have "Suc (sum_list (map (\<lambda>o1. place_rank (op_pc o1)) (sys_ops s'))) \<le> sum_list (map (\<lambda>o1. place_rank (op_pc o1)) (sys_ops s))"
      using p 1(1) unfolding so by (simp add: map_update sum_list_update) linarith
    then have "21 * sum_list (map (\<lambda>o1. place_rank (op_pc o1)) (sys_ops s')) + work (ct_sv (sys_ct s')) <
        21 * sum_list (map (\<lambda>o1. place_rank (op_pc o1)) (sys_ops s)) + work (ct_sv (sys_ct s))"
      using op_work [OF 1(2)] 1(3) by simp
    moreover have "tally ?P (sys_ops s') = tally ?P (sys_ops s)" using t p False by simp
    ultimately show ?thesis by (simp add: less_todo_def todo_def)
  qed
qed

text \<open>A start that has not returned can go on.\<close>

lemma start_goes_on:
  assumes "sup_reach limits sv" and "i < length (sv_threads sv)" and "start_result (th_pc (sv_threads sv ! i)) = None"
  shows "\<exists>sv'. run_step sv sv' \<and> work sv' < work sv"
proof -
  let ?t = "sv_threads sv ! i"
  have p: "\<not> final_pc (th_pc ?t)" "th_pc ?t \<noteq> PcGate" "th_pc ?t \<noteq> PcSlot"
    using assms(3) by (auto simp: start_result_def final_pc_def split: pc.splits)
  obtain sv' t' r m os where a: "advance (onward True) i sv = Some sv'" "thread_step (onward True) i ?t (sv_rts sv ! th_rt ?t) (sv_mgr sv) = Some (t', r, m, os)"
      "sv_threads sv' = (sv_threads sv)[i := t']"
    using advance_onward [OF assms(1,2) refl p(1), of True] p(2,3) by blast
  have "rank (th_pc ?t) \<le> work sv" using elem_le_sum_list [of i "map (\<lambda>t. rank (th_pc t)) (sv_threads sv)"] assms(2) by (simp add: work_def)
  then have "work sv' < work sv" using rank_step [OF a(2)] assms(2) unfolding work_def a(3) by (simp add: map_update sum_list_update)
  moreover have "run_step sv sv'" using a(1) by (auto simp: run_step_def own_step_def)
  ultimately show ?thesis by blast
qed

abbreviation some_choice :: "system \<Rightarrow> op_choice" where
  "some_choice s \<equiv> \<lparr>co_now = 0, co_order = map snd (lr_leases (ct_leases (sys_ct s)))\<rparr>"

definition goes_on :: "(string \<Rightarrow> string) \<Rightarrow> system \<Rightarrow> bool" where
  "goes_on sha256 s \<longleftrightarrow> (\<exists>s'. inner_step sha256 s s' \<and> less_todo s' s)"

lemma op_goes_on:
  assumes "n < length (sys_ops s)" and "op_step sha256 (some_choice s) n (sys_ops s ! n) (sys_ct s) (op_pc (sys_ops s ! n)) \<noteq> None"
  shows "goes_on sha256 s"
proof -
  obtain s' where s': "perform_op sha256 (some_choice s) n s = Some s'" using assms by (auto simp: perform_op_def)
  then have "less_todo s' s" by (rule op_less_todo)
  with s' show ?thesis unfolding goes_on_def inner_step_def by blast
qed

lemma free_goes_on:
  assumes "ctl_reach sha256 limits s" and "n < length (sys_ops s)" and "\<not> answered (sys_ops s ! n)"
    and "op_pc (sys_ops s ! n) \<notin> {OpLock, OpJoin}" and "\<forall>ls. op_pc (sys_ops s ! n) \<noteq> OpDrop ls"
  shows "goes_on sha256 s"
proof -
  let ?o = "sys_ops s ! n" and ?sv = "ct_sv (sys_ct s)"
  have pl: "place_ok ?o" using reach_locks [OF assms(1)] assms(2) by (simp add: locks_ok_def Let_def)
  show ?thesis
  proof (cases "\<exists>i. op_pc ?o = OpAwait i \<and> start_result (th_pc (sv_threads ?sv ! i)) = None")
    case True
    then obtain i where i: "op_pc ?o = OpAwait i" "start_result (th_pc (sv_threads ?sv ! i)) = None" by blast
    then have "i < length (sv_threads ?sv)" using reach_awaits [OF assms(1,2)] by (simp add: awaits_thread_def)
    then obtain sv' where v: "run_step ?sv sv'" "work sv' < work ?sv" using start_goes_on reach_routes [OF assms(1)] i(2) by blast
    have "less_todo (s\<lparr>sys_ct := (sys_ct s)\<lparr>ct_sv := sv'\<rparr>\<rparr>) s" using v(2) by (simp add: less_todo_def todo_def)
    then show ?thesis using v(1) unfolding goes_on_def inner_step_def by blast
  next
    case False
    have "op_step sha256 (some_choice s) n ?o (sys_ct s) (op_pc ?o) \<noteq> None"
    proof (cases "op_pc ?o")
      case OpRoute
      then show ?thesis by (cases "op_req ?o") (auto simp: route_step_def split: option.split)
    next
      case (OpAwait i)
      then show ?thesis using False by (auto split: option.splits)
    qed (use pl assms(3-5) in \<open>auto simp: answered_def place_ok_def split: request.splits prod.splits option.splits\<close>)
    then show ?thesis by (rule op_goes_on [OF assms(2)])
  qed
qed

lemma join_goes_on:
  assumes "ctl_reach sha256 limits s" and "n < length (sys_ops s)" and "op_pc (sys_ops s ! n) = OpJoin"
  shows "goes_on sha256 s"
proof -
  let ?o = "sys_ops s ! n" and ?r = "ct_reqs (sys_ct s)"
  note I = reach_reqs [OF assms(1), unfolded reqs_ok_def Let_def]
  have "place_ok ?o" using reach_locks [OF assms(1)] assms(2) by (simp add: locks_ok_def Let_def)
  then obtain f where f: "op_flight ?o = Some f" using assms(3) by (auto simp: place_ok_def)
  show ?thesis
  proof (cases "fl_done (rq_heap ?r ! f)")
    case True
    then show ?thesis using f assms(3) by (intro op_goes_on [OF assms(2)]) simp
  next
    case False
    have "f < length (rq_heap ?r)" using I assms(2) f unfolding flight_ok_def by blast
    then obtain m where m: "m < length (sys_ops s)" "owning (sys_ops s ! m)" using I False by blast
    then show ?thesis by (intro free_goes_on [OF assms(1) m(1)]) (auto simp: owning_def leading_def answered_def split: place.splits)
  qed
qed

lemma body_goes_on:
  assumes "ctl_reach sha256 limits s" and "n < length (sys_ops s)" and "in_body (sys_ops s ! n)"
  shows "goes_on sha256 s"
proof (cases "op_pc (sys_ops s ! n) = OpJoin")
  case False
  then show ?thesis using assms(3) by (intro free_goes_on [OF assms(1,2)]) (auto simp: in_body_def answered_def split: place.splits)
qed (use join_goes_on [OF assms(1,2)] in blast)

lemma locked_goes_on:
  assumes "ctl_reach sha256 limits s" and "l < length (lr_heap (ct_leases (sys_ct s)))" and "ls_mu (lr_heap (ct_leases (sys_ct s)) ! l) \<noteq> None"
  shows "goes_on sha256 s"
proof -
  obtain m where "ls_mu (lr_heap (ct_leases (sys_ct s)) ! l) = Some m" using assms(3) by blast
  then have "m < length (sys_ops s)" "in_body (sys_ops s ! m)" using reach_locks [OF assms(1)] assms(2) by (auto simp: locks_ok_def Let_def)
  then show ?thesis by (rule body_goes_on [OF assms(1)])
qed

lemma operations_go_on:
  assumes "ctl_reach sha256 limits s" and "n < length (sys_ops s)" and "\<not> answered (sys_ops s ! n)"
  shows "goes_on sha256 s"
proof -
  let ?o = "sys_ops s ! n" and ?r = "ct_leases (sys_ct s)"
  note L = reach_locks [OF assms(1), unfolded locks_ok_def Let_def]
  have lo: "lease_ok n ?o ?r" "leases_ok ?r" using L assms(2) by blast+
  consider "op_pc ?o = OpLock" | ls where "op_pc ?o = OpDrop ls" | "op_pc ?o = OpJoin" | "op_pc ?o \<notin> {OpLock, OpJoin}" "\<forall>ls. op_pc ?o \<noteq> OpDrop ls" by blast
  then show ?thesis
  proof cases
    case 1
    then have "op_lease ?o < length (lr_heap ?r)" using lo leases_okD by (auto simp: lease_ok_def)
    then show ?thesis using locked_goes_on [OF assms(1)] op_goes_on [OF assms(2)] 1 by fastforce
  next
    case (2 ls)
    show ?thesis
    proof (cases ls)
      case Nil
      then show ?thesis using 2 by (intro op_goes_on [OF assms(2)]) simp
    next
      case (Cons l ks)
      then have "l < length (lr_heap ?r)" using lo(1) 2 by (simp add: lease_ok_def)
      then show ?thesis using locked_goes_on [OF assms(1)] op_goes_on [OF assms(2)] 2 Cons by fastforce
    qed
  next
    case 3
    then show ?thesis by (rule join_goes_on [OF assms(1,2)])
  next
    case 4
    then show ?thesis by (rule free_goes_on [OF assms])
  qed
qed

text \<open>
  C40 The control plane does not block: from every reachable state, whatever operations are under
  way, steps of the operations and of the synchronous parts of the runs lead to a state in which every
  operation has its answer. The locks of the leases, the flights of the registry and the queue of the
  supervisor never make a circle.
\<close>

theorem operations_can_finish:
  assumes "ctl_reach sha256 limits s"
  shows "\<exists>s'. (inner_step sha256)\<^sup>*\<^sup>* s s' \<and> (\<forall>o1 \<in> set (sys_ops s'). answered o1)"
  using assms
proof (induction "todo s" arbitrary: s rule: wf_induct_rule [OF wf_lex_prod [OF wf_less_than wf_less_than], case_names less])
  case less
  show ?case
  proof (cases "\<forall>o1 \<in> set (sys_ops s). answered o1")
    case False
    then obtain n where "n < length (sys_ops s)" "\<not> answered (sys_ops s ! n)" by (metis in_set_conv_nth)
    then obtain s' where s': "inner_step sha256 s s'" "less_todo s' s" using operations_go_on [OF less.prems] by (auto simp: goes_on_def)
    then have "\<exists>t. (inner_step sha256)\<^sup>*\<^sup>* s' t \<and> (\<forall>o1 \<in> set (sys_ops t). answered o1)"
      using less.hyps [of s'] inner_reach [OF less.prems s'(1)] by (simp add: less_todo_def)
    then show ?thesis using s'(1) by (meson converse_rtranclp_into_rtranclp)
  qed blast
qed

section \<open>Schedules\<close>

datatype move = MvCall request | MvOp nat | MvAsk nat InterruptRequest | MvWait wait_case nat | MvSup action | MvRemove string | MvRetire nat

definition drive :: "(string \<Rightarrow> string) \<Rightarrow> move \<Rightarrow> system \<Rightarrow> system option" where
  "drive sha256 a s =
    (case a of
       MvCall q \<Rightarrow> Some (s\<lparr>sys_ops := sys_ops s @ [new_op q]\<rparr>)
     | MvOp n \<Rightarrow> perform_op sha256 (some_choice s) n s
     | MvAsk i req \<Rightarrow>
         if i < length (sv_threads (ct_sv (sys_ct s))) \<and> th_pc (sv_threads (ct_sv (sys_ct s)) ! i) = PcRun
         then Some (s\<lparr>sys_waits := sys_waits s @ [new_wait i (sv_threads (ct_sv (sys_ct s)) ! i) req]\<rparr>) else None
     | MvWait cs k \<Rightarrow> perform_wait 0 cs k s
     | MvSup act \<Rightarrow> map_option (\<lambda>sv. s\<lparr>sys_ct := (sys_ct s)\<lparr>ct_sv := sv\<rparr>\<rparr>) (perform act (ct_sv (sys_ct s)))
     | MvRemove sid \<Rightarrow> Some (s\<lparr>sys_ct := (sys_ct s)\<lparr>ct_sv := (ct_sv (sys_ct s))\<lparr>sv_mgr := Remove sid (sv_mgr (ct_sv (sys_ct s)))\<rparr>\<rparr>\<rparr>)
     | MvRetire k \<Rightarrow>
         if k < length (sv_rts (ct_sv (sys_ct s)))
         then Some (s\<lparr>sys_ct := (sys_ct s)\<lparr>ct_sv := set_rt k (snd (Retire (sv_rts (ct_sv (sys_ct s)) ! k))) (ct_sv (sys_ct s))\<rparr>\<rparr>) else None)"

fun drive_all :: "(string \<Rightarrow> string) \<Rightarrow> move list \<Rightarrow> system \<Rightarrow> system option" where
  "drive_all sha256 [] s = Some s"
| "drive_all sha256 (a # as) s = (case drive sha256 a s of None \<Rightarrow> None | Some s' \<Rightarrow> drive_all sha256 as s')"

lemma drive_step: "drive sha256 a s = Some s' \<Longrightarrow> ctl_step sha256 s s'"
  by (cases a) (auto simp: drive_def intro: ctl_step.intros sup_step.remove sup_step.retire dest: perform_step split: if_splits)

lemma drive_all_reach: "ctl_reach sha256 limits s \<Longrightarrow> drive_all sha256 as s = Some s' \<Longrightarrow> ctl_reach sha256 limits s'"
proof (induction as arbitrary: s)
  case (Cons a as)
  then obtain s1 where "drive sha256 a s = Some s1" "drive_all sha256 as s1 = Some s'" by (auto split: option.splits)
  with Cons.IH ctl_reach.step [OF Cons.prems(1) drive_step] show ?case by blast
qed simp

definition driven :: "move list \<Rightarrow> system" where
  "driven as = the (drive_all (\<lambda>x. x) as (new_system (Some (1, 2))))"

lemma driven_reach:
  assumes "drive_all (\<lambda>x. x) as (new_system (Some (1, 2))) \<noteq> None"
  shows "ctl_reach (\<lambda>x. x) (Some (1, 2)) (driven as)"
  using assms drive_all_reach [OF ctl_reach.new] by (auto simp: driven_def)

text \<open>A client takes the lease of a session and submits a run; the submission is about to start it.\<close>

definition about_to_start :: "move list" where
  "about_to_start = [MvSup (DoRegister ''a''), MvCall (ReqAcquire ''a'' ''c1'')] @ replicate 3 (MvOp 0) @
     [MvCall (ReqStart ''a'' ''c1'' ''hello'' ''r1'' ''run-1'')] @ replicate 5 (MvOp 1)"

text \<open>The run is accepted, and the client submits the same request again.\<close>

definition submitted_twice :: "move list" where
  "submitted_twice = about_to_start @ [MvOp 1] @ replicate 6 (MvSup (go 0)) @ replicate 4 (MvOp 1) @
     [MvCall (ReqStart ''a'' ''c1'' ''hello'' ''r1'' ''run-2'')] @ replicate 5 (MvOp 2)"

text \<open>The run asks for a decision, and the client gives it.\<close>

definition asking :: InterruptRequest where
  "asking = \<lparr>ir_ID = ''req-1'', ir_ToolName = ''bash'', ir_Command = ''ls'', ir_RiskReason = [], ir_Description = [], ir_RiskLevel = [],
     ir_AllowAlways = False, ir_AllowAlwaysKey = [], ir_Effects = [], ir_CreatedAt = 1, ir_ExpiresAt = 9\<rparr>"

definition approve :: HDecision where
  "approve = \<lparr>hd_InterruptID = [], hd_Type = HApprove, hd_Command = [], hd_Message = []\<rparr>"

definition approved_run :: "move list" where
  "approved_run = submitted_twice @ replicate 4 (MvSup (go 0)) @ [MvAsk 0 asking, MvWait CaseDecision 0, MvWait CaseDecision 0,
     MvCall (ReqResolve ''a'' ''c1'' ''req-1'' approve)] @ replicate 6 (MvOp 3) @ [MvWait CaseDecision 0]"

lemma driven_reachable:
  "ctl_reach (\<lambda>x. x) (Some (1, 2)) (driven about_to_start)" "ctl_reach (\<lambda>x. x) (Some (1, 2)) (driven submitted_twice)"
  "ctl_reach (\<lambda>x. x) (Some (1, 2)) (driven approved_run)"
  by (rule driven_reach, code_simp)+

abbreviation next_state :: system where
  "next_state \<equiv> the (perform_op (\<lambda>x. x) (some_choice (driven about_to_start)) 1 (driven about_to_start))"

theorem control_fenced_witness:
  "\<exists>l. map_of (lr_leases (ct_leases (sys_ct (driven about_to_start)))) ''a'' = Some l \<and>
     ls_holder (lr_heap (ct_leases (sys_ct (driven about_to_start))) ! l) = ''c1'' \<and>
     length (sv_threads (ct_sv (sys_ct next_state))) = 1 \<and> ls_holder (lr_heap (ct_leases (sys_ct next_state)) ! l) = ''c1''"
proof -
  have p: "perform_op (\<lambda>x. x) (some_choice (driven about_to_start)) 1 (driven about_to_start) \<noteq> None" by code_simp
  then have s: "perform_op (\<lambda>x. x) (some_choice (driven about_to_start)) 1 (driven about_to_start) = Some next_state" by simp
  have f: "fenced (op_req (sys_ops (driven about_to_start) ! 1))" "req_session (op_req (sys_ops (driven about_to_start) ! 1)) = ''a''"
      "req_client (op_req (sys_ops (driven about_to_start) ! 1)) = ''c1''" by code_simp+
  have n: "length (sv_threads (ct_sv (sys_ct next_state))) = 1" "length (sv_threads (ct_sv (sys_ct (driven about_to_start)))) = 0" by code_simp+
  then have "ct_sv (sys_ct next_state) \<noteq> ct_sv (sys_ct (driven about_to_start)) \<or> ct_appr (sys_ct next_state) \<noteq> ct_appr (sys_ct (driven about_to_start))"
    by (metis zero_neq_one)
  from control_fenced [OF driven_reachable(1) s f(1) this] f(2,3) n(1) show ?thesis by auto
qed

theorem operations_can_finish_witness:
  "map answered (sys_ops (driven about_to_start)) = [True, False] \<and>
   (\<exists>s'. (inner_step (\<lambda>x. x))\<^sup>*\<^sup>* (driven about_to_start) s' \<and> (\<forall>o1 \<in> set (sys_ops s'). answered o1))"
proof -
  have "map answered (sys_ops (driven about_to_start)) = [True, False]" by code_simp
  with operations_can_finish [OF driven_reachable(1)] show ?thesis by blast
qed

theorem submissions_idempotent_witness:
  "\<exists>i. op_pc (sys_ops (driven submitted_twice) ! 1) = OpDone (AnsRun i RunQueued) \<and> op_pc (sys_ops (driven submitted_twice) ! 2) = OpDone (AnsRun i RunQueued) \<and>
     length (sv_threads (ct_sv (sys_ct (driven submitted_twice)))) = 1"
proof -
  let ?s = "driven submitted_twice"
  have l: "1 < length (sys_ops ?s)" "2 < length (sys_ops ?s)" by code_simp+
  have q: "op_req (sys_ops ?s ! 1) = ReqStart ''a'' ''c1'' ''hello'' ''r1'' ''run-1''" "op_req (sys_ops ?s ! 2) = ReqStart ''a'' ''c1'' ''hello'' ''r1'' ''run-2''"
    "op_key (sys_ops ?s ! 1) = op_key (sys_ops ?s ! 2)" by code_simp+
  have p: "op_pc (sys_ops ?s ! 1) = OpDone (AnsRun 0 RunQueued)" "op_pc (sys_ops ?s ! 2) = OpDone (AnsRun 0 RunQueued)"
    "length (sv_threads (ct_sv (sys_ct ?s))) = 1" by code_simp+
  have h: "length (rq_hist (ct_reqs (sys_ct ?s))) = 1" by code_simp
  obtain i j where a: "op_pc (sys_ops ?s ! 1) = OpDone (AnsRun i RunQueued)" "op_pc (sys_ops ?s ! 2) = OpDone (AnsRun j RunQueued)" using p(1,2) by blast
  have "''r1'' \<noteq> []" by simp
  from submissions_idempotent [OF driven_reachable(2) l q(1) this q(2,3) a] h have "i = j" by auto
  with a p(3) show ?thesis by blast
qed

theorem decisions_are_controlled_witness:
  "\<exists>v \<in> set (ct_verdicts (sys_ct (driven approved_run))). hd_Type (vd_decision v) = HApprove \<and> vd_holder v = ''c1'' \<and>
     op_req (sys_ops (driven approved_run) ! vd_op v) = ReqResolve ''a'' ''c1'' ''req-1'' approve"
proof -
  let ?s = "driven approved_run"
  let ?d = "approve\<lparr>hd_InterruptID := ''req-1''\<rparr>"
  have w: "0 < length (sys_waits ?s)" "wt_pc (sys_waits ?s ! 0) = WtDone ?d" "ir_ID (wt_req (sys_waits ?s ! 0)) = ''req-1''" by code_simp+
  have d: "hd_Type ?d \<noteq> HReject" by code_simp
  have i: "distinct (map (\<lambda>e. pa_RequestID (ae_pa e)) (am_heap (ct_appr (sys_ct ?s))))" by code_simp
  have v: "\<forall>v \<in> set (ct_verdicts (sys_ct ?s)). hd_Type (vd_decision v) = HApprove \<and> op_req (sys_ops ?s ! vd_op v) = ReqResolve ''a'' ''c1'' ''req-1'' approve"
    by code_simp
  from decisions_are_controlled [OF driven_reachable(3) nth_mem [OF w(1)] w(2) d i] v show ?thesis by fastforce
qed

text \<open>
  The repair of the registry is not atomic. An operation has found that its runtime is not registered and not
  retired; then the runtime is retired and a fresh one is registered for the session. The operation
  removes the entry of the fresh runtime and cannot register its own: the session is left without a runtime.
\<close>

lemma repair_drops_fresh_runtime:
  "(let s = driven ([MvSup (DoRegister ''a''), MvCall (ReqCancelSync ''a'' ''run-1''), MvOp 0, MvRemove ''a'', MvOp 0, MvOp 0, MvRetire 0,
      MvSup (DoRegister ''a''), MvOp 0, MvOp 0])
    in length (sv_rts (ct_sv (sys_ct s))) = 2 \<and> \<not> rt_retired (sv_rts (ct_sv (sys_ct s)) ! 1) \<and> mg_runtimes (sv_mgr (ct_sv (sys_ct s))) = [])"
  by code_simp

section \<open>Bindings\<close>

text \<open>The connections that count for the life of a session: a connection is bound to one session at most.\<close>

lemma Bindings_spec:
  assumes "distinct (map fst r)"
  shows "client \<in> set (Bindings sid r) \<longleftrightarrow> map_of r client = Some sid"
  using assms by (force simp: Bindings_def set_sort_kv image_iff)

lemma Bind_moves:
  assumes "distinct (map fst r)" and "client \<noteq> []" and "sid \<noteq> []" and "Bind client sid r = (prev, r')"
  shows "distinct (map fst r')" and "client \<in> set (Bindings other r') \<longleftrightarrow> other = sid" and "prev = bound_to client r"
    and "c \<noteq> client \<Longrightarrow> c \<in> set (Bindings other r') \<longleftrightarrow> c \<in> set (Bindings other r)"
proof -
  have r': "r' = (if bound_to client r = sid then r else map_put client sid r)" "prev = bound_to client r"
    using assms(2-4) by (auto simp: Bind_def Let_def split: if_splits)
  have m: "map_of r' client = Some sid" using assms(3) by (auto simp: r' bound_to_def split: option.splits)
  show d: "distinct (map fst r')" using assms(1) by (simp add: r')
  show "prev = bound_to client r" by (rule r')
  show "client \<in> set (Bindings other r') \<longleftrightarrow> other = sid" using m by (auto simp: Bindings_spec [OF d])
  show "c \<noteq> client \<Longrightarrow> c \<in> set (Bindings other r') \<longleftrightarrow> c \<in> set (Bindings other r)"
    using Bindings_spec [OF d] Bindings_spec [OF assms(1)] by (simp add: r')
qed

lemma Unbind_removes:
  assumes "distinct (map fst r)" and "client \<noteq> []"
  shows "client \<notin> set (Bindings sid (snd (Unbind client r)))"
  using assms by (simp add: Unbind_def Bindings_spec)

end
