(* ===== verification/Spec2Isabelle.thy ===== *)
theory Spec2Isabelle
  imports Agent Task_Store Event_Log Dispatch Session_Examples Run_Events Control_Progress
begin

text \<open>
  Verification of goworker, a modular agent terminal in Go (sources under \<^verbatim>\<open>src/\<close>).

  \<^bold>\<open>The program and its parts.\<close>
  A model-driven agent (\<^verbatim>\<open>ai-core\<close>) asks a model, runs the tools that the model calls and feeds the results
  back, with middlewares (\<^verbatim>\<open>ai-runtime/middlewares\<close>) around every model call and every tool call. The
  middleware that guards the tools asks the command safety layer (\<^verbatim>\<open>ai-sandbox\<close>) what a command may do, and
  a human (\<^verbatim>\<open>ai-runtime/hitl\<close>) when the answer is not clear. The conversation is kept in a session store
  (\<^verbatim>\<open>ai-runtime/session\<close>), the runs of a session in journals beside it; a supervisor (\<^verbatim>\<open>ai-runtime/agent\<close>)
  runs many sessions in the background, and an event hub per session numbers, writes and broadcasts what a
  run does. A dispatcher (\<^verbatim>\<open>ai-dispatch\<close>) gives tasks to worker agents in worktrees of a repository and keeps
  the tasks and their events in files. The daemon (\<^verbatim>\<open>daemon\<close>) puts these parts behind a command line and a
  protocol.

  \<^bold>\<open>Theories and sources.\<close>
  The base: \<open>Prelude\<close> (types, fact collections, association lists), \<open>Go_Strings\<close>, \<open>Go_Regexp\<close>, \<open>Go_Json\<close>,
  \<open>Go_Files\<close> and \<open>Jsonl\<close> model what the sources use of the standard library: UTF-8, the operators of package
  \<^verbatim>\<open>regexp\<close> that occur in the tables, \<^verbatim>\<open>encoding/json\<close> on bytes, files of lines with writes that stop half way,
  and \<^verbatim>\<open>scanJSONL\<close>.

  \<^item> Safety layer. \<open>Sandbox_Risk\<close> (\<^verbatim>\<open>spec.go\<close>, \<^verbatim>\<open>risk.go\<close>), \<open>Sandbox_Shell\<close> (\<^verbatim>\<open>safe.go\<close>), \<open>Sandbox_Assess\<close>
    (\<^verbatim>\<open>assess.go\<close>, \<^verbatim>\<open>normalize.go\<close>, \<^verbatim>\<open>defaults.go\<close>), \<open>Sandbox_Policy\<close> (\<^verbatim>\<open>policy.go\<close>, \<^verbatim>\<open>tool_policy.go\<close>, \<^verbatim>\<open>config.go\<close>
    and the mode override of the daemon), \<open>Sandbox_Defaults\<close> (the theorems with the built-in tables). Shown:
    a hard denial cannot be approved away, what each mode lets through, that a pre-approval needs a rule
    that covers the command, monotonicity in risk and effects, the denial of a removal of the root whatever
    stands before it, fail-closed tool metadata; and four command lines that the strict mode misjudges.
  \<^item> Human gate. \<open>Hitl\<close> (\<^verbatim>\<open>hitl/spec.go\<close>, \<^verbatim>\<open>channel_decision_provider.go\<close>, \<^verbatim>\<open>middlewares/hitl.go\<close>). Shown: a decision
    is for one request, a denied command never runs even after an edit, one audit entry for each gated call.
  \<^item> Engine. \<open>Core_Message\<close> (\<^verbatim>\<open>core/spec.go\<close>, \<^verbatim>\<open>estimate.go\<close>, \<^verbatim>\<open>usage.go\<close>, \<^verbatim>\<open>stamp.go\<close>), \<open>Middlewares\<close>
    (\<^verbatim>\<open>compressor.go\<close>, \<^verbatim>\<open>compression.go\<close>, \<^verbatim>\<open>memory.go\<close>, \<^verbatim>\<open>usage.go\<close>, \<^verbatim>\<open>iteration.go\<close>), \<open>Agent\<close> (\<^verbatim>\<open>agent.go\<close>
    and the chain of \<^verbatim>\<open>session.go\<close>). Shown: a run executes no command that the sandbox denies, its history keeps
    every tool call paired with its result, through compression too, and it ends with exactly one final token.
  \<^item> Tasks. \<open>Task\<close> (\<^verbatim>\<open>task.go\<close>, \<^verbatim>\<open>events.go\<close>), \<open>Task_Store\<close> (\<^verbatim>\<open>store.go\<close>), \<open>Event_Log\<close> (\<^verbatim>\<open>event_log.go\<close>), \<open>Dispatch\<close>
    (\<^verbatim>\<open>workspace.go\<close>, \<^verbatim>\<open>orchestrator.go\<close>). Shown: a task that is done was reviewed and a terminal status is final;
    which files a restart finds as the memory was (whole lines for the store, and for the event log a record
    cut inside too), with the examples in which a record is glued to a piece and lost; a subscriber misses no
    event, a dispatched task settles through legal statuses only and a code task works in its own worktree.
  \<^item> Sessions. \<open>Session_Record\<close> (\<^verbatim>\<open>record.go\<close>), \<open>Session_Store\<close> (\<^verbatim>\<open>store.go\<close>), \<open>Session_History\<close> (the view as a list),
    \<open>Session_Files\<close> (the file), \<open>Session_Examples\<close> (witnesses). Shown: commit, rewind and compaction act on the
    active view as on a list, a restart finds the conversation as long as no call follows one that broke off
    without a restart between and no cut falls on a line feed alone, a crash leaves a prefix of a commit and
    makes a compaction atomic.
  \<^item> Runs and events. \<open>Run_Journal\<close> (\<^verbatim>\<open>journal.go\<close>, \<^verbatim>\<open>journal_store.go\<close>), \<open>Event_Hub\<close> (\<^verbatim>\<open>event_hub.go\<close>), \<open>Event_Stream\<close>
    and \<open>Event_Delivery\<close> (hub, pumps and readers as one system of steps over any journal), \<open>Run_Events\<close> (the
    same with the run journals). Shown: every subscriber reads the stream behind its cursor in order, nothing
    missing and nothing twice; the events survive a restart, on which the next hub is built; the recovery scan
    gives every run that has a state record a terminal one. State records are written whole or not at all there.
  \<^item> Supervisor. \<open>Run_Supervisor\<close> (\<^verbatim>\<open>run.go\<close>, \<^verbatim>\<open>runtime.go\<close>, \<^verbatim>\<open>manager.go\<close>, \<^verbatim>\<open>supervisor.go\<close>: threads with a place in
    the code, the queue, the slots, the gate and the reservation of each session), \<open>Supervisor_Safety\<close> (the
    tokens), \<open>Supervisor_Runs\<close> (the invariant, the shape of the traces and the states on record),
    \<open>Supervisor_Progress\<close> (limits, order of the records, absence of deadlock, cancellation, shutdown, with the
    runs that the shutdown does not wait for).
  \<^item> Control. \<open>Approvals\<close> (\<^verbatim>\<open>ai-runtime/agent/approval.go\<close>), \<open>Control_Plane\<close> (\<^verbatim>\<open>daemon/internal/agentcontrol\<close>: leases,
    request registry, bindings, the control operations as threads over the supervisor and the approvals),
    \<open>Control_Safety\<close> (leases and routes), \<open>Control_Requests\<close> (single flight and idempotence), \<open>Control_Approvals\<close>
    (where decisions come from), \<open>Control_Progress\<close> (the fence, absence of deadlock, witnesses). Shown: a fenced operation
    has an effect only while its client holds the lease, two submissions under one key get one run, a run is
    approved only by a client in control of its session, and the operations never block each other for good.

  \<^bold>\<open>How the code is modelled.\<close>
  A Go string is a list of bytes and a time an integer of nanoseconds. A struct is a record, a pointer to
  shared data a position in a list of the state. A function that returns an error has a sum or a pair with
  an option; a failing system call is an answer of the environment that is an argument of the call, so every
  theorem holds for all its answers. A call under one lock is one step; goroutines are threads whose steps
  interleave freely (\<open>Event_Stream\<close>, \<open>Run_Supervisor\<close>, \<open>Control_Plane\<close>). Interfaces are locales: \<open>line_codec\<close> and
  \<open>event_journal\<close> for the files, the decision provider of \<open>Hitl\<close>, \<open>token_pool\<close> for the counting channels;
  each is interpreted on the definitions of the program.

  \<^bold>\<open>Bounds and fuel.\<close>
  The JSON parser takes the length of its input as fuel; \<open>json_parse_text\<close> shows that this is enough. The walk
  from the head of a session to its root stops at a record it has visited, which is its termination proof. The loop
  of the agent recurses on the iterations that are left, which the code bounds too. Limits of the code (1 MB per line, 4 slots and 16 places in
  the queue by default, 256 events in a subscriber's buffer, 4096 tracked requests) are definitions with the values of the source.

  \<^bold>\<open>Not modelled.\<close>
  The model providers, the protocol library \<^verbatim>\<open>ai-acp\<close>, the clients of MCP servers, the terminal interface
  and the configuration loaders are input and output around the parts above. The retrieval of \<^verbatim>\<open>ai-memory\<close>
  scores in floating point; its client is a parameter of the memory middleware. The plugins and services of
  the daemon are mostly glue between these parts; of them the routing of sessions and the control plane are modelled.
  SHA-256 is a parameter of the request registry, of which nothing is assumed. Of the standard library, the nesting limit of the JSON parser, the
  exact texts of errors of the operating system and the contents of random identifiers are left out. Locks
  that a call holds from its start to its end are not in the state.
\<close>

end
